(* ===== verification/Yf_Prelude.thy ===== *)
theory Yf_Prelude
  imports Main "HOL-Library.Word" "HOL-Library.Multiset"
begin

unbundle bit_operations_syntax

section \<open>Shared vocabulary of the model\<close>

text \<open>
  What every component uses: the return codes of \<^verbatim>\<open>base_struct/yf_core.h\<close>, the integer
  types of \<^verbatim>\<open>ppc/yf_int.h\<close> on an LP64 little-endian platform, the outcome type of a C
  function that may run into undefined behaviour or a failed \<^verbatim>\<open>assert\<close>, and generic
  facts on lists, intervals and alignment.
\<close>

type_synonym u8 = "8 word"
type_synonym u16 = "16 word"
type_synonym u32 = "32 word"
type_synonym u64 = "64 word"
type_synonym addr = nat

named_theorems run_simps "evaluation rules of the outcome type"

subsection \<open>Return codes\<close>

abbreviation (input) YF_OK :: int where "YF_OK \<equiv> 0"
abbreviation (input) YF_ERROR :: int where "YF_ERROR \<equiv> -1"
abbreviation (input) YF_AGAIN :: int where "YF_AGAIN \<equiv> -2"
abbreviation (input) YF_BUSY :: int where "YF_BUSY \<equiv> -3"
abbreviation (input) YF_DECLINED :: int where "YF_DECLINED \<equiv> -5"

definition YF_MAGIC_VAL :: u32 where
  "YF_MAGIC_VAL = 0x5897A7CB"

abbreviation (input) NULL :: addr where "NULL \<equiv> 0"

subsection \<open>Outcomes of a C function\<close>

text \<open>
  A call ends normally (\<open>Inr\<close>), possibly with an error code as its value, or it leaves
  the defined behaviour of C (\<open>Inl\<close>): a failed assertion, a null dereference, an access
  outside an array, a read past the end of a string, a shift by the width of the type or more, a division by zero, a release of
  memory that is not allocated, an overflow of a signed integer, a variable argument of another
  type than the one read.
\<close>

datatype fault = Assert_failed | Null_deref | Out_of_bounds | Read_past_end | Bad_shift
  | Div_by_zero | Overflow | Bad_free | Bad_argument

type_synonym 'a run = "fault + 'a"

definition run_bind :: "'a run \<Rightarrow> ('a \<Rightarrow> 'b run) \<Rightarrow> 'b run" where
  "run_bind r k = (case r of Inl e \<Rightarrow> Inl e | Inr x \<Rightarrow> k x)"

definition require :: "fault \<Rightarrow> bool \<Rightarrow> 'a run \<Rightarrow> 'a run" where
  "require e b r = (if b then r else Inl e)"

abbreviation c_assert :: "bool \<Rightarrow> 'a run \<Rightarrow> 'a run" where
  "c_assert \<equiv> require Assert_failed"

lemma run_bind_simps [simp, run_simps]:
  "run_bind (Inl e) k = Inl e"
  "run_bind (Inr x) k = k x"
  by (simp_all add: run_bind_def)

lemma run_bind_Inr_iff [run_simps]:
  "run_bind r k = Inr y \<longleftrightarrow> (\<exists>x. r = Inr x \<and> k x = Inr y)"
  by (cases r) auto

lemma require_simps [simp, run_simps]:
  "require e True r = r"
  "require e False r = Inl e"
  by (simp_all add: require_def)

lemma require_Inr_iff [run_simps]:
  "require e b r = Inr y \<longleftrightarrow> b \<and> r = Inr y"
  by (simp add: require_def)

lemma run_bind_cong [fundef_cong]:
  assumes "r = r'" and "\<And>x. r' = Inr x \<Longrightarrow> k x = k' x"
  shows "run_bind r k = run_bind r' k'"
  using assms by (cases r') auto

text \<open>For evaluation: the rest of a sequence is left alone until the result of its first part is known.\<close>

lemma run_bind_weak: "r = r' \<Longrightarrow> run_bind r f = run_bind r' f"
  by simp

lemma require_cong [fundef_cong]:
  assumes "b = b'" and "b' \<Longrightarrow> r = r'"
  shows "require e b r = require e b' r'"
  using assms by (cases b') auto

subsection \<open>Alignment\<close>

text \<open>
  \<^verbatim>\<open>yf_align\<close> on addresses and sizes that do not wrap: the least multiple of \<open>a\<close>
  that is at least \<open>d\<close>. The word-level macro and its agreement with this function are in
  theory Bit_Op.
\<close>

definition align_up :: "nat \<Rightarrow> nat \<Rightarrow> nat" where
  "align_up d a = (d + (a - 1)) div a * a"

lemma align_up_dvd [simp]: "a dvd align_up d a"
  by (simp add: align_up_def)

lemma align_up_ge: "0 < a \<Longrightarrow> d \<le> align_up d a"
proof -
  assume a: "0 < a"
  let ?x = "d + (a - 1)"
  have "?x mod a < a" using a by simp
  moreover have "?x = ?x div a * a + ?x mod a" by (rule div_mult_mod_eq [symmetric])
  ultimately have "d \<le> ?x div a * a" by linarith
  then show ?thesis by (simp only: align_up_def)
qed

lemma align_up_less: "0 < a \<Longrightarrow> align_up d a < d + a"
proof -
  assume a: "0 < a"
  let ?x = "d + (a - 1)"
  have "?x = ?x div a * a + ?x mod a" by (rule div_mult_mod_eq [symmetric])
  with a have "?x div a * a < d + a" by linarith
  then show ?thesis by (simp only: align_up_def)
qed

lemma align_up_least:
  assumes "0 < a" "a dvd m" "d \<le> m"
  shows "align_up d a \<le> m"
proof -
  from assms(2) obtain k where m: "m = k * a" by (metis dvd_def mult.commute)
  have "d + (a - 1) < (k + 1) * a"
    using assms(1,3) m by simp
  then have "(d + (a - 1)) div a < k + 1"
    using assms(1) by (simp only: div_less_iff_less_mult)
  then have "(d + (a - 1)) div a \<le> k" by linarith
  then show ?thesis unfolding align_up_def m by (rule mult_le_mono1)
qed

lemma align_up_id [simp]: "a dvd d \<Longrightarrow> align_up d a = d"
proof (cases "a = 0")
  case True
  then show "a dvd d \<Longrightarrow> ?thesis" by (simp add: align_up_def)
next
  case False
  then show "a dvd d \<Longrightarrow> ?thesis"
    by (metis align_up_ge align_up_least antisym bot_nat_0.not_eq_extremum order_refl)
qed

lemma align_up_mono: "d \<le> d' \<Longrightarrow> align_up d a \<le> align_up d' a"
  unfolding align_up_def by (intro mult_le_mono1 div_le_mono) simp

subsection \<open>Lists\<close>

lemma length_filter_less_iff: "length (filter P xs) < length xs \<longleftrightarrow> (\<exists>x \<in> set xs. \<not> P x)"
proof (cases "\<exists>x \<in> set xs. \<not> P x")
  case True
  then show ?thesis by (auto intro: length_filter_less)
next
  case False
  then show ?thesis by (simp add: filter_True)
qed

lemma last_notin_butlast: "distinct xs \<Longrightarrow> xs \<noteq> [] \<Longrightarrow> last xs \<notin> set (butlast xs)"
  by (cases xs rule: rev_cases) simp_all

subsection \<open>Bytes of little-endian integers\<close>

fun le_bytes :: "nat \<Rightarrow> nat \<Rightarrow> u8 list" where
  "le_bytes 0 x = []"
| "le_bytes (Suc n) x = of_nat (x mod 256) # le_bytes n (x div 256)"

fun le_val :: "u8 list \<Rightarrow> nat" where
  "le_val [] = 0"
| "le_val (b # bs) = unat b + 256 * le_val bs"

lemma length_le_bytes [simp]: "length (le_bytes n x) = n"
  by (induction n arbitrary: x) auto

lemma le_val_bytes: "x < 256 ^ n \<Longrightarrow> le_val (le_bytes n x) = x"
proof (induction n arbitrary: x)
  case (Suc n)
  then have "x div 256 < 256 ^ n" by (simp add: div_less_iff_less_mult mult.commute)
  then show ?case using Suc.IH [of "x div 256"] by (simp add: unat_of_nat)
qed simp

subsection \<open>Address ranges\<close>

text \<open>
  A range is a start and a length. \<open>disj\<close> says that one of two ranges ends before the other
  starts; \<open>sep\<close> says so of allocations, an empty one counting as one byte because the C
  library gives it an address of its own.
\<close>

type_synonym range = "addr \<times> nat"

definition disj :: "range \<Rightarrow> range \<Rightarrow> bool" where
  "disj r s \<longleftrightarrow> fst r + snd r \<le> fst s \<or> fst s + snd s \<le> fst r"

definition sep :: "range \<Rightarrow> range \<Rightarrow> bool" where
  "sep r s \<longleftrightarrow> fst r + max 1 (snd r) \<le> fst s \<or> fst s + max 1 (snd s) \<le> fst r"

definition within :: "range \<Rightarrow> range \<Rightarrow> bool" where
  "within r s \<longleftrightarrow> fst s \<le> fst r \<and> fst r + snd r \<le> fst s + snd s"

lemma disj_sym: "disj r s \<Longrightarrow> disj s r"
  by (auto simp: disj_def)

lemma sep_sym: "sep r s \<Longrightarrow> sep s r"
  by (auto simp: sep_def)

lemma sep_disj: "sep r s \<Longrightarrow> disj r s"
  by (auto simp: sep_def disj_def)

lemma sep_ne: "sep r s \<Longrightarrow> fst r \<noteq> fst s"
  by (auto simp: sep_def)

lemma within_disj: "disj r s \<Longrightarrow> within r' r \<Longrightarrow> within s' s \<Longrightarrow> disj r' s'"
  by (auto simp: disj_def within_def)

lemma sorted_wrt_sym:
  assumes "sorted_wrt P xs" "\<And>x y. P x y \<Longrightarrow> P y x" "x \<in> set xs" "y \<in> set xs" "x \<noteq> y"
  shows "P x y"
  using assms(1,3-5)
proof (induction xs)
  case (Cons z zs)
  then show ?case using assms(2) by auto
qed simp

lemma sorted_wrt_filter: "sorted_wrt P xs \<Longrightarrow> sorted_wrt P (filter Q xs)"
  by (induction xs) auto

end
