(* ===== verification/Bit_Op.thy ===== *)
theory Bit_Op
  imports Yf_Prelude
begin

section \<open>Bit operations and binary search\<close>

text \<open>
  Models \<^verbatim>\<open>base_struct/yf_bit_op.h\<close> and \<^verbatim>\<open>yf_bit_op.c\<close> (the alignment and modulus
  macros, the single-bit macros on 64-bit words, the bit counter, the table of set-bit
  positions of every 16-bit value and the scan of a 64-bit set that uses it) and the macro
  \<^verbatim>\<open>yf_bsearch\<close> of \<^verbatim>\<open>yf_core.h\<close>. The union \<^verbatim>\<open>yf_bit_set_t\<close> is read on a
  little-endian machine (\<^verbatim>\<open>WORDS_LITTLE_PART\<close> is 0).
\<close>

subsection \<open>Macros\<close>

definition yf_align :: "'a::len word \<Rightarrow> 'a word \<Rightarrow> 'a word" where
  "yf_align d a = (d + (a - 1)) AND NOT (a - 1)"

definition yf_mod :: "'a::len word \<Rightarrow> 'a word \<Rightarrow> 'a word" where
  "yf_mod val m = val AND (m - 1)"

definition yf_cicur_add :: "'a::len word \<Rightarrow> 'a word \<Rightarrow> 'a word \<Rightarrow> 'a word" where
  "yf_cicur_add org_val add_val cicur_size = yf_mod (org_val + add_val) cicur_size"

definition yf_set_bit :: "u64 \<Rightarrow> nat \<Rightarrow> u64" where
  "yf_set_bit val index = val OR push_bit index 1"

definition yf_reset_bit :: "u64 \<Rightarrow> nat \<Rightarrow> u64" where
  "yf_reset_bit val index = val AND NOT (push_bit index 1)"

definition yf_revert_bit :: "u64 \<Rightarrow> nat \<Rightarrow> u64" where
  "yf_revert_bit val index = val XOR push_bit index 1"

definition yf_test_bit :: "u64 \<Rightarrow> nat \<Rightarrow> u64" where
  "yf_test_bit val index = val AND push_bit index 1"

definition yf_u32tou64_merge :: "u32 \<Rightarrow> u32 \<Rightarrow> u64" where
  "yf_u32tou64_merge h l = push_bit 32 (ucast h) OR ucast l"

definition yf_u32tou64_geth :: "u64 \<Rightarrow> u64" where
  "yf_u32tou64_geth v = drop_bit 32 v"

definition yf_u32tou64_getl :: "u64 \<Rightarrow> u64" where
  "yf_u32tou64_getl v = v AND (push_bit 32 1 - 1)"

lemma mask_word: "(2 ^ k - 1 :: 'a::len word) = mask k"
  by (simp add: mask_eq_exp_minus_1)

lemma unat_and_mask: "unat ((w :: 'a::len word) AND mask k) = unat w mod 2 ^ k"
proof -
  have "unat (take_bit k w) = take_bit k (unat w)" by (rule unsigned_take_bit_eq)
  then show ?thesis by (metis take_bit_eq_mask take_bit_eq_mod)
qed

lemma unat_drop_bit_div: "unat (drop_bit n w) = unat w div 2 ^ n"
proof -
  have "unat (drop_bit n w) = drop_bit n (unat w)" by (rule unat_drop_bit_eq)
  then show ?thesis by (simp only: drop_bit_eq_div [of n "unat w"])
qed

lemma unat_and_not_mask:
  "unat ((w :: 'a::len word) AND NOT (mask k)) = unat w div 2 ^ k * 2 ^ k"
proof -
  have "w AND NOT (mask k) = push_bit k (drop_bit k w)"
    by (rule bit_word_eqI) (auto simp: bit_simps)
  moreover have "unat (push_bit k (drop_bit k w)) =
      take_bit LENGTH('a) (push_bit k (unat (drop_bit k w)))"
    by (rule unsigned_push_bit_eq)
  moreover have "push_bit k (unat (drop_bit k w)) = unat w div 2 ^ k * 2 ^ k"
    by (simp only: unat_drop_bit_div push_bit_eq_mult)
  moreover have "unat w div 2 ^ k * 2 ^ k < 2 ^ LENGTH('a)"
    by (rule le_less_trans [OF div_times_less_eq_dividend unsigned_less])
  ultimately show ?thesis
    by (simp only: take_bit_nat_eq_self)
qed

lemma unat_yf_mod [simp]:
  "unat (yf_mod (w :: 'a::len word) (2 ^ k)) = unat w mod 2 ^ k"
  by (simp add: yf_mod_def mask_word unat_and_mask)

lemma unat_mask_nat: "k < LENGTH('a) \<Longrightarrow> unat (mask k :: 'a::len word) = 2 ^ k - 1"
  using unat_and_mask [of "-1 :: 'a word" k]
  by (simp add: unsigned_minus_1_eq_mask flip: take_bit_eq_mod)
     (simp add: mask_eq_exp_minus_1)

lemma unat_yf_align:
  fixes d :: "'a::len word"
  assumes "k < LENGTH('a)" and "unat d + (2 ^ k - 1) < 2 ^ LENGTH('a)"
  shows "unat (yf_align d (2 ^ k)) = align_up (unat d) (2 ^ k)"
proof -
  have "unat (d + mask k) = unat d + (2 ^ k - 1)"
    using assms by (simp add: unat_word_ariths(1) unat_mask_nat)
  then show ?thesis
    by (simp add: yf_align_def mask_word unat_and_not_mask align_up_def)
qed


lemma unat_2p: "k < LENGTH('a) \<Longrightarrow> unat (2 ^ k :: 'a::len word) = 2 ^ k"
proof -
  assume "k < LENGTH('a)"
  then have "(2::nat) ^ k < 2 ^ LENGTH('a)" by simp
  then have "unat (of_nat (2 ^ k) :: 'a word) = 2 ^ k" by (simp only: unat_of_nat mod_less)
  then show ?thesis by simp
qed

subsection \<open>Counting bits and rounding up to a power of two\<close>

function yf_bit_cnt_loop :: "u64 \<Rightarrow> u32 \<Rightarrow> u32" where
  "yf_bit_cnt_loop val cnt =
     (if val \<noteq> 0 then yf_bit_cnt_loop (drop_bit 1 val) (cnt + 1) else cnt)"
  by pat_completeness auto
termination
  by (relation "measure (\<lambda>(val, cnt). unat val)")
     (auto simp: unat_drop_bit_div unat_gt_0 simp del: drop_bit_eq_div intro!: div_less_dividend)

declare yf_bit_cnt_loop.simps [simp del]

definition yf_bit_cnt :: "u64 \<Rightarrow> u32" where
  "yf_bit_cnt val = yf_bit_cnt_loop val 0"

text \<open>The count is unsigned, so \<^verbatim>\<open>cnt-1\<close> is \<open>2 ^ 32 - 1\<close> for a count of 0.\<close>

definition yf_bitcnt2val :: "u32 \<Rightarrow> u64 run" where
  "yf_bitcnt2val cnt = require Bad_shift (unat (cnt - 1) < 64) (Inr (push_bit (unat (cnt - 1)) 1))"

definition yf_align_2pow :: "u64 \<Rightarrow> u64 run" where
  "yf_align_2pow val =
     (let bits = yf_bit_cnt val in
      run_bind (yf_bitcnt2val bits) (\<lambda>v.
      yf_bitcnt2val (if v < val then bits + 1 else bits)))"

lemma yf_bit_cnt_loop_spec:
  "unat val < 2 ^ n \<Longrightarrow> n < 2 ^ 32 \<Longrightarrow> (n \<noteq> 0 \<longrightarrow> 2 ^ (n - 1) \<le> unat val) \<Longrightarrow>
   yf_bit_cnt_loop val cnt = cnt + of_nat n"
proof (induction n arbitrary: val cnt)
  case 0
  then show ?case by (simp add: yf_bit_cnt_loop.simps unat_eq_0)
next
  case (Suc n)
  have nz: "val \<noteq> 0" using Suc.prems by (auto simp: unat_eq_0)
  have u: "unat (drop_bit (Suc 0) val) = unat val div 2"
    by (metis One_nat_def power_one_right unat_drop_bit_div)
  have "yf_bit_cnt_loop (drop_bit 1 val) (cnt + 1) = cnt + 1 + of_nat n"
  proof (rule Suc.IH)
    show "unat (drop_bit 1 val) < 2 ^ n" using Suc.prems(1) by (simp add: u del: drop_bit_eq_div)
    show "n < 2 ^ 32" using Suc.prems(2) by simp
    show "n \<noteq> 0 \<longrightarrow> 2 ^ (n - 1) \<le> unat (drop_bit 1 val)"
      using Suc.prems(3) by (cases n) (auto simp: u simp del: drop_bit_eq_div)
  qed
  with nz show ?case by (subst yf_bit_cnt_loop.simps) (simp add: algebra_simps)
qed

lemma bit_length_exists:
  "\<exists>n. v < 2 ^ n \<and> (n \<noteq> 0 \<longrightarrow> 2 ^ (n - 1) \<le> (v::nat))"
proof -
  obtain m where "v < 2 ^ m" using less_exp by blast
  define n where "n = (LEAST n. v < 2 ^ n)"
  have "v < 2 ^ n" unfolding n_def by (rule LeastI) fact
  moreover have "2 ^ (n - 1) \<le> v" if "n \<noteq> 0"
    using not_less_Least [of "n - 1" "\<lambda>n. v < 2 ^ n"] that by (auto simp: n_def not_less)
  ultimately show ?thesis by blast
qed

lemma yf_bit_cnt_spec:
  obtains n where "n \<le> 64" "yf_bit_cnt v = of_nat n" "unat v < 2 ^ n"
    "n \<noteq> 0 \<longrightarrow> 2 ^ (n - 1) \<le> unat v"
proof -
  obtain n where n: "unat v < 2 ^ n" "n \<noteq> 0 \<longrightarrow> 2 ^ (n - 1) \<le> unat v"
    using bit_length_exists by blast
  have "n \<le> 64"
  proof (rule ccontr)
    assume "\<not> n \<le> 64"
    then have "(2::nat) ^ 64 \<le> 2 ^ (n - 1)" by (intro power_increasing) auto
    with n(2) \<open>\<not> n \<le> 64\<close> have "2 ^ 64 \<le> unat v" by linarith
    moreover have "unat v < 2 ^ 64" using unsigned_less [of v] by simp
    ultimately show False by simp
  qed
  moreover have "yf_bit_cnt v = of_nat n"
    unfolding yf_bit_cnt_def using yf_bit_cnt_loop_spec [OF n(1) _ n(2)] \<open>n \<le> 64\<close> by simp
  ultimately show ?thesis using that n by blast
qed

lemma yf_bitcnt2val_0: "yf_bitcnt2val 0 = Inl Bad_shift"
proof -
  have "unat (0 - 1 :: u32) = 2 ^ 32 - 1"
    by (simp add: unsigned_minus_1_eq_mask mask_eq_exp_minus_1)
  then have "\<not> unat (0 - 1 :: u32) < 64" by simp
  then show ?thesis by (simp only: yf_bitcnt2val_def require_def if_False)
qed

lemma yf_bitcnt2val_of_nat:
  "n \<noteq> 0 \<Longrightarrow> n \<le> 65 \<Longrightarrow>
   yf_bitcnt2val (of_nat n) = (if n \<le> 64 then Inr (2 ^ (n - 1)) else Inl Bad_shift)"
proof -
  assume n: "n \<noteq> 0" "n \<le> 65"
  then have "(of_nat n :: u32) - 1 = of_nat (n - 1)" by (simp add: of_nat_diff)
  moreover have "unat (of_nat (n - 1) :: u32) = n - 1"
    using n by (simp only: unat_of_nat) simp
  ultimately have "unat (of_nat n - 1 :: u32) = n - 1" by (simp only:)
  then show ?thesis
    unfolding yf_bitcnt2val_def using n
    by (cases "n \<le> 64") (auto simp: push_bit_eq_mult require_def)
qed


text \<open>
  C1: \<^verbatim>\<open>yf_align_2pow\<close> rounds up to the least power of two for every value from 1 to
  \<open>2 ^ 63\<close>, and shifts by the width of the type or more (undefined behaviour) on every other.
\<close>

theorem yf_align_2pow_correct:
  "if 1 \<le> unat v \<and> unat v \<le> 2 ^ 63
   then \<exists>k \<le> 63. yf_align_2pow v = Inr (2 ^ k) \<and> unat v \<le> 2 ^ k \<and> 2 ^ k < 2 * unat v
   else yf_align_2pow v = Inl Bad_shift"
proof -
  obtain n where n: "n \<le> 64" "yf_bit_cnt v = of_nat n" "unat v < 2 ^ n"
    "n \<noteq> 0 \<longrightarrow> 2 ^ (n - 1) \<le> unat v" by (rule yf_bit_cnt_spec)
  show ?thesis
  proof (cases n)
    case 0
    then show ?thesis using n by (simp add: yf_align_2pow_def yf_bitcnt2val_0)
  next
    case (Suc m)
    have u: "unat (2 ^ m :: u64) = 2 ^ m"
      using n(1) Suc by (simp add: unat_2p)
    have le: "2 ^ m \<le> unat v" using n(4) Suc by simp
    show ?thesis
    proof (cases "unat v = 2 ^ m")
      case True
      then have "yf_align_2pow v = Inr (2 ^ m)"
        using n(1,2) Suc u yf_bitcnt2val_of_nat [of n]
        by (simp add: yf_align_2pow_def word_less_nat_alt del: of_nat_Suc)
      moreover have "2 ^ m \<le> (2::nat) ^ 63" using n(1) Suc by (intro power_increasing) auto
      ultimately show ?thesis using True n(1) Suc by (auto intro!: exI [of _ m])
    next
      case False
      then have lt: "2 ^ m < unat v" using le by simp
      have s: "of_nat n + 1 = (of_nat (n + 1) :: u32)" by simp
      have r: "yf_align_2pow v = yf_bitcnt2val (of_nat (n + 1))"
        using n(1,2) Suc u lt yf_bitcnt2val_of_nat [of n]
        by (simp add: yf_align_2pow_def word_less_nat_alt add.commute)
      show ?thesis
      proof (cases "n \<le> 63")
        case True
        have "2 ^ n \<le> (2::nat) ^ 63" using True by (intro power_increasing) auto
        moreover have "yf_align_2pow v = Inr (2 ^ n)"
          using r True yf_bitcnt2val_of_nat [of "n + 1"] by simp
        ultimately show ?thesis using True n(3) lt Suc by (auto intro!: exI [of _ n])
      next
        case False
        with n(1) have "n = 64" by simp
        then have "yf_align_2pow v = Inl Bad_shift" and "2 ^ 63 < unat v"
          using r lt Suc yf_bitcnt2val_of_nat [of 65] by simp_all
        then show ?thesis by simp
      qed
    qed
  qed
qed


subsection \<open>The positions of the bits of a 64-bit set\<close>

text \<open>
  One row of \<^verbatim>\<open>yf_bit_indexs\<close>: the inner loop of \<^verbatim>\<open>yf_init_bit_indexs\<close>. A row is the
  list of entries written before \<^verbatim>\<open>YF_END_INDEX\<close>; the declared array has 17 cells.
\<close>

definition YF_END_INDEX :: int where
  "YF_END_INDEX = -1"

function bit_index_row :: "u32 \<Rightarrow> int \<Rightarrow> int list" where
  "bit_index_row bit_val index =
     (if bit_val = 0 then []
      else if bit_val AND 1 = 0 then bit_index_row (drop_bit 1 bit_val) (index + 1)
      else index # bit_index_row (drop_bit 1 bit_val) (index + 1))"
  by pat_completeness auto
termination
  by (relation "measure (\<lambda>(val, index). unat val)")
     (auto simp: unat_drop_bit_div unat_gt_0 simp del: drop_bit_eq_div intro!: div_less_dividend)

declare bit_index_row.simps [simp del]

definition yf_bit_indexs :: "u16 \<Rightarrow> int list" where
  "yf_bit_indexs i = bit_index_row (ucast i) 0 @ [YF_END_INDEX]"

text \<open>The loop \<^verbatim>\<open>for (i2 = 0; !yf_index_end(unempty_indexs, i2); ++i2)\<close> over a row.\<close>

fun copy_indexs :: "int \<Rightarrow> int list \<Rightarrow> int list \<Rightarrow> int list run" where
  "copy_indexs begin_index [] set_bits = Inl Out_of_bounds"
| "copy_indexs begin_index (x # xs) set_bits =
     (if x = YF_END_INDEX then Inr set_bits
      else require Out_of_bounds (length set_bits < 64)
             (copy_indexs begin_index xs (set_bits @ [begin_index + x])))"

text \<open>\<^verbatim>\<open>ubits[first].bit_32\<close> and \<^verbatim>\<open>ubits[first].bit_16[next]\<close> of the union.\<close>

definition ubits_32 :: "u64 \<Rightarrow> nat \<Rightarrow> u32" where
  "ubits_32 v first_part = ucast (drop_bit (32 * first_part) v)"

definition ubits_16 :: "u64 \<Rightarrow> nat \<Rightarrow> nat \<Rightarrow> u16" where
  "ubits_16 v first_part next_part = ucast (drop_bit (32 * first_part + 16 * next_part) v)"

definition test_bit16 :: "u64 \<Rightarrow> nat \<Rightarrow> nat \<Rightarrow> int list \<Rightarrow> int list run" where
  "test_bit16 v first_part next_part set_bits =
     (let test_val = ubits_16 v first_part next_part in
      if test_val \<noteq> 0
      then copy_indexs ((if first_part = 0 then 0 else 32) + (if next_part = 0 then 0 else 16))
             (yf_bit_indexs test_val) set_bits
      else Inr set_bits)"

definition test_bit32 :: "u64 \<Rightarrow> nat \<Rightarrow> int list \<Rightarrow> int list run" where
  "test_bit32 v first_part set_bits =
     (if ubits_32 v first_part \<noteq> 0
      then run_bind (test_bit16 v first_part 0 set_bits) (test_bit16 v first_part 1)
      else Inr set_bits)"

text \<open>The result lists the cells of the caller's array of 64 that are written, in order.\<close>

definition yf_get_set_bits :: "u64 \<Rightarrow> int list run" where
  "yf_get_set_bits bit_set =
     run_bind (if bit_set \<noteq> 0
               then run_bind (test_bit32 bit_set 0 []) (test_bit32 bit_set 1)
               else Inr []) (\<lambda>set_bits.
     require Out_of_bounds (length set_bits < 64) (Inr (set_bits @ [YF_END_INDEX])))"

definition set_positions :: "'a::len word \<Rightarrow> nat \<Rightarrow> nat \<Rightarrow> int list" where
  "set_positions v lo hi = map int (filter (bit v) [lo..<hi])"


lemma upt_0_Suc: "[0..<Suc n] = 0 # map Suc [0..<n]"
  by (simp add: map_Suc_upt upt_conv_Cons del: upt_Suc)

lemma bit_index_row_spec:
  "unat w < 2 ^ n \<Longrightarrow> bit_index_row w k = map (\<lambda>i. int i + k) (filter (bit w) [0..<n])"
proof (induction n arbitrary: w k)
  case 0
  then show ?case by (simp add: bit_index_row.simps unat_eq_0)
next
  case (Suc n)
  let ?d = "drop_bit 1 w"
  have "unat ?d < 2 ^ n"
    using Suc.prems unat_drop_bit_div [of 1 w] by simp
  note IH = Suc.IH [OF this]
  have b: "bit (drop_bit (Suc 0) w) = (\<lambda>i. bit w (Suc i))"
    by (auto simp: bit_simps simp del: drop_bit_eq_div)
  have odd: "w AND 1 = 0 \<longleftrightarrow> \<not> bit w 0"
    by (simp add: and_one_eq bit_0 mod_2_eq_odd)
  have step: "map (\<lambda>i. int i + k) (filter (bit w) [0..<Suc n]) =
      (if bit w 0 then [k] else []) @ bit_index_row ?d (k + 1)"
    unfolding IH upt_0_Suc by (simp add: filter_map b comp_def algebra_simps del: drop_bit_eq_div)
  show ?case
  proof (cases "w = 0")
    case True
    then show ?thesis by (simp add: bit_index_row.simps)
  next
    case False
    then show ?thesis unfolding step by (subst bit_index_row.simps) (simp add: odd)
  qed
qed

lemma yf_bit_indexs_spec: "yf_bit_indexs w = map int (filter (bit w) [0..<16]) @ [YF_END_INDEX]"
proof -
  have "unat (ucast w :: u32) < 2 ^ 16"
  proof -
    have "unat (ucast w :: u32) = take_bit 32 (unat w)"
      by (simp add: unsigned_ucast_eq)
    moreover have "unat w < 2 ^ 16" using unsigned_less [of w] by simp
    ultimately show ?thesis by (metis le_less_trans take_bit_nat_less_eq_self)
  qed
  moreover have "filter (bit (ucast w :: u32)) [0..<16] = filter (bit w) [0..<16]"
    by (rule filter_cong) (auto simp: bit_simps)
  ultimately show ?thesis
    by (simp only: yf_bit_indexs_def bit_index_row_spec) simp
qed

lemma copy_indexs_spec:
  "(\<forall>x \<in> set xs. 0 \<le> x) \<Longrightarrow> length out + length xs \<le> 64 \<Longrightarrow>
   copy_indexs b (xs @ [YF_END_INDEX]) out = Inr (out @ map ((+) b) xs)"
  by (induction xs arbitrary: out) (auto simp: YF_END_INDEX_def)

lemma set_positions_append:
  "lo \<le> mid \<Longrightarrow> mid \<le> hi \<Longrightarrow> set_positions v lo mid @ set_positions v mid hi = set_positions v lo hi"
  unfolding set_positions_def
  by (metis filter_append le_iff_add map_append upt_add_eq_append)

lemma length_set_positions: "length (set_positions v lo hi) \<le> hi - lo"
  unfolding set_positions_def by (metis length_filter_le length_map length_upt)

lemma set_positions_16:
  "map int (filter (bit (ucast (drop_bit lo v) :: u16)) [0..<16]) = 
   map (\<lambda>i. i - int lo) (set_positions (v :: u64) lo (lo + 16))"
proof -
  have "[lo..<lo + 16] = map (\<lambda>i. i + lo) [0..<16]"
    by (metis map_add_upt add.commute)
  then show ?thesis
    by (auto simp: set_positions_def filter_map comp_def bit_simps add.commute
          intro!: filter_cong)
qed


lemma set_positions_none: "(\<And>i. i \<in> {lo..<hi} \<Longrightarrow> \<not> bit v i) \<Longrightarrow> set_positions v lo hi = []"
  by (auto simp: set_positions_def filter_empty_conv)

lemma test_bit16_spec:
  assumes p: "p < 2" "q < 2" and lo: "lo = 32 * p + 16 * q" and len: "length out \<le> lo"
  shows "test_bit16 v p q out = Inr (out @ set_positions v lo (lo + 16))"
proof -
  let ?w = "ubits_16 v p q" and ?ps = "set_positions v lo (lo + 16)"
  have w: "map int (filter (bit ?w) [0..<16]) = map (\<lambda>i. i - int lo) ?ps"
    unfolding ubits_16_def lo by (rule set_positions_16)
  have idx: "yf_bit_indexs ?w = map int (filter (bit ?w) [0..<16]) @ [YF_END_INDEX]"
    by (rule yf_bit_indexs_spec)
  have beg: "(if p = 0 then 0 else 32) + (if q = 0 then 0 else 16) = int lo"
    using p lo by (auto simp: less_2_cases_iff)
  have bound: "length out + length (map int (filter (bit ?w) [0..<16])) \<le> 64"
  proof -
    have "length (filter (bit ?w) [0..<16]) \<le> 16"
      by (metis length_filter_le length_upt diff_zero)
    then show ?thesis using len p lo by (simp add: less_2_cases_iff) linarith
  qed
  have "copy_indexs (int lo) (yf_bit_indexs ?w) out =
      Inr (out @ map ((+) (int lo)) (map int (filter (bit ?w) [0..<16])))"
    unfolding idx by (rule copy_indexs_spec [OF _ bound]) simp
  also have "map ((+) (int lo)) (map int (filter (bit ?w) [0..<16])) = ?ps"
    unfolding w by (simp add: comp_def)
  finally have full: "copy_indexs (int lo) (yf_bit_indexs ?w) out = Inr (out @ ?ps)" .
  show ?thesis
  proof (cases "?w = 0")
    case True
    then have "?ps = []" using w by simp
    with True show ?thesis by (simp add: test_bit16_def)
  next
    case False
    then show ?thesis by (simp only: test_bit16_def Let_def beg full) simp
  qed
qed

lemma test_bit32_spec:
  assumes p: "p < 2" and len: "length out \<le> 32 * p"
  shows "test_bit32 v p out = Inr (out @ set_positions v (32 * p) (32 * p + 32))"
proof (cases "ubits_32 v p = 0")
  case True
  have "\<not> bit v i" if "i \<in> {32 * p..<32 * p + 32}" for i
  proof -
    have "\<not> bit (ubits_32 v p) (i - 32 * p)" using True by simp
    with that show ?thesis by (auto simp: ubits_32_def bit_simps)
  qed
  then have "set_positions v (32 * p) (32 * p + 32) = []" by (rule set_positions_none)
  with True show ?thesis by (simp add: test_bit32_def)
next
  case False
  let ?a = "set_positions v (32 * p) (32 * p + 16)"
  let ?b = "set_positions v (32 * p + 16) (32 * p + 32)"
  have 1: "test_bit16 v p 0 out = Inr (out @ ?a)"
    using test_bit16_spec [OF p, of 0 "32 * p" out v] len by simp
  have "length (out @ ?a) \<le> 32 * p + 16"
    using length_set_positions [of v "32 * p" "32 * p + 16"] len by simp
  then have 2: "test_bit16 v p 1 (out @ ?a) = Inr (out @ ?a @ ?b)"
    using test_bit16_spec [OF p, of 1 "32 * p + 16" "out @ ?a" v] by (simp add: add.commute)
  have "?a @ ?b = set_positions v (32 * p) (32 * p + 32)"
    by (rule set_positions_append) simp_all
  with 1 2 False show ?thesis by (simp add: test_bit32_def)
qed

lemma length_set_positions_64: "length (set_positions (v :: u64) 0 64) < 64 \<longleftrightarrow> v \<noteq> - 1"
proof -
  have "length (set_positions v 0 64) < 64 \<longleftrightarrow> (\<exists>i \<in> set [0..<64]. \<not> bit v i)"
    using length_filter_less_iff [of "bit v" "[0..<64]"] by (simp add: set_positions_def)
  also have "\<dots> \<longleftrightarrow> v \<noteq> - 1"
    by (auto simp: bit_eq_iff bit_simps)
  finally show ?thesis .
qed

text \<open>
  C2: \<^verbatim>\<open>yf_get_set_bits\<close> writes the positions of the bits that are set, in increasing
  order and followed by the end mark, for every set but the full one; with all 64 bits set
  the end mark is written past the caller's array of 64 cells.
\<close>

theorem yf_get_set_bits_correct:
  "yf_get_set_bits v =
     (if v = - 1 then Inl Out_of_bounds
      else Inr (map int (filter (bit v) [0..<64]) @ [YF_END_INDEX]))"
proof -
  have scan: "(if v \<noteq> 0 then run_bind (test_bit32 v 0 []) (test_bit32 v 1) else Inr []) =
      Inr (set_positions v 0 64)"
  proof (cases "v = 0")
    case False
    let ?a = "set_positions v 0 32"
    have 1: "test_bit32 v 0 [] = Inr ?a"
      using test_bit32_spec [of 0 "[]" v] by simp
    have "length ?a \<le> 32 * 1" using length_set_positions [of v 0 32] by simp
    then have 2: "test_bit32 v 1 ?a = Inr (?a @ set_positions v 32 64)"
      using test_bit32_spec [of 1 ?a v] by simp
    have "?a @ set_positions v 32 64 = set_positions v 0 64"
      by (rule set_positions_append) simp_all
    with False 1 2 show ?thesis by simp
  qed (simp add: set_positions_def)
  show ?thesis
    unfolding yf_get_set_bits_def scan
    using length_set_positions_64 [of v] by (simp add: require_def set_positions_def)
qed


subsection \<open>Binary search\<close>

text \<open>
  The macro \<^verbatim>\<open>yf_bsearch\<close>: \<open>cmp i\<close> is the comparison of the key with item \<open>i\<close>. When the
  loop ends without a hit \<^verbatim>\<open>start == end\<close> holds and the position is \<^verbatim>\<open>start\<close>.
\<close>

function bsearch_loop :: "(nat \<Rightarrow> int) \<Rightarrow> nat \<Rightarrow> nat \<Rightarrow> nat" where
  "bsearch_loop cmp start stop =
     (if start < stop
      then let mid = start + (stop - start) div 2; result = cmp mid in
        if result < 0 then bsearch_loop cmp start mid
        else if result > 0 then bsearch_loop cmp (mid + 1) stop
        else mid
      else start)"
  by pat_completeness auto
termination
  by (relation "measure (\<lambda>(cmp, start, stop). stop - start)") auto

declare bsearch_loop.simps [simp del]

definition yf_bsearch :: "(nat \<Rightarrow> int) \<Rightarrow> nat \<Rightarrow> nat" where
  "yf_bsearch cmp num = bsearch_loop cmp 0 num"

definition probe_ordered :: "(nat \<Rightarrow> int) \<Rightarrow> nat \<Rightarrow> bool" where
  "probe_ordered cmp num \<longleftrightarrow>
     (\<forall>i j. i < j \<longrightarrow> j < num \<longrightarrow> (cmp i < 0 \<longrightarrow> cmp j < 0) \<and> (cmp j > 0 \<longrightarrow> cmp i > 0))"

lemma bsearch_loop_spec:
  assumes "probe_ordered cmp num" "start \<le> stop" "stop \<le> num"
    "\<forall>i < start. 0 < cmp i" "\<forall>i. stop \<le> i \<longrightarrow> i < num \<longrightarrow> cmp i < 0"
  shows "let p = bsearch_loop cmp start stop in
     p \<le> num \<and> (\<forall>i < p. 0 \<le> cmp i) \<and> (\<forall>i. p \<le> i \<longrightarrow> i < num \<longrightarrow> cmp i \<le> 0) \<and>
     (p < num \<and> cmp p = 0 \<or> (\<forall>i < num. cmp i \<noteq> 0))"
  using assms
proof (induction cmp start stop rule: bsearch_loop.induct)
  case (1 cmp start stop)
  define mid where "mid = start + (stop - start) div 2"
  note ord = 1(3)[unfolded probe_ordered_def, rule_format]
  show ?case
  proof (cases "start < stop")
    case False
    with 1(4) have e: "start = stop" by simp
    have "bsearch_loop cmp start stop = start" using False by (simp add: bsearch_loop.simps)
    moreover have "cmp i \<noteq> 0" if "i < num" for i
      using 1(6,7) e that by (cases "i < stop") (auto simp: not_less)
    ultimately show ?thesis using 1(5-7) e by (auto simp: Let_def intro: less_imp_le)
  next
    case True
    then have m: "start \<le> mid" "mid < stop" by (auto simp: mid_def)
    consider (lt) "cmp mid < 0" | (gt) "cmp mid > 0" | (eq) "cmp mid = 0" by linarith
    then show ?thesis
    proof cases
      case lt
      have "\<forall>i. mid \<le> i \<longrightarrow> i < num \<longrightarrow> cmp i < 0"
        using lt ord by (metis le_neq_implies_less)
      with 1(1) [OF True mid_def refl lt] 1(3,5,6) m
      have "let p = bsearch_loop cmp start mid in
          p \<le> num \<and> (\<forall>i < p. 0 \<le> cmp i) \<and> (\<forall>i. p \<le> i \<longrightarrow> i < num \<longrightarrow> cmp i \<le> 0) \<and>
          (p < num \<and> cmp p = 0 \<or> (\<forall>i < num. cmp i \<noteq> 0))" by auto
      then show ?thesis using True lt
        by (subst bsearch_loop.simps) (simp add: mid_def [symmetric] Let_def)
    next
      case gt
      have "\<forall>i < mid + 1. 0 < cmp i"
        using gt ord m 1(5) by (metis less_SucE add.commute plus_1_eq_Suc less_le_trans)
      with 1(2) [OF True mid_def refl _ gt] 1(3,5,7) gt m
      have "let p = bsearch_loop cmp (mid + 1) stop in
          p \<le> num \<and> (\<forall>i < p. 0 \<le> cmp i) \<and> (\<forall>i. p \<le> i \<longrightarrow> i < num \<longrightarrow> cmp i \<le> 0) \<and>
          (p < num \<and> cmp p = 0 \<or> (\<forall>i < num. cmp i \<noteq> 0))" by auto
      then show ?thesis using True gt
        by (subst bsearch_loop.simps) (simp add: mid_def [symmetric] Let_def)
    next
      case eq
      then have "bsearch_loop cmp start stop = mid"
        using True by (subst bsearch_loop.simps) (simp add: mid_def [symmetric] Let_def)
      moreover have "0 \<le> cmp i" if "i < mid" for i
        using ord [of i mid] that eq m 1(5) by fastforce
      moreover have "cmp i \<le> 0" if "mid \<le> i" "i < num" for i
        using ord [of mid i] that eq by (cases "mid = i") auto
      ultimately show ?thesis using eq m 1(5) by (simp add: Let_def)
    qed
  qed
qed

text \<open>
  C3: On items in order \<^verbatim>\<open>yf_bsearch\<close> returns a position at which the key can be inserted
  without breaking the order, and the position of an equal item whenever there is one.
\<close>

theorem yf_bsearch_correct:
  assumes "probe_ordered cmp num"
  shows "yf_bsearch cmp num \<le> num \<and>
    (\<forall>i < yf_bsearch cmp num. 0 \<le> cmp i) \<and>
    (\<forall>i. yf_bsearch cmp num \<le> i \<longrightarrow> i < num \<longrightarrow> cmp i \<le> 0) \<and>
    ((\<exists>i < num. cmp i = 0) \<longrightarrow> yf_bsearch cmp num < num \<and> cmp (yf_bsearch cmp num) = 0)"
  using bsearch_loop_spec [OF assms, of 0 num] unfolding yf_bsearch_def Let_def by auto

theorem yf_bsearch_correct_witness:
  "yf_bsearch (\<lambda>i. 7 - [2, 5, 7, 9] ! i) 4 = 2 \<and> yf_bsearch (\<lambda>i. 6 - [2, 5, 7, 9] ! i) 4 \<le> 4"
proof -
  have "probe_ordered (\<lambda>i. 6 - [2, 5, 7, 9] ! i) 4"
    unfolding probe_ordered_def
    by (auto simp: less_Suc_eq numeral_eq_Suc)
  from yf_bsearch_correct [OF this] show ?thesis
    by (simp add: yf_bsearch_def bsearch_loop.simps)
qed

end
