(* ===== verification/Id_Seed.thy ===== *)
theory Id_Seed
  imports Bit_Op
begin

section \<open>Id seeds\<close>

text \<open>
  Models \<^verbatim>\<open>base_struct/yf_id_seed.h\<close> and \<^verbatim>\<open>yf_id_seed.c\<close>: the process-wide
  counters \<^verbatim>\<open>_id_seed_group_used\<close> and \<^verbatim>\<open>_id_seed_start_factor\<close> (record \<open>id_seed_glob\<close>),
  the group handle (record \<open>id_seed_group\<close>, its two bit fields of 8 bits kept in 32-bit
  words) and the operations. The counters change only under \<^verbatim>\<open>_id_seed_lock\<close>, so an
  execution of several threads is a sequence of operations on the groups; the seconds of
  \<^verbatim>\<open>yf_now_times.wall_utime\<close> (a \<^verbatim>\<open>struct timeval\<close>, 64 bits, not negative) are an argument of
  each operation.
\<close>

record id_seed_glob =
  group_used :: u32
  start_factor :: u32

record id_seed_group =
  seed :: u32
  slice_multi :: u32
  used_slice :: u32

definition ID_SEED_SLICE_BIT :: nat where "ID_SEED_SLICE_BIT = 14"
definition ID_SEED_SLICE_SIZE :: u32 where "ID_SEED_SLICE_SIZE = 2 ^ 14"

definition id_seed_glob0 :: id_seed_glob where
  "id_seed_glob0 = \<lparr> group_used = 0, start_factor = 2 \<rparr>"

definition id_seed_group_update ::
  "u64 \<Rightarrow> id_seed_glob \<Rightarrow> id_seed_group \<Rightarrow> u32 \<Rightarrow> (id_seed_glob \<times> id_seed_group) run" where
  "id_seed_group_update now G g multi =
     (let g = g\<lparr> seed := group_used G \<rparr>;
          used = group_used G + ID_SEED_SLICE_SIZE * multi in
      if used \<ge> 2 ^ 31
      then let used = ucast (yf_align (now div ucast (start_factor G)) (ucast ID_SEED_SLICE_SIZE)) in
        c_assert (used > 12345)
          (Inr (\<lparr> group_used = used,
                  start_factor = min (push_bit 1 (start_factor G)) 128 \<rparr>, g))
      else Inr (G\<lparr> group_used := used \<rparr>, g))"

definition yf_id_seed_group_init ::
  "u64 \<Rightarrow> id_seed_glob \<Rightarrow> id_seed_group \<Rightarrow> u32 \<Rightarrow> (int \<times> id_seed_glob \<times> id_seed_group) run" where
  "yf_id_seed_group_init now G g slice_size =
     (if slice_size > ID_SEED_SLICE_SIZE * 255 then Inr (YF_ERROR, G, g)
      else
        run_bind
          (if group_used G = 0
           then let used = ucast (yf_align now (ucast ID_SEED_SLICE_SIZE)) in
             c_assert (used > 12345) (Inr (G\<lparr> group_used := used \<rparr>))
           else Inr G) (\<lambda>G.
        let multi = (if slice_size = 0 then 1
          else take_bit 8 (drop_bit ID_SEED_SLICE_BIT
                 (yf_align (max slice_size ID_SEED_SLICE_SIZE) ID_SEED_SLICE_SIZE))) in
        run_bind (id_seed_group_update now G (g\<lparr> slice_multi := multi \<rparr>) multi) (\<lambda>(G, g).
        Inr (YF_OK, G, g\<lparr> used_slice := 0 \<rparr>))))"

definition yf_id_seed_alloc ::
  "u64 \<Rightarrow> id_seed_glob \<Rightarrow> id_seed_group \<Rightarrow> (u32 \<times> id_seed_glob \<times> id_seed_group) run" where
  "yf_id_seed_alloc now G g =
     (let seed_new = seed g; g = g\<lparr> seed := seed g + 1 \<rparr> in
      if yf_mod (seed g) ID_SEED_SLICE_SIZE = 0
      then let g = g\<lparr> used_slice := take_bit 8 (used_slice g + 1) \<rparr> in
        if used_slice g = slice_multi g
        then run_bind (id_seed_group_update now G g (slice_multi g)) (\<lambda>(G, g).
             Inr (seed_new, G, g\<lparr> used_slice := 0 \<rparr>))
        else Inr (seed_new, G, g)
      else Inr (seed_new, G, g))"

subsection \<open>Executions\<close>

text \<open>Calls on several groups, in the order the lock serialises them.\<close>

datatype seed_op = Seed_init nat u32 u64 | Seed_alloc nat u64

record seed_state =
  glob :: id_seed_glob
  groups :: "nat \<Rightarrow> id_seed_group option"

definition seed_state0 :: seed_state where
  "seed_state0 = \<lparr> glob = id_seed_glob0, groups = (\<lambda>_. None) \<rparr>"

definition id_seed_group0 :: id_seed_group where
  "id_seed_group0 = \<lparr> seed = 0, slice_multi = 0, used_slice = 0 \<rparr>"

fun seed_exec :: "seed_op \<Rightarrow> seed_state \<Rightarrow> (u32 list \<times> seed_state) run" where
  "seed_exec (Seed_init i sz now) s =
     (let g = (case groups s i of None \<Rightarrow> id_seed_group0 | Some g \<Rightarrow> g) in
      run_bind (yf_id_seed_group_init now (glob s) g sz) (\<lambda>(ret, G, g).
      if ret = YF_OK then Inr ([], \<lparr> glob = G, groups = (groups s)(i := Some g) \<rparr>)
      else Inr ([], s)))"
| "seed_exec (Seed_alloc i now) s =
     (case groups s i of
        None \<Rightarrow> Inl Null_deref
      | Some g \<Rightarrow> run_bind (yf_id_seed_alloc now (glob s) g) (\<lambda>(v, G, g).
          Inr ([v], \<lparr> glob = G, groups = (groups s)(i := Some g) \<rparr>)))"

fun seed_run :: "seed_op list \<Rightarrow> seed_state \<Rightarrow> (u32 list \<times> seed_state) run" where
  "seed_run [] s = Inr ([], s)"
| "seed_run (op # ops) s =
     run_bind (seed_exec op s) (\<lambda>(ids, s).
     run_bind (seed_run ops s) (\<lambda>(ids', s). Inr (ids @ ids', s)))"

subsection \<open>Invariant\<close>

text \<open>
  A group still owns the ids from its seed to the end of its last slice. The ids owned by the
  groups are disjoint, below the global counter, and none of them has been given out. The
  invariant is about executions in which the counter has not rolled over: the first roll sets
  the start factor to 4 and it never returns to 2.
\<close>

definition owned :: "id_seed_group \<Rightarrow> nat set" where
  "owned g = {unat (seed g) ..<
     unat (seed g) div 16384 * 16384 + (unat (slice_multi g) - unat (used_slice g)) * 16384}"

definition group_ok :: "id_seed_group \<Rightarrow> nat \<Rightarrow> bool" where
  "group_ok g used \<longleftrightarrow>
     1 \<le> unat (slice_multi g) \<and> unat (slice_multi g) \<le> 255 \<and>
     unat (used_slice g) < unat (slice_multi g) \<and>
     unat (seed g) div 16384 * 16384 + (unat (slice_multi g) - unat (used_slice g)) * 16384 \<le> used"

definition seed_inv :: "seed_state \<Rightarrow> nat set \<Rightarrow> bool" where
  "seed_inv s ids \<longleftrightarrow>
     (let used = unat (group_used (glob s)) in
      used < 2 ^ 31 \<and> 16384 dvd used \<and> ids \<subseteq> {..<used} \<and>
      (\<forall>i g. groups s i = Some g \<longrightarrow> group_ok g used \<and> owned g \<inter> ids = {}) \<and>
      (\<forall>i j g h. groups s i = Some g \<longrightarrow> groups s j = Some h \<longrightarrow> i \<noteq> j \<longrightarrow> owned g \<inter> owned h = {}))"

definition factor_ok :: "id_seed_glob \<Rightarrow> bool" where
  "factor_ok G \<longleftrightarrow> start_factor G = 2 \<or> (4 \<le> start_factor G \<and> start_factor G \<le> 128)"

lemma seed_inv0: "seed_inv seed_state0 {}"
  by (simp add: seed_inv_def seed_state0_def id_seed_glob0_def)

lemma factor_step:
  assumes "factor_ok G" "id_seed_group_update now G g multi = Inr (G', g')"
  shows "factor_ok G'" and "start_factor G' = 2 \<Longrightarrow> start_factor G = 2 \<and>
     group_used G' = group_used G + ID_SEED_SLICE_SIZE * multi \<and> group_used G' < 2 ^ 31 \<and>
     g' = g\<lparr> seed := group_used G \<rparr>"
proof -
  have dbl: "4 \<le> min (push_bit 1 f) 128 \<and> min (push_bit 1 f) (128 :: u32) \<le> 128"
    if "f = 2 \<or> (4 \<le> f \<and> f \<le> 128)" for f :: u32
  proof -
    have "unat (push_bit 1 f) = 2 * unat f"
      using that by (auto simp: push_bit_eq_mult word_le_nat_alt unat_word_ariths)
    then show ?thesis
      using that by (auto simp: min_def word_le_nat_alt)
  qed
  have ne: "min (f * 2) 128 \<noteq> 2" if "f = 2 \<or> (4 \<le> f \<and> f \<le> 128)" for f :: u32
  proof
    assume "min (f * 2) 128 = 2"
    with dbl [OF that] have "4 \<le> (2 :: u32)" by (simp add: push_bit_eq_mult)
    then show False by simp
  qed
  show "factor_ok G'"
    using assms dbl [of "start_factor G"]
    by (auto simp: id_seed_group_update_def factor_ok_def Let_def require_Inr_iff
        split: if_splits)
  assume "start_factor G' = 2"
  then show "start_factor G = 2 \<and>
     group_used G' = group_used G + ID_SEED_SLICE_SIZE * multi \<and> group_used G' < 2 ^ 31 \<and>
     g' = g\<lparr> seed := group_used G \<rparr>"
    using assms ne [of "start_factor G"]
    by (auto simp: id_seed_group_update_def factor_ok_def Let_def require_Inr_iff not_le
        split: if_splits)
qed

lemma unat_slice_mult:
  assumes "unat (u :: u32) < 2 ^ 31" "unat m \<le> 255"
  shows "unat (u + ID_SEED_SLICE_SIZE * m) = unat u + unat m * 16384"
proof -
  have "unat (ID_SEED_SLICE_SIZE * m) = unat m * 16384"
    using assms(2) by (simp add: ID_SEED_SLICE_SIZE_def unat_word_ariths)
  then show ?thesis using assms by (simp add: unat_word_ariths(1))
qed

lemma owned_below: "group_ok g used \<Longrightarrow> owned g \<subseteq> {..<used}"
  by (auto simp: group_ok_def owned_def)

lemma group_ok_mono: "group_ok g used \<Longrightarrow> used \<le> used' \<Longrightarrow> group_ok g used'"
  by (auto simp: group_ok_def)

text \<open>A refill without a roll hands the group the slices just below the new counter.\<close>

lemma group_refill:
  assumes upd: "id_seed_group_update now G g (slice_multi g) = Inr (G', g')"
    and f: "factor_ok G" "start_factor G' = 2"
    and u: "unat (group_used G) < 2 ^ 31" "16384 dvd unat (group_used G)"
    and m: "1 \<le> unat (slice_multi g)" "unat (slice_multi g) \<le> 255"
  shows "unat (group_used G) \<le> unat (group_used G')" "unat (group_used G') < 2 ^ 31"
    "16384 dvd unat (group_used G')"
    "group_ok (g'\<lparr> used_slice := 0 \<rparr>) (unat (group_used G'))"
    "owned (g'\<lparr> used_slice := 0 \<rparr>) = {unat (group_used G) ..< unat (group_used G')}"
proof -
  note st = factor_step(2) [OF f(1) upd f(2)]
  have u': "unat (group_used G') = unat (group_used G) + unat (slice_multi g) * 16384"
    using st unat_slice_mult [OF u(1) m(2)] by simp
  show "unat (group_used G) \<le> unat (group_used G')" "16384 dvd unat (group_used G')"
    using u u' by auto
  from st have "group_used G' < 2 ^ 31" by blast
  then show "unat (group_used G') < 2 ^ 31" by (simp add: word_less_nat_alt)
  show "group_ok (g'\<lparr> used_slice := 0 \<rparr>) (unat (group_used G'))"
    using st m u u' by (auto simp: group_ok_def)
  show "owned (g'\<lparr> used_slice := 0 \<rparr>) = {unat (group_used G) ..< unat (group_used G')}"
    using st u u' by (auto simp: owned_def)
qed

lemma alloc_step:
  assumes run: "yf_id_seed_alloc now G g = Inr (v, G', g')"
    and f: "factor_ok G" "start_factor G' = 2"
    and u: "unat (group_used G) < 2 ^ 31" "16384 dvd unat (group_used G)"
    and ok: "group_ok g (unat (group_used G))"
  shows "unat v \<in> owned g \<and> start_factor G = 2 \<and>
    unat (group_used G) \<le> unat (group_used G') \<and> unat (group_used G') < 2 ^ 31 \<and>
    16384 dvd unat (group_used G') \<and> group_ok g' (unat (group_used G')) \<and>
    owned g' \<subseteq> owned g - {unat v} \<union> {unat (group_used G) ..< unat (group_used G')}"
proof -
  let ?S = "unat (seed g)"
  have S: "?S < 2 ^ 31" using ok u(1) by (auto simp: group_ok_def)
  then have S1: "unat (seed g + 1) = ?S + 1" by (simp add: unat_word_ariths(1))
  have us: "unat (take_bit 8 (used_slice g + 1)) = unat (used_slice g) + 1"
  proof -
    have "unat (take_bit 8 (used_slice g + 1)) = take_bit 8 (unat (used_slice g + 1))"
      by (rule unsigned_take_bit_eq)
    also have "unat (used_slice g + 1) = unat (used_slice g) + 1"
      using ok by (simp add: group_ok_def unat_word_ariths(1))
    also have "take_bit 8 (unat (used_slice g) + 1) = unat (used_slice g) + 1"
      using ok by (intro take_bit_nat_eq_self) (simp add: group_ok_def)
    finally show ?thesis .
  qed
  have bd: "yf_mod (seed g + 1) ID_SEED_SLICE_SIZE = 0 \<longleftrightarrow> Suc ?S mod 16384 = 0"
    using unat_yf_mod [of "seed g + 1" 14] S1
    by (simp add: ID_SEED_SLICE_SIZE_def unat_eq_0 [symmetric])
  have S_in: "?S \<in> owned g"
  proof -
    have "?S < ?S div 16384 * 16384 + 16384"
      using div_mult_mod_eq [of ?S 16384] by linarith
    moreover have "1 * 16384 \<le> (unat (slice_multi g) - unat (used_slice g)) * 16384"
      using ok by (intro mult_le_mono1) (auto simp: group_ok_def)
    ultimately show ?thesis by (simp add: owned_def)
  qed
  show ?thesis
  proof (cases "Suc ?S mod 16384 = 0")
    case False
    have "Suc ?S div 16384 = ?S div 16384" using False by (simp add: div_Suc)
    with run f u ok S_in S1 False bd show ?thesis
      by (auto simp: yf_id_seed_alloc_def Let_def group_ok_def owned_def)
  next
    case True
    have dv: "Suc ?S div 16384 = Suc (?S div 16384)" using True by (simp add: div_Suc)
    let ?g = "g\<lparr> seed := seed g + 1, used_slice := take_bit 8 (used_slice g + 1) \<rparr>"
    show ?thesis
    proof (cases "take_bit 8 (used_slice g + 1) = slice_multi g")
      case False
      then have "unat (used_slice g) + 1 \<noteq> unat (slice_multi g)"
        using us by (metis word_eq_iff_unsigned)
      moreover have "unat (slice_multi g) - unat (used_slice g) =
          Suc (unat (slice_multi g) - Suc (unat (used_slice g)))"
        using ok by (auto simp: group_ok_def)
      ultimately show ?thesis
        using run f u ok S_in S1 True bd us dv False
        by (auto simp: yf_id_seed_alloc_def Let_def group_ok_def owned_def)
    next
      case full: True
      have "\<exists>g2. id_seed_group_update now G ?g (slice_multi ?g) = Inr (G', g2) \<and> v = seed g \<and>
          g' = g2\<lparr> used_slice := 0 \<rparr>"
        using run True bd full
        by (auto simp: yf_id_seed_alloc_def Let_def run_bind_Inr_iff split: prod.splits)
      then obtain g2 where upd: "id_seed_group_update now G ?g (slice_multi ?g) = Inr (G', g2)"
        and v: "v = seed g" and g': "g' = g2\<lparr> used_slice := 0 \<rparr>" by blast
      have m: "1 \<le> unat (slice_multi ?g)" "unat (slice_multi ?g) \<le> 255"
        using ok by (simp_all add: group_ok_def)
      note refill = group_refill [OF upd f u m]
      show ?thesis
        using refill factor_step(2) [OF f(1) upd f(2)] owned_below [OF ok] v g' S_in by auto
    qed
  qed
qed

lemma max_div: "max a 16384 div 16384 = max 1 (a div (16384 :: nat))"
proof (cases "a \<le> 16384")
  case True
  then have "a div 16384 \<le> 16384 div 16384" by (rule div_le_mono)
  with True show ?thesis by (simp add: max_def)
next
  case False
  then have "16384 div 16384 \<le> a div 16384" by (intro div_le_mono) simp
  with False show ?thesis by (simp add: max_def)
qed

lemma init_multi:
  assumes "slice_size \<le> ID_SEED_SLICE_SIZE * 255"
  defines "m \<equiv> take_bit 8 (drop_bit ID_SEED_SLICE_BIT
                 (yf_align (max slice_size ID_SEED_SLICE_SIZE) ID_SEED_SLICE_SIZE))"
  shows "unat m = max 1 (align_up (unat slice_size) 16384 div 16384)" "unat m \<le> 255"
proof -
  let ?x = "max slice_size ID_SEED_SLICE_SIZE"
  have S: "unat ID_SEED_SLICE_SIZE = 16384" by (simp add: ID_SEED_SLICE_SIZE_def)
  have sz: "unat slice_size \<le> 255 * 16384"
    using assms(1) by (simp add: ID_SEED_SLICE_SIZE_def word_le_nat_alt)
  have x: "unat ?x = max (unat slice_size) 16384"
    by (simp add: max_def word_le_nat_alt S)
  have "unat (yf_align ?x ID_SEED_SLICE_SIZE) = align_up (unat ?x) (2 ^ 14)"
    unfolding ID_SEED_SLICE_SIZE_def using x sz
    by (intro unat_yf_align) (simp_all add: ID_SEED_SLICE_SIZE_def)
  also have "align_up (unat ?x) (2 ^ 14) = max (align_up (unat slice_size) 16384) 16384"
    unfolding x using align_up_mono [of "unat slice_size" 16384 16384]
      align_up_mono [of 16384 "unat slice_size" 16384] by (auto simp: max_def)
  finally have al: "unat (yf_align ?x ID_SEED_SLICE_SIZE) = \<dots>" .
  have bound: "align_up (unat slice_size) 16384 \<le> 255 * 16384"
    using sz by (intro align_up_least) simp_all
  have d: "unat (drop_bit ID_SEED_SLICE_BIT (yf_align ?x ID_SEED_SLICE_SIZE)) =
      max (align_up (unat slice_size) 16384) 16384 div 16384"
    by (simp only: unat_drop_bit_div al ID_SEED_SLICE_BIT_def) simp
  also have "\<dots> = max 1 (align_up (unat slice_size) 16384 div 16384)"
    by (rule max_div)
  finally have d': "unat (drop_bit ID_SEED_SLICE_BIT (yf_align ?x ID_SEED_SLICE_SIZE)) = \<dots>" .
  have le: "\<dots> \<le> 255" using bound by (simp add: div_le_mono [of _ "255 * 16384" 16384, simplified])
  have t: "unat m = take_bit 8 (unat (drop_bit ID_SEED_SLICE_BIT (yf_align ?x ID_SEED_SLICE_SIZE)))"
    unfolding m_def by (rule unsigned_take_bit_eq)
  also have "\<dots> = max 1 (align_up (unat slice_size) 16384 div 16384)"
    unfolding d' using le by (intro take_bit_nat_eq_self) simp
  finally show "unat m = max 1 (align_up (unat slice_size) 16384 div 16384)" .
  with le show "unat m \<le> 255" by simp
qed

lemma init_step:
  assumes run: "yf_id_seed_group_init now G g slice_size = Inr (YF_OK, G', g')"
    and f: "factor_ok G" "start_factor G' = 2" and now: "unat now < 2 ^ 31 - 16384"
    and u: "unat (group_used G) < 2 ^ 31" "16384 dvd unat (group_used G)"
  shows "start_factor G = 2 \<and>
    unat (group_used G) \<le> unat (group_used G') \<and> unat (group_used G') < 2 ^ 31 \<and>
    16384 dvd unat (group_used G') \<and> group_ok g' (unat (group_used G')) \<and>
    owned g' \<subseteq> {unat (group_used G) ..< unat (group_used G')}"
proof -
  define multi where "multi = (if slice_size = 0 then 1
          else take_bit 8 (drop_bit ID_SEED_SLICE_BIT
                 (yf_align (max slice_size ID_SEED_SLICE_SIZE) ID_SEED_SLICE_SIZE)))"
  define G1 where "G1 = (if group_used G = 0
    then G\<lparr> group_used := ucast (yf_align now (ucast ID_SEED_SLICE_SIZE)) \<rparr> else G)"
  have size: "slice_size \<le> ID_SEED_SLICE_SIZE * 255"
    using run by (auto simp: yf_id_seed_group_init_def not_less split: if_splits)
  have m: "1 \<le> unat multi" "unat multi \<le> 255"
    using init_multi [OF size] by (auto simp: multi_def)
  obtain g2 where upd: "id_seed_group_update now G1 (g\<lparr> slice_multi := multi \<rparr>) multi = Inr (G', g2)"
    and g': "g' = g2\<lparr> used_slice := 0 \<rparr>"
    using run size unfolding yf_id_seed_group_init_def
    by (auto simp: G1_def multi_def [symmetric] Let_def run_bind_Inr_iff require_Inr_iff
        split: if_splits prod.splits)
  have le: "align_up (unat now) 16384 < 2 ^ 31"
    using align_up_less [of 16384 "unat now"] now by simp
  have "unat (yf_align now (2 ^ 14)) = align_up (unat now) 16384"
    using now unat_yf_align [of 14 now] by simp
  then have al: "unat (ucast (yf_align now (ucast ID_SEED_SLICE_SIZE)) :: u32) = align_up (unat now) 16384"
    using le by (simp add: ID_SEED_SLICE_SIZE_def unsigned_ucast_eq take_bit_nat_eq_self)
  have u1: "unat (group_used G1) < 2 ^ 31" "16384 dvd unat (group_used G1)"
    "unat (group_used G) \<le> unat (group_used G1)" "factor_ok G1"
    using le u f(1) by (auto simp: G1_def al factor_ok_def)
  have upd': "id_seed_group_update now G1 (g\<lparr> slice_multi := multi \<rparr>)
      (slice_multi (g\<lparr> slice_multi := multi \<rparr>)) = Inr (G', g2)" using upd by simp
  have m': "1 \<le> unat (slice_multi (g\<lparr> slice_multi := multi \<rparr>))"
    "unat (slice_multi (g\<lparr> slice_multi := multi \<rparr>)) \<le> 255" using m by simp_all
  note refill = group_refill [OF upd' u1(4) f(2) u1(1,2) m']
  have "start_factor G = 2"
    using factor_step(2) [OF u1(4) upd f(2)] by (auto simp: G1_def split: if_splits)
  with refill u1(3) show ?thesis unfolding g' by auto
qed


lemma seed_inv_update:
  assumes inv: "seed_inv s ids"
    and old: "old = (case groups s i of None \<Rightarrow> {} | Some g \<Rightarrow> owned g)"
    and U: "unat (group_used (glob s)) \<le> unat (group_used G')" "unat (group_used G') < 2 ^ 31"
      "16384 dvd unat (group_used G')"
    and g': "group_ok g' (unat (group_used G'))"
      "owned g' \<subseteq> old - new \<union> {unat (group_used (glob s)) ..< unat (group_used G')}"
    and new: "new \<subseteq> old"
  shows "seed_inv \<lparr> glob = G', groups = (groups s)(i := Some g') \<rparr> (ids \<union> new)"
proof -
  let ?U = "unat (group_used (glob s))"
  have below: "owned h \<subseteq> {..<?U}" if "groups s j = Some h" for j h
    using inv that by (metis owned_below seed_inv_def)
  have old_U: "old \<subseteq> {..<?U}"
    using below old by (auto split: option.splits)
  have ids: "ids \<subseteq> {..<?U}" and old_ids: "old \<inter> ids = {}"
    using inv old by (auto simp: seed_inv_def Let_def split: option.splits)
  have old_other: "old \<inter> owned h = {}" if "groups s j = Some h" "j \<noteq> i" for j h
    using inv old that unfolding seed_inv_def Let_def
    by (cases "groups s i") (simp, metis option.simps(5))
  have other: "owned g' \<inter> owned h = {}" "owned h \<inter> new = {}" "group_ok h (unat (group_used G'))"
    "owned h \<inter> ids = {}"
    if "groups s j = Some h" "j \<noteq> i" for j h
  proof -
    show "owned g' \<inter> owned h = {}" "owned h \<inter> new = {}"
      using old_other [OF that] below [OF that(1)] g'(2) new by fastforce+
    show "group_ok h (unat (group_used G'))" "owned h \<inter> ids = {}"
      using inv that(1) U(1) by (auto simp: seed_inv_def Let_def intro: group_ok_mono)
  qed
  have mine: "owned g' \<inter> (ids \<union> new) = {}"
    using g'(2) old_ids ids new old_U by fastforce
  have sub: "ids \<union> new \<subseteq> {..<unat (group_used G')}"
    using ids new old_U U(1) by fastforce
  have pair: "owned a \<inter> owned b = {}"
    if "groups s j = Some a" "groups s k = Some b" "j \<noteq> k" for a b j k
    using inv that by (auto simp: seed_inv_def Let_def)
  have each: "group_ok h (unat (group_used G')) \<and> owned h \<inter> (ids \<union> new) = {}"
    if "((groups s)(i := Some g')) j = Some h" for j h
    using that other [of j h] mine g'(1) by (cases "j = i") auto
  have two: "owned a \<inter> owned b = {}"
    if "((groups s)(i := Some g')) j = Some a" "((groups s)(i := Some g')) k = Some b" "j \<noteq> k"
    for a b j k
    using that other(1) pair by (cases "j = i"; cases "k = i") (auto simp: Int_commute)
  show ?thesis
    unfolding seed_inv_def Let_def seed_state.simps using U(2,3) sub each two by blast
qed

lemma init_factor:
  assumes "yf_id_seed_group_init now G g size0 = Inr (ret, G', g')" "factor_ok G"
  shows "factor_ok G'" and "start_factor G' = 2 \<Longrightarrow> start_factor G = 2"
proof -
  have upd: "factor_ok (G\<lparr> group_used := x \<rparr>)" "start_factor (G\<lparr> group_used := x \<rparr>) = start_factor G"
    for x using assms(2) by (simp_all add: factor_ok_def)
  show "factor_ok G'" "start_factor G' = 2 \<Longrightarrow> start_factor G = 2"
    using assms upd unfolding yf_id_seed_group_init_def
    by (auto simp: run_bind_Inr_iff require_Inr_iff Let_def dest: factor_step [rotated]
        split: if_splits prod.splits)
qed

lemma alloc_factor:
  assumes "yf_id_seed_alloc now G g = Inr (v, G', g')" "factor_ok G"
  shows "factor_ok G'" and "start_factor G' = 2 \<Longrightarrow> start_factor G = 2"
  using assms unfolding yf_id_seed_alloc_def Let_def
  by (auto simp: run_bind_Inr_iff require_Inr_iff dest: factor_step [rotated]
      split: if_splits prod.splits)

text \<open>One call: the factor is kept, and so is the invariant when it still has its first value.\<close>

definition seed_now :: "seed_op \<Rightarrow> u64" where
  "seed_now op = (case op of Seed_init i sz now \<Rightarrow> now | Seed_alloc i now \<Rightarrow> now)"

lemma seed_exec_factor: "seed_exec op s = Inr (new, s') \<Longrightarrow> factor_ok (glob s) \<Longrightarrow> factor_ok (glob s')"
  by (cases op) (auto simp: run_bind_Inr_iff Let_def split: option.splits if_splits
      dest: init_factor(1) alloc_factor(1))

lemma seed_exec_two:
  "seed_exec op s = Inr (new, s') \<Longrightarrow> factor_ok (glob s) \<Longrightarrow> start_factor (glob s') = 2 \<Longrightarrow>
   start_factor (glob s) = 2"
  by (cases op) (auto simp: run_bind_Inr_iff Let_def split: option.splits if_splits
      dest: init_factor(2) alloc_factor(2))

lemma seed_run_two:
  "seed_run ops s = Inr (ids, s') \<Longrightarrow> factor_ok (glob s) \<Longrightarrow> start_factor (glob s') = 2 \<Longrightarrow>
   start_factor (glob s) = 2"
proof (induction ops arbitrary: s ids)
  case (Cons op ops)
  from Cons.prems(1) obtain new s1 rest where 1: "seed_exec op s = Inr (new, s1)"
    and 2: "seed_run ops s1 = Inr (rest, s')" by (auto simp: run_bind_Inr_iff)
  with Cons show ?case by (meson seed_exec_factor seed_exec_two)
qed simp

lemma seed_exec_inv:
  assumes run: "seed_exec op s = Inr (new, s')" and f: "factor_ok (glob s)"
    and now: "unat (seed_now op) < 2 ^ 31 - 16384"
    and two: "start_factor (glob s') = 2" and inv: "seed_inv s ids"
  shows "seed_inv s' (ids \<union> unat ` set new) \<and> unat ` set new \<inter> ids = {} \<and> distinct new"
proof -
  have u: "unat (group_used (glob s)) < 2 ^ 31" "16384 dvd unat (group_used (glob s))"
    using inv by (auto simp: seed_inv_def Let_def)
  show ?thesis
  proof (cases op)
    case (Seed_init i sz t)
    let ?g = "case groups s i of None \<Rightarrow> id_seed_group0 | Some g \<Rightarrow> g"
    obtain ret G' g' where init: "yf_id_seed_group_init t (glob s) ?g sz = Inr (ret, G', g')"
      using run Seed_init by (auto simp: run_bind_Inr_iff Let_def)
    show ?thesis
    proof (cases "ret = YF_OK")
      case False
      then show ?thesis using run Seed_init init inv by (simp add: Let_def)
    next
      case True
      then have s': "s' = \<lparr> glob = G', groups = (groups s)(i := Some g') \<rparr>" "new = []"
        using run Seed_init init by (simp_all add: Let_def)
      have t: "unat t < 2 ^ 31 - 16384" using now Seed_init by (simp add: seed_now_def)
      have "start_factor G' = 2" using two s' by simp
      note st = init_step [OF init [unfolded True] f this t u]
      show ?thesis
        using seed_inv_update [OF inv refl, where G' = G' and g' = g' and new = "{}" and i = i] st s' by auto
    qed
  next
    case (Seed_alloc i t)
    then obtain g v G' g' where g: "groups s i = Some g"
      and al: "yf_id_seed_alloc t (glob s) g = Inr (v, G', g')"
      and s': "s' = \<lparr> glob = G', groups = (groups s)(i := Some g') \<rparr>" "new = [v]"
      using run by (auto simp: run_bind_Inr_iff split: option.splits)
    have ok: "group_ok g (unat (group_used (glob s)))" "owned g \<inter> ids = {}"
      using inv g by (auto simp: seed_inv_def Let_def)
    have "start_factor G' = 2" using two s' by simp
    note st = alloc_step [OF al f this u ok(1)]
    show ?thesis
      using seed_inv_update [OF inv, where old = "owned g" and i = i and G' = G' and g' = g' and new = "{unat v}"] st s' g ok(2) by auto
  qed
qed


lemma seed_run_distinct:
  "seed_run ops s = Inr (ids, s') \<Longrightarrow> factor_ok (glob s) \<Longrightarrow>
   \<forall>op \<in> set ops. unat (seed_now op) < 2 ^ 31 - 16384 \<Longrightarrow> start_factor (glob s') = 2 \<Longrightarrow>
   seed_inv s used \<Longrightarrow> distinct ids \<and> unat ` set ids \<inter> used = {}"
proof (induction ops arbitrary: s ids used)
  case (Cons op ops)
  obtain new s1 rest where 1: "seed_exec op s = Inr (new, s1)"
    and 2: "seed_run ops s1 = Inr (rest, s')" and ids: "ids = new @ rest"
    using Cons.prems(1) by (auto simp: run_bind_Inr_iff)
  have f1: "factor_ok (glob s1)" by (rule seed_exec_factor [OF 1 Cons.prems(2)])
  have two: "start_factor (glob s1) = 2" by (rule seed_run_two [OF 2 f1 Cons.prems(4)])
  have now: "unat (seed_now op) < 2 ^ 31 - 16384" "\<forall>op \<in> set ops. unat (seed_now op) < 2 ^ 31 - 16384"
    using Cons.prems(3) by simp_all
  note st = seed_exec_inv [OF 1 Cons.prems(2) now(1) two Cons.prems(5)]
  have "distinct rest \<and> unat ` set rest \<inter> (used \<union> unat ` set new) = {}"
    using Cons.IH [OF 2 f1 now(2) Cons.prems(4)] st by blast
  with st ids show ?case by auto
qed simp

text \<open>
  C4: However the initialisations and allocations of any number of groups interleave, no id is
  given out twice as long as the global counter has not rolled over (the start factor still
  has its first value), provided the wall clock stays one slice below \<open>2 ^ 31\<close> seconds.
\<close>

theorem yf_id_seed_alloc_unique:
  assumes "seed_run ops seed_state0 = Inr (ids, s)"
    and "\<forall>op \<in> set ops. unat (seed_now op) < 2 ^ 31 - 16384"
    and "start_factor (glob s) = 2"
  shows "distinct ids"
proof -
  have "factor_ok (glob seed_state0)"
    by (simp add: factor_ok_def seed_state0_def id_seed_glob0_def)
  from seed_run_distinct [OF assms(1) this assms(2,3) seed_inv0] show ?thesis by blast
qed

theorem yf_id_seed_alloc_unique_witness:
  "\<exists>s. seed_run [Seed_init 0 1 1363000000, Seed_init 1 0 1363000001, Seed_alloc 0 0, Seed_alloc 1 0,
          Seed_alloc 0 0] seed_state0 = Inr ([1363001344, 1363017728, 1363001345], s) \<and>
     distinct [1363001344, 1363017728, 1363001345 :: u32]"
proof -
  let ?ops = "[Seed_init 0 1 1363000000, Seed_init 1 0 1363000001, Seed_alloc 0 0, Seed_alloc 1 0,
    Seed_alloc 0 0]"
  have "case seed_run ?ops seed_state0 of Inr (ids, s) \<Rightarrow>
      ids = [1363001344, 1363017728, 1363001345] \<and> start_factor (glob s) = 2 | Inl _ \<Rightarrow> False"
    by code_simp
  then obtain s where s: "seed_run ?ops seed_state0 = Inr ([1363001344, 1363017728, 1363001345], s)"
    and f: "start_factor (glob s) = 2"
    by (auto split: sum.splits)
  have "distinct [1363001344, 1363017728, 1363001345 :: u32]"
    by (rule yf_id_seed_alloc_unique [OF s _ f]) (simp add: seed_now_def)
  with s show ?thesis by blast
qed

end
