(* ===== verification/Yf_List.thy ===== *)
theory Yf_List
  imports Yf_Prelude
begin

section \<open>Intrusive lists\<close>

text \<open>
  Models \<^verbatim>\<open>base_struct/yf_list.h\<close>. The links are fields of records that live anywhere in
  memory, so the model is a heap: \<open>dnext\<close> and \<open>dprev\<close> give the two fields of the
  \<^verbatim>\<open>yf_list_part_t\<close> at an address (\<open>snext\<close> the one of a \<^verbatim>\<open>yf_slist_part_t\<close>), the null
  pointer is 0, and reading or writing a field through it is a fault. The predicate
  \<open>ring h l xs\<close> says that the head at \<open>l\<close> closes a circular list of the nodes \<open>xs\<close>.
\<close>

subsection \<open>Singly linked lists\<close>

type_synonym sheap = "addr \<Rightarrow> addr"

definition s_read :: "sheap \<Rightarrow> addr \<Rightarrow> addr run" where
  "s_read h p = require Null_deref (p \<noteq> 0) (Inr (h p))"

definition s_write :: "sheap \<Rightarrow> addr \<Rightarrow> addr \<Rightarrow> sheap run" where
  "s_write h p v = require Null_deref (p \<noteq> 0) (Inr (h(p := v)))"

definition yf_init_slist_head :: "sheap \<Rightarrow> addr \<Rightarrow> sheap run" where
  "yf_init_slist_head h part = s_write h part 0"

definition yf_slist_push :: "sheap \<Rightarrow> addr \<Rightarrow> addr \<Rightarrow> sheap run" where
  "yf_slist_push h new_node part =
     run_bind (s_read h part) (\<lambda>nx.
     run_bind (s_write h new_node nx) (\<lambda>h. s_write h part new_node))"

definition yf_slist_pop :: "sheap \<Rightarrow> addr \<Rightarrow> (addr \<times> sheap) run" where
  "yf_slist_pop h part =
     run_bind (s_read h part) (\<lambda>poped.
     if poped = 0 then Inr (0, h)
     else run_bind (s_read h poped) (\<lambda>nx.
          run_bind (s_write h part nx) (\<lambda>h.
          run_bind (s_write h poped 0) (\<lambda>h. Inr (poped, h)))))"

definition yf_slist_delete :: "sheap \<Rightarrow> addr \<Rightarrow> addr \<Rightarrow> sheap run" where
  "yf_slist_delete h pre target =
     run_bind (s_read h target) (\<lambda>nx.
     if nx \<noteq> 0
     then run_bind (s_write h pre nx) (\<lambda>h. s_write h target 0)
     else Inr h)"

definition yf_slist_empty :: "sheap \<Rightarrow> addr \<Rightarrow> bool run" where
  "yf_slist_empty h part = run_bind (s_read h part) (\<lambda>nx. Inr (nx = 0))"

text \<open>The nodes a traversal visits: \<^verbatim>\<open>yf_slist_for_each\<close> and its \<^verbatim>\<open>_safe\<close> variant.\<close>

partial_function (option) slist_walk :: "sheap \<Rightarrow> addr \<Rightarrow> addr list option" where
  "slist_walk h pos =
     (if pos = 0 then Some []
      else Option.bind (slist_walk h (h pos)) (\<lambda>xs. Some (pos # xs)))"

definition yf_slist_for_each :: "sheap \<Rightarrow> addr \<Rightarrow> addr list option" where
  "yf_slist_for_each h part = slist_walk h (h part)"

partial_function (option) slist_walk_safe :: "sheap \<Rightarrow> addr \<Rightarrow> addr \<Rightarrow> addr list run option" where
  "slist_walk_safe h pos n =
     (if pos = 0 then Some (Inr [])
      else case s_read h n of
          Inl e \<Rightarrow> Some (Inl e)
        | Inr n' \<Rightarrow> Option.bind (slist_walk_safe h n n') (\<lambda>r.
            Some (run_bind r (\<lambda>xs. Inr (pos # xs)))))"

definition yf_slist_for_each_safe :: "sheap \<Rightarrow> addr \<Rightarrow> addr list run option" where
  "yf_slist_for_each_safe h part =
     (case s_read h (h part) of
        Inl e \<Rightarrow> Some (Inl e)
      | Inr n \<Rightarrow> slist_walk_safe h (h part) n)"

fun schain :: "sheap \<Rightarrow> addr \<Rightarrow> addr list \<Rightarrow> bool" where
  "schain h a [] \<longleftrightarrow> h a = 0"
| "schain h a (x # xs) \<longleftrightarrow> h a = x \<and> x \<noteq> 0 \<and> schain h x xs"

definition slist :: "sheap \<Rightarrow> addr \<Rightarrow> addr list \<Rightarrow> bool" where
  "slist h l xs \<longleftrightarrow> l \<noteq> 0 \<and> distinct (l # xs) \<and> schain h l xs"

lemma schain_upd: "p \<notin> set (a # xs) \<Longrightarrow> schain (h(p := v)) a xs = schain h a xs"
  by (induction xs arbitrary: a) auto

lemma schain_nonzero: "schain h a xs \<Longrightarrow> 0 \<notin> set xs"
  by (induction xs arbitrary: a) auto

lemma slist_push_spec:
  assumes "slist h l xs" "n \<noteq> 0" "n \<notin> set (l # xs)"
  shows "\<exists>h'. yf_slist_push h n l = Inr h' \<and> slist h' l (n # xs)"
proof -
  have "schain (h(n := h l, l := n)) n xs"
    using assms by (cases xs) (auto simp: slist_def schain_upd)
  with assms show ?thesis
    by (auto simp: yf_slist_push_def s_read_def s_write_def slist_def)
qed

lemma slist_pop_spec:
  assumes "slist h l xs"
  shows "case xs of [] \<Rightarrow> yf_slist_pop h l = Inr (0, h)
     | x # rest \<Rightarrow> (\<exists>h'. yf_slist_pop h l = Inr (x, h') \<and> slist h' l rest \<and> h' x = 0)"
proof (cases xs)
  case Nil
  with assms show ?thesis by (simp add: yf_slist_pop_def s_read_def slist_def)
next
  case (Cons x rest)
  have "schain (h(l := h x, x := 0)) l rest"
    using assms Cons by (cases rest) (auto simp: slist_def schain_upd)
  with assms Cons show ?thesis
    by (auto simp: yf_slist_pop_def s_read_def s_write_def slist_def)
qed

lemma slist_walk_spec: "schain h a xs \<Longrightarrow> slist_walk h (h a) = Some xs"
proof (induction xs arbitrary: a)
  case (Cons x xs)
  then show ?case by (subst slist_walk.simps) simp
qed (simp add: slist_walk.simps)

lemma slist_walk_safe_faults:
  "schain h a xs \<Longrightarrow> xs \<noteq> [] \<Longrightarrow> slist_walk_safe h (h a) (h (h a)) = Some (Inl Null_deref)"
proof (induction xs arbitrary: a)
  case (Cons x xs)
  show ?case
  proof (cases xs)
    case Nil
    with Cons.prems show ?thesis by (subst slist_walk_safe.simps) (simp add: s_read_def)
  next
    case (Cons y ys)
    with Cons.prems Cons.IH [of x] show ?thesis
      by (subst slist_walk_safe.simps) (simp add: s_read_def)
  qed
qed simp

text \<open>
  C5: \<^verbatim>\<open>yf_slist_for_each_safe\<close> steps its look-ahead pointer through the null pointer at the
  end of every list, the empty one included: the traversal never completes.
\<close>

theorem yf_slist_for_each_safe_faults:
  assumes "slist h l xs"
  shows "yf_slist_for_each_safe h l = Some (Inl Null_deref)"
proof (cases xs)
  case Nil
  with assms show ?thesis by (simp add: yf_slist_for_each_safe_def s_read_def slist_def)
next
  case (Cons x rest)
  with assms slist_walk_safe_faults [of h l xs] show ?thesis
    by (simp add: yf_slist_for_each_safe_def s_read_def slist_def)
qed


theorem yf_slist_for_each_safe_faults_witness:
  "slist ((\<lambda>_. 0)(8 := 16)) 8 [16] \<and>
   yf_slist_for_each_safe ((\<lambda>_. 0)(8 := 16)) 8 = Some (Inl Null_deref)"
proof -
  have l: "slist ((\<lambda>_. 0)(8 := 16)) 8 [16]" by (simp add: slist_def)
  show ?thesis using l yf_slist_for_each_safe_faults [OF l] by blast
qed

lemma schain_snoc: "schain h a (xs @ [t]) \<Longrightarrow> h (last (a # xs)) = t \<and> h t = 0"
  by (induction xs arbitrary: a) auto

lemma schain_drop:
  "schain h a (xs @ t # y # ys) \<Longrightarrow> distinct (a # xs @ t # y # ys) \<Longrightarrow>
   h t = y \<and> schain (h(last (a # xs) := y, t := 0)) a (xs @ y # ys)"
proof (induction xs arbitrary: a)
  case Nil
  then have n: "h a = t" "h t = y" "y \<noteq> 0" "schain h y ys" "a \<notin> set (y # ys)"
    "t \<notin> set (y # ys)" "a \<noteq> t" by auto
  then have "schain (h(a := y, t := 0)) y ys" by (simp only: schain_upd not_False_eq_True)
  moreover have "(h(a := y, t := 0)) a = y" using n by simp
  ultimately have "schain (h(a := y, t := 0)) a (y # ys)"
    using n(3) by (simp only: schain.simps not_False_eq_True)
  with n(2) show ?case by (simp only: append_Nil last.simps simp_thms if_True)
next
  case (Cons x xs)
  let ?h = "h(last (x # xs) := y, t := 0)"
  have 1: "h t = y \<and> schain ?h x (xs @ y # ys)"
    by (rule Cons.IH) (use Cons.prems in auto)
  have "last (x # xs) \<in> set (x # xs)" by (rule last_in_set) simp
  then have "?h a = x" "x \<noteq> 0" using Cons.prems by auto
  with 1 have "schain ?h a (x # xs @ y # ys)" by (simp only: schain.simps simp_thms)
  moreover have "last (a # x # xs) = last (x # xs)" by simp
  ultimately show ?case using 1 by (simp only: append_Cons simp_thms)
qed

text \<open>
  C6: \<^verbatim>\<open>yf_slist_delete\<close> unlinks its target when a node follows it, and leaves the list as it
  was, target included, when the target is the last node.
\<close>

theorem yf_slist_delete_correct:
  assumes "slist h l (xs @ t # ys)"
  shows "\<exists>h'. yf_slist_delete h (last (l # xs)) t = Inr h' \<and>
    slist h' l (if ys = [] then xs @ [t] else xs @ ys)"
proof -
  have nz: "t \<noteq> 0" "last (l # xs) \<noteq> 0"
  proof -
    have "0 \<notin> set (l # xs @ t # ys)"
      using assms schain_nonzero [of h l "xs @ t # ys"] by (auto simp: slist_def)
    moreover have "last (l # xs) \<in> set (l # xs)" by (rule last_in_set) simp
    ultimately show "t \<noteq> 0" "last (l # xs) \<noteq> 0"
      by (simp, metis Un_iff list.set_intros(2) set_append set_ConsD append_Cons)
  qed
  show ?thesis
  proof (cases ys)
    case Nil
    then show ?thesis using assms nz schain_snoc [of h l xs t]
      by (auto simp: yf_slist_delete_def s_read_def slist_def)
  next
    case (Cons y zs)
    have "h t = y \<and> schain (h(last (l # xs) := y, t := 0)) l (xs @ y # zs)"
      using schain_drop [of h l xs t y zs] assms Cons by (simp add: slist_def)
    moreover have "y \<noteq> 0"
      using assms Cons schain_nonzero [of h l "xs @ t # ys"] by (auto simp: slist_def)
    ultimately show ?thesis using assms Cons nz
      by (auto simp: yf_slist_delete_def s_read_def s_write_def slist_def)
  qed
qed

theorem yf_slist_delete_correct_witness:
  "\<exists>h'. yf_slist_delete ((\<lambda>_. 0)(8 := 16)) 8 16 = Inr h' \<and> slist h' 8 [16]"
  using yf_slist_delete_correct [of "(\<lambda>_. 0)(8 := 16)" 8 "[]" 16 "[]"]
  by (simp add: slist_def)

subsection \<open>Doubly linked lists\<close>

record dheap =
  dnext :: "addr \<Rightarrow> addr"
  dprev :: "addr \<Rightarrow> addr"

definition d_next :: "dheap \<Rightarrow> addr \<Rightarrow> addr run" where
  "d_next h p = require Null_deref (p \<noteq> 0) (Inr (dnext h p))"

definition d_prev :: "dheap \<Rightarrow> addr \<Rightarrow> addr run" where
  "d_prev h p = require Null_deref (p \<noteq> 0) (Inr (dprev h p))"

definition set_next :: "addr \<Rightarrow> addr \<Rightarrow> dheap \<Rightarrow> dheap run" where
  "set_next p v h = require Null_deref (p \<noteq> 0) (Inr (h\<lparr> dnext := (dnext h)(p := v) \<rparr>))"

definition set_prev :: "addr \<Rightarrow> addr \<Rightarrow> dheap \<Rightarrow> dheap run" where
  "set_prev p v h = require Null_deref (p \<noteq> 0) (Inr (h\<lparr> dprev := (dprev h)(p := v) \<rparr>))"

definition yf_init_list_head :: "dheap \<Rightarrow> addr \<Rightarrow> dheap run" where
  "yf_init_list_head h p = run_bind (set_next p p h) (set_prev p p)"

definition list_add :: "dheap \<Rightarrow> addr \<Rightarrow> addr \<Rightarrow> addr \<Rightarrow> dheap run" where
  "list_add h new_node pv nx =
     run_bind (set_prev nx new_node h) (\<lambda>h.
     run_bind (set_next new_node nx h) (\<lambda>h.
     run_bind (set_prev new_node pv h) (\<lambda>h.
     set_next pv new_node h)))"

definition yf_list_insert_after :: "dheap \<Rightarrow> addr \<Rightarrow> addr \<Rightarrow> dheap run" where
  "yf_list_insert_after h new_node target =
     run_bind (d_next h target) (\<lambda>nx. list_add h new_node target nx)"

definition yf_list_insert_before :: "dheap \<Rightarrow> addr \<Rightarrow> addr \<Rightarrow> dheap run" where
  "yf_list_insert_before h new_node target =
     run_bind (d_prev h target) (\<lambda>pv. list_add h new_node pv target)"

definition yf_list_add_head :: "dheap \<Rightarrow> addr \<Rightarrow> addr \<Rightarrow> dheap run" where
  "yf_list_add_head h new_node l = yf_list_insert_after h new_node l"

definition yf_list_add_tail :: "dheap \<Rightarrow> addr \<Rightarrow> addr \<Rightarrow> dheap run" where
  "yf_list_add_tail h new_node l = yf_list_insert_before h new_node l"

definition list_del :: "dheap \<Rightarrow> addr \<Rightarrow> addr \<Rightarrow> dheap run" where
  "list_del h pv nx =
     (if pv \<noteq> 0 \<and> nx \<noteq> 0 then run_bind (set_prev nx pv h) (set_next pv nx) else Inr h)"

definition yf_list_linked :: "dheap \<Rightarrow> addr \<Rightarrow> bool run" where
  "yf_list_linked h entry = run_bind (d_prev h entry) (\<lambda>p. Inr (p \<noteq> 0))"

definition unlink :: "dheap \<Rightarrow> addr \<Rightarrow> dheap run" where
  "unlink h entry = run_bind (d_prev h entry) (\<lambda>pv. run_bind (d_next h entry) (list_del h pv))"

definition yf_list_del :: "dheap \<Rightarrow> addr \<Rightarrow> dheap run" where
  "yf_list_del h entry =
     run_bind (unlink h entry) (\<lambda>h.
     run_bind (set_next entry 0 h) (set_prev entry 0))"

definition yf_list_del_init :: "dheap \<Rightarrow> addr \<Rightarrow> dheap run" where
  "yf_list_del_init h entry = run_bind (unlink h entry) (\<lambda>h. yf_init_list_head h entry)"

definition yf_list_move_head :: "dheap \<Rightarrow> addr \<Rightarrow> addr \<Rightarrow> dheap run" where
  "yf_list_move_head h entry l = run_bind (unlink h entry) (\<lambda>h. yf_list_add_head h entry l)"

definition yf_list_move_tail :: "dheap \<Rightarrow> addr \<Rightarrow> addr \<Rightarrow> dheap run" where
  "yf_list_move_tail h entry l = run_bind (unlink h entry) (\<lambda>h. yf_list_add_tail h entry l)"

definition yf_list_empty :: "dheap \<Rightarrow> addr \<Rightarrow> bool run" where
  "yf_list_empty h part = run_bind (d_next h part) (\<lambda>nx. Inr (nx = part))"

definition list_splice :: "dheap \<Rightarrow> addr \<Rightarrow> addr \<Rightarrow> dheap run" where
  "list_splice h l part =
     run_bind (d_next h l) (\<lambda>first.
     run_bind (d_prev h l) (\<lambda>last_node.
     run_bind (d_next h part) (\<lambda>at.
     run_bind (set_prev first part h) (\<lambda>h.
     run_bind (set_next part first h) (\<lambda>h.
     run_bind (set_next last_node at h) (\<lambda>h.
     set_prev at last_node h))))))"

definition yf_list_splice :: "dheap \<Rightarrow> addr \<Rightarrow> addr \<Rightarrow> dheap run" where
  "yf_list_splice h l part =
     run_bind (yf_list_empty h l) (\<lambda>e.
     if e then Inr h else run_bind (list_splice h l part) (\<lambda>h. yf_init_list_head h l))"

definition yf_list_pop_head :: "dheap \<Rightarrow> addr \<Rightarrow> (addr \<times> dheap) run" where
  "yf_list_pop_head h part =
     run_bind (yf_list_empty h part) (\<lambda>e.
     if e then Inr (0, h)
     else run_bind (d_next h part) (\<lambda>hd_node.
          run_bind (d_next h hd_node) (\<lambda>nx.
          run_bind (list_del h part nx) (\<lambda>h. Inr (hd_node, h)))))"

definition yf_list_pop_tail :: "dheap \<Rightarrow> addr \<Rightarrow> (addr \<times> dheap) run" where
  "yf_list_pop_tail h part =
     run_bind (yf_list_empty h part) (\<lambda>e.
     if e then Inr (0, h)
     else run_bind (d_prev h part) (\<lambda>tl_node.
          run_bind (d_prev h tl_node) (\<lambda>pv.
          run_bind (list_del h pv part) (\<lambda>h. Inr (tl_node, h)))))"

text \<open>
  The nodes visited by \<^verbatim>\<open>yf_list_for_each\<close> and \<^verbatim>\<open>yf_list_for_each_r\<close>; the value
  \<open>None\<close> stands for a traversal that never ends.
\<close>

partial_function (option) dlist_walk :: "(addr \<Rightarrow> addr) \<Rightarrow> addr \<Rightarrow> addr \<Rightarrow> addr list run option" where
  "dlist_walk step part pos =
     (if pos = part then Some (Inr [])
      else if pos = 0 then Some (Inl Null_deref)
      else Option.bind (dlist_walk step part (step pos)) (\<lambda>r.
           Some (run_bind r (\<lambda>xs. Inr (pos # xs)))))"

definition yf_list_for_each :: "dheap \<Rightarrow> addr \<Rightarrow> addr list run option" where
  "yf_list_for_each h part = dlist_walk (dnext h) part (dnext h part)"

definition yf_list_for_each_r :: "dheap \<Rightarrow> addr \<Rightarrow> addr list run option" where
  "yf_list_for_each_r h part = dlist_walk (dprev h) part (dprev h part)"


subsection \<open>Circular lists\<close>

fun dpath :: "dheap \<Rightarrow> addr \<Rightarrow> addr list \<Rightarrow> addr \<Rightarrow> bool" where
  "dpath h a [] b \<longleftrightarrow> dnext h a = b \<and> dprev h b = a"
| "dpath h a (x # xs) b \<longleftrightarrow> dnext h a = x \<and> dprev h x = a \<and> dpath h x xs b"

definition ring :: "dheap \<Rightarrow> addr \<Rightarrow> addr list \<Rightarrow> bool" where
  "ring h l xs \<longleftrightarrow> 0 \<notin> set (l # xs) \<and> distinct (l # xs) \<and> dpath h l xs l"

lemma ring_nz: "ring h l xs \<Longrightarrow> p \<in> set (l # xs) \<Longrightarrow> p \<noteq> 0"
  unfolding ring_def by metis

text \<open>Two heaps agree outside a set of nodes.\<close>

definition same_off :: "addr set \<Rightarrow> dheap \<Rightarrow> dheap \<Rightarrow> bool" where
  "same_off A h h' \<longleftrightarrow> (\<forall>p. p \<notin> A \<longrightarrow> dnext h' p = dnext h p \<and> dprev h' p = dprev h p)"

lemma same_off_refl [simp]: "same_off A h h"
  by (simp add: same_off_def)

lemma same_off_trans: "same_off A h h' \<Longrightarrow> same_off B h' h'' \<Longrightarrow> A \<union> B \<subseteq> C \<Longrightarrow> same_off C h h''"
  unfolding same_off_def by (metis UnCI subsetD)

lemma dpath_append [simp]:
  "dpath h a (xs @ y # ys) b \<longleftrightarrow> dpath h a xs y \<and> dpath h y ys b"
  by (induction xs arbitrary: a) auto

lemma dpath_eqI:
  "dpath h a xs b \<Longrightarrow> \<forall>p \<in> set (a # xs). dnext h' p = dnext h p \<Longrightarrow>
   \<forall>p \<in> set (xs @ [b]). dprev h' p = dprev h p \<Longrightarrow> dpath h' a xs b"
  by (induction xs arbitrary: a) auto

lemma dpath_same_off: "same_off A h h' \<Longrightarrow> set (a # xs @ [b]) \<inter> A = {} \<Longrightarrow> dpath h a xs b \<Longrightarrow> dpath h' a xs b"
  by (induction xs arbitrary: a) (auto simp: same_off_def)

lemma ring_same_off: "same_off A h h' \<Longrightarrow> set (l # xs) \<inter> A = {} \<Longrightarrow> ring h l xs \<Longrightarrow> ring h' l xs"
  unfolding ring_def using dpath_same_off [of A h h' l xs l] by auto

text \<open>The first and the last link of a path, and how a write to one of them changes it.\<close>

lemma dpath_first: "dpath h a xs b \<Longrightarrow> dnext h a = hd (xs @ [b]) \<and> dprev h (hd (xs @ [b])) = a"
  by (cases xs) auto

lemma dpath_last: "dpath h a xs b \<Longrightarrow> dprev h b = last (a # xs) \<and> dnext h (last (a # xs)) = b"
  by (induction xs arbitrary: a) auto

lemma run_field_writes [simp]:
  "p \<noteq> 0 \<Longrightarrow> set_next p v h = Inr (h\<lparr> dnext := (dnext h)(p := v) \<rparr>)"
  "p \<noteq> 0 \<Longrightarrow> set_prev p v h = Inr (h\<lparr> dprev := (dprev h)(p := v) \<rparr>)"
  "p \<noteq> 0 \<Longrightarrow> d_next h p = Inr (dnext h p)"
  "p \<noteq> 0 \<Longrightarrow> d_prev h p = Inr (dprev h p)"
  by (simp_all add: set_next_def set_prev_def d_next_def d_prev_def)

definition linked :: "dheap \<Rightarrow> addr \<Rightarrow> addr \<Rightarrow> addr \<Rightarrow> dheap" where
  "linked h a n b = h\<lparr> dnext := (dnext h)(n := b, a := n), dprev := (dprev h)(b := n, n := a) \<rparr>"

lemma list_add_linked:
  "n \<noteq> 0 \<Longrightarrow> a \<noteq> 0 \<Longrightarrow> b \<noteq> 0 \<Longrightarrow> list_add h n a b = Inr (linked h a n b)"
  by (simp add: list_add_def linked_def)

lemma same_off_linked: "{a, n, b} \<subseteq> A \<Longrightarrow> same_off A h (linked h a n b)"
  by (auto simp: same_off_def linked_def)

text \<open>Inserting between neighbours \<open>a\<close> and \<open>b\<close> of a ring, and joining them again.\<close>

lemma ring_rotate: "ring h l (xs @ t # ys) \<longleftrightarrow> ring h t (ys @ l # xs)"
  by (auto simp: ring_def)

lemma ring_add_first:
  assumes r: "ring h t zs" and n: "n \<notin> set (t # zs)" "n \<noteq> 0"
  shows "\<exists>h'. yf_list_insert_after h n t = Inr h' \<and> ring h' t (n # zs) \<and>
    same_off (insert n (set (t # zs))) h h'"
proof -
  let ?b = "dnext h t" and ?h' = "linked h t n (dnext h t)"
  have b: "?b \<in> set (t # zs)" using r by (cases zs) (auto simp: ring_def)
  from ring_nz [OF r this] ring_nz [OF r, of t] have nz: "t \<noteq> 0" "?b \<noteq> 0" by simp_all
  have "dpath ?h' n zs t"
  proof (cases zs)
    case Nil
    with r n nz show ?thesis by (auto simp: ring_def linked_def)
  next
    case (Cons z ws)
    then have p: "dpath h z ws t" and bz: "?b = z" and d: "distinct (t # z # ws)" "n \<notin> set (t # z # ws)"
      using r n by (auto simp: ring_def)
    have "dpath (linked h t n z) z ws t"
      by (rule dpath_eqI [OF p]) (use d in \<open>auto simp: linked_def\<close>)
    moreover have "dnext (linked h t n z) n = z" "dprev (linked h t n z) z = n"
      using d by (auto simp: linked_def)
    ultimately show ?thesis by (simp only: Cons bz dpath.simps simp_thms)
  qed
  then have "ring ?h' t (n # zs)" using r n by (auto simp: ring_def linked_def)
  moreover have "yf_list_insert_after h n t = Inr ?h'"
    using nz n by (simp add: yf_list_insert_after_def list_add_linked)
  ultimately show ?thesis using same_off_linked [of t n ?b "insert n (set (t # zs))" h] b by auto
qed

lemma ring_insert_after:
  assumes r: "ring h l (xs @ t # ys)" and n: "n \<notin> set (l # xs @ t # ys)" "n \<noteq> 0"
  shows "\<exists>h'. yf_list_insert_after h n t = Inr h' \<and> ring h' l (xs @ t # n # ys) \<and>
    same_off (insert n (set (l # xs @ t # ys))) h h'"
proof -
  have "ring h t (ys @ l # xs)" using r by (simp add: ring_rotate)
  then obtain h' where "yf_list_insert_after h n t = Inr h'" "ring h' t (n # ys @ l # xs)"
    "same_off (insert n (set (t # ys @ l # xs))) h h'"
    using ring_add_first [of h t "ys @ l # xs" n] n by auto
  moreover have "ring h' l (xs @ t # n # ys) \<longleftrightarrow> ring h' t ((n # ys) @ l # xs)"
    by (rule ring_rotate)
  moreover have "set (t # ys @ l # xs) = set (l # xs @ t # ys)" by auto
  ultimately show ?thesis by auto
qed

text \<open>Inserting before a node is inserting after its predecessor.\<close>

lemma insert_before_after:
  assumes "ring h l xs" "t \<in> set (l # xs)"
  shows "yf_list_insert_before h n t = yf_list_insert_after h n (dprev h t)"
proof -
  obtain zs where r: "ring h t zs"
  proof (cases "t = l")
    case True
    then show ?thesis using assms that by blast
  next
    case False
    then have "t \<in> set xs" using assms(2) by simp
    then obtain us vs where "xs = us @ t # vs" by (auto dest: split_list)
    then show ?thesis using that assms(1) ring_rotate by blast
  qed
  have "dpath h t zs t" using r by (simp add: ring_def)
  then have p: "dprev h t = last (t # zs)" "dnext h (last (t # zs)) = t"
    using dpath_last by blast+
  have "last (t # zs) \<in> set (t # zs)" by (rule last_in_set) simp
  from ring_nz [OF r this] have "last (t # zs) \<noteq> 0" .
  moreover have "t \<noteq> 0" by (rule ring_nz [OF r]) simp
  ultimately show ?thesis
    by (simp only: yf_list_insert_before_def yf_list_insert_after_def p run_field_writes
        run_bind_simps simp_thms)
qed

lemma ring_insert_before:
  assumes r: "ring h l (xs @ t # ys)" and n: "n \<notin> set (l # xs @ t # ys)" "n \<noteq> 0"
  shows "\<exists>h'. yf_list_insert_before h n t = Inr h' \<and> ring h' l (xs @ n # t # ys) \<and>
    same_off (insert n (set (l # xs @ t # ys))) h h'"
proof -
  have b: "yf_list_insert_before h n t = yf_list_insert_after h n (dprev h t)"
    by (rule insert_before_after [OF r]) simp
  have "dpath h l xs t" using r by (simp add: ring_def)
  then have p: "dprev h t = last (l # xs)" using dpath_last by blast
  show ?thesis
  proof (cases xs rule: rev_cases)
    case Nil
    then show ?thesis using ring_add_first [of h l "t # ys" n] r n b p by simp
  next
    case (snoc us u)
    then show ?thesis using ring_insert_after [of h l us u "t # ys" n] r n b p by simp
  qed
qed

lemma ring_add_last:
  assumes r: "ring h l xs" and n: "n \<notin> set (l # xs)" "n \<noteq> 0"
  shows "\<exists>h'. yf_list_insert_before h n l = Inr h' \<and> ring h' l (xs @ [n]) \<and>
    same_off (insert n (set (l # xs))) h h'"
proof -
  have b: "yf_list_insert_before h n l = yf_list_insert_after h n (dprev h l)"
    by (rule insert_before_after [OF r]) simp
  have "dpath h l xs l" using r by (simp add: ring_def)
  then have p: "dprev h l = last (l # xs)" using dpath_last by blast
  show ?thesis
  proof (cases xs rule: rev_cases)
    case Nil
    then show ?thesis using ring_add_first [of h l "[]" n] r n b p by simp
  next
    case (snoc us u)
    then show ?thesis using ring_insert_after [of h l us u "[]" n] r n b p by simp
  qed
qed

subsection \<open>Removing nodes\<close>

text \<open>Joining the neighbours of the head \<open>e\<close> of a ring leaves the ring of the others.\<close>

lemma list_del_join:
  assumes r: "ring h e (z # ws)"
  shows "\<exists>h'. list_del h (last (z # ws)) z = Inr h' \<and> ring h' z ws \<and> same_off (set (z # ws)) h h'"
proof -
  let ?v = "last (z # ws)"
  let ?h' = "h\<lparr> dprev := (dprev h)(z := ?v), dnext := (dnext h)(?v := z) \<rparr>"
  have v: "?v \<in> set (z # ws)" by (rule last_in_set) simp
  have nz: "?v \<noteq> 0" "z \<noteq> 0"
    by (rule ring_nz [OF r], use v in simp) (rule ring_nz [OF r], simp)
  have "dpath ?h' z ws z"
  proof (cases ws rule: rev_cases)
    case Nil
    then show ?thesis by simp
  next
    case (snoc vs u)
    then have p: "dpath h z vs u" and d: "distinct (z # vs @ [u])" and l: "?v = u"
      using r by (auto simp: ring_def)
    have "dpath (h\<lparr> dprev := (dprev h)(z := u), dnext := (dnext h)(u := z) \<rparr>) z vs u"
      by (rule dpath_eqI [OF p]) (use d in auto)
    then show ?thesis unfolding l using snoc by simp
  qed
  then have "ring ?h' z ws" using r by (auto simp: ring_def)
  moreover have "list_del h ?v z = Inr ?h'" using nz by (simp add: list_del_def)
  moreover have "same_off (set (z # ws)) h ?h'" using v by (auto simp: same_off_def)
  ultimately show ?thesis by blast
qed


lemma unlink_spec:
  assumes r: "ring h l (xs @ e # ys)"
  shows "\<exists>h'. unlink h e = Inr h' \<and> ring h' l (xs @ ys) \<and> same_off (set (l # xs @ ys)) h h'"
proof -
  have re: "ring h e (ys @ l # xs)" using r by (simp add: ring_rotate)
  obtain z ws where zw: "ys @ l # xs = z # ws" by (cases "ys @ l # xs") auto
  have "dpath h e (z # ws) e" using re zw by (simp add: ring_def)
  then have p: "dprev h e = last (z # ws)" "dnext h e = z"
    using dpath_last [of h e "z # ws" e] by auto
  have "e \<noteq> 0" by (rule ring_nz [OF re]) simp
  then have u: "unlink h e = list_del h (last (z # ws)) z"
    by (simp add: unlink_def p del: last.simps)
  from list_del_join [OF re [unfolded zw]]
  obtain h' where h': "list_del h (last (z # ws)) z = Inr h'" "ring h' z ws"
    "same_off (set (z # ws)) h h'" by blast
  have "ring h' l (xs @ ys)"
  proof (cases ys)
    case Nil
    then show ?thesis using zw h'(2) by simp
  next
    case (Cons y us)
    then have "ring h' z (us @ l # xs)" using zw h'(2) by simp
    then have "ring h' l (xs @ z # us)" by (simp add: ring_rotate)
    then show ?thesis using Cons zw by simp
  qed
  moreover have "set (z # ws) = set (l # xs @ ys)"
    unfolding zw [symmetric] by auto
  ultimately show ?thesis using u h' by auto
qed

lemma same_off_clear: "same_off {e} h (h\<lparr> dnext := (dnext h)(e := a), dprev := (dprev h)(e := b) \<rparr>)"
  by (simp add: same_off_def)

lemma ring_del:
  assumes r: "ring h l (xs @ e # ys)"
  shows "\<exists>h'. yf_list_del h e = Inr h' \<and> ring h' l (xs @ ys) \<and> dnext h' e = 0 \<and> dprev h' e = 0 \<and>
    same_off (set (l # xs @ e # ys)) h h'"
proof -
  from unlink_spec [OF r] obtain h1 where h1: "unlink h e = Inr h1" "ring h1 l (xs @ ys)"
    "same_off (set (l # xs @ ys)) h h1" by blast
  let ?h = "h1\<lparr> dnext := (dnext h1)(e := 0), dprev := (dprev h1)(e := 0) \<rparr>"
  have e: "e \<noteq> 0" by (rule ring_nz [OF r]) simp
  have "ring ?h l (xs @ ys)"
    by (rule ring_same_off [OF same_off_clear _ h1(2)]) (use r in \<open>auto simp: ring_def\<close>)
  moreover have "same_off (set (l # xs @ e # ys)) h ?h"
    by (rule same_off_trans [OF h1(3) same_off_clear]) auto
  moreover have "yf_list_del h e = Inr ?h" using h1(1) e by (simp add: yf_list_del_def)
  ultimately show ?thesis by auto
qed

lemma ring_del_init:
  assumes r: "ring h l (xs @ e # ys)"
  shows "\<exists>h'. yf_list_del_init h e = Inr h' \<and> ring h' l (xs @ ys) \<and> ring h' e [] \<and>
    same_off (set (l # xs @ e # ys)) h h'"
proof -
  from unlink_spec [OF r] obtain h1 where h1: "unlink h e = Inr h1" "ring h1 l (xs @ ys)"
    "same_off (set (l # xs @ ys)) h h1" by blast
  let ?h = "h1\<lparr> dnext := (dnext h1)(e := e), dprev := (dprev h1)(e := e) \<rparr>"
  have e: "e \<noteq> 0" by (rule ring_nz [OF r]) simp
  have "ring ?h l (xs @ ys)"
    by (rule ring_same_off [OF same_off_clear _ h1(2)]) (use r in \<open>auto simp: ring_def\<close>)
  moreover have "same_off (set (l # xs @ e # ys)) h ?h"
    by (rule same_off_trans [OF h1(3) same_off_clear]) auto
  moreover have "yf_list_del_init h e = Inr ?h"
    using h1(1) e by (simp add: yf_list_del_init_def yf_init_list_head_def)
  moreover have "ring ?h e []" using e by (simp add: ring_def)
  ultimately show ?thesis by blast
qed

text \<open>Deleting a node that is not linked changes nothing but its own fields.\<close>

lemma yf_list_del_unlinked:
  "e \<noteq> 0 \<Longrightarrow> dprev h e = 0 \<or> dnext h e = 0 \<Longrightarrow>
   yf_list_del h e = Inr (h\<lparr> dnext := (dnext h)(e := 0), dprev := (dprev h)(e := 0) \<rparr>)"
  by (auto simp: yf_list_del_def unlink_def list_del_def)

subsection \<open>Empty lists, pops, splices and traversals\<close>

lemma ring_empty: "ring h l xs \<Longrightarrow> yf_list_empty h l = Inr (xs = [])"
  by (cases xs) (auto simp: yf_list_empty_def ring_def)

lemma ring_init: "l \<noteq> 0 \<Longrightarrow> \<exists>h'. yf_init_list_head h l = Inr h' \<and> ring h' l [] \<and> same_off {l} h h'"
  by (auto simp: yf_init_list_head_def ring_def same_off_def)

lemma ring_pop_head:
  assumes r: "ring h l (x # xs)"
  shows "\<exists>h'. yf_list_pop_head h l = Inr (x, h') \<and> ring h' l xs \<and> same_off (set (l # xs)) h h'"
proof -
  from unlink_spec [of h l "[]" x xs] r obtain h' where
    h': "unlink h x = Inr h'" "ring h' l xs" "same_off (set (l # xs)) h h'" by auto
  have nz: "l \<noteq> 0" "x \<noteq> 0" by (rule ring_nz [OF r], simp)+
  have "dnext h l = x" "dprev h x = l" "x \<noteq> l" using r by (auto simp: ring_def)
  with nz h'(1) have "yf_list_pop_head h l = Inr (x, h')"
    using ring_empty [OF r] by (simp add: yf_list_pop_head_def unlink_def)
  with h' show ?thesis by blast
qed

lemma ring_pop_tail:
  assumes r: "ring h l (xs @ [x])"
  shows "\<exists>h'. yf_list_pop_tail h l = Inr (x, h') \<and> ring h' l xs \<and> same_off (set (l # xs)) h h'"
proof -
  from unlink_spec [of h l xs x "[]"] r obtain h' where
    h': "unlink h x = Inr h'" "ring h' l xs" "same_off (set (l # xs)) h h'" by auto
  have nz: "l \<noteq> 0" "x \<noteq> 0" by (rule ring_nz [OF r], simp)+
  have "dpath h l xs x" "dnext h x = l" "dprev h l = x" using r by (auto simp: ring_def)
  with nz h'(1) have "yf_list_pop_tail h l = Inr (x, h')"
    using ring_empty [OF r] by (simp add: yf_list_pop_tail_def unlink_def)
  with h' show ?thesis by blast
qed

lemma dpath_reend:
  "dpath h a xs b \<Longrightarrow> xs \<noteq> [] \<Longrightarrow> dnext h' a' = hd xs \<Longrightarrow> dprev h' (hd xs) = a' \<Longrightarrow>
   dnext h' (last xs) = b' \<Longrightarrow> dprev h' b' = last xs \<Longrightarrow>
   \<forall>p \<in> set (butlast xs). dnext h' p = dnext h p \<Longrightarrow>
   \<forall>p \<in> set (tl xs). dprev h' p = dprev h p \<Longrightarrow> dpath h' a' xs b'"
proof (induction xs arbitrary: a a')
  case (Cons x xs)
  show ?case
  proof (cases xs)
    case Nil
    with Cons.prems show ?thesis by simp
  next
    case (Cons y ys)
    have "dpath h' x xs b'"
      by (rule Cons.IH [of x x]) (use Cons.prems Cons in auto)
    with Cons.prems show ?thesis by simp
  qed
qed simp

definition spliced :: "dheap \<Rightarrow> addr \<Rightarrow> addr \<Rightarrow> addr \<Rightarrow> addr \<Rightarrow> addr \<Rightarrow> dheap" where
  "spliced h l m x w at = h\<lparr> dnext := (dnext h)(m := x, w := at, l := l),
                             dprev := (dprev h)(x := m, at := w, l := l) \<rparr>"

lemma ring_splice:
  assumes r: "ring h l xs" and p: "ring h m ys" and dj: "set (l # xs) \<inter> set (m # ys) = {}"
  shows "\<exists>h'. yf_list_splice h l m = Inr h' \<and> ring h' l [] \<and> ring h' m (xs @ ys) \<and>
    same_off (set (l # xs @ m # ys)) h h'"
proof (cases xs)
  case Nil
  then show ?thesis using r p ring_empty [OF r] by (auto simp: yf_list_splice_def)
next
  case (Cons x us)
  let ?w = "last xs" and ?at = "hd (ys @ [m])"
  let ?h = "spliced h l m x ?w ?at"
  have w: "?w \<in> set xs" and at: "?at \<in> set (m # ys)" using Cons by (cases ys; simp)+
  have nz: "l \<noteq> 0" "m \<noteq> 0" "x \<noteq> 0" "?w \<noteq> 0" "?at \<noteq> 0"
    using ring_nz [OF r] ring_nz [OF p] w at Cons by auto
  have dl: "dpath h l xs l" "distinct (l # xs)" and dm: "dpath h m ys m" "distinct (m # ys)"
    using r p by (simp_all add: ring_def)
  have ends: "dnext h l = x" "dprev h l = ?w" "dnext h m = ?at"
    using dpath_first [OF dl(1)] dpath_last [OF dl(1)] dpath_first [OF dm(1)] Cons by auto
  have ne: "l \<noteq> x" "m \<noteq> ?w" "l \<noteq> ?at" "l \<noteq> m" "l \<noteq> ?w" "x \<noteq> ?at" "m \<noteq> x"
    using dl(2) dj w at Cons by auto
  have run: "yf_list_splice h l m = Inr ?h"
    using nz ends ne ring_empty [OF r] Cons
    by (simp add: yf_list_splice_def list_splice_def yf_init_list_head_def spliced_def
        fun_upd_twist del: last.simps)
  have front: "dpath ?h m xs ?at"
  proof (rule dpath_reend [OF dl(1)])
    show "\<forall>p \<in> set (butlast xs). dnext ?h p = dnext h p"
    proof
      fix p assume p: "p \<in> set (butlast xs)"
      have "?w \<notin> set (butlast xs)"
        by (rule last_notin_butlast) (use Cons dl(2) in simp_all)
      moreover have "p \<in> set xs" using p by (rule in_set_butlastD)
      ultimately show "dnext ?h p = dnext h p"
        using p dl(2) dj by (auto simp: spliced_def)
    qed
    show "\<forall>p \<in> set (tl xs). dprev ?h p = dprev h p"
    proof
      fix p assume "p \<in> set (tl xs)"
      then show "dprev ?h p = dprev h p"
        using dl(2) dj at Cons by (auto simp: spliced_def)
    qed
  qed (use Cons ne in \<open>auto simp: spliced_def\<close>)
  have rear: "dpath ?h m (xs @ ys) m"
  proof (cases ys)
    case Nil
    then show ?thesis using front by simp
  next
    case (Cons y vs)
    have "dpath ?h y vs m"
    proof (rule dpath_eqI [of h])
      show "dpath h y vs m" using Cons dm by simp
      have d: "distinct (m # y # vs)" using Cons dm by simp
      have off: "l \<notin> set (m # y # vs)" "?w \<notin> set (m # y # vs)" "x \<notin> set (m # y # vs)"
        using dj w Cons \<open>xs = x # us\<close> by auto
      show "\<forall>p \<in> set (y # vs). dnext ?h p = dnext h p"
        using d off by (auto simp: spliced_def simp del: last.simps)
      show "\<forall>p \<in> set (vs @ [m]). dprev ?h p = dprev h p"
        using d off Cons by (auto simp: spliced_def simp del: last.simps)
    qed
    then show ?thesis using front Cons by simp
  qed
  have "ring ?h l []" using nz by (simp add: ring_def spliced_def)
  moreover have "ring ?h m (xs @ ys)"
    using rear r p dj by (auto simp: ring_def)
  moreover have "same_off (set (l # xs @ m # ys)) h ?h"
    using w at Cons by (auto simp: same_off_def spliced_def)
  ultimately show ?thesis using run by blast
qed

lemma dpath_walk:
  "dpath h a xs b \<Longrightarrow> 0 \<notin> set xs \<Longrightarrow> b \<notin> set xs \<Longrightarrow>
   dlist_walk (dnext h) b (dnext h a) = Some (Inr xs)"
proof (induction xs arbitrary: a)
  case (Cons x xs)
  then show ?case by (subst dlist_walk.simps) simp
qed (simp add: dlist_walk.simps)

lemma dpath_walk_r:
  "dpath h a xs b \<Longrightarrow> 0 \<notin> set xs \<Longrightarrow> a \<notin> set xs \<Longrightarrow>
   dlist_walk (dprev h) a (dprev h b) = Some (Inr (rev xs))"
proof (induction xs arbitrary: b rule: rev_induct)
  case (snoc x xs)
  then show ?case by (subst dlist_walk.simps) simp
qed (simp add: dlist_walk.simps)

lemma ring_for_each: "ring h l xs \<Longrightarrow> yf_list_for_each h l = Some (Inr xs)"
  unfolding yf_list_for_each_def by (rule dpath_walk) (auto simp: ring_def)

lemma ring_for_each_r: "ring h l xs \<Longrightarrow> yf_list_for_each_r h l = Some (Inr (rev xs))"
  unfolding yf_list_for_each_r_def by (rule dpath_walk_r) (auto simp: ring_def)


subsection \<open>The lists of a program as a map from heads to sequences\<close>

text \<open>
  The abstract state gives the nodes of every list by its head. \<open>list_op_ok\<close> is what a caller
  has to respect, \<open>list_op_abs\<close> and \<open>list_op_result\<close> the effect it can rely on.
\<close>

type_synonym lists = "addr \<Rightarrow> addr list option"

datatype list_op =
    Add_head addr addr | Add_tail addr addr | Del addr
  | Move_head addr addr | Move_tail addr addr | Splice addr addr
  | Pop_head addr | Pop_tail addr

definition dlist_step :: "dheap \<Rightarrow> list_op \<Rightarrow> (addr \<times> dheap) run" where
  "dlist_step h op =
     (let quiet = (\<lambda>r. run_bind r (\<lambda>h. Inr (0, h))) in
      case op of
        Add_head n l \<Rightarrow> quiet (yf_list_add_head h n l)
      | Add_tail n l \<Rightarrow> quiet (yf_list_add_tail h n l)
      | Del e \<Rightarrow> quiet (yf_list_del h e)
      | Move_head e l \<Rightarrow> quiet (yf_list_move_head h e l)
      | Move_tail e l \<Rightarrow> quiet (yf_list_move_tail h e l)
      | Splice l m \<Rightarrow> quiet (yf_list_splice h l m)
      | Pop_head l \<Rightarrow> yf_list_pop_head h l
      | Pop_tail l \<Rightarrow> yf_list_pop_tail h l)"

definition fresh_in :: "addr \<Rightarrow> lists \<Rightarrow> bool" where
  "fresh_in n ls \<longleftrightarrow> n \<noteq> 0 \<and> (\<forall>l xs. ls l = Some xs \<longrightarrow> n \<notin> set (l # xs))"

definition member_of :: "addr \<Rightarrow> lists \<Rightarrow> bool" where
  "member_of e ls \<longleftrightarrow> (\<exists>l xs. ls l = Some xs \<and> e \<in> set xs)"

definition lists_del :: "addr \<Rightarrow> lists \<Rightarrow> lists" where
  "lists_del e ls = (\<lambda>l. map_option (removeAll e) (ls l))"

fun list_op_ok :: "list_op \<Rightarrow> lists \<Rightarrow> bool" where
  "list_op_ok (Add_head n l) ls \<longleftrightarrow> fresh_in n ls \<and> ls l \<noteq> None"
| "list_op_ok (Add_tail n l) ls \<longleftrightarrow> fresh_in n ls \<and> ls l \<noteq> None"
| "list_op_ok (Del e) ls \<longleftrightarrow> member_of e ls"
| "list_op_ok (Move_head e l) ls \<longleftrightarrow> member_of e ls \<and> ls l \<noteq> None"
| "list_op_ok (Move_tail e l) ls \<longleftrightarrow> member_of e ls \<and> ls l \<noteq> None"
| "list_op_ok (Splice l m) ls \<longleftrightarrow> ls l \<noteq> None \<and> ls m \<noteq> None \<and> l \<noteq> m"
| "list_op_ok (Pop_head l) ls \<longleftrightarrow> ls l \<noteq> None"
| "list_op_ok (Pop_tail l) ls \<longleftrightarrow> ls l \<noteq> None"

fun list_op_abs :: "list_op \<Rightarrow> lists \<Rightarrow> lists" where
  "list_op_abs (Add_head n l) ls = ls(l \<mapsto> n # the (ls l))"
| "list_op_abs (Add_tail n l) ls = ls(l \<mapsto> the (ls l) @ [n])"
| "list_op_abs (Del e) ls = lists_del e ls"
| "list_op_abs (Move_head e l) ls = (let ls = lists_del e ls in ls(l \<mapsto> e # the (ls l)))"
| "list_op_abs (Move_tail e l) ls = (let ls = lists_del e ls in ls(l \<mapsto> the (ls l) @ [e]))"
| "list_op_abs (Splice l m) ls = ls(l \<mapsto> [], m \<mapsto> the (ls l) @ the (ls m))"
| "list_op_abs (Pop_head l) ls = ls(l \<mapsto> tl (the (ls l)))"
| "list_op_abs (Pop_tail l) ls = ls(l \<mapsto> butlast (the (ls l)))"

fun list_op_result :: "list_op \<Rightarrow> lists \<Rightarrow> addr" where
  "list_op_result (Pop_head l) ls = (case the (ls l) of [] \<Rightarrow> 0 | x # xs \<Rightarrow> x)"
| "list_op_result (Pop_tail l) ls = (case the (ls l) of [] \<Rightarrow> 0 | x # xs \<Rightarrow> last (x # xs))"
| "list_op_result _ ls = 0"

fun ops_run :: "('h \<Rightarrow> list_op \<Rightarrow> (addr \<times> 'h) run) \<Rightarrow> list_op list \<Rightarrow> 'h \<Rightarrow> (addr list \<times> 'h) run" where
  "ops_run step [] h = Inr ([], h)"
| "ops_run step (op # ops) h =
     run_bind (step h op) (\<lambda>(r, h). run_bind (ops_run step ops h) (\<lambda>(rs, h). Inr (r # rs, h)))"

fun ops_ok :: "list_op list \<Rightarrow> lists \<Rightarrow> bool" where
  "ops_ok [] ls = True"
| "ops_ok (op # ops) ls \<longleftrightarrow> list_op_ok op ls \<and> ops_ok ops (list_op_abs op ls)"

fun ops_results :: "list_op list \<Rightarrow> lists \<Rightarrow> addr list" where
  "ops_results [] ls = []"
| "ops_results (op # ops) ls = list_op_result op ls # ops_results ops (list_op_abs op ls)"

definition ops_abs :: "list_op list \<Rightarrow> lists \<Rightarrow> lists" where
  "ops_abs ops ls = fold list_op_abs ops ls"

locale linked_lists =
  fixes holds :: "'h \<Rightarrow> lists \<Rightarrow> bool"
    and step :: "'h \<Rightarrow> list_op \<Rightarrow> (addr \<times> 'h) run"
  assumes step_ok: "holds h ls \<Longrightarrow> list_op_ok op ls \<Longrightarrow>
    \<exists>h'. step h op = Inr (list_op_result op ls, h') \<and> holds h' (list_op_abs op ls)"
begin

lemma run_ok:
  "holds h ls \<Longrightarrow> ops_ok ops ls \<Longrightarrow>
   \<exists>h'. ops_run step ops h = Inr (ops_results ops ls, h') \<and> holds h' (ops_abs ops ls)"
proof (induction ops arbitrary: h ls)
  case (Cons op ops)
  then obtain h1 where 1: "step h op = Inr (list_op_result op ls, h1)"
    "holds h1 (list_op_abs op ls)" using step_ok [of h ls op] by auto
  from Cons.IH [OF 1(2)] Cons.prems(2) obtain h2 where
    "ops_run step ops h1 = Inr (ops_results ops (list_op_abs op ls), h2)"
    "holds h2 (ops_abs ops (list_op_abs op ls))" by auto
  with 1 show ?case by (simp add: ops_abs_def)
qed (simp add: ops_abs_def)

end

definition apart :: "lists \<Rightarrow> bool" where
  "apart ls \<longleftrightarrow> (\<forall>l m xs ys. ls l = Some xs \<longrightarrow> ls m = Some ys \<longrightarrow> l \<noteq> m \<longrightarrow>
     set (l # xs) \<inter> set (m # ys) = {})"

lemma apartD: "apart ls \<Longrightarrow> ls l = Some xs \<Longrightarrow> ls m = Some ys \<Longrightarrow> l \<noteq> m \<Longrightarrow> 
   set (l # xs) \<inter> set (m # ys) = {}"
  unfolding apart_def by blast

lemma fresh_inD: "fresh_in n ls \<Longrightarrow> ls l = Some xs \<Longrightarrow> n \<notin> set (l # xs)" "fresh_in n ls \<Longrightarrow> n \<noteq> 0"
  unfolding fresh_in_def by blast+

lemma apart_update:
  assumes "apart ls" "ls l = Some xs" "set xs' \<subseteq> set xs \<union> {n. fresh_in n ls}"
  shows "apart (ls(l \<mapsto> xs'))"
proof -
  have new: "set (l # xs') \<inter> set (m # ys) = {}" if "ls m = Some ys" "m \<noteq> l" for m ys
  proof -
    have "set (l # xs) \<inter> set (m # ys) = {}"
      by (rule apartD [OF assms(1,2) that(1)]) (use that(2) in simp)
    moreover have "{n. fresh_in n ls} \<inter> set (m # ys) = {}" using fresh_inD(1) that(1) by blast
    moreover have "set (l # xs') \<subseteq> set (l # xs) \<union> {n. fresh_in n ls}" using assms(3) by auto
    ultimately show ?thesis by blast
  qed
  show ?thesis
    unfolding apart_def
  proof (intro allI impI)
    fix a b us vs
    assume "(ls(l \<mapsto> xs')) a = Some us" "(ls(l \<mapsto> xs')) b = Some vs" "a \<noteq> b"
    then show "set (a # us) \<inter> set (b # vs) = {}"
      using new apartD [OF assms(1), of a us b vs]
      by (cases "a = l"; cases "b = l") (simp_all, blast)
  qed
qed

definition heap_lists :: "dheap \<Rightarrow> lists \<Rightarrow> bool" where
  "heap_lists h ls \<longleftrightarrow>
     (\<forall>l xs. ls l = Some xs \<longrightarrow> ring h l xs) \<and> apart ls"

text \<open>Changing one list, within its own nodes and unused ones, keeps the others.\<close>

lemma heap_lists_update:
  assumes hl: "heap_lists h ls" and l: "ls l = Some xs" and r: "ring h' l xs'"
    and off: "same_off A h h'" and A: "A \<subseteq> set (l # xs) \<union> {n. fresh_in n ls}"
    and sub: "set xs' \<subseteq> set xs \<union> {n. fresh_in n ls}"
  shows "heap_lists h' (ls(l \<mapsto> xs'))"
proof -
  have ap: "apart ls" using hl by (simp add: heap_lists_def)
  have "ring h' m ys" if "ls m = Some ys" "m \<noteq> l" for m ys
  proof (rule ring_same_off [OF off])
    have "set (m # ys) \<inter> set (l # xs) = {}" by (rule apartD [OF ap that(1) l that(2)])
    moreover have "set (m # ys) \<inter> {n. fresh_in n ls} = {}" using fresh_inD(1) that(1) by blast
    ultimately show "set (m # ys) \<inter> A = {}" using A by blast
    show "ring h m ys" using hl that(1) by (simp add: heap_lists_def)
  qed
  then show ?thesis
    unfolding heap_lists_def using r apart_update [OF ap l sub] by (auto split: if_splits)
qed

lemma heap_lists_ring: "heap_lists h ls \<Longrightarrow> ls l = Some xs \<Longrightarrow> ring h l xs"
  by (simp add: heap_lists_def)

lemma heap_lists_member:
  assumes hl: "heap_lists h ls" and e: "member_of e ls"
  obtains l us vs where "ls l = Some (us @ e # vs)" "ring h l (us @ e # vs)"
    "lists_del e ls = ls(l \<mapsto> us @ vs)" "fresh_in e (lists_del e ls)"
proof -
  from e obtain l xs where l: "ls l = Some xs" "e \<in> set xs" by (auto simp: member_of_def)
  then obtain us vs where xs: "xs = us @ e # vs" by (auto dest: split_list)
  have r: "ring h l (us @ e # vs)" using heap_lists_ring [OF hl l(1)] xs by simp
  have here: "removeAll e (us @ e # vs) = us @ vs" using r by (auto simp: ring_def)
  have there: "e \<notin> set (m # ys)" if "ls m = Some ys" "m \<noteq> l" for m ys
  proof -
    have "set (m # ys) \<inter> set (l # xs) = {}"
      using hl that l(1) apartD unfolding heap_lists_def by blast
    then show ?thesis using l(2) by auto
  qed
  have d: "lists_del e ls = ls(l \<mapsto> us @ vs)"
  proof
    fix m
    show "lists_del e ls m = (ls(l \<mapsto> us @ vs)) m"
      using here l xs there [of m] by (cases "ls m") (auto simp: lists_del_def)
  qed
  have "e \<noteq> l" "e \<notin> set (us @ vs)" using r by (auto simp: ring_def)
  moreover have "e \<noteq> 0" by (rule ring_nz [OF r]) simp
  ultimately have "fresh_in e (lists_del e ls)"
    unfolding d fresh_in_def using there by (auto split: if_splits)
  with that [OF _ r d] l xs show ?thesis by blast
qed

lemma unlink_lists:
  assumes hl: "heap_lists h ls" and e: "member_of e ls"
  shows "\<exists>h'. unlink h e = Inr h' \<and> heap_lists h' (lists_del e ls)"
proof -
  obtain l us vs where l: "ls l = Some (us @ e # vs)" "ring h l (us @ e # vs)"
    "lists_del e ls = ls(l \<mapsto> us @ vs)" by (rule heap_lists_member [OF hl e])
  from unlink_spec [OF l(2)] obtain h' where "unlink h e = Inr h'" "ring h' l (us @ vs)"
    "same_off (set (l # us @ vs)) h h'" by blast
  with heap_lists_update [OF hl l(1), of h' "us @ vs"] show ?thesis unfolding l(3) by auto
qed

lemma del_lists:
  assumes hl: "heap_lists h ls" and e: "member_of e ls"
  shows "\<exists>h'. yf_list_del h e = Inr h' \<and> heap_lists h' (lists_del e ls)"
proof -
  obtain l us vs where l: "ls l = Some (us @ e # vs)" "ring h l (us @ e # vs)"
    "lists_del e ls = ls(l \<mapsto> us @ vs)" by (rule heap_lists_member [OF hl e])
  from ring_del [OF l(2)] obtain h' where "yf_list_del h e = Inr h'" "ring h' l (us @ vs)"
    "same_off (set (l # us @ e # vs)) h h'" by blast
  with heap_lists_update [OF hl l(1), of h' "us @ vs"] show ?thesis unfolding l(3) by auto
qed

lemma add_head_lists:
  assumes hl: "heap_lists h ls" and l: "ls l = Some xs" and n: "fresh_in n ls"
  shows "\<exists>h'. yf_list_add_head h n l = Inr h' \<and> heap_lists h' (ls(l \<mapsto> n # xs))"
proof -
  from ring_add_first [OF heap_lists_ring [OF hl l] fresh_inD(1) [OF n l] fresh_inD(2) [OF n]]
  obtain h' where
    "yf_list_insert_after h n l = Inr h'" "ring h' l (n # xs)"
    "same_off (insert n (set (l # xs))) h h'" by blast
  with heap_lists_update [OF hl l, of h' "n # xs"] n show ?thesis
    by (auto simp: yf_list_add_head_def)
qed

lemma add_tail_lists:
  assumes hl: "heap_lists h ls" and l: "ls l = Some xs" and n: "fresh_in n ls"
  shows "\<exists>h'. yf_list_add_tail h n l = Inr h' \<and> heap_lists h' (ls(l \<mapsto> xs @ [n]))"
proof -
  from ring_add_last [OF heap_lists_ring [OF hl l] fresh_inD(1) [OF n l] fresh_inD(2) [OF n]]
  obtain h' where
    "yf_list_insert_before h n l = Inr h'" "ring h' l (xs @ [n])"
    "same_off (insert n (set (l # xs))) h h'" by blast
  with heap_lists_update [OF hl l, of h' "xs @ [n]"] n show ?thesis
    by (auto simp: yf_list_add_tail_def)
qed

lemma lists_del_dom: "ls l \<noteq> None \<Longrightarrow> lists_del e ls l = Some (the (lists_del e ls l))"
  by (auto simp: lists_del_def)

lemma move_lists:
  assumes hl: "heap_lists h ls" and e: "member_of e ls" and l: "ls l \<noteq> None"
  shows "\<exists>h'. yf_list_move_head h e l = Inr h' \<and>
      heap_lists h' ((lists_del e ls)(l \<mapsto> e # the (lists_del e ls l)))"
    and "\<exists>h'. yf_list_move_tail h e l = Inr h' \<and>
      heap_lists h' ((lists_del e ls)(l \<mapsto> the (lists_del e ls l) @ [e]))"
proof -
  from unlink_lists [OF hl e] obtain h1 where h1: "unlink h e = Inr h1" "heap_lists h1 (lists_del e ls)"
    by blast
  have fr: "fresh_in e (lists_del e ls)" by (rule heap_lists_member [OF hl e])
  show "\<exists>h'. yf_list_move_head h e l = Inr h' \<and>
      heap_lists h' ((lists_del e ls)(l \<mapsto> e # the (lists_del e ls l)))"
    using add_head_lists [OF h1(2) lists_del_dom [of ls l, OF l] fr] h1(1)
    by (simp add: yf_list_move_head_def)
  show "\<exists>h'. yf_list_move_tail h e l = Inr h' \<and>
      heap_lists h' ((lists_del e ls)(l \<mapsto> the (lists_del e ls l) @ [e]))"
    using add_tail_lists [OF h1(2) lists_del_dom [of ls l, OF l] fr] h1(1)
    by (simp add: yf_list_move_tail_def)
qed

lemma splice_lists:
  assumes hl: "heap_lists h ls" and l: "ls l = Some xs" and m: "ls m = Some ys" and lm: "l \<noteq> m"
  shows "\<exists>h'. yf_list_splice h l m = Inr h' \<and> heap_lists h' (ls(l \<mapsto> [], m \<mapsto> xs @ ys))"
proof -
  have ap: "apart ls" using hl by (simp add: heap_lists_def)
  note dj = apartD [OF ap l m lm]
  from ring_splice [OF heap_lists_ring [OF hl l] heap_lists_ring [OF hl m] dj]
  obtain h' where h': "yf_list_splice h l m = Inr h'" "ring h' l []" "ring h' m (xs @ ys)"
    "same_off (set (l # xs @ m # ys)) h h'" by blast
  have other: "ring h' k zs" if "ls k = Some zs" "k \<noteq> l" "k \<noteq> m" for k zs
  proof (rule ring_same_off [OF h'(4) _ heap_lists_ring [OF hl that(1)]])
    show "set (k # zs) \<inter> set (l # xs @ m # ys) = {}"
      using apartD [OF ap that(1) l that(2)] apartD [OF ap that(1) m that(3)] by auto
  qed
  have ap1: "apart (ls(l \<mapsto> []))" by (rule apart_update [OF ap l]) simp
  have "fresh_in x (ls(l \<mapsto> []))" if "x \<in> set xs" for x
  proof -
    have "x \<noteq> 0" by (rule ring_nz [OF heap_lists_ring [OF hl l]]) (use that in simp)
    moreover have "x \<noteq> l" using heap_lists_ring [OF hl l] that by (auto simp: ring_def)
    moreover have "x \<notin> set (k # zs)" if "ls k = Some zs" "k \<noteq> l" for k zs
      using apartD [OF ap that(1) l that(2)] \<open>x \<in> set xs\<close> by auto
    ultimately show ?thesis by (auto simp: fresh_in_def split: if_splits)
  qed
  then have "apart (ls(l \<mapsto> [], m \<mapsto> xs @ ys))"
    using m lm by (intro apart_update [OF ap1, of m ys]) auto
  then have "heap_lists h' (ls(l \<mapsto> [], m \<mapsto> xs @ ys))"
    unfolding heap_lists_def using h'(2,3) other lm by (auto split: if_splits)
  with h'(1) show ?thesis by blast
qed

lemma pop_lists:
  assumes hl: "heap_lists h ls" and l: "ls l = Some xs"
  shows "\<exists>h'. yf_list_pop_head h l = Inr (case xs of [] \<Rightarrow> 0 | x # _ \<Rightarrow> x, h') \<and>
      heap_lists h' (ls(l \<mapsto> tl xs))"
    and "\<exists>h'. yf_list_pop_tail h l = Inr (case xs of [] \<Rightarrow> 0 | x # us \<Rightarrow> last (x # us), h') \<and>
      heap_lists h' (ls(l \<mapsto> butlast xs))"
proof -
  have r: "ring h l xs" by (rule heap_lists_ring [OF hl l])
  have nil: "ls(l \<mapsto> xs) = ls" using l by (simp add: fun_upd_idem)
  show "\<exists>h'. yf_list_pop_head h l = Inr (case xs of [] \<Rightarrow> 0 | x # _ \<Rightarrow> x, h') \<and>
      heap_lists h' (ls(l \<mapsto> tl xs))"
  proof (cases xs)
    case Nil
    then show ?thesis using ring_empty [OF r] hl nil by (simp add: yf_list_pop_head_def)
  next
    case (Cons x us)
    from ring_pop_head [of h l x us] r Cons obtain h' where
      "yf_list_pop_head h l = Inr (x, h')" "ring h' l us" "same_off (set (l # us)) h h'" by auto
    with heap_lists_update [OF hl l, of h' us] Cons show ?thesis by auto
  qed
  show "\<exists>h'. yf_list_pop_tail h l = Inr (case xs of [] \<Rightarrow> 0 | x # us \<Rightarrow> last (x # us), h') \<and>
      heap_lists h' (ls(l \<mapsto> butlast xs))"
  proof (cases xs rule: rev_cases)
    case Nil
    then show ?thesis using ring_empty [OF r] hl nil by (simp add: yf_list_pop_tail_def)
  next
    case (snoc us x)
    from ring_pop_tail [of h l us x] r snoc obtain h' where
      "yf_list_pop_tail h l = Inr (x, h')" "ring h' l us" "same_off (set (l # us)) h h'" by auto
    with heap_lists_update [OF hl l, of h' us] snoc show ?thesis
      by (cases us) auto
  qed
qed

interpretation dll: linked_lists heap_lists dlist_step
proof
  fix h ls op
  assume hl: "heap_lists h ls" and ok: "list_op_ok op ls"
  show "\<exists>h'. dlist_step h op = Inr (list_op_result op ls, h') \<and> heap_lists h' (list_op_abs op ls)"
  proof (cases op)
    case (Add_head n l)
    with ok add_head_lists [OF hl, of l _ n] show ?thesis by (fastforce simp: dlist_step_def)
  next
    case (Add_tail n l)
    with ok add_tail_lists [OF hl, of l _ n] show ?thesis by (fastforce simp: dlist_step_def)
  next
    case (Del e)
    with ok del_lists [OF hl, of e] show ?thesis by (fastforce simp: dlist_step_def)
  next
    case (Move_head e l)
    with ok move_lists(1) [OF hl, of e l] show ?thesis
      by (fastforce simp: dlist_step_def Let_def)
  next
    case (Move_tail e l)
    with ok move_lists(2) [OF hl, of e l] show ?thesis
      by (fastforce simp: dlist_step_def Let_def)
  next
    case (Splice l m)
    with ok splice_lists [OF hl, of l _ m] show ?thesis by (fastforce simp: dlist_step_def)
  next
    case (Pop_head l)
    with ok pop_lists(1) [OF hl, of l] show ?thesis by (fastforce simp: dlist_step_def)
  next
    case (Pop_tail l)
    with ok pop_lists(2) [OF hl, of l] show ?thesis by (fastforce simp: dlist_step_def)
  qed
qed


text \<open>
  C7: Any sequence of insertions, deletions, moves, splices and pops that respects the callers'
  obligations runs on the heap without touching a null pointer, returns the nodes the abstract
  lists give, and leaves a heap that represents the abstract lists.
\<close>

theorem yf_list_refines_sequences:
  assumes "heap_lists h ls" and "ops_ok ops ls"
  shows "\<exists>h'. ops_run dlist_step ops h = Inr (ops_results ops ls, h') \<and>
    heap_lists h' (ops_abs ops ls)"
  using assms by (rule dll.run_ok)

theorem yf_list_refines_sequences_witness:
  "\<exists>h'. ops_run dlist_step [Add_tail 16 8, Add_tail 24 8, Move_head 24 8, Pop_tail 8]
          \<lparr> dnext = (\<lambda>_. 0)(8 := 8), dprev = (\<lambda>_. 0)(8 := 8) \<rparr> = Inr ([0, 0, 0, 16], h') \<and>
     ring h' 8 [24]"
proof -
  let ?h = "\<lparr> dnext = (\<lambda>_. 0)(8 := 8), dprev = (\<lambda>_. 0)(8 := 8) \<rparr>" and ?ls = "[8 \<mapsto> []]"
  let ?ops = "[Add_tail 16 8, Add_tail 24 8, Move_head 24 8, Pop_tail 8]"
  have 1: "heap_lists ?h ?ls" by (auto simp: heap_lists_def apart_def ring_def)
  have 2: "ops_ok ?ops ?ls"
    by (auto simp: fresh_in_def member_of_def lists_del_def intro!: exI [of _ 8])
  have r: "ops_results ?ops ?ls = [0, 0, 0, 16]" by (simp add: lists_del_def Let_def)
  have a: "ops_abs ?ops ?ls = [8 \<mapsto> [24]]"
    by (simp add: ops_abs_def lists_del_def Let_def fun_eq_iff)
  from yf_list_refines_sequences [OF 1 2, unfolded r a] show ?thesis
    by (auto simp: heap_lists_def)
qed

text \<open>
  C8: Both traversals of a list end, visit every node exactly once, and the one from the tail
  visits them in the opposite order.
\<close>

theorem yf_list_for_each_correct:
  assumes "ring h l xs"
  shows "yf_list_for_each h l = Some (Inr xs) \<and> yf_list_for_each_r h l = Some (Inr (rev xs)) \<and>
    distinct xs"
  using ring_for_each [OF assms] ring_for_each_r [OF assms] assms by (simp add: ring_def)

theorem yf_list_for_each_correct_witness:
  "yf_list_for_each \<lparr> dnext = (\<lambda>_. 0)(8 := 16, 16 := 24, 24 := 8),
                       dprev = (\<lambda>_. 0)(16 := 8, 24 := 16, 8 := 24) \<rparr> 8 = Some (Inr [16, 24])"
  using yf_list_for_each_correct [of "\<lparr> dnext = (\<lambda>_. 0)(8 := 16, 16 := 24, 24 := 8),
                       dprev = (\<lambda>_. 0)(16 := 8, 24 := 16, 8 := 24) \<rparr>" 8 "[16, 24]"]
  by (simp add: ring_def)

end
