(* ===== verification/Mem_Pool.thy ===== *)
theory Mem_Pool
  imports Bit_Op
begin

section \<open>Memory pools\<close>

text \<open>
  Models \<^verbatim>\<open>base_struct/yf_mem_pool.h\<close> and \<^verbatim>\<open>yf_mem_pool.c\<close>. A pool is the chain of its
  blocks (the first one is the pool itself), the index of \<^verbatim>\<open>current\<close>, and the lists of
  large allocations (the address of the record and its field \<^verbatim>\<open>alloc\<close>) and of cleanup
  records, newest first; addresses are natural numbers below \<open>2 ^ 64\<close>.
  The C library's allocator is the parameter \<open>al\<close>: given the ranges that are allocated, an
  alignment and a size it answers an address, 0 when it fails. \<open>allocator_ok\<close> is its
  documented behaviour. The sizes of the structures are those of an LP64 platform.
\<close>

definition SIZEOF_POOL_DATA :: nat where "SIZEOF_POOL_DATA = 32"
definition SIZEOF_POOL :: nat where "SIZEOF_POOL = 80"
definition SIZEOF_LARGE :: nat where "SIZEOF_LARGE = 16"
definition SIZEOF_CLEANUP :: nat where "SIZEOF_CLEANUP = 24"
definition YF_ALIGNMENT :: nat where "YF_ALIGNMENT = 8"
definition YF_POOL_ALIGNMENT :: nat where "YF_POOL_ALIGNMENT = 16"
definition YF_MAX_ALLOC_FROM_POOL :: nat where "YF_MAX_ALLOC_FROM_POOL = 4096 - 1"

lemmas pool_sizes = SIZEOF_POOL_DATA_def SIZEOF_POOL_def SIZEOF_LARGE_def SIZEOF_CLEANUP_def
  YF_ALIGNMENT_def YF_POOL_ALIGNMENT_def YF_MAX_ALLOC_FROM_POOL_def

type_synonym allocator = "range list \<Rightarrow> nat \<Rightarrow> nat \<Rightarrow> addr"

definition allocator_ok :: "allocator \<Rightarrow> bool" where
  "allocator_ok al \<longleftrightarrow> (\<forall>live algn n. al live algn n \<noteq> 0 \<longrightarrow>
     algn dvd al live algn n \<and> al live algn n + n < 2 ^ 64 \<and>
     (\<forall>r \<in> set live. sep (al live algn n, n) r))"

definition yf_free :: "addr \<Rightarrow> range list \<Rightarrow> range list run" where
  "yf_free a live =
     (if a = 0 then Inr live
      else require Bad_free (a \<in> fst ` set live) (Inr (filter (\<lambda>r. fst r \<noteq> a) live)))"

record pool_data =
  base :: addr
  last_p :: addr
  end_p :: addr
  failed :: u32

record pool_cleanup =
  c_addr :: addr
  c_handler :: addr
  c_data :: addr

record pool =
  blocks :: "pool_data list"
  max_alloc :: nat
  current :: nat
  large :: "(addr \<times> addr) list"
  cleanup :: "pool_cleanup list"

subsection \<open>Creation\<close>

definition yf_create_pool ::
  "allocator \<Rightarrow> range list \<Rightarrow> nat \<Rightarrow> (pool option \<times> range list) run" where
  "yf_create_pool al live n =
     (let p = al live YF_POOL_ALIGNMENT n in
      if p = 0 then Inr (None, live)
      else require Out_of_bounds (SIZEOF_POOL \<le> n)
        (Inr (Some \<lparr> blocks = [\<lparr> base = p, last_p = p + SIZEOF_POOL, end_p = p + n, failed = 0 \<rparr>],
                     max_alloc = (if n - SIZEOF_POOL < YF_MAX_ALLOC_FROM_POOL
                                  then n - SIZEOF_POOL else YF_MAX_ALLOC_FROM_POOL),
                     current = 0, large = [], cleanup = [] \<rparr>,
              (p, n) # live)))"

subsection \<open>Allocation\<close>

text \<open>\<^verbatim>\<open>(size_t)(p->d.end - m)\<close>: the difference modulo \<open>2 ^ 64\<close>.\<close>

definition size_diff :: "addr \<Rightarrow> addr \<Rightarrow> nat" where
  "size_diff e m = (if m \<le> e then e - m else 2 ^ 64 - (m - e))"

text \<open>The loop over the blocks from \<^verbatim>\<open>current\<close>, for the aligned and the unaligned variant.\<close>

fun fit_block :: "bool \<Rightarrow> nat \<Rightarrow> pool_data list \<Rightarrow> (addr \<times> pool_data list) option" where
  "fit_block aligned n [] = None"
| "fit_block aligned n (p # ps) =
     (let m = (if aligned then align_up (last_p p) YF_ALIGNMENT else last_p p) in
      if size_diff (end_p p) m \<ge> n then Some (m, p\<lparr> last_p := m + n \<rparr> # ps)
      else map_option (\<lambda>(m, ps). (m, p # ps)) (fit_block aligned n ps))"

text \<open>The loop of \<^verbatim>\<open>yf_palloc_block\<close> that counts failures and moves \<^verbatim>\<open>current\<close> on.\<close>

fun bump_failed :: "nat \<Rightarrow> nat \<Rightarrow> pool_data list \<Rightarrow> nat \<times> pool_data list" where
  "bump_failed i cur (p # q # ps) =
     (let (cur, ps) = bump_failed (i + 1) (if failed p > 4 then i + 1 else cur) (q # ps) in
      (cur, p\<lparr> failed := failed p + 1 \<rparr> # ps))"
| "bump_failed i cur ps = (cur, ps)"

definition yf_palloc_block ::
  "allocator \<Rightarrow> pool \<Rightarrow> range list \<Rightarrow> nat \<Rightarrow> addr \<times> pool \<times> range list" where
  "yf_palloc_block al P live n =
     (let psize = end_p (hd (blocks P)) - base (hd (blocks P));
          m0 = al live YF_POOL_ALIGNMENT psize in
      if m0 = 0 then (0, P, live)
      else let m = align_up (m0 + SIZEOF_POOL_DATA) YF_ALIGNMENT;
               new = \<lparr> base = m0, last_p = m + n, end_p = m0 + psize, failed = 0 \<rparr>;
               (cur, tail) = bump_failed (current P) (current P) (drop (current P) (blocks P)) in
        (m, P\<lparr> blocks := take (current P) (blocks P) @ tail @ [new], current := cur \<rparr>,
         (m0, psize) # live))"

definition palloc_small ::
  "bool \<Rightarrow> allocator \<Rightarrow> pool \<Rightarrow> range list \<Rightarrow> nat \<Rightarrow> addr \<times> pool \<times> range list" where
  "palloc_small aligned al P live n =
     (case fit_block aligned n (drop (current P) (blocks P)) of
        Some (m, ps) \<Rightarrow> (m, P\<lparr> blocks := take (current P) (blocks P) @ ps \<rparr>, live)
      | None \<Rightarrow> yf_palloc_block al P live n)"

text \<open>The first five large records are searched for a free one.\<close>

fun reuse_large :: "nat \<Rightarrow> addr \<Rightarrow> (addr \<times> addr) list \<Rightarrow> (addr \<times> addr) list option" where
  "reuse_large n p [] = None"
| "reuse_large n p ((rec, a) # ls) =
     (if a = 0 then Some ((rec, p) # ls)
      else if n > 3 then None
      else map_option ((#) (rec, a)) (reuse_large (n + 1) p ls))"

text \<open>
  A large allocation takes its record from the pool with \<^verbatim>\<open>yf_palloc\<close>, which calls
  \<^verbatim>\<open>yf_palloc_large\<close> again when even a record is larger than \<^verbatim>\<open>max\<close>: \<open>None\<close> is a
  recursion that does not end.
\<close>

partial_function (option) yf_palloc_large ::
  "allocator \<Rightarrow> pool \<Rightarrow> range list \<Rightarrow> nat \<Rightarrow> (addr \<times> pool \<times> range list) option" where
  "yf_palloc_large al P live n =
     (let p = al live YF_POOL_ALIGNMENT n in
      if p = 0 then Some (0, P, live)
      else case reuse_large 0 p (large P) of
          Some ls \<Rightarrow> Some (p, P\<lparr> large := ls \<rparr>, (p, n) # live)
        | None \<Rightarrow>
          Option.bind
            (if SIZEOF_LARGE \<le> max_alloc P
             then Some (palloc_small True al P ((p, n) # live) SIZEOF_LARGE)
             else yf_palloc_large al P ((p, n) # live) SIZEOF_LARGE)
            (\<lambda>(rec, P, live).
               if rec = 0 then Some (0, P, filter (\<lambda>r. fst r \<noteq> p) live)
               else Some (p, P\<lparr> large := (rec, p) # large P \<rparr>, live)))"

definition yf_palloc ::
  "allocator \<Rightarrow> pool \<Rightarrow> range list \<Rightarrow> nat \<Rightarrow> (addr \<times> pool \<times> range list) option" where
  "yf_palloc al P live n =
     (if n \<le> max_alloc P then Some (palloc_small True al P live n)
      else yf_palloc_large al P live n)"

definition yf_pnalloc ::
  "allocator \<Rightarrow> pool \<Rightarrow> range list \<Rightarrow> nat \<Rightarrow> (addr \<times> pool \<times> range list) option" where
  "yf_pnalloc al P live n =
     (if n \<le> max_alloc P then Some (palloc_small False al P live n)
      else yf_palloc_large al P live n)"

text \<open>\<^verbatim>\<open>yf_pmemalign\<close> always records its allocation.\<close>

definition yf_pmemalign ::
  "allocator \<Rightarrow> pool \<Rightarrow> range list \<Rightarrow> nat \<Rightarrow> nat \<Rightarrow> (addr \<times> pool \<times> range list) option" where
  "yf_pmemalign al P live n alignment =
     (let p = al live alignment n in
      if p = 0 then Some (0, P, live)
      else Option.bind (yf_palloc al P ((p, n) # live) SIZEOF_LARGE) (\<lambda>(rec, P, live).
        if rec = 0 then Some (0, P, filter (\<lambda>r. fst r \<noteq> p) live)
        else Some (p, P\<lparr> large := (rec, p) # large P \<rparr>, live)))"

text \<open>\<^verbatim>\<open>yf_pcalloc\<close> also returns the range it sets to zero.\<close>

definition yf_pcalloc ::
  "allocator \<Rightarrow> pool \<Rightarrow> range list \<Rightarrow> nat \<Rightarrow> (addr \<times> range list \<times> pool \<times> range list) option" where
  "yf_pcalloc al P live n =
     map_option (\<lambda>(p, P, live). (p, if p \<noteq> 0 then [(p, n)] else [], P, live)) (yf_palloc al P live n)"

subsection \<open>Release\<close>

fun pfree_large :: "addr \<Rightarrow> (addr \<times> addr) list \<Rightarrow> (addr \<times> addr) list option" where
  "pfree_large p [] = None"
| "pfree_large p ((rec, a) # ls) =
     (if p = a then Some ((rec, 0) # ls) else map_option ((#) (rec, a)) (pfree_large p ls))"

definition yf_pfree :: "pool \<Rightarrow> range list \<Rightarrow> addr \<Rightarrow> (int \<times> pool \<times> range list) run" where
  "yf_pfree P live p =
     (case pfree_large p (large P) of
        None \<Rightarrow> Inr (YF_DECLINED, P, live)
      | Some ls \<Rightarrow> run_bind (yf_free p live) (\<lambda>live. Inr (YF_OK, P\<lparr> large := ls \<rparr>, live)))"

definition yf_pool_cleanup_add ::
  "allocator \<Rightarrow> pool \<Rightarrow> range list \<Rightarrow> nat \<Rightarrow> (addr \<times> pool \<times> range list) option" where
  "yf_pool_cleanup_add al P live n =
     Option.bind (yf_palloc al P live SIZEOF_CLEANUP) (\<lambda>(c, P, live).
     if c = 0 then Some (0, P, live)
     else if n \<noteq> 0
     then Option.bind (yf_palloc al P live n) (\<lambda>(d, P, live).
       if d = 0 then Some (0, P, live)
       else Some (c, P\<lparr> cleanup := \<lparr> c_addr = c, c_handler = 0, c_data = d \<rparr> # cleanup P \<rparr>, live))
     else Some (c, P\<lparr> cleanup := \<lparr> c_addr = c, c_handler = 0, c_data = 0 \<rparr> # cleanup P \<rparr>, live))"

text \<open>The caller stores the handler in the record it gets back, the newest one.\<close>

definition set_handler :: "pool \<Rightarrow> addr \<Rightarrow> pool" where
  "set_handler P f = (case cleanup P of
     [] \<Rightarrow> P | c # cs \<Rightarrow> P\<lparr> cleanup := c\<lparr> c_handler := f \<rparr> # cs \<rparr>)"

definition run_cleanups :: "pool \<Rightarrow> (addr \<times> addr) list" where
  "run_cleanups P =
     map (\<lambda>c. (c_handler c, c_data c)) (filter (\<lambda>c. c_handler c \<noteq> 0) (cleanup P))"

fun free_all :: "addr list \<Rightarrow> range list \<Rightarrow> range list run" where
  "free_all [] live = Inr live"
| "free_all (a # as) live = run_bind (yf_free a live) (free_all as)"

definition live_large :: "pool \<Rightarrow> addr list" where
  "live_large P = filter (\<lambda>a. a \<noteq> 0) (map snd (large P))"

text \<open>The results of destroy and reset: the handlers called, in order, and the memory left.\<close>

definition yf_destroy_pool :: "pool \<Rightarrow> range list \<Rightarrow> ((addr \<times> addr) list \<times> range list) run" where
  "yf_destroy_pool P live =
     run_bind (free_all (live_large P) live) (\<lambda>live.
     run_bind (free_all (map base (blocks P)) live) (\<lambda>live.
     Inr (run_cleanups P, live)))"

definition yf_reset_pool :: "pool \<Rightarrow> range list \<Rightarrow> ((addr \<times> addr) list \<times> pool \<times> range list) run" where
  "yf_reset_pool P live =
     run_bind (free_all (live_large P) live) (\<lambda>live.
     Inr (run_cleanups P,
          P\<lparr> large := [], blocks := map (\<lambda>b. b\<lparr> last_p := base b + SIZEOF_POOL \<rparr>) (blocks P) \<rparr>,
          live))"


subsection \<open>Invariant\<close>

text \<open>
  \<open>user\<close> lists the ranges handed to the callers; the pool's own structures (block headers,
  records of large allocations and of cleanups) are ranges as well. No two of all these ranges
  overlap, and each lies in a block below its \<^verbatim>\<open>last\<close> pointer or is a large allocation.
\<close>

definition headers :: "pool \<Rightarrow> range list" where
  "headers P = (base (hd (blocks P)), SIZEOF_POOL) #
     map (\<lambda>b. (base b, SIZEOF_POOL_DATA)) (tl (blocks P))"

definition internals :: "pool \<Rightarrow> range list" where
  "internals P = map (\<lambda>(rec, a). (rec, SIZEOF_LARGE)) (large P) @
     map (\<lambda>c. (c_addr c, SIZEOF_CLEANUP)) (cleanup P) @ headers P"

definition owned_by :: "pool \<Rightarrow> range list \<Rightarrow> range \<Rightarrow> bool" where
  "owned_by P live r \<longleftrightarrow>
     (\<exists>b \<in> set (blocks P). base b \<le> fst r \<and> fst r + snd r \<le> last_p b) \<or>
     (r \<in> set live \<and> fst r \<in> set (live_large P))"

definition heap_ok :: "range list \<Rightarrow> bool" where
  "heap_ok live \<longleftrightarrow> sorted_wrt sep live \<and> (\<forall>r \<in> set live. fst r \<noteq> 0 \<and> fst r + snd r < 2 ^ 64)"

definition block_ok :: "nat \<Rightarrow> range list \<Rightarrow> pool_data \<Rightarrow> bool" where
  "block_ok psize live b \<longleftrightarrow>
     YF_POOL_ALIGNMENT dvd base b \<and> end_p b = base b + psize \<and> (base b, psize) \<in> set live \<and>
     base b \<le> last_p b \<and> last_p b \<le> end_p b"

definition psize_of :: "pool \<Rightarrow> nat" where
  "psize_of P = end_p (hd (blocks P)) - base (hd (blocks P))"

definition blocks_ok :: "pool \<Rightarrow> range list \<Rightarrow> bool" where
  "blocks_ok P live \<longleftrightarrow>
     blocks P \<noteq> [] \<and> current P < length (blocks P) \<and>
     YF_ALIGNMENT dvd psize_of P \<and> SIZEOF_LARGE \<le> max_alloc P \<and>
     max_alloc P + SIZEOF_POOL \<le> psize_of P \<and>
     (\<forall>b \<in> set (blocks P). block_ok (psize_of P) live b) \<and>
     distinct (map base (blocks P))"

definition large_ok :: "pool \<Rightarrow> range list \<Rightarrow> bool" where
  "large_ok P live \<longleftrightarrow>
     distinct (live_large P) \<and> set (live_large P) \<subseteq> fst ` set live \<and>
     set (live_large P) \<inter> set (map base (blocks P)) = {}"

definition pool_inv :: "pool \<Rightarrow> range list \<Rightarrow> range list \<Rightarrow> bool" where
  "pool_inv P live user \<longleftrightarrow>
     heap_ok live \<and> blocks_ok P live \<and> large_ok P live \<and>
     sorted_wrt disj (user @ internals P) \<and> (\<forall>r \<in> set (user @ internals P). owned_by P live r)"

lemma heap_okD: "heap_ok live \<Longrightarrow> r \<in> set live \<Longrightarrow> s \<in> set live \<Longrightarrow> r \<noteq> s \<Longrightarrow> sep r s"
  unfolding heap_ok_def by (blast intro: sorted_wrt_sym [of sep] sep_sym)

lemma heap_ok_alloc:
  assumes "allocator_ok al" "heap_ok live" "al live algn n \<noteq> 0"
  shows "heap_ok ((al live algn n, n) # live)" "algn dvd al live algn n"
    "al live algn n \<notin> fst ` set live"
proof -
  have s: "\<forall>r \<in> set live. sep (al live algn n, n) r" "algn dvd al live algn n"
    "al live algn n + n < 2 ^ 64"
    using assms unfolding allocator_ok_def by blast+
  show "heap_ok ((al live algn n, n) # live)"
    using s assms(2,3) by (simp add: heap_ok_def)
  show "algn dvd al live algn n" by (rule s(2))
  show "al live algn n \<notin> fst ` set live"
    using s(1) sep_ne by fastforce
qed

lemma pool_invD:
  assumes "pool_inv P live user"
  shows "heap_ok live" "blocks_ok P live" "large_ok P live"
    "sorted_wrt disj (user @ internals P)" "\<And>r. r \<in> set (user @ internals P) \<Longrightarrow> owned_by P live r"
  using assms by (auto simp: pool_inv_def)

lemma blocks_okD:
  assumes "blocks_ok P live"
  shows "blocks P \<noteq> []" "current P < length (blocks P)" "8 dvd psize_of P" "16 \<le> max_alloc P"
    "max_alloc P + 80 \<le> psize_of P" "\<And>b. b \<in> set (blocks P) \<Longrightarrow> block_ok (psize_of P) live b"
    "distinct (map base (blocks P))"
  using assms unfolding blocks_ok_def by (auto simp: pool_sizes)

lemma block_within: "block_ok psize live b \<Longrightarrow> base b \<le> fst r \<Longrightarrow> fst r + snd r \<le> end_p b \<Longrightarrow>
   within r (base b, psize)"
  by (auto simp: block_ok_def within_def)

text \<open>Every range of the pool lies in an allocation of the C library.\<close>

lemma owned_within:
  assumes "blocks_ok P live" "owned_by P live r"
  shows "\<exists>R \<in> set live. within r R"
proof -
  note b = blocks_okD(6) [OF assms(1)]
  from assms(2) consider (blk) b where "b \<in> set (blocks P)" "base b \<le> fst r" "fst r + snd r \<le> last_p b"
    | (lrg) "r \<in> set live" by (auto simp: owned_by_def)
  then show ?thesis
  proof cases
    case blk
    with b [OF blk(1)] have "within r (base b, psize_of P)" "(base b, psize_of P) \<in> set live"
      by (auto simp: block_ok_def within_def)
    then show ?thesis by blast
  next
    case lrg
    then show ?thesis by (auto simp: within_def)
  qed
qed

lemma free_part_disj:
  assumes inv: "pool_inv P live user" and b: "b \<in> set (blocks P)"
    and m: "last_p b \<le> m" "m + n \<le> end_p b" and r: "r \<in> set (user @ internals P)"
  shows "disj (m, n) r"
proof -
  note D = pool_invD [OF inv]
  note bo = blocks_okD(6) [OF D(2)] and dist = blocks_okD(7) [OF D(2)]
  let ?B = "(base b, psize_of P)"
  have w: "within (m, n) ?B" and bl: "?B \<in> set live"
    using bo [OF b] m by (auto simp: block_ok_def within_def)
  from D(5) [OF r] consider (blk) c where "c \<in> set (blocks P)" "base c \<le> fst r" "fst r + snd r \<le> last_p c"
    | (lrg) "r \<in> set live" "fst r \<in> set (live_large P)" by (auto simp: owned_by_def)
  then show ?thesis
  proof cases
    case blk
    show ?thesis
    proof (cases "c = b")
      case True
      then show ?thesis using blk(3) m(1) by (auto simp: disj_def)
    next
      case False
      then have "?B \<noteq> (base c, psize_of P)"
        using dist b blk(1) by (metis Pair_inject inj_on_eq_iff distinct_map)
      moreover have wc: "within r (base c, psize_of P)" "(base c, psize_of P) \<in> set live"
        using bo [OF blk(1)] blk by (auto simp: block_ok_def within_def)
      ultimately have "disj ?B (base c, psize_of P)"
        using heap_okD [OF D(1) bl] sep_disj by blast
      then show ?thesis by (rule within_disj [OF _ w wc(1)])
    qed
  next
    case lrg
    have "fst r \<noteq> base b" using D(3) lrg(2) b by (auto simp: large_ok_def)
    then have "?B \<noteq> r" by auto
    then have "disj ?B r" using heap_okD [OF D(1) bl lrg(1)] sep_disj by blast
    moreover have "within r r" by (simp add: within_def)
    ultimately show ?thesis using within_disj w by blast
  qed
qed

text \<open>Blocks that keep their bounds while their \<^verbatim>\<open>last\<close> pointers move forward.\<close>

definition grows :: "pool_data list \<Rightarrow> pool_data list \<Rightarrow> bool" where
  "grows = list_all2 (\<lambda>b c. base c = base b \<and> end_p c = end_p b \<and> last_p b \<le> last_p c \<and>
     last_p c \<le> end_p c)"

lemma grows_bases: "grows ps qs \<Longrightarrow> map base qs = map base ps \<and> map end_p qs = map end_p ps"
  unfolding grows_def by (induction rule: list_all2_induct) auto

lemma grows_ne: "grows ps qs \<Longrightarrow> ps \<noteq> [] \<Longrightarrow> qs \<noteq> [] \<and> base (hd qs) = base (hd ps) \<and>
   end_p (hd qs) = end_p (hd ps) \<and> length qs = length ps \<and> map base (tl qs) = map base (tl ps)"
proof -
  assume g: "grows ps qs" and ne: "ps \<noteq> []"
  have l: "length qs = length ps" using g unfolding grows_def by (simp add: list_all2_lengthD)
  obtain p ps' q qs' where "ps = p # ps'" "qs = q # qs'" using ne l by (cases ps; cases qs) auto
  then show ?thesis using grows_bases [OF g] l by simp
qed

lemma grows_mem:
  "grows ps qs \<Longrightarrow> b \<in> set ps \<Longrightarrow> \<exists>c \<in> set qs. base c = base b \<and> last_p b \<le> last_p c"
  unfolding grows_def by (induction rule: list_all2_induct) auto

lemma block_ok_grow:
  "block_ok psize live b \<Longrightarrow> base c = base b \<Longrightarrow> end_p c = end_p b \<Longrightarrow> last_p b \<le> last_p c \<Longrightarrow>
   last_p c \<le> end_p c \<Longrightarrow> block_ok psize live c"
  by (simp add: block_ok_def)

lemma grows_block_ok:
  "grows ps qs \<Longrightarrow> \<forall>b \<in> set ps. block_ok psize live b \<Longrightarrow> \<forall>c \<in> set qs. block_ok psize live c"
  unfolding grows_def by (induction rule: list_all2_induct) (auto intro: block_ok_grow)

lemma headers_alt:
  "headers P = (base (hd (blocks P)), 80) # map (\<lambda>x. (x, 32)) (map base (tl (blocks P)))"
  by (simp add: headers_def pool_sizes comp_def)

lemma pool_inv_grow:
  assumes inv: "pool_inv P live user" and g: "grows (blocks P) (blocks P')"
    and same: "large P' = large P" "cleanup P' = cleanup P" "max_alloc P' = max_alloc P"
      "current P' < length (blocks P)"
  shows "pool_inv P' live user"
proof -
  note D = pool_invD [OF inv]
  have ne: "blocks P \<noteq> []" using D(2) by (simp add: blocks_ok_def)
  note gn = grows_ne [OF g ne]
  have i: "internals P' = internals P"
    using gn same by (simp add: internals_def headers_alt)
  have ll: "live_large P' = live_large P" using same by (simp add: live_large_def)
  have ps: "psize_of P' = psize_of P" using gn by (simp add: psize_of_def)
  have bo: "blocks_ok P' live"
    using D(2) gn same grows_bases [OF g] grows_block_ok [OF g, of "psize_of P" live]
    unfolding blocks_ok_def ps by auto
  have lo: "large_ok P' live"
    using D(3) ll grows_bases [OF g] by (simp add: large_ok_def)
  have "owned_by P' live r" if "owned_by P live r" for r
    using that ll grows_mem [OF g] unfolding owned_by_def by (metis le_trans)
  with D i bo lo show ?thesis by (auto simp: pool_inv_def)
qed

lemma pool_inv_add_user:
  assumes "pool_inv P live user" "owned_by P live r" "\<forall>s \<in> set (user @ internals P). disj r s"
  shows "pool_inv P live (r # user)"
  using assms by (auto simp: pool_inv_def)


subsection \<open>Every allocation is new memory\<close>

lemma fit_block_spec:
  "fit_block aligned n ps = Some (m, qs) \<Longrightarrow>
   \<exists>us b vs. ps = us @ b # vs \<and> qs = us @ b\<lparr> last_p := m + n \<rparr> # vs \<and>
     m = (if aligned then align_up (last_p b) 8 else last_p b) \<and> n \<le> size_diff (end_p b) m"
proof (induction ps arbitrary: qs)
  case (Cons p ps)
  let ?m = "if aligned then align_up (last_p p) 8 else last_p p"
  have eq: "fit_block aligned n (p # ps) =
      (if n \<le> size_diff (end_p p) ?m then Some (?m, p\<lparr> last_p := ?m + n \<rparr> # ps)
       else map_option (\<lambda>(m, ps). (m, p # ps)) (fit_block aligned n ps))"
    by (simp add: Let_def pool_sizes)
  show ?case
  proof (cases "n \<le> size_diff (end_p p) ?m")
    case True
    with Cons.prems eq have "Some (?m, p\<lparr> last_p := ?m + n \<rparr> # ps) = Some (m, qs)" by simp
    then have "m = ?m" "qs = p\<lparr> last_p := m + n \<rparr> # ps" by blast+
    with True show ?thesis by (intro exI [of _ "[]"]) auto
  next
    case False
    with Cons.prems have "map_option (\<lambda>(m, ps). (m, p # ps)) (fit_block aligned n ps) = Some (m, qs)"
      unfolding eq by simp
    then obtain qs' where qs': "fit_block aligned n ps = Some (m, qs')" "qs = p # qs'"
      by (auto simp: map_option_eq_Some)
    from Cons.IH [OF qs'(1)] obtain us b vs where e:
      "ps = us @ b # vs" "qs' = us @ b\<lparr> last_p := m + n \<rparr> # vs"
      "m = (if aligned then align_up (last_p b) 8 else last_p b)" "n \<le> size_diff (end_p b) m"
      by blast
    show ?thesis
    proof (intro exI conjI)
      show "p # ps = (p # us) @ b # vs" using e(1) by simp
      show "qs = (p # us) @ b\<lparr> last_p := m + n \<rparr> # vs" using e(2) qs'(2) by simp
      show "m = (if aligned then align_up (last_p b) 8 else last_p b)" by (fact e(3))
      show "n \<le> size_diff (end_p b) m" by (fact e(4))
    qed
  qed
qed simp

lemma bump_failed_spec:
  "bump_failed i cur ps = (cur', qs) \<Longrightarrow>
   map (\<lambda>b. (base b, last_p b, end_p b)) qs = map (\<lambda>b. (base b, last_p b, end_p b)) ps \<and>
   (cur' = cur \<or> (i < cur' \<and> cur' < i + length ps))"
proof (induction i cur ps arbitrary: cur' qs rule: bump_failed.induct)
  case (1 i cur p q ps)
  from 1(2) obtain c rs where r: "bump_failed (i + 1) (if failed p > 4 then i + 1 else cur) (q # ps) = (c, rs)"
    and e: "cur' = c" "qs = p\<lparr> failed := failed p + 1 \<rparr> # rs"
    by (auto simp: Let_def split: prod.splits)
  from 1(1) [OF r] e show ?case by (auto split: if_splits)
qed auto

lemma grows_shape:
  assumes "map (\<lambda>b. (base b, last_p b, end_p b)) qs = map (\<lambda>b. (base b, last_p b, end_p b)) ps"
    "\<forall>b \<in> set ps. last_p b \<le> end_p b"
  shows "grows ps qs"
  using assms
proof (induction ps arbitrary: qs)
  case Nil
  then show ?case by (simp add: grows_def)
next
  case (Cons p ps)
  then obtain q qs' where q: "qs = q # qs'" by (cases qs) auto
  with Cons.prems have "base q = base p" "last_p q = last_p p" "end_p q = end_p p" "last_p p \<le> end_p p"
    by simp_all
  moreover have "grows ps qs'" by (rule Cons.IH) (use Cons.prems q in simp_all)
  ultimately show ?case unfolding q grows_def by simp
qed

lemma grows_refl: "\<forall>b \<in> set ps. last_p b \<le> end_p b \<Longrightarrow> grows ps ps"
  by (rule grows_shape) simp_all

lemma grows_one:
  assumes "\<forall>b \<in> set (us @ b # vs). last_p b \<le> end_p b" "last_p b \<le> x" "x \<le> end_p b"
  shows "grows (us @ b # vs) (us @ b\<lparr> last_p := x \<rparr> # vs)"
  using assms grows_refl [of us] grows_refl [of vs]
  unfolding grows_def by (intro list_all2_appendI list.rel_intros) auto

lemma last_le_end: "pool_inv P live user \<Longrightarrow> \<forall>b \<in> set (blocks P). last_p b \<le> end_p b"
proof
  fix b assume "pool_inv P live user" "b \<in> set (blocks P)"
  from blocks_okD(6) [OF pool_invD(2) [OF this(1)] this(2)] show "last_p b \<le> end_p b"
    unfolding block_ok_def by blast
qed

lemma dvd_16_8: "16 dvd (x::nat) \<Longrightarrow> 8 dvd x"
  by (rule dvd_trans [of 8 16]) simp_all

lemma end_aligned: "pool_inv P live user \<Longrightarrow> b \<in> set (blocks P) \<Longrightarrow> 8 dvd end_p b"
proof -
  assume inv: "pool_inv P live user" and b: "b \<in> set (blocks P)"
  note D = blocks_okD [OF pool_invD(2) [OF inv]]
  have "16 dvd base b" "end_p b = base b + psize_of P"
    using D(6) [OF b] by (simp_all add: block_ok_def pool_sizes)
  moreover from this(1) have "8 dvd base b" by (rule dvd_16_8)
  ultimately show ?thesis using D(3) by simp
qed

text \<open>Taking \<open>n\<close> bytes at \<open>m\<close> from the free part of one block.\<close>

lemma pool_inv_take:
  assumes inv: "pool_inv P live user" and blk: "blocks P = us @ b # vs"
    and m: "last_p b \<le> m" "m + n \<le> end_p b"
  shows "pool_inv (P\<lparr> blocks := us @ b\<lparr> last_p := m + n \<rparr> # vs \<rparr>) live ((m, n) # user)"
proof -
  let ?P = "P\<lparr> blocks := us @ b\<lparr> last_p := m + n \<rparr> # vs \<rparr>"
  note D = pool_invD [OF inv]
  have b: "b \<in> set (blocks P)" using blk by simp
  have g: "grows (blocks P) (blocks ?P)"
    using grows_one [of us b vs "m + n"] last_le_end [OF inv] m blk by simp
  have inv': "pool_inv ?P live user"
    by (rule pool_inv_grow [OF inv g]) (use blocks_okD(2) [OF D(2)] in simp_all)
  have "internals ?P = internals P"
    using grows_ne [OF g blocks_okD(1) [OF D(2)]] by (simp add: internals_def headers_alt)
  moreover have "base b \<le> last_p b" using blocks_okD(6) [OF D(2) b] by (simp add: block_ok_def)
  then have "owned_by ?P live (m, n)" using m by (auto simp: owned_by_def)
  ultimately show ?thesis
    using pool_inv_add_user [OF inv'] free_part_disj [OF inv b m] by simp
qed


lemma pool_inv_live:
  assumes inv: "pool_inv P live user" and h: "heap_ok live'" and sub: "set live \<subseteq> set live'"
  shows "pool_inv P live' user"
proof -
  note D = pool_invD [OF inv]
  have "block_ok (psize_of P) live' b" if "b \<in> set (blocks P)" for b
    using blocks_okD(6) [OF D(2) that] sub by (auto simp: block_ok_def)
  then have "blocks_ok P live'" using D(2) by (auto simp: blocks_ok_def)
  moreover have "large_ok P live'" using D(3) sub by (fastforce simp: large_ok_def)
  moreover have "owned_by P live' r" if "owned_by P live r" for r
    using that sub by (auto simp: owned_by_def)
  ultimately show ?thesis using D(4,5) h by (auto simp: pool_inv_def)
qed

lemma new_memory_disj:
  assumes inv: "pool_inv P live user" and s: "\<forall>r \<in> set live. sep (m, n) r"
    and r: "r \<in> set (user @ internals P)"
  shows "disj (m, n) r"
proof -
  note D = pool_invD [OF inv]
  obtain R where "R \<in> set live" "within r R" using owned_within [OF D(2) D(5) [OF r]] by blast
  moreover have "within (m, n) (m, n)" by (simp add: within_def)
  ultimately show ?thesis using s within_disj [OF sep_disj] by blast
qed

lemma pool_inv_new_block:
  assumes inv: "pool_inv P live user" and h: "heap_ok ((m, psize_of P) # live)"
    and m: "16 dvd m" and cur: "c \<le> length (blocks P)"
  shows "pool_inv (P\<lparr> blocks := blocks P @ [\<lparr> base = m, last_p = m + 32, end_p = m + psize_of P,
      failed = 0 \<rparr>], current := c \<rparr>) ((m, psize_of P) # live) user"
    (is "pool_inv ?P ?live user")
proof -
  note D = pool_invD [OF inv]
  have s: "\<forall>r \<in> set live. sep (m, psize_of P) r" using h by (simp add: heap_ok_def)
  then have m_new: "m \<notin> fst ` set live" using sep_ne by fastforce
  have ne: "blocks P \<noteq> []" by (rule blocks_okD(1) [OF D(2)])
  have inv': "pool_inv P ?live user" by (rule pool_inv_live [OF inv h]) auto
  note D' = pool_invD [OF inv']
  have ps: "psize_of ?P = psize_of P" using ne by (simp add: psize_of_def)
  have ints: "internals ?P = internals P @ [(m, 32)]"
    using ne by (simp add: internals_def headers_alt hd_append)
  have big: "32 \<le> psize_of P" using blocks_okD(5) [OF D(2)] by simp
  have "base b \<in> fst ` set live" if "b \<in> set (blocks P)" for b
    using blocks_okD(6) [OF D(2) that] by (force simp: block_ok_def)
  with m_new have mb: "m \<notin> set (map base (blocks P))" by auto
  have b_ok: "blocks_ok ?P ?live"
    using D'(2) ps big m mb cur by (auto simp: blocks_ok_def block_ok_def pool_sizes)
  have ml: "m \<notin> set (live_large P)" using D(3) m_new by (auto simp: large_ok_def)
  have ll: "live_large ?P = live_large P" by (simp add: live_large_def)
  have l_ok: "large_ok ?P ?live" using D'(3) ml ll by (auto simp: large_ok_def)
  have own: "owned_by ?P ?live r" if "owned_by P ?live r" for r
    using that ll by (auto simp: owned_by_def)
  have "disj r (m, 32)" if "r \<in> set (user @ internals P)" for r
  proof -
    have "disj (m, psize_of P) r" by (rule new_memory_disj [OF inv s that])
    moreover have "within (m, 32) (m, psize_of P)" "within r r" using big by (auto simp: within_def)
    ultimately show ?thesis using within_disj disj_sym by blast
  qed
  then have "sorted_wrt disj (user @ internals ?P)"
    using D(4) unfolding ints by (auto simp: sorted_wrt_append)
  moreover have "owned_by ?P ?live (m, 32)" by (auto simp: owned_by_def)
  ultimately show ?thesis
    using D'(1,5) b_ok l_ok own unfolding pool_inv_def ints by auto
qed

lemma blocks_current_swap: "P\<lparr> current := c, blocks := bs \<rparr> = P\<lparr> blocks := bs, current := c \<rparr>"
  by (cases P) simp

lemma palloc_block_step:
  assumes inv: "pool_inv P live user" and al: "allocator_ok al" and n: "n \<le> max_alloc P"
    and run: "yf_palloc_block al P live n = (a, P', live')"
  shows "if a = 0 then P' = P \<and> live' = live
    else pool_inv P' live' ((a, n) # user) \<and> 8 dvd a \<and> set live \<subseteq> set live' \<and>
      large P' = large P \<and> cleanup P' = cleanup P \<and> max_alloc P' = max_alloc P \<and>
      set (map base (blocks P')) \<inter> fst ` set live \<subseteq> set (map base (blocks P))"
proof -
  note D = pool_invD [OF inv]
  let ?m0 = "al live YF_POOL_ALIGNMENT (psize_of P)"
  show ?thesis
  proof (cases "?m0 = 0")
    case True
    then show ?thesis using run by (simp add: yf_palloc_block_def psize_of_def)
  next
    case False
    let ?b = "\<lparr> base = ?m0, last_p = ?m0 + 32, end_p = ?m0 + psize_of P, failed = 0 \<rparr>"
    note A = heap_ok_alloc [OF al D(1) False]
    have al16: "16 dvd ?m0" using A(2) by (simp add: pool_sizes)
    have "8 dvd ?m0" by (rule dvd_16_8 [OF al16])
    then have "8 dvd ?m0 + 32" by simp
    then have m: "align_up (?m0 + SIZEOF_POOL_DATA) YF_ALIGNMENT = ?m0 + 32"
      by (simp add: pool_sizes)
    obtain cur tail where bump: "bump_failed (current P) (current P) (drop (current P) (blocks P)) = (cur, tail)"
      by fastforce
    let ?bs = "take (current P) (blocks P) @ tail"
    have sh: "map (\<lambda>b. (base b, last_p b, end_p b)) ?bs = map (\<lambda>b. (base b, last_p b, end_p b)) (blocks P)"
      unfolding map_append conjunct1 [OF bump_failed_spec [OF bump]]
      by (simp only: map_append [symmetric] append_take_drop_id)
    have cur: "cur < length (blocks P)"
      using bump_failed_spec [OF bump] blocks_okD(2) [OF D(2)] by auto
    have g: "grows (blocks P) ?bs" by (rule grows_shape [OF sh last_le_end [OF inv]])
    define P1 where "P1 = P\<lparr> blocks := ?bs, current := cur \<rparr>"
    have 1: "pool_inv P1 live user"
      by (rule pool_inv_grow [OF inv]) (use g cur in \<open>simp_all add: P1_def\<close>)
    have ps: "psize_of P1 = psize_of P"
      using grows_ne [OF g blocks_okD(1) [OF D(2)]] by (simp add: psize_of_def P1_def)
    have "pool_inv (P1\<lparr> blocks := blocks P1 @ [?b], current := cur \<rparr>) ((?m0, psize_of P) # live) user"
      using pool_inv_new_block [OF 1, of ?m0 cur] A(1) al16 cur ps
        grows_ne [OF g blocks_okD(1) [OF D(2)]]
      by (simp add: P1_def)
    then have 2: "pool_inv (P\<lparr> blocks := ?bs @ [?b], current := cur \<rparr>)
        ((?m0, psize_of P) # live) user" by (simp add: P1_def)
    have "pool_inv (P\<lparr> blocks := ?bs @ [?b\<lparr> last_p := ?m0 + 32 + n \<rparr>], current := cur \<rparr>)
        ((?m0, psize_of P) # live) ((?m0 + 32, n) # user)"
      using pool_inv_take [OF 2, of ?bs ?b "[]" "?m0 + 32" n] n blocks_okD(5) [OF D(2)]
      by (simp add: blocks_current_swap)
    moreover have "yf_palloc_block al P live n =
        (?m0 + 32, P\<lparr> blocks := ?bs @ [?b\<lparr> last_p := ?m0 + 32 + n \<rparr>], current := cur \<rparr>,
         (?m0, psize_of P) # live)"
      using False m bump by (simp add: yf_palloc_block_def psize_of_def [symmetric] Let_def)
    moreover have "set (map base (?bs @ [?b\<lparr> last_p := ?m0 + 32 + n \<rparr>])) \<inter> fst ` set live
        \<subseteq> set (map base (blocks P))"
    proof -
      have "map base ?bs = map base (blocks P)" using grows_bases [OF g] by blast
      then have "set (map base (?bs @ [?b\<lparr> last_p := ?m0 + 32 + n \<rparr>])) =
          insert ?m0 (set (map base (blocks P)))"
        by (simp only: map_append set_append) auto
      with A(3) show ?thesis by (simp only:) blast
    qed
    ultimately show ?thesis using run \<open>8 dvd ?m0 + 32\<close> by auto
  qed
qed

lemma size_diff_le: "m \<le> e \<Longrightarrow> size_diff e m = e - m"
  by (simp add: size_diff_def)

lemma palloc_small_step:
  assumes inv: "pool_inv P live user" and al: "allocator_ok al" and n: "n \<le> max_alloc P"
    and run: "palloc_small aligned al P live n = (a, P', live')"
  shows "if a = 0 then P' = P \<and> live' = live
    else pool_inv P' live' ((a, n) # user) \<and> (aligned \<longrightarrow> 8 dvd a) \<and> set live \<subseteq> set live' \<and>
      large P' = large P \<and> cleanup P' = cleanup P \<and> max_alloc P' = max_alloc P \<and>
      set (map base (blocks P')) \<inter> fst ` set live \<subseteq> set (map base (blocks P))"
proof (cases "fit_block aligned n (drop (current P) (blocks P))")
  case None
  then show ?thesis
    using palloc_block_step [OF inv al n, of a P' live'] run
    by (cases "a = 0") (simp_all add: palloc_small_def)
next
  case (Some mq)
  obtain m qs where mq: "mq = (m, qs)" by fastforce
  from fit_block_spec [OF Some [unfolded mq]] obtain us b vs where
    f: "drop (current P) (blocks P) = us @ b # vs" "qs = us @ b\<lparr> last_p := m + n \<rparr> # vs"
    "m = (if aligned then align_up (last_p b) 8 else last_p b)" "n \<le> size_diff (end_p b) m" by blast
  note D = pool_invD [OF inv]
  let ?us = "take (current P) (blocks P) @ us"
  have blk: "blocks P = ?us @ b # vs" using f(1) by (metis append_assoc append_take_drop_id)
  have b: "b \<in> set (blocks P)" by (subst blk) simp
  have le: "last_p b \<le> end_p b" using last_le_end [OF inv] b by blast
  have m1: "last_p b \<le> m" using f(3) align_up_ge [of 8 "last_p b"] by simp
  have "m \<le> end_p b"
    using f(3) le align_up_least [of 8 "end_p b" "last_p b"] end_aligned [OF inv b] by simp
  then have m2: "m + n \<le> end_p b" using f(4) by (simp add: size_diff_le)
  have "pool_inv (P\<lparr> blocks := ?us @ b\<lparr> last_p := m + n \<rparr> # vs \<rparr>) live ((m, n) # user)"
    by (rule pool_inv_take [OF inv blk m1 m2])
  moreover have "palloc_small aligned al P live n =
      (m, P\<lparr> blocks := ?us @ b\<lparr> last_p := m + n \<rparr> # vs \<rparr>, live)"
    using Some mq f(2) by (simp add: palloc_small_def)
  moreover have "m \<noteq> 0"
  proof -
    note bo = blocks_okD(6) [OF D(2) b, unfolded block_ok_def]
    have "base b \<noteq> 0" using D(1) bo unfolding heap_ok_def by fastforce
    then show ?thesis using bo m1 by linarith
  qed
  moreover have "aligned \<longrightarrow> 8 dvd m" using f(3) by simp
  moreover have "map base (?us @ b\<lparr> last_p := m + n \<rparr> # vs) = map base (blocks P)"
    by (subst blk) simp
  ultimately show ?thesis using run by auto
qed

text \<open>Recording a large allocation.\<close>

lemma pool_inv_large:
  assumes inv: "pool_inv P live user" and p: "(p, n) \<in> set live" "p \<noteq> 0"
    and ls: "filter (\<lambda>a. a \<noteq> 0) (map snd ls) = us @ p # vs" "live_large P = us @ vs"
    and ints: "sorted_wrt disj (user' @ internals (P\<lparr> large := ls \<rparr>))"
      "set (user' @ internals (P\<lparr> large := ls \<rparr>)) \<subseteq> insert (p, n) (set (user @ internals P))"
    and new: "p \<notin> set (live_large P)" "p \<notin> set (map base (blocks P))"
  shows "pool_inv (P\<lparr> large := ls \<rparr>) live user'"
proof -
  note D = pool_invD [OF inv]
  let ?P = "P\<lparr> large := ls \<rparr>"
  have ll: "live_large ?P = us @ p # vs" using ls(1) by (simp add: live_large_def)
  have "blocks_ok ?P live" using D(2) by (simp add: blocks_ok_def psize_of_def)
  moreover have "large_ok ?P live"
  proof -
    have "p \<in> fst ` set live" using p(1) by (rule image_eqI [rotated]) simp
    then show ?thesis using D(3) new unfolding large_ok_def ll ls(2) by auto
  qed
  moreover have "owned_by ?P live r" if "owned_by P live r" for r
    using that ll ls(2) by (auto simp: owned_by_def)
  moreover have "owned_by ?P live (p, n)" using p(1) ll by (simp add: owned_by_def)
  ultimately show ?thesis
    using D(1,5) ints unfolding pool_inv_def by blast
qed


lemma reuse_large_spec:
  "reuse_large k p ls = Some ls' \<Longrightarrow> \<exists>us r vs. ls = us @ (r, 0) # vs \<and> ls' = us @ (r, p) # vs"
proof (induction k p ls arbitrary: ls' rule: reuse_large.induct)
  case (2 k p rec a ls)
  show ?case
  proof (cases "a = 0")
    case True
    with 2(2) show ?thesis by (intro exI [of _ "[]"]) auto
  next
    case False
    with 2(2) obtain ls2 where "reuse_large (k + 1) p ls = Some ls2" "ls' = (rec, a) # ls2" "\<not> 3 < k"
      by (auto simp: map_option_eq_Some split: if_splits)
    with 2(1) [OF False] obtain us r vs where "ls = us @ (r, 0) # vs" "ls2 = us @ (r, p) # vs" by blast
    with \<open>ls' = (rec, a) # ls2\<close> show ?thesis
      by (intro exI [of _ "(rec, a) # us"] exI [of _ r] exI [of _ vs]) simp
  qed
qed simp

definition alloc_result ::
  "pool \<Rightarrow> range list \<Rightarrow> range list \<Rightarrow> nat \<Rightarrow> addr \<times> pool \<times> range list \<Rightarrow> bool" where
  "alloc_result P live user n r =
     (case r of (a, P', live') \<Rightarrow>
        if a = 0 then P' = P \<and> live' = live
        else pool_inv P' live' ((a, n) # user) \<and> set live \<subseteq> set live' \<and>
          cleanup P' = cleanup P \<and> max_alloc P' = max_alloc P)"

lemma large_new:
  assumes inv: "pool_inv P live user" and al: "allocator_ok al"
    and p: "al live algn n \<noteq> 0" (is "?p \<noteq> 0")
  shows "pool_inv P ((?p, n) # live) user" "?p \<notin> set (live_large P)"
    "?p \<notin> set (map base (blocks P))" "\<forall>r \<in> set (user @ internals P). disj (?p, n) r"
    "filter (\<lambda>r. fst r \<noteq> ?p) live = live"
proof -
  note D = pool_invD [OF inv]
  note A = heap_ok_alloc [OF al D(1) p]
  show "pool_inv P ((?p, n) # live) user"
    by (rule pool_inv_live [OF inv A(1)]) auto
  show "?p \<notin> set (live_large P)" using D(3) A(3) by (auto simp: large_ok_def)
  have "base b \<in> fst ` set live" if "b \<in> set (blocks P)" for b
    using blocks_okD(6) [OF D(2) that] by (force simp: block_ok_def)
  then show "?p \<notin> set (map base (blocks P))" using A(3) by auto
  have "\<forall>r \<in> set live. sep (?p, n) r" using A(1) by (simp add: heap_ok_def)
  then show "\<forall>r \<in> set (user @ internals P). disj (?p, n) r" using new_memory_disj [OF inv] by blast
  show "filter (\<lambda>r. fst r \<noteq> ?p) live = live" using A(3) by (force simp: filter_id_conv)
qed

lemma large_disj:
  assumes inv: "pool_inv P live user" and p: "(p, n) \<in> set live"
    and new: "p \<notin> set (live_large P)" "p \<notin> set (map base (blocks P))"
    and r: "r \<in> set (user @ internals P)"
  shows "disj (p, n) r"
proof -
  note D = pool_invD [OF inv]
  have w: "within (p, n) (p, n)" "within r r" by (simp_all add: within_def)
  from D(5) [OF r] consider (blk) c where "c \<in> set (blocks P)" "base c \<le> fst r" "fst r + snd r \<le> last_p c"
    | (lrg) "r \<in> set live" "fst r \<in> set (live_large P)" by (auto simp: owned_by_def)
  then show ?thesis
  proof cases
    case blk
    then have "within r (base c, psize_of P)" "(base c, psize_of P) \<in> set live"
      using blocks_okD(6) [OF D(2) blk(1)] by (auto simp: block_ok_def within_def)
    moreover from this(2) have "sep (p, n) (base c, psize_of P)"
      using heap_okD [OF D(1) p] new(2) blk(1) by fastforce
    ultimately show ?thesis using within_disj [OF sep_disj w(1)] by blast
  next
    case lrg
    then have "(p, n) \<noteq> r" using new(1) by auto
    then show ?thesis using heap_okD [OF D(1) p lrg(1)] sep_disj by blast
  qed
qed

lemma record_large_step:
  assumes inv: "pool_inv P live user" and al: "allocator_ok al"
    and p: "p = al live algn n" "p \<noteq> 0"
    and small: "palloc_small True al P ((p, n) # live) SIZEOF_LARGE = (rec, P1, live1)"
  shows "if rec = 0 then P1 = P \<and> filter (\<lambda>r. fst r \<noteq> p) live1 = live
    else alloc_result P live user n (p, P1\<lparr> large := (rec, p) # large P1 \<rparr>, live1)"
proof -
  note N = large_new [OF inv al p(2)[unfolded p(1)], folded p(1)]
  have max: "SIZEOF_LARGE \<le> max_alloc P"
    using blocks_okD(4) [OF pool_invD(2) [OF inv]] by (simp add: pool_sizes)
  note S = palloc_small_step [OF N(1) al max small]
  show ?thesis
  proof (cases "rec = 0")
    case True
    then show ?thesis using S N(5) by simp
  next
    case False
    let ?P = "P1\<lparr> large := (rec, p) # large P1 \<rparr>" and ?rec = "(rec, SIZEOF_LARGE)"
    have S': "pool_inv P1 live1 (?rec # user)" "set ((p, n) # live) \<subseteq> set live1"
      "large P1 = large P" "cleanup P1 = cleanup P" "max_alloc P1 = max_alloc P"
      "set (map base (blocks P1)) \<inter> fst ` set ((p, n) # live) \<subseteq> set (map base (blocks P))"
      using S False by auto
    have ll: "live_large P1 = live_large P" using S'(3) by (simp add: live_large_def)
    have pl: "(p, n) \<in> set live1" using S'(2) by simp
    have pb: "p \<notin> set (map base (blocks P1))" using S'(6) N(3) by auto
    have pn: "p \<notin> set (live_large P1)" using N(2) ll by simp
    have ints: "internals ?P = ?rec # internals P1"
      by (simp add: internals_def headers_def)
    have dj: "disj (p, n) r" if "r \<in> set ((?rec # user) @ internals P1)" for r
      by (rule large_disj [OF S'(1) pl pn pb that])
    have srt: "sorted_wrt disj ((?rec # user) @ internals P1)" by (rule pool_invD(4) [OF S'(1)])
    have "pool_inv ?P live1 ((p, n) # user)"
    proof (rule pool_inv_large [OF S'(1) pl p(2), where us = "[]" and vs = "live_large P1"])
      show "filter (\<lambda>a. a \<noteq> 0) (map snd ((rec, p) # large P1)) = [] @ p # live_large P1"
        using p(2) by (simp add: live_large_def)
      show "sorted_wrt disj (((p, n) # user) @ internals ?P)"
        using srt dj disj_sym unfolding ints by (auto simp: sorted_wrt_append)
      show "set (((p, n) # user) @ internals ?P) \<subseteq> insert (p, n) (set ((?rec # user) @ internals P1))"
        unfolding ints by auto
    qed (use pn pb in simp_all)
    with False S' p(2) show ?thesis by (simp add: alloc_result_def)
  qed
qed

lemma reuse_large_step:
  assumes inv: "pool_inv P live user" and al: "allocator_ok al"
    and p: "p = al live algn n" "p \<noteq> 0" and ls: "reuse_large 0 p (large P) = Some ls"
  shows "alloc_result P live user n (p, P\<lparr> large := ls \<rparr>, (p, n) # live)"
proof -
  note N = large_new [OF inv al p(2)[unfolded p(1)], folded p(1)]
  let ?P = "P\<lparr> large := ls \<rparr>"
  from reuse_large_spec [OF ls] obtain us r vs where
    l: "large P = us @ (r, 0) # vs" "ls = us @ (r, p) # vs" by blast
  have ints: "internals ?P = internals P" by (simp add: internals_def headers_def l)
  let ?f = "\<lambda>xs. filter (\<lambda>a. a \<noteq> 0) (map snd xs)"
  have "pool_inv ?P ((p, n) # live) ((p, n) # user)"
  proof (rule pool_inv_large [OF N(1) _ p(2), where us = "?f us" and vs = "?f vs"])
    show "?f ls = ?f us @ p # ?f vs" "live_large P = ?f us @ ?f vs"
      using p(2) l by (simp_all add: live_large_def)
    show "sorted_wrt disj (((p, n) # user) @ internals ?P)"
      unfolding ints using N(4) pool_invD(4) [OF inv] by simp
    show "set (((p, n) # user) @ internals ?P) \<subseteq> insert (p, n) (set (user @ internals P))"
      unfolding ints by auto
  qed (use N in simp_all)
  then show ?thesis using p(2) by (auto simp: alloc_result_def)
qed

lemma palloc_large_step:
  assumes inv: "pool_inv P live user" and al: "allocator_ok al"
  shows "\<exists>r. yf_palloc_large al P live n = Some r \<and> alloc_result P live user n r"
proof -
  have max: "SIZEOF_LARGE \<le> max_alloc P"
    using blocks_okD(4) [OF pool_invD(2) [OF inv]] by (simp add: pool_sizes)
  define p where p: "p = al live YF_POOL_ALIGNMENT n"
  consider "p = 0" | ls where "p \<noteq> 0" "reuse_large 0 p (large P) = Some ls"
    | "p \<noteq> 0" "reuse_large 0 p (large P) = None" by blast
  then show ?thesis
  proof cases
    case 1
    then show ?thesis by (subst yf_palloc_large.simps) (simp add: p [symmetric] alloc_result_def)
  next
    case 2
    then show ?thesis using reuse_large_step [OF inv al p 2]
      by (subst yf_palloc_large.simps) (simp add: p [symmetric] Let_def)
  next
    case 3
    obtain rec P1 live1 where small: "palloc_small True al P ((p, n) # live) SIZEOF_LARGE = (rec, P1, live1)"
      by (cases "palloc_small True al P ((p, n) # live) SIZEOF_LARGE") auto
    show ?thesis using 3 record_large_step [OF inv al p 3(1) small]
      by (subst yf_palloc_large.simps)
         (auto simp: p [symmetric] Let_def small max alloc_result_def)
  qed
qed


lemma palloc_step:
  assumes inv: "pool_inv P live user" and al: "allocator_ok al"
  shows "\<exists>r. yf_palloc al P live n = Some r \<and> alloc_result P live user n r"
    and "\<exists>r. yf_pnalloc al P live n = Some r \<and> alloc_result P live user n r"
proof -
  have small: "alloc_result P live user n (palloc_small flag al P live n)" if "n \<le> max_alloc P" for flag
  proof -
    obtain a P' live' where r: "palloc_small flag al P live n = (a, P', live')"
      by (cases "palloc_small flag al P live n") auto
    show ?thesis unfolding r using palloc_small_step [OF inv al that r]
      by (simp add: alloc_result_def)
  qed
  show "\<exists>r. yf_palloc al P live n = Some r \<and> alloc_result P live user n r"
    using small palloc_large_step [OF inv al]
    by (cases "n \<le> max_alloc P") (simp_all add: yf_palloc_def del: split_paired_Ex)
  show "\<exists>r. yf_pnalloc al P live n = Some r \<and> alloc_result P live user n r"
    using small palloc_large_step [OF inv al]
    by (cases "n \<le> max_alloc P") (simp_all add: yf_pnalloc_def del: split_paired_Ex)
qed

lemma pmemalign_step:
  assumes inv: "pool_inv P live user" and al: "allocator_ok al"
  shows "\<exists>r. yf_pmemalign al P live n alignment = Some r \<and> alloc_result P live user n r"
proof -
  have max: "SIZEOF_LARGE \<le> max_alloc P"
    using blocks_okD(4) [OF pool_invD(2) [OF inv]] by (simp add: pool_sizes)
  define p where p: "p = al live alignment n"
  obtain rec P1 live1 where small: "palloc_small True al P ((p, n) # live) SIZEOF_LARGE = (rec, P1, live1)"
    by (cases "palloc_small True al P ((p, n) # live) SIZEOF_LARGE") auto
  show ?thesis
  proof (cases "p = 0")
    case True
    then show ?thesis by (simp add: yf_pmemalign_def p [symmetric] alloc_result_def)
  next
    case False
    with record_large_step [OF inv al p False small] show ?thesis
      by (auto simp: yf_pmemalign_def p [symmetric] Let_def yf_palloc_def small max alloc_result_def)
  qed
qed

text \<open>The invariant survives forgetting a user range, e.g. one that leaked to the pool.\<close>

lemma pool_inv_drop:
  "pool_inv P live (us @ vs) \<Longrightarrow> pool_inv P live vs"
  by (auto simp: pool_inv_def sorted_wrt_append)

lemma pool_inv_cleanup:
  assumes "pool_inv P live ((c_addr c, SIZEOF_CLEANUP) # user)"
  shows "pool_inv (P\<lparr> cleanup := c # cleanup P \<rparr>) live user" (is "pool_inv ?P live user")
proof -
  let ?r = "(c_addr c, SIZEOF_CLEANUP)" and ?l = "map (\<lambda>(rec, a). (rec, SIZEOF_LARGE)) (large P)"
  let ?rest = "map (\<lambda>c. (c_addr c, SIZEOF_CLEANUP)) (cleanup P) @ headers P"
  have i: "internals P = ?l @ ?rest" "internals ?P = ?l @ ?r # ?rest"
    by (simp_all add: internals_def headers_def)
  note D = pool_invD [OF assms]
  have "sorted_wrt disj (user @ internals ?P)"
    using D(4) disj_sym unfolding i by (auto simp: sorted_wrt_append)
  moreover have "owned_by ?P live r" if "owned_by P live r" for r
    using that by (simp add: owned_by_def live_large_def)
  moreover have "blocks_ok ?P live" "large_ok ?P live"
    using D(2,3) by (simp_all add: blocks_ok_def psize_of_def large_ok_def live_large_def)
  moreover have "set (user @ internals ?P) = set ((?r # user) @ internals P)" unfolding i by auto
  ultimately show ?thesis using D(1,5) unfolding pool_inv_def by blast
qed

lemma cleanup_add_step:
  assumes inv: "pool_inv P live user" and al: "allocator_ok al"
  shows "\<exists>c P' live'. yf_pool_cleanup_add al P live n = Some (c, P', live') \<and> pool_inv P' live' user"
proof -
  from palloc_step(1) [OF inv al, of SIZEOF_CLEANUP] obtain c P1 live1 where
    c: "yf_palloc al P live SIZEOF_CLEANUP = Some (c, P1, live1)"
    "alloc_result P live user SIZEOF_CLEANUP (c, P1, live1)" by auto
  show ?thesis
  proof (cases "c = 0")
    case True
    then show ?thesis using c inv by (simp add: yf_pool_cleanup_add_def alloc_result_def)
  next
    case False
    then have 1: "pool_inv P1 live1 ((c, SIZEOF_CLEANUP) # user)"
      using c(2) by (simp add: alloc_result_def)
    show ?thesis
    proof (cases "n = 0")
      case True
      have "pool_inv (P1\<lparr> cleanup := \<lparr> c_addr = c, c_handler = 0, c_data = 0 \<rparr> # cleanup P1 \<rparr>) live1 user"
        by (rule pool_inv_cleanup) (use 1 in simp)
      with True False c(1) show ?thesis by (simp add: yf_pool_cleanup_add_def)
    next
      case nz: False
      from palloc_step(1) [OF 1 al, of n] obtain d P2 live2 where
        d: "yf_palloc al P1 live1 n = Some (d, P2, live2)"
        "alloc_result P1 live1 ((c, SIZEOF_CLEANUP) # user) n (d, P2, live2)" by auto
      show ?thesis
      proof (cases "d = 0")
        case True
        then show ?thesis using c(1) d False nz pool_inv_drop [of P1 live1 "[(c, SIZEOF_CLEANUP)]" user] 1
          by (simp add: yf_pool_cleanup_add_def alloc_result_def)
      next
        case dnz: False
        then have "pool_inv P2 live2 ((d, n) # (c, SIZEOF_CLEANUP) # user)"
          using d(2) by (simp add: alloc_result_def)
        then have "pool_inv P2 live2 ((c, SIZEOF_CLEANUP) # user)"
          using pool_inv_drop [of P2 live2 "[(d, n)]"] by simp
        then have "pool_inv (P2\<lparr> cleanup := \<lparr> c_addr = c, c_handler = 0, c_data = d \<rparr> # cleanup P2 \<rparr>) live2 user"
          by (intro pool_inv_cleanup) simp
        with False nz dnz c(1) d(1) show ?thesis by (simp add: yf_pool_cleanup_add_def)
      qed
    qed
  qed
qed

lemma pfree_large_spec:
  "pfree_large p ls = Some ls' \<Longrightarrow> \<exists>us r vs. ls = us @ (r, p) # vs \<and> ls' = us @ (r, 0) # vs"
proof (induction p ls arbitrary: ls' rule: pfree_large.induct)
  case (2 p rec a ls)
  show ?case
  proof (cases "p = a")
    case True
    with 2(2) show ?thesis by (intro exI [of _ "[]"]) auto
  next
    case False
    with 2(2) obtain ls2 where l2: "pfree_large p ls = Some ls2" "ls' = (rec, a) # ls2"
      by (auto simp: map_option_eq_Some)
    with 2(1) [OF False] obtain us r vs where "ls = us @ (r, p) # vs" "ls2 = us @ (r, 0) # vs" by blast
    with l2(2) show ?thesis
      by (intro exI [of _ "(rec, a) # us"] exI [of _ r] exI [of _ vs]) simp
  qed
qed simp

lemma pfree_step:
  assumes inv: "pool_inv P live user" and own: "(p, n) \<in> set user" "0 < n"
  shows "\<exists>ret P' live'. yf_pfree P live p = Inr (ret, P', live') \<and>
    (if ret = YF_OK then pool_inv P' live' (filter (\<lambda>r. fst r \<noteq> p) user)
     else ret = YF_DECLINED \<and> P' = P \<and> live' = live)"
proof (cases "pfree_large p (large P)")
  case None
  then show ?thesis by (simp add: yf_pfree_def)
next
  case (Some ls)
  note D = pool_invD [OF inv]
  from pfree_large_spec [OF Some] obtain us r vs where
    l: "large P = us @ (r, p) # vs" "ls = us @ (r, 0) # vs" by blast
  let ?P = "P\<lparr> large := ls \<rparr>"
  have ints: "internals ?P = internals P" by (simp add: internals_def headers_def l)
  let ?f = "\<lambda>xs. filter (\<lambda>a. a \<noteq> 0) (map snd xs)"
  have srt: "sorted_wrt disj (filter (\<lambda>r. fst r \<noteq> p) user @ internals ?P)"
    using D(4) unfolding ints by (auto simp: sorted_wrt_append sorted_wrt_filter)
  show ?thesis
  proof (cases "p = 0")
    case True
    have "?P = P" using l True by simp
    with srt inv show ?thesis using Some True unfolding pool_inv_def
      by (auto simp: yf_pfree_def yf_free_def)
  next
    case False
    let ?live = "filter (\<lambda>r. fst r \<noteq> p) live"
    have ll: "live_large P = ?f us @ p # ?f vs" "live_large ?P = ?f us @ ?f vs"
      using False l by (simp_all add: live_large_def)
    have p_in: "p \<in> fst ` set live" and p_base: "p \<notin> set (map base (blocks P))"
      and p_new: "p \<notin> set (live_large ?P)"
      using D(3) ll by (auto simp: large_ok_def)
    have "block_ok (psize_of P) ?live b" if "b \<in> set (blocks P)" for b
      using blocks_okD(6) [OF D(2) that] p_base that by (auto simp: block_ok_def)
    then have "blocks_ok ?P ?live" using D(2) by (simp add: blocks_ok_def psize_of_def)
    moreover have "large_ok ?P ?live"
    proof -
      have "a \<in> fst ` set ?live" if "a \<in> set (live_large ?P)" for a
      proof -
        have "a \<noteq> p" "a \<in> fst ` set live" using that p_new D(3) ll by (auto simp: large_ok_def)
        then show ?thesis by auto
      qed
      then show ?thesis using D(3) unfolding large_ok_def ll by auto
    qed
    moreover have "heap_ok ?live" using D(1) by (auto simp: heap_ok_def sorted_wrt_filter)
    moreover have "owned_by ?P ?live r" if "owned_by P live r" "fst r \<noteq> p" for r
      using that ll by (auto simp: owned_by_def)
    moreover have "fst r \<noteq> p" if "r \<in> set (internals P)" for r
    proof
      assume r: "fst r = p"
      have "disj (p, n) r"
        using D(4) own(1) that by (auto simp: sorted_wrt_append)
      moreover have "0 < snd r"
        using that by (auto simp: internals_def headers_def pool_sizes)
      ultimately show False using r own(2) by (auto simp: disj_def)
    qed
    ultimately have "pool_inv ?P ?live (filter (\<lambda>r. fst r \<noteq> p) user)"
      using D(5) srt unfolding pool_inv_def ints by auto
    then show ?thesis using Some False p_in by (simp add: yf_pfree_def yf_free_def)
  qed
qed

subsection \<open>Destroying and resetting a pool\<close>

lemma free_all_spec:
  "distinct as \<Longrightarrow> 0 \<notin> set as \<Longrightarrow> set as \<subseteq> fst ` set live \<Longrightarrow>
   free_all as live = Inr (filter (\<lambda>r. fst r \<notin> set as) live)"
proof (induction as arbitrary: live)
  case (Cons a as)
  let ?live = "filter (\<lambda>r. fst r \<noteq> a) live"
  have "set as \<subseteq> fst ` set ?live"
  proof
    fix x assume "x \<in> set as"
    with Cons.prems have "x \<noteq> a" "x \<in> fst ` set live" by auto
    then show "x \<in> fst ` set ?live" by auto
  qed
  then have "free_all as ?live = Inr (filter (\<lambda>r. fst r \<notin> set as) ?live)"
    by (rule Cons.IH [rotated -1]) (use Cons.prems in auto)
  moreover have "yf_free a live = Inr ?live" using Cons.prems by (simp add: yf_free_def)
  moreover have "filter (\<lambda>r. fst r \<notin> set as) ?live = filter (\<lambda>r. fst r \<notin> set (a # as)) live"
    by (simp add: conj_commute)
  ultimately show ?case by simp
qed simp

lemma pool_memory:
  assumes inv: "pool_inv P live user"
  shows "distinct (map base (blocks P))" "0 \<notin> set (map base (blocks P))"
    "set (map base (blocks P)) \<subseteq> fst ` set live"
    "distinct (live_large P)" "0 \<notin> set (live_large P)" "set (live_large P) \<subseteq> fst ` set live"
    "set (live_large P) \<inter> set (map base (blocks P)) = {}"
proof -
  note D = pool_invD [OF inv]
  have b: "(base b, psize_of P) \<in> set live" if "b \<in> set (blocks P)" for b
    using blocks_okD(6) [OF D(2) that] by (simp add: block_ok_def)
  then show "set (map base (blocks P)) \<subseteq> fst ` set live" by force
  show "0 \<notin> set (map base (blocks P))" using b D(1) unfolding heap_ok_def by fastforce
  show "distinct (map base (blocks P))" by (rule blocks_okD(7) [OF D(2)])
  show "distinct (live_large P)" "set (live_large P) \<subseteq> fst ` set live"
    "set (live_large P) \<inter> set (map base (blocks P)) = {}"
    using D(3) by (simp_all add: large_ok_def)
  show "0 \<notin> set (live_large P)" by (simp add: live_large_def)
qed

lemma yf_destroy_pool_spec:
  assumes inv: "pool_inv P live user"
  shows "yf_destroy_pool P live = Inr (run_cleanups P,
     filter (\<lambda>r. fst r \<notin> set (live_large P) \<and> fst r \<notin> set (map base (blocks P))) live)"
proof -
  note M = pool_memory [OF inv]
  let ?live = "filter (\<lambda>r. fst r \<notin> set (live_large P)) live"
  have "set (map base (blocks P)) \<subseteq> fst ` set ?live"
  proof
    fix x assume "x \<in> set (map base (blocks P))"
    with M(3,7) have "x \<notin> set (live_large P)" "x \<in> fst ` set live" by auto
    then show "x \<in> fst ` set ?live" by auto
  qed
  from free_all_spec [OF M(1,2) this] free_all_spec [OF M(4,5,6)] show ?thesis
    by (simp add: yf_destroy_pool_def)
qed

lemma yf_create_pool_spec:
  assumes al: "allocator_ok al" and h: "heap_ok live" and n: "96 \<le> n" "8 dvd n"
    and run: "yf_create_pool al live n = Inr (Some P, live')"
  shows "pool_inv P live' []"
proof -
  let ?p = "al live YF_POOL_ALIGNMENT n"
  have p: "?p \<noteq> 0" using run by (auto simp: yf_create_pool_def Let_def split: if_splits)
  note A = heap_ok_alloc [OF al h p]
  have P: "blocks P = [\<lparr> base = ?p, last_p = ?p + 80, end_p = ?p + n, failed = 0 \<rparr>]"
    "max_alloc P = min (n - 80) 4095" "current P = 0" "large P = []" "cleanup P = []"
    "live' = (?p, n) # live"
    using run p n by (auto simp: yf_create_pool_def Let_def pool_sizes min_def)
  have ll: "live_large P = []" by (simp add: live_large_def P)
  have "blocks_ok P live'"
    using n A(2) by (auto simp: blocks_ok_def P psize_of_def block_ok_def pool_sizes)
  moreover have "internals P = [(?p, 80)]" by (simp add: internals_def headers_alt P)
  ultimately show ?thesis
    using A(1) by (auto simp: pool_inv_def P(6) large_ok_def ll owned_by_def P(1))
qed


subsection \<open>The pool as an arena\<close>

text \<open>
  What the structures built on a pool rely on: an allocation succeeds with a range that overlaps
  none of those in use, or fails and changes nothing they can see.
\<close>

locale arena =
  fixes inv :: "'p \<Rightarrow> range list \<Rightarrow> bool"
    and alloc :: "'p \<Rightarrow> nat \<Rightarrow> (addr \<times> 'p) option"
  assumes alloc_ok: "inv p used \<Longrightarrow> \<exists>a q. alloc p n = Some (a, q) \<and>
      (if a = 0 then inv q used else inv q ((a, n) # used))"
    and used_disj: "inv p used \<Longrightarrow> sorted_wrt disj used"
begin

lemma alloc_disj:
  assumes "inv p used" "alloc p n = Some (a, q)" "a \<noteq> 0" "r \<in> set used"
  shows "disj (a, n) r"
  using alloc_ok [OF assms(1), of n] assms(2-4) used_disj by fastforce

lemma alloc_inv:
  assumes "inv p used" "alloc p n = Some (a, q)"
  shows "if a = 0 then inv q used else inv q ((a, n) # used)"
  using alloc_ok [OF assms(1), of n] assms(2) by auto

end

type_synonym arena_state = "allocator \<times> pool \<times> range list"

definition pool_arena_inv :: "arena_state \<Rightarrow> range list \<Rightarrow> bool" where
  "pool_arena_inv p used = (case p of (al, P, live) \<Rightarrow> allocator_ok al \<and> pool_inv P live used)"

definition pool_arena_alloc :: "arena_state \<Rightarrow> nat \<Rightarrow> (addr \<times> arena_state) option" where
  "pool_arena_alloc p n = (case p of (al, P, live) \<Rightarrow>
     map_option (\<lambda>(a, P, live). (a, al, P, live)) (yf_palloc al P live n))"

interpretation pool_arena: arena pool_arena_inv pool_arena_alloc
proof
  fix p :: arena_state and used n
  assume "pool_arena_inv p used"
  moreover obtain al P live where p: "p = (al, P, live)" by (cases p) auto
  ultimately have al: "allocator_ok al" and inv: "pool_inv P live used"
    by (simp_all add: pool_arena_inv_def)
  from palloc_step(1) [OF inv al, of n] obtain a P' live' where
    "yf_palloc al P live n = Some (a, P', live')" "alloc_result P live used n (a, P', live')" by auto
  then show "\<exists>a q. pool_arena_alloc p n = Some (a, q) \<and>
      (if a = 0 then pool_arena_inv q used else pool_arena_inv q ((a, n) # used))"
    using al inv by (auto simp: pool_arena_alloc_def pool_arena_inv_def p alloc_result_def)
next
  fix p used assume "pool_arena_inv p used"
  then show "sorted_wrt disj used"
    by (auto simp: pool_arena_inv_def pool_inv_def sorted_wrt_append)
qed

subsection \<open>Executions\<close>

datatype pool_op = Palloc nat | Pnalloc nat | Pmemalign nat nat | Pcleanup nat | Pfree addr

text \<open>The state of an execution: the pool, the C library's allocations and the ranges in use.\<close>

type_synonym pool_state = "pool \<times> range list \<times> range list"

definition in_use :: "nat \<Rightarrow> addr \<times> pool \<times> range list \<Rightarrow> range list \<Rightarrow> pool_state" where
  "in_use n r user = (case r of (a, P, live) \<Rightarrow> (P, live, if a = 0 then user else (a, n) # user))"

fun pool_exec :: "allocator \<Rightarrow> pool_op \<Rightarrow> pool_state \<Rightarrow> pool_state run option" where
  "pool_exec al (Palloc n) (P, live, user) =
     map_option (\<lambda>r. Inr (in_use n r user)) (yf_palloc al P live n)"
| "pool_exec al (Pnalloc n) (P, live, user) =
     map_option (\<lambda>r. Inr (in_use n r user)) (yf_pnalloc al P live n)"
| "pool_exec al (Pmemalign n k) (P, live, user) =
     map_option (\<lambda>r. Inr (in_use n r user)) (yf_pmemalign al P live n k)"
| "pool_exec al (Pcleanup n) (P, live, user) =
     map_option (\<lambda>(c, P, live). Inr (P, live, user)) (yf_pool_cleanup_add al P live n)"
| "pool_exec al (Pfree p) (P, live, user) =
     Some (run_bind (yf_pfree P live p) (\<lambda>(ret, P, live).
       Inr (P, live, if ret = YF_OK then filter (\<lambda>r. fst r \<noteq> p) user else user)))"

text \<open>A caller frees only memory it was given.\<close>

definition pool_op_ok :: "pool_op \<Rightarrow> range list \<Rightarrow> bool" where
  "pool_op_ok op user =
     (case op of Pfree p \<Rightarrow> list_ex (\<lambda>r. fst r = p \<and> 0 < snd r) user | _ \<Rightarrow> True)"

text \<open>An operation that breaks this obligation is skipped.\<close>

fun pool_run :: "allocator \<Rightarrow> pool_op list \<Rightarrow> pool_state \<Rightarrow> pool_state run option" where
  "pool_run al [] s = Some (Inr s)"
| "pool_run al (op # ops) s =
     (if pool_op_ok op (snd (snd s))
      then case pool_exec al op s of
          None \<Rightarrow> None
        | Some (Inl e) \<Rightarrow> Some (Inl e)
        | Some (Inr s) \<Rightarrow> pool_run al ops s
      else pool_run al ops s)"

lemma alloc_result_inv:
  "alloc_result P live user n r \<Longrightarrow> pool_inv P live user \<Longrightarrow>
   (case in_use n r user of (P', live', user') \<Rightarrow> pool_inv P' live' user')"
  by (auto simp: alloc_result_def in_use_def split: if_splits)

lemma pool_exec_ok:
  assumes al: "allocator_ok al" and inv: "pool_inv P live user" and ok: "pool_op_ok op user"
  shows "\<exists>P' live' user'. pool_exec al op (P, live, user) = Some (Inr (P', live', user')) \<and>
    pool_inv P' live' user'"
proof -
  have lift: "\<exists>P' live' user'. map_option (\<lambda>r. Inr (in_use n r user)) x = Some (Inr (P', live', user')) \<and>
      pool_inv P' live' user'"
    if "\<exists>r. x = Some r \<and> alloc_result P live user n r" for n x
  proof -
    from that obtain r where r: "x = Some r" "alloc_result P live user n r" by blast
    obtain P' live' user' where "in_use n r user = (P', live', user')" by (cases "in_use n r user") auto
    with alloc_result_inv [OF r(2) inv] r(1) show ?thesis by simp
  qed
  show ?thesis
  proof (cases op)
    case (Palloc n)
    with lift [OF palloc_step(1) [OF inv al, of n]] show ?thesis by simp
  next
    case (Pnalloc n)
    with lift [OF palloc_step(2) [OF inv al, of n]] show ?thesis by simp
  next
    case (Pmemalign n k)
    with lift [OF pmemalign_step [OF inv al, of n k]] show ?thesis by simp
  next
    case (Pcleanup n)
    with cleanup_add_step [OF inv al, of n] show ?thesis by auto
  next
    case (Pfree p)
    then obtain n where "(p, n) \<in> set user" "0 < n"
      using ok by (auto simp: pool_op_ok_def list_ex_iff)
    from pfree_step [OF inv this] Pfree inv show ?thesis
      by (auto split: if_splits)
  qed
qed

lemma pool_run_ok:
  assumes "allocator_ok al" "pool_inv P live user"
  shows "\<exists>P' live' user'. pool_run al ops (P, live, user) = Some (Inr (P', live', user')) \<and>
    pool_inv P' live' user'"
  using assms(2)
proof (induction ops arbitrary: P live user)
  case (Cons op ops)
  then show ?case using pool_exec_ok [OF assms(1) Cons.prems, of op] by fastforce
qed simp


subsection \<open>Properties\<close>

text \<open>An allocator that satisfies the assumption: it hands out addresses above all others.\<close>

definition bump_top :: "range list \<Rightarrow> nat" where
  "bump_top live = foldr (\<lambda>r m. max (fst r + max 1 (snd r)) m) live 4096"

definition bump_allocator :: allocator where
  "bump_allocator live algn n =
     (let a = align_up (bump_top live) algn in if a + n < 2 ^ 64 then a else 0)"

lemma bump_top_ge: "r \<in> set live \<Longrightarrow> fst r + max 1 (snd r) \<le> bump_top live"
  by (induction live) (auto simp: bump_top_def)

lemma bump_allocator_ok: "allocator_ok bump_allocator"
proof -
  have "sep (a, n) r" if "a = align_up (bump_top live) algn" "a \<noteq> 0" "r \<in> set live" for a n r live algn
  proof -
    have "0 < algn" using that(1,2) by (cases algn) (auto simp: align_up_def)
    then have "bump_top live \<le> a" using that(1) align_up_ge by simp
    with bump_top_ge [OF that(3)] show ?thesis by (auto simp: sep_def)
  qed
  then show ?thesis
    by (auto simp: allocator_ok_def bump_allocator_def Let_def split: if_splits)
qed



text \<open>
  C10: Destroying a pool calls its cleanup handlers, newest first, and frees each of its large
  allocations and blocks exactly once, leaving all other memory alone.
\<close>

theorem yf_destroy_pool_correct:
  assumes "pool_inv P live user"
  shows "yf_destroy_pool P live = Inr (run_cleanups P,
     filter (\<lambda>r. fst r \<notin> set (live_large P) \<and> fst r \<notin> set (map base (blocks P))) live)"
  using assms by (rule yf_destroy_pool_spec)

theorem yf_destroy_pool_correct_witness:
  "\<exists>P live0. yf_create_pool bump_allocator [] 256 = Inr (Some P, live0) \<and>
     yf_destroy_pool P live0 = Inr ([], [])"
proof -
  obtain P live0 where P: "yf_create_pool bump_allocator [] 256 = Inr (Some P, live0)"
    and b: "run_cleanups P = []" "live0 = [(base (hd (blocks P)), 256)]" "blocks P \<noteq> []"
    by (auto simp: yf_create_pool_def bump_allocator_def bump_top_def pool_sizes Let_def
        align_up_def run_cleanups_def)
  have "pool_inv P live0 []"
    by (rule yf_create_pool_spec [OF bump_allocator_ok _ _ _ P]) (simp_all add: heap_ok_def)
  from yf_destroy_pool_correct [OF this] show ?thesis using P b by (cases "blocks P") auto
qed

text \<open>
  C11: When the size of a pool is not a multiple of 8 the aligned position can lie beyond the end
  of the block; the unsigned difference wraps and memory outside the block is handed out: the
  second allocation of 20 bytes from a pool of 100 starts 4 bytes past its end.
\<close>

theorem yf_palloc_unaligned_end:
  assumes "yf_create_pool al live 100 = Inr (Some P, live0)" "16 dvd base (hd (blocks P))"
  shows "\<exists>P1. yf_palloc al P live0 20 = Some (base (hd (blocks P)) + 80, P1, live0) \<and>
    (\<exists>P2. yf_palloc al P1 live0 20 = Some (base (hd (blocks P)) + 104, P2, live0) \<and>
      end_p (hd (blocks P2)) < base (hd (blocks P)) + 104)"
proof -
  let ?p = "base (hd (blocks P))"
  have P: "P = \<lparr> blocks = [\<lparr> base = ?p, last_p = ?p + 80, end_p = ?p + 100, failed = 0 \<rparr>],
      max_alloc = 20, current = 0, large = [], cleanup = [] \<rparr>"
    using assms(1) by (auto simp: yf_create_pool_def Let_def pool_sizes split: if_splits)
  have d: "8 dvd ?p" by (rule dvd_16_8 [OF assms(2)])
  then obtain k where k: "?p = 8 * k" by (auto simp: dvd_def)
  have a1: "align_up (?p + 80) 8 = ?p + 80" using d by simp
  have a2: "align_up (?p + 100) 8 = ?p + 104" unfolding k align_up_def by simp
  define P1 where "P1 = P\<lparr> blocks := [\<lparr> base = ?p, last_p = ?p + 100, end_p = ?p + 100, failed = 0 \<rparr>] \<rparr>"
  have 1: "yf_palloc al P live0 20 = Some (?p + 80, P1, live0)"
    unfolding P1_def by (subst (1 2) P) (simp add: yf_palloc_def palloc_small_def a1 pool_sizes size_diff_def)
  have "yf_palloc al P1 live0 20 = Some (?p + 104,
      P1\<lparr> blocks := [\<lparr> base = ?p, last_p = ?p + 124, end_p = ?p + 100, failed = 0 \<rparr>] \<rparr>, live0)"
    unfolding P1_def by (subst (1 2) P) (simp add: yf_palloc_def palloc_small_def a2 pool_sizes size_diff_def)
  with 1 show ?thesis by fastforce
qed

theorem yf_palloc_unaligned_end_witness:
  "\<exists>P P1 P2. yf_create_pool bump_allocator [] 100 = Inr (Some P, [(4096, 100)]) \<and>
     yf_palloc bump_allocator P [(4096, 100)] 20 = Some (4176, P1, [(4096, 100)]) \<and>
     yf_palloc bump_allocator P1 [(4096, 100)] 20 = Some (4200, P2, [(4096, 100)])"
proof -
  have p: "bump_allocator [] 16 100 = 4096"
    by (simp add: bump_allocator_def bump_top_def pool_sizes Let_def align_up_def)
  obtain P where P: "yf_create_pool bump_allocator [] 100 = Inr (Some P, [(4096, 100)])"
    and b: "base (hd (blocks P)) = 4096"
    by (auto simp: yf_create_pool_def p pool_sizes Let_def)
  from yf_palloc_unaligned_end [OF P] b P show ?thesis by fastforce
qed

text \<open>
  C12: \<^verbatim>\<open>yf_reset_pool\<close> makes the memory of the cleanup records available again but leaves
  them registered: after a reset the next allocation is the memory of the registered record.
\<close>

theorem yf_reset_pool_recycles_cleanup:
  assumes "yf_create_pool al live n = Inr (Some P, live0)" "16 dvd base (hd (blocks P))"
    and "104 \<le> n" "k + 80 \<le> n" "k \<le> 4095"
  shows "\<exists>c P1 P2 P3. yf_pool_cleanup_add al P live0 0 = Some (c, P1, live0) \<and> c \<noteq> 0 \<and>
    yf_reset_pool (set_handler P1 f) live0 = Inr (run_cleanups (set_handler P1 f), P2, live0) \<and>
    cleanup P2 = [\<lparr> c_addr = c, c_handler = f, c_data = 0 \<rparr>] \<and>
    yf_palloc al P2 live0 k = Some (c, P3, live0)"
proof -
  define p where "p = base (hd (blocks P))"
  define m where "m = min (n - 80) 4095"
  let ?b = "\<lambda>l. \<lparr> base = p, last_p = l, end_p = p + n, failed = 0 \<rparr>"
  have P: "P = \<lparr> blocks = [?b (p + 80)], max_alloc = m, current = 0, large = [], cleanup = [] \<rparr>"
    using assms(1) unfolding p_def
    by (auto simp: yf_create_pool_def Let_def pool_sizes m_def min_def require_Inr_iff split: if_splits)
  have "16 dvd p" using assms(2) by (simp add: p_def)
  then have a: "align_up (p + 80) 8 = p + 80" using dvd_16_8 by simp
  have m: "24 \<le> m" "k \<le> m" "24 \<le> n - 80" "k \<le> n - 80" "80 \<le> n" using assms by (auto simp: m_def)
  let ?c = "\<lambda>f. \<lparr> c_addr = p + 80, c_handler = f, c_data = 0 \<rparr>"
  let ?P1 = "\<lparr> blocks = [?b (p + 104)], max_alloc = m, current = 0, large = [], cleanup = [?c 0] \<rparr>"
  let ?P2 = "\<lparr> blocks = [?b (p + 80)], max_alloc = m, current = 0, large = [], cleanup = [?c f] \<rparr>"
  have "yf_pool_cleanup_add al P live0 0 = Some (p + 80, ?P1, live0)"
    unfolding P using m
    by (simp add: yf_pool_cleanup_add_def yf_palloc_def palloc_small_def a pool_sizes size_diff_def Let_def)
  moreover have "yf_reset_pool (set_handler ?P1 f) live0 = Inr (run_cleanups (set_handler ?P1 f), ?P2, live0)"
    by (simp add: yf_reset_pool_def set_handler_def live_large_def pool_sizes)
  moreover have "\<exists>P3. yf_palloc al ?P2 live0 k = Some (p + 80, P3, live0)"
    using m by (simp add: yf_palloc_def palloc_small_def a pool_sizes size_diff_def Let_def)
  ultimately show ?thesis by fastforce
qed

theorem yf_reset_pool_recycles_cleanup_witness:
  "\<exists>P c P1 P2 P3 live0. yf_create_pool bump_allocator [] 256 = Inr (Some P, live0) \<and>
     yf_pool_cleanup_add bump_allocator P live0 0 = Some (c, P1, live0) \<and>
     yf_reset_pool (set_handler P1 7) live0 = Inr ([(7, 0)], P2, live0) \<and>
     yf_palloc bump_allocator P2 live0 32 = Some (c, P3, live0)"
proof -
  obtain P live0 where P: "yf_create_pool bump_allocator [] 256 = Inr (Some P, live0)"
    and b: "16 dvd base (hd (blocks P))" "cleanup P = []"
    by (auto simp: yf_create_pool_def bump_allocator_def bump_top_def pool_sizes Let_def align_up_def)
  from yf_reset_pool_recycles_cleanup [OF P b(1), of 32 7] obtain c P1 P2 P3 where
    *: "yf_pool_cleanup_add bump_allocator P live0 0 = Some (c, P1, live0)"
    "yf_reset_pool (set_handler P1 7) live0 = Inr (run_cleanups (set_handler P1 7), P2, live0)"
    "cleanup P2 = [\<lparr> c_addr = c, c_handler = 7, c_data = 0 \<rparr>]"
    "yf_palloc bump_allocator P2 live0 32 = Some (c, P3, live0)" by auto
  have "cleanup P2 = cleanup (set_handler P1 7)"
    using *(2) by (auto simp: yf_reset_pool_def run_bind_Inr_iff)
  with *(3) have "cleanup (set_handler P1 7) = [\<lparr> c_addr = c, c_handler = 7, c_data = 0 \<rparr>]"
    by simp
  then have "run_cleanups (set_handler P1 7) = [(7, 0)]"
    unfolding run_cleanups_def by (simp only:) simp
  with * P show ?thesis by auto
qed

end
