(* ===== verification/Task_Queue.thy ===== *)
theory Task_Queue
  imports Yf_Prelude
begin

section \<open>Task queues\<close>

text \<open>
  Models \<^verbatim>\<open>bridge/bridge_in/yf_bridge_task.h\<close> and \<^verbatim>\<open>yf_bridge_task.c\<close>: the ring of bytes
  a bridge uses to pass tasks and results between its two sides. A queue is its header and the
  bytes behind it; a task is stored as a head of 40 bytes (the layout of \<^verbatim>\<open>yf_task_head_t\<close> on
  an LP64 little-endian platform, with the padding written as zero) followed by its payload.
  \<^verbatim>\<open>task_info\<close> keeps its bit fields in 32-bit words.
\<close>

record task_info =
  ti_id :: u64
  ti_sec :: u32
  ti_msec :: u32
  ti_status :: u32
  ti_timeout_ms :: u32
  ti_timeout :: bool
  ti_error :: bool

record task_queue =
  magic :: u32
  capacity :: nat
  read_offset :: nat
  write_offset :: nat
  tq_buf :: "u8 list"

definition TQ_HEAD_LEN :: nat where "TQ_HEAD_LEN = 32"
definition TASK_HEAD_LEN :: nat where "TASK_HEAD_LEN = 40"

record task_head =
  th_magic :: u32
  th_len :: u32
  th_time :: u32
  th_info :: task_info

subsection \<open>The layout of a task head\<close>

definition info_flags :: "task_info \<Rightarrow> nat" where
  "info_flags i = unat (ti_timeout_ms i) mod 2 ^ 20 + (if ti_timeout i then 2 ^ 20 else 0) +
     (if ti_error i then 2 ^ 21 else 0)"

definition enc_info :: "task_info \<Rightarrow> u8 list" where
  "enc_info i = le_bytes 8 (unat (ti_id i)) @ le_bytes 4 (unat (ti_sec i)) @
     le_bytes 4 (unat (ti_msec i)) @ le_bytes 4 (unat (ti_status i)) @ le_bytes 4 (info_flags i)"

definition dec_info :: "u8 list \<Rightarrow> task_info" where
  "dec_info bs =
     (let flags = le_val (take 4 (drop 20 bs)) in
      \<lparr> ti_id = of_nat (le_val (take 8 bs)),
        ti_sec = of_nat (le_val (take 4 (drop 8 bs))),
        ti_msec = of_nat (le_val (take 4 (drop 12 bs))),
        ti_status = of_nat (le_val (take 4 (drop 16 bs))),
        ti_timeout_ms = of_nat (flags mod 2 ^ 20),
        ti_timeout = odd (flags div 2 ^ 20),
        ti_error = odd (flags div 2 ^ 21) \<rparr>)"

definition enc_head :: "task_head \<Rightarrow> u8 list" where
  "enc_head h = le_bytes 4 (unat (th_magic h)) @ le_bytes 4 (unat (th_len h)) @
     le_bytes 4 (unat (th_time h)) @ le_bytes 4 0 @ enc_info (th_info h)"

definition dec_head :: "u8 list \<Rightarrow> task_head" where
  "dec_head bs =
     \<lparr> th_magic = of_nat (le_val (take 4 bs)),
       th_len = of_nat (le_val (take 4 (drop 4 bs))),
       th_time = of_nat (le_val (take 4 (drop 8 bs))),
       th_info = dec_info (drop 16 bs) \<rparr>"

text \<open>A \<^verbatim>\<open>timeout_ms\<close> fits its field of 20 bits.\<close>

definition info_ok :: "task_info \<Rightarrow> bool" where
  "info_ok i \<longleftrightarrow> unat (ti_timeout_ms i) < 2 ^ 20"

lemma of_nat_le_val [simp]:
  "of_nat (le_val (le_bytes 4 (unat (x :: u32)))) = x"
  "of_nat (le_val (le_bytes 8 (unat (y :: u64)))) = y"
proof -
  have "unat x < 256 ^ 4" "unat y < 256 ^ 8" using unsigned_less [of x] unsigned_less [of y] by simp_all
  then show "of_nat (le_val (le_bytes 4 (unat x))) = x" "of_nat (le_val (le_bytes 8 (unat y))) = y"
    by (simp_all add: le_val_bytes)
qed

lemma info_flags_less: "info_flags i < 2 ^ 22"
proof -
  have "unat (ti_timeout_ms i) mod 2 ^ 20 < 2 ^ 20" by simp
  then show ?thesis unfolding info_flags_def by auto
qed

lemma flags_dec:
  fixes m n :: nat
  assumes "m < n"
  shows "(m + (if a then n else 0) + (if b then 2 * n else 0)) mod n = m"
    "odd ((m + (if a then n else 0) + (if b then 2 * n else 0)) div n) = a"
    "odd ((m + (if a then n else 0) + (if b then 2 * n else 0)) div (2 * n)) = b"
proof -
  let ?k = "(if a then 1 else 0) + (if b then 2 else 0) :: nat"
  have k: "m + (if a then n else 0) + (if b then 2 * n else 0) = m + ?k * n" by simp
  have n: "n \<noteq> 0" using assms by simp
  show "(m + (if a then n else 0) + (if b then 2 * n else 0)) mod n = m"
    unfolding k using assms by simp
  have "(m + ?k * n) div n = ?k + m div n" by (rule div_mult_self1 [OF n])
  then have "(m + ?k * n) div n = ?k" using assms by simp
  then show "odd ((m + (if a then n else 0) + (if b then 2 * n else 0)) div n) = a"
    unfolding k by simp
  have "(m + (if a then n else 0) + (if b then 1 else 0) * (2 * n)) div (2 * n) = (if b then 1 else 0)"
    using n assms by (subst div_mult_self1) simp_all
  then show "odd ((m + (if a then n else 0) + (if b then 2 * n else 0)) div (2 * n)) = b"
    by (cases b) simp_all
qed

lemma length_enc_info [simp]: "length (enc_info i) = 24"
  by (simp add: enc_info_def)

lemma dec_enc_info: "info_ok i \<Longrightarrow> dec_info (enc_info i) = i"
proof -
  assume ok: "info_ok i"
  have fl: "le_val (le_bytes 4 (info_flags i)) = info_flags i"
    using info_flags_less [of i] by (intro le_val_bytes) simp
  have t: "unat (ti_timeout_ms i) < 2 ^ 20" using ok by (simp add: info_ok_def)
  have ff: "info_flags i = unat (ti_timeout_ms i) + (if ti_timeout i then 2 ^ 20 else 0) +
      (if ti_error i then 2 ^ 21 else 0)"
    using t by (simp add: info_flags_def)
  note p = power_Suc [of "2::nat" 20, simplified Suc_numeral add_num_simps]
  have d: "info_flags i mod 2 ^ 20 = unat (ti_timeout_ms i)"
    "odd (info_flags i div 2 ^ 20) = ti_timeout i" "odd (info_flags i div 2 ^ 21) = ti_error i"
    unfolding ff p by (rule flags_dec [OF t])+
  have "dec_info (enc_info i) = \<lparr> ti_id = ti_id i, ti_sec = ti_sec i, ti_msec = ti_msec i,
      ti_status = ti_status i, ti_timeout_ms = ti_timeout_ms i, ti_timeout = ti_timeout i,
      ti_error = ti_error i \<rparr>"
    unfolding dec_info_def enc_info_def Let_def using d by (simp add: fl)
  then show ?thesis by simp
qed

lemma length_enc_head [simp]: "length (enc_head h) = 40"
  by (simp add: enc_head_def)

lemma dec_enc_head: "info_ok (th_info h) \<Longrightarrow> dec_head (enc_head h) = h"
  unfolding dec_head_def enc_head_def by (simp add: dec_enc_info)


subsection \<open>Operations\<close>

definition yf_tq_free_capacity :: "task_queue \<Rightarrow> nat" where
  "yf_tq_free_capacity q =
     (if read_offset q = write_offset q then capacity q
      else (read_offset q + capacity q - write_offset q) mod capacity q)"

definition yf_tq_buf_size :: "task_queue \<Rightarrow> nat" where
  "yf_tq_buf_size q = (write_offset q + capacity q - read_offset q) mod capacity q"

text \<open>
  \<^verbatim>\<open>yf_init_task_queue\<close> on a buffer of \<open>n\<close> bytes: \<open>mem\<close> is the queue the buffer holds
  when it is read as one. The function returns the buffer in every case.
\<close>

definition yf_init_task_queue :: "task_queue \<Rightarrow> nat \<Rightarrow> task_queue" where
  "yf_init_task_queue mem n =
     (if magic mem = YF_MAGIC_VAL then mem
      else if n \<le> TQ_HEAD_LEN then mem
      else mem\<lparr> magic := YF_MAGIC_VAL, capacity := n - TQ_HEAD_LEN,
                read_offset := 0, write_offset := 0 \<rparr>)"

text \<open>\<^verbatim>\<open>yf_memcpy\<close> into and out of the ring's buffer.\<close>

definition put_bytes :: "u8 list \<Rightarrow> nat \<Rightarrow> u8 list \<Rightarrow> u8 list run" where
  "put_bytes buf off bs =
     require Out_of_bounds (off + length bs \<le> length buf)
       (Inr (take off buf @ bs @ drop (off + length bs) buf))"

definition get_bytes :: "u8 list \<Rightarrow> nat \<Rightarrow> nat \<Rightarrow> u8 list run" where
  "get_bytes buf off n =
     require Out_of_bounds (off + n \<le> length buf) (Inr (take n (drop off buf)))"

definition yf_tq_buf_add :: "task_queue \<Rightarrow> nat \<Rightarrow> u8 list \<Rightarrow> (task_queue \<times> nat) run" where
  "yf_tq_buf_add q off bs =
     require Out_of_bounds (off \<le> capacity q)
       (let tail_cap = capacity q - off; rest_len = int (length bs) - int tail_cap in
        run_bind (put_bytes (tq_buf q) off (if rest_len > 0 then take tail_cap bs else bs)) (\<lambda>buf.
        if rest_len < 0 then Inr (q\<lparr> tq_buf := buf \<rparr>, off + length bs)
        else if rest_len = 0 then Inr (q\<lparr> tq_buf := buf \<rparr>, 0)
        else run_bind (put_bytes buf 0 (drop tail_cap bs)) (\<lambda>buf.
             Inr (q\<lparr> tq_buf := buf \<rparr>, nat rest_len))))"

text \<open>\<open>None\<close> is \<^verbatim>\<open>YF_AGAIN\<close>.\<close>

definition yf_tq_buf_get :: "task_queue \<Rightarrow> nat \<Rightarrow> nat \<Rightarrow> ((u8 list \<times> nat) option) run" where
  "yf_tq_buf_get q off len =
     require Out_of_bounds (off \<le> capacity q)
       (require Div_by_zero (capacity q \<noteq> 0)
         (let buf_size = (write_offset q + capacity q - off) mod capacity q in
          if buf_size < len then Inr None
          else
            let tail_cap = capacity q - off; rest_len = int len - int tail_cap in
            run_bind (get_bytes (tq_buf q) off (if rest_len > 0 then tail_cap else len)) (\<lambda>bs.
            if rest_len < 0 then Inr (Some (bs, off + len))
            else if rest_len = 0 then Inr (Some (bs, 0))
            else run_bind (get_bytes (tq_buf q) 0 (nat rest_len)) (\<lambda>bs'.
                 Inr (Some (bs @ bs', nat rest_len))))))"

definition yf_task_push ::
  "u32 \<Rightarrow> task_queue \<Rightarrow> task_info \<Rightarrow> u8 list \<Rightarrow> (int \<times> task_queue) run" where
  "yf_task_push now q info task =
     c_assert (magic q = YF_MAGIC_VAL)
       (require Div_by_zero (capacity q \<noteq> 0 \<or> read_offset q = write_offset q)
         (let free_cap = yf_tq_free_capacity q; require_len = length task + TASK_HEAD_LEN in
          if free_cap \<le> require_len then Inr (YF_ERROR, q)
          else
            let head = \<lparr> th_magic = YF_MAGIC_VAL, th_len = of_nat (length task), th_time = now,
                         th_info = info \<rparr> in
            run_bind (yf_tq_buf_add q (write_offset q) (enc_head head)) (\<lambda>(q, off).
            run_bind (if task \<noteq> [] then yf_tq_buf_add q off task else Inr (q, off)) (\<lambda>(q, off).
            Inr (YF_OK, q\<lparr> write_offset := off \<rparr>)))))"

text \<open>
  \<^verbatim>\<open>yf_task_pop\<close>: \<open>room\<close> is the size of the caller's buffer, \<open>None\<close> when it passes no length.
\<close>

definition yf_task_pop ::
  "task_queue \<Rightarrow> nat option \<Rightarrow> (int \<times> (task_info \<times> u8 list) option \<times> task_queue) run" where
  "yf_task_pop q room =
     c_assert (magic q = YF_MAGIC_VAL)
       (run_bind (yf_tq_buf_get q (read_offset q) TASK_HEAD_LEN) (\<lambda>r.
        case r of
          None \<Rightarrow> Inr (YF_AGAIN, None, q)
        | Some (hd_bytes, off) \<Rightarrow>
          let head = dec_head hd_bytes in
          c_assert (th_magic head = YF_MAGIC_VAL)
            (if (case room of None \<Rightarrow> False | Some n \<Rightarrow> n < unat (th_len head))
             then Inr (YF_ERROR, None, q)
             else if th_len head \<noteq> 0
             then run_bind (yf_tq_buf_get q off (unat (th_len head))) (\<lambda>r.
                  case r of
                    None \<Rightarrow> Inr (YF_AGAIN, None, q)
                  | Some (task, off) \<Rightarrow>
                      Inr (YF_OK, Some (th_info head, task), q\<lparr> read_offset := off \<rparr>))
             else Inr (YF_OK, Some (th_info head, []), q\<lparr> read_offset := off \<rparr>))))"

subsection \<open>The bytes of a ring\<close>

definition ring_ok :: "task_queue \<Rightarrow> bool" where
  "ring_ok q \<longleftrightarrow> 0 < capacity q \<and> length (tq_buf q) = capacity q \<and>
     read_offset q < capacity q \<and> write_offset q < capacity q"

definition ring_from :: "u8 list \<Rightarrow> nat \<Rightarrow> nat \<Rightarrow> u8 list" where
  "ring_from buf off n = map (\<lambda>i. buf ! ((off + i) mod length buf)) [0..<n]"

lemma length_ring_from [simp]: "length (ring_from buf off n) = n"
  by (simp add: ring_from_def)

lemma ring_from_append:
  "ring_from buf off (m + n) = ring_from buf off m @ ring_from buf ((off + m) mod length buf) n"
proof -
  have 1: "[0..<m + n] = [0..<m] @ map (\<lambda>i. i + m) [0..<n]"
    using upt_add_eq_append [of 0 m n] map_add_upt [of m n]
    by (simp only: add.commute [of n m] zero_le simp_thms)
  have 2: "(off + (i + m)) mod length buf = ((off + m) mod length buf + i) mod length buf" for i
    by (metis add.assoc add.commute mod_add_left_eq)
  show ?thesis
    unfolding ring_from_def 1 map_append map_map by (simp only: comp_def 2)
qed

lemma ring_from_whole:
  assumes "off + n \<le> length buf"
  shows "ring_from buf off n = take n (drop off buf)"
proof (rule nth_equalityI)
  fix i assume "i < length (ring_from buf off n)"
  then show "ring_from buf off n ! i = take n (drop off buf) ! i"
    using assms by (simp add: ring_from_def)
qed (use assms in simp)


lemma ring_from_wrap:
  assumes "off < length buf" "length buf \<le> off + n" "n \<le> length buf"
  shows "ring_from buf off n = drop off buf @ take (off + n - length buf) buf"
proof -
  let ?m = "length buf - off"
  have "ring_from buf off (?m + (n - ?m)) =
      ring_from buf off ?m @ ring_from buf ((off + ?m) mod length buf) (n - ?m)"
    by (rule ring_from_append)
  then have "ring_from buf off n = ring_from buf off ?m @ ring_from buf 0 (n - ?m)"
    using assms by simp
  then show ?thesis using assms by (simp add: ring_from_whole add.commute)
qed

lemma mod_wrap: "x < 2 * c \<Longrightarrow> x mod c = (if x < c then x else x - (c::nat))"
  by (simp add: mod_if)

lemma int_minus_cases:
  "int a - int b < 0 \<longleftrightarrow> a < b" "int a - int b = 0 \<longleftrightarrow> a = b" "0 < int a - int b \<longleftrightarrow> b < a"
  "nat (int a - int b) = a - b"
  by auto

lemma buf_add_alt:
  "off \<le> capacity q \<Longrightarrow> yf_tq_buf_add q off bs =
     (let tail_cap = capacity q - off in
      run_bind (put_bytes (tq_buf q) off (if tail_cap < length bs then take tail_cap bs else bs)) (\<lambda>buf.
      if length bs < tail_cap then Inr (q\<lparr> tq_buf := buf \<rparr>, off + length bs)
      else if length bs = tail_cap then Inr (q\<lparr> tq_buf := buf \<rparr>, 0)
      else run_bind (put_bytes buf 0 (drop tail_cap bs)) (\<lambda>buf.
           Inr (q\<lparr> tq_buf := buf \<rparr>, length bs - tail_cap))))"
  unfolding yf_tq_buf_add_def Let_def int_minus_cases by simp

lemma buf_get_alt:
  "off \<le> capacity q \<Longrightarrow> 0 < capacity q \<Longrightarrow> yf_tq_buf_get q off len =
     (if (write_offset q + capacity q - off) mod capacity q < len then Inr None
      else let tail_cap = capacity q - off in
        run_bind (get_bytes (tq_buf q) off (if tail_cap < len then tail_cap else len)) (\<lambda>bs.
        if len < tail_cap then Inr (Some (bs, off + len))
        else if len = tail_cap then Inr (Some (bs, 0))
        else run_bind (get_bytes (tq_buf q) 0 (len - tail_cap)) (\<lambda>bs'.
             Inr (Some (bs @ bs', len - tail_cap)))))"
  unfolding yf_tq_buf_get_def Let_def int_minus_cases by simp

text \<open>Writing at an offset replaces exactly the bytes that follow it around the ring.\<close>

lemma buf_add_spec:
  assumes c: "length (tq_buf q) = capacity q" "off < capacity q" "length bs \<le> capacity q"
  shows "\<exists>buf. yf_tq_buf_add q off bs = Inr (q\<lparr> tq_buf := buf \<rparr>, (off + length bs) mod capacity q) \<and>
    length buf = capacity q \<and>
    (\<forall>j < capacity q. buf ! j = (let d = (j + capacity q - off) mod capacity q in
       if d < length bs then bs ! d else tq_buf q ! j))"
proof -
  let ?c = "capacity q" and ?n = "length bs"
  have d: "(j + ?c - off) mod ?c = (if off \<le> j then j - off else j + ?c - off)" if "j < ?c" for j
    using that c(2) by (auto simp: mod_wrap)
  show ?thesis
  proof (cases "off + ?n \<le> ?c")
    case True
    let ?buf = "take off (tq_buf q) @ bs @ drop (off + ?n) (tq_buf q)"
    have run: "yf_tq_buf_add q off bs = Inr (q\<lparr> tq_buf := ?buf \<rparr>, (off + ?n) mod ?c)"
    proof (cases "off + ?n = ?c")
      case eq: True
      then have "?c - off = ?n" "bs \<noteq> []" using c(2) by auto
      then show ?thesis using c eq
        by (simp add: buf_add_alt put_bytes_def Let_def)
    next
      case False
      then have "?n < ?c - off" using True by simp
      then show ?thesis using c True False
        by (simp add: buf_add_alt put_bytes_def Let_def)
    qed
    have "?buf ! j = (let d = (j + ?c - off) mod ?c in if d < ?n then bs ! d else tq_buf q ! j)"
      if "j < ?c" for j
      using that c True d [OF that] by (auto simp: nth_append Let_def)
    with run True c show ?thesis by (intro exI [of _ ?buf]) simp
  next
    case False
    let ?tail = "?c - off" and ?rest = "off + ?n - ?c"
    let ?buf1 = "take off (tq_buf q) @ take ?tail bs"
    let ?buf = "drop ?tail bs @ drop ?rest ?buf1"
    have "?tail < ?n" "?n - ?tail = ?rest" "?rest \<le> off" using False c by auto
    then have run: "yf_tq_buf_add q off bs = Inr (q\<lparr> tq_buf := ?buf \<rparr>, (off + ?n) mod ?c)"
      using c False by (simp add: buf_add_alt put_bytes_def Let_def mod_wrap)
    have "?buf ! j = (let d = (j + ?c - off) mod ?c in if d < ?n then bs ! d else tq_buf q ! j)"
      if "j < ?c" for j
      using that c False d [OF that] by (auto simp: nth_append Let_def add.commute)
    with run False c show ?thesis by (intro exI [of _ ?buf]) simp
  qed
qed

lemma buf_add_ring:
  assumes c: "length (tq_buf q) = capacity q" "off < capacity q" "length bs \<le> capacity q"
  obtains buf where
    "yf_tq_buf_add q off bs = Inr (q\<lparr> tq_buf := buf \<rparr>, (off + length bs) mod capacity q)"
    "length buf = capacity q" "ring_from buf off (length bs) = bs"
    "\<And>r n. r < capacity q \<Longrightarrow> n + length bs \<le> capacity q \<Longrightarrow> off = (r + n) mod capacity q \<Longrightarrow>
      ring_from buf r n = ring_from (tq_buf q) r n"
proof -
  let ?c = "capacity q"
  from buf_add_spec [OF assms] obtain buf where
    run: "yf_tq_buf_add q off bs = Inr (q\<lparr> tq_buf := buf \<rparr>, (off + length bs) mod ?c)" and
    len: "length buf = ?c" and
    nth: "\<And>j. j < ?c \<Longrightarrow> buf ! j = (let d = (j + ?c - off) mod ?c in
       if d < length bs then bs ! d else tq_buf q ! j)" by blast
  have "ring_from buf off (length bs) = bs"
  proof (rule nth_equalityI)
    fix i assume "i < length (ring_from buf off (length bs))"
    then have i: "i < length bs" by simp
    have j: "(off + i) mod ?c < ?c" using c(2) by simp
    have "((off + i) mod ?c + ?c - off) mod ?c = i"
      using i c(2,3) by (auto simp: mod_wrap)
    with nth [OF j] i len show "ring_from buf off (length bs) ! i = bs ! i"
      by (simp add: ring_from_def)
  qed simp
  moreover have "ring_from buf r n = ring_from (tq_buf q) r n"
    if r: "r < ?c" "n + length bs \<le> ?c" "off = (r + n) mod ?c" for r n
  proof (rule nth_equalityI)
    fix i assume "i < length (ring_from buf r n)"
    then have i: "i < n" by simp
    have j: "(r + i) mod ?c < ?c" using c(2) by simp
    have "\<not> ((r + i) mod ?c + ?c - off) mod ?c < length bs"
      using i r by (auto simp: mod_wrap split: if_splits)
    with nth [OF j] i len c(1) show "ring_from buf r n ! i = ring_from (tq_buf q) r n ! i"
      by (simp add: ring_from_def)
  qed simp
  ultimately show ?thesis using that run len by blast
qed

lemma buf_get_spec:
  assumes c: "length (tq_buf q) = capacity q" "off < capacity q" "write_offset q < capacity q"
  shows "yf_tq_buf_get q off n =
    Inr (if (write_offset q + capacity q - off) mod capacity q < n then None
         else Some (ring_from (tq_buf q) off n, (off + n) mod capacity q))"
proof (cases "(write_offset q + capacity q - off) mod capacity q < n")
  case True
  then show ?thesis using c by (simp add: yf_tq_buf_get_def)
next
  case False
  let ?c = "capacity q"
  have n: "n < ?c" using False c(2) by (metis linorder_not_le mod_less_divisor not_less order_le_less_trans gr_implies_not0 zero_less_iff_neq_zero)
  show ?thesis
  proof (cases "off + n < ?c")
    case True
    then have "n < ?c - off" by simp
    with True False c show ?thesis
      by (simp add: buf_get_alt get_bytes_def Let_def ring_from_whole)
  next
    case ge: False
    show ?thesis
    proof (cases "off + n = ?c")
      case True
      then have "?c - off = n" by simp
      with True False c show ?thesis
        by (simp add: buf_get_alt get_bytes_def Let_def ring_from_whole)
    next
      case ne: False
      then have "?c - off < n" "n - (?c - off) = off + n - ?c" "off + n - ?c \<le> ?c"
        using ge c(2) n by auto
      moreover have "ring_from (tq_buf q) off n = drop off (tq_buf q) @ take (off + n - ?c) (tq_buf q)"
        using ring_from_wrap [of off "tq_buf q" n] c n ge by simp
      moreover have "(off + n) mod ?c = off + n - ?c" using c(2) n ge by (simp add: mod_wrap)
      ultimately show ?thesis using c False
        by (simp add: buf_get_alt get_bytes_def Let_def)
    qed
  qed
qed


subsection \<open>The queue as a sequence of tasks\<close>

definition task_bytes :: "u32 \<times> task_info \<times> u8 list \<Rightarrow> u8 list" where
  "task_bytes t = (case t of (now, info, task) \<Rightarrow>
     enc_head \<lparr> th_magic = YF_MAGIC_VAL, th_len = of_nat (length task), th_time = now,
                th_info = info \<rparr> @ task)"

definition tq_used :: "task_queue \<Rightarrow> nat" where
  "tq_used q = (write_offset q + capacity q - read_offset q) mod capacity q"

text \<open>The tasks in the queue, oldest first, with the time each was pushed at.\<close>

definition tq_rep :: "task_queue \<Rightarrow> (u32 \<times> task_info \<times> u8 list) list \<Rightarrow> bool" where
  "tq_rep q ts \<longleftrightarrow> magic q = YF_MAGIC_VAL \<and> ring_ok q \<and>
     ring_from (tq_buf q) (read_offset q) (tq_used q) = concat (map task_bytes ts) \<and>
     (\<forall>(now, info, task) \<in> set ts. info_ok info \<and> length task < 2 ^ 32)"

lemma tq_used_less: "ring_ok q \<Longrightarrow> tq_used q < capacity q"
  by (simp add: ring_ok_def tq_used_def)

lemma tq_used_write: "ring_ok q \<Longrightarrow> (read_offset q + tq_used q) mod capacity q = write_offset q"
  by (auto simp: ring_ok_def tq_used_def mod_wrap)

lemma tq_used_offsets:
  "r < c \<Longrightarrow> n < c \<Longrightarrow> ((r + n) mod c + c - r) mod c = (n::nat)"
  by (auto simp: mod_wrap)

lemma free_capacity: "ring_ok q \<Longrightarrow> yf_tq_free_capacity q = capacity q - tq_used q"
  by (auto simp: ring_ok_def tq_used_def yf_tq_free_capacity_def mod_wrap)

lemma tq_rep_used: "tq_rep q ts \<Longrightarrow> tq_used q = length (concat (map task_bytes ts))"
  unfolding tq_rep_def by (metis length_ring_from)

lemma length_task_bytes [simp]: "length (task_bytes (now, info, task)) = 40 + length task"
  by (simp add: task_bytes_def)

text \<open>Two writes in sequence are one write of both byte strings.\<close>

lemma buf_add_two:
  assumes ok: "ring_ok q" and room: "tq_used q + length bs + length cs < capacity q"
  shows "\<exists>buf. run_bind (yf_tq_buf_add q (write_offset q) bs) (\<lambda>(q, off).
        run_bind (if cs \<noteq> [] then yf_tq_buf_add q off cs else Inr (q, off)) (\<lambda>(q, off).
        Inr (YF_OK, q\<lparr> write_offset := off \<rparr>))) =
      Inr (YF_OK, q\<lparr> tq_buf := buf,
        write_offset := (read_offset q + (tq_used q + length bs + length cs)) mod capacity q \<rparr>) \<and>
    length buf = capacity q \<and>
    ring_from buf (read_offset q) (tq_used q + length bs + length cs) =
      ring_from (tq_buf q) (read_offset q) (tq_used q) @ bs @ cs"
proof -
  let ?c = "capacity q" and ?r = "read_offset q" and ?w = "write_offset q" and ?u = "tq_used q"
  let ?b = "length bs" and ?n = "length cs"
  have c: "length (tq_buf q) = ?c" "?w < ?c" "?r < ?c" "?b \<le> ?c"
    using ok room by (auto simp: ring_ok_def)
  have w: "?w = (?r + ?u) mod ?c" using tq_used_write [OF ok] by simp
  obtain buf1 where 1: "yf_tq_buf_add q ?w bs = Inr (q\<lparr> tq_buf := buf1 \<rparr>, (?w + ?b) mod ?c)"
    "length buf1 = ?c" "ring_from buf1 ?w ?b = bs"
    "ring_from buf1 ?r ?u = ring_from (tq_buf q) ?r ?u"
  proof (rule buf_add_ring [OF c(1,2,4)])
    fix buf
    assume b: "yf_tq_buf_add q ?w bs = Inr (q\<lparr> tq_buf := buf \<rparr>, (?w + ?b) mod ?c)" "length buf = ?c"
      "ring_from buf ?w ?b = bs"
      "\<And>r n. r < ?c \<Longrightarrow> n + ?b \<le> ?c \<Longrightarrow> ?w = (r + n) mod ?c \<Longrightarrow> ring_from buf r n = ring_from (tq_buf q) r n"
    have "ring_from buf ?r ?u = ring_from (tq_buf q) ?r ?u"
      using c(3) room w by (intro b(4)) simp_all
    with b(1-3) show thesis using that by blast
  qed
  have w1: "(?w + ?b) mod ?c = (?r + (?u + ?b)) mod ?c"
    unfolding w by (simp add: mod_add_left_eq add.assoc)
  have r1: "ring_from buf1 ?r (?u + ?b) = ring_from (tq_buf q) ?r ?u @ bs"
    using ring_from_append [of buf1 ?r ?u ?b] 1 w by simp
  show ?thesis
  proof (cases "cs = []")
    case True
    then show ?thesis using 1(1,2) r1 w1 by auto
  next
    case False
    let ?q = "q\<lparr> tq_buf := buf1 \<rparr>" and ?o = "(?w + ?b) mod ?c"
    have o: "?o < capacity ?q" "length (tq_buf ?q) = capacity ?q" "?n \<le> capacity ?q"
      using c 1(2) room by auto
    obtain buf2 where 2: "yf_tq_buf_add ?q ?o cs = Inr (q\<lparr> tq_buf := buf2 \<rparr>, (?o + ?n) mod ?c)"
      "length buf2 = ?c" "ring_from buf2 ?o ?n = cs"
      "ring_from buf2 ?r (?u + ?b) = ring_from buf1 ?r (?u + ?b)"
    proof (rule buf_add_ring [OF o(2,1,3)])
      fix buf
      assume b: "yf_tq_buf_add ?q ?o cs = Inr (?q\<lparr> tq_buf := buf \<rparr>, (?o + ?n) mod capacity ?q)"
        "length buf = capacity ?q" "ring_from buf ?o ?n = cs"
        "\<And>r n. r < capacity ?q \<Longrightarrow> n + ?n \<le> capacity ?q \<Longrightarrow> ?o = (r + n) mod capacity ?q \<Longrightarrow>
           ring_from buf r n = ring_from (tq_buf ?q) r n"
      have "ring_from buf ?r (?u + ?b) = ring_from buf1 ?r (?u + ?b)"
        using b(4) [of ?r "?u + ?b"] c(3) room w1 by simp
      with b(1-3) show thesis using that by simp
    qed
    have w2: "(?o + ?n) mod ?c = (?r + (?u + ?b + ?n)) mod ?c"
      unfolding w1 by (simp add: mod_add_left_eq add.assoc)
    have "ring_from buf2 ?r (?u + ?b + ?n) = ring_from (tq_buf q) ?r ?u @ bs @ cs"
      using ring_from_append [of buf2 ?r "?u + ?b" ?n] 2 w1 r1 by simp
    with 1(1) 2 w2 False show ?thesis by auto
  qed
qed

lemma tq_push_spec:
  assumes rep: "tq_rep q ts" and i: "info_ok info" and l: "length task < 2 ^ 32"
  shows "if length task + 40 < yf_tq_free_capacity q
    then \<exists>q'. yf_task_push now q info task = Inr (YF_OK, q') \<and> tq_rep q' (ts @ [(now, info, task)]) \<and>
      capacity q' = capacity q
    else yf_task_push now q info task = Inr (YF_ERROR, q)"
proof -
  have ok: "ring_ok q" "magic q = YF_MAGIC_VAL" using rep by (simp_all add: tq_rep_def)
  have c: "0 < capacity q" using ok(1) by (simp add: ring_ok_def)
  show ?thesis
  proof (cases "length task + 40 < yf_tq_free_capacity q")
    case False
    then show ?thesis using ok(2) c
      by (simp add: yf_task_push_def TASK_HEAD_LEN_def)
  next
    case True
    let ?h = "enc_head \<lparr> th_magic = YF_MAGIC_VAL, th_len = of_nat (length task), th_time = now,
                th_info = info \<rparr>"
    have room: "tq_used q + length ?h + length task < capacity q"
      using True free_capacity [OF ok(1)] by simp
    from buf_add_two [OF ok(1) room] obtain buf where
      run: "run_bind (yf_tq_buf_add q (write_offset q) ?h) (\<lambda>(q, off).
          run_bind (if task \<noteq> [] then yf_tq_buf_add q off task else Inr (q, off)) (\<lambda>(q, off).
          Inr (YF_OK, q\<lparr> write_offset := off \<rparr>))) =
        Inr (YF_OK, q\<lparr> tq_buf := buf,
          write_offset := (read_offset q + (tq_used q + length ?h + length task)) mod capacity q \<rparr>)" and
      buf: "length buf = capacity q"
        "ring_from buf (read_offset q) (tq_used q + length ?h + length task) =
          ring_from (tq_buf q) (read_offset q) (tq_used q) @ ?h @ task" by blast
    let ?n = "tq_used q + length ?h + length task"
    let ?q = "q\<lparr> tq_buf := buf, write_offset := (read_offset q + ?n) mod capacity q \<rparr>"
    have r: "read_offset q < capacity q" using ok(1) by (simp add: ring_ok_def)
    have "ring_ok ?q" using ok(1) buf(1) by (simp add: ring_ok_def)
    moreover have "tq_used ?q = ?n"
      using tq_used_offsets [OF r, of ?n] room by (simp add: tq_used_def)
    ultimately have "tq_rep ?q (ts @ [(now, info, task)])"
      using rep buf(2) i l unfolding tq_rep_def by (simp add: task_bytes_def)
    moreover have "yf_task_push now q info task = Inr (YF_OK, ?q)"
      using True ok(2) c run by (simp add: yf_task_push_def TASK_HEAD_LEN_def Let_def)
    ultimately show ?thesis using True by auto
  qed
qed


lemma tq_used_rest:
  assumes "ring_ok q" "k \<le> tq_used q"
  shows "(write_offset q + capacity q - (read_offset q + k) mod capacity q) mod capacity q = tq_used q - k"
proof -
  let ?c = "capacity q" and ?r = "read_offset q" and ?u = "tq_used q"
  have w: "write_offset q = (?r + ?u) mod ?c" using tq_used_write [OF assms(1)] by simp
  have b: "?r < ?c" "?u < ?c" using assms(1) tq_used_less [OF assms(1)] by (auto simp: ring_ok_def)
  show ?thesis
    unfolding w using b assms(2) by (cases "?r + ?u < ?c"; cases "?r + k < ?c") (simp_all add: mod_wrap)
qed

definition fits :: "nat option \<Rightarrow> u8 list \<Rightarrow> bool" where
  "fits room task = (case room of None \<Rightarrow> True | Some n \<Rightarrow> length task \<le> n)"

lemma tq_pop_empty: "tq_rep q [] \<Longrightarrow> yf_task_pop q room = Inr (YF_AGAIN, None, q)"
proof -
  assume rep: "tq_rep q []"
  have "tq_used q = 0" using tq_rep_used [OF rep] by simp
  with rep show ?thesis
    using buf_get_spec [of q "read_offset q" TASK_HEAD_LEN]
    by (simp add: yf_task_pop_def tq_rep_def ring_ok_def tq_used_def TASK_HEAD_LEN_def)
qed

lemma tq_pop_spec:
  assumes rep: "tq_rep q ((now, info, task) # ts)"
  shows "if fits room task
    then \<exists>q'. yf_task_pop q room = Inr (YF_OK, Some (info, task), q') \<and> tq_rep q' ts \<and>
      capacity q' = capacity q
    else yf_task_pop q room = Inr (YF_ERROR, None, q)"
proof -
  let ?c = "capacity q" and ?r = "read_offset q" and ?u = "tq_used q" and ?n = "length task"
  let ?buf = "tq_buf q" and ?rest = "concat (map task_bytes ts)"
  let ?h = "\<lparr> th_magic = YF_MAGIC_VAL, th_len = of_nat ?n, th_time = now, th_info = info \<rparr>"
  have ok: "ring_ok q" "magic q = YF_MAGIC_VAL" and i: "info_ok info" and n: "?n < 2 ^ 32"
    and bytes: "ring_from ?buf ?r ?u = enc_head ?h @ task @ ?rest"
    using rep by (auto simp: tq_rep_def task_bytes_def)
  have c: "length ?buf = ?c" "?r < ?c" "write_offset q < ?c" using ok(1) by (simp_all add: ring_ok_def)
  have u: "?u = 40 + (?n + length ?rest)"
    using tq_rep_used [OF rep] by simp
  define o1 where "o1 = (?r + 40) mod ?c"
  define o2 where "o2 = (?r + (40 + ?n)) mod ?c"
  have o1: "o1 < ?c" using c(2) by (simp add: o1_def)
  have split1: "ring_from ?buf ?r ?u = ring_from ?buf ?r 40 @ ring_from ?buf o1 (?n + length ?rest)"
    unfolding u o1_def c(1) [symmetric] by (rule ring_from_append)
  have h: "ring_from ?buf ?r 40 = enc_head ?h" "ring_from ?buf o1 (?n + length ?rest) = task @ ?rest"
    using bytes unfolding split1 by (simp_all add: append_eq_append_conv)
  have o2: "o2 = (o1 + ?n) mod ?c" by (simp add: o1_def o2_def mod_add_left_eq add.assoc)
  have t: "ring_from ?buf o1 ?n = task" "ring_from ?buf o2 (length ?rest) = ?rest"
    using h(2) ring_from_append [of ?buf o1 ?n "length ?rest"] c(1) o2
    by (simp_all add: append_eq_append_conv)
  have get1: "yf_tq_buf_get q ?r TASK_HEAD_LEN = Inr (Some (enc_head ?h, o1))"
    using buf_get_spec [OF c, of TASK_HEAD_LEN] u h(1)
    by (simp add: TASK_HEAD_LEN_def o1_def tq_used_def)
  have get2: "yf_tq_buf_get q o1 ?n = Inr (Some (task, o2))"
    using buf_get_spec [OF c(1) o1 c(3), of ?n] t(1) u tq_used_rest [OF ok(1), of 40] o2
    by (simp add: o1_def)
  have dec: "dec_head (enc_head ?h) = ?h" using dec_enc_head [of ?h] i by simp
  have len: "unat (of_nat ?n :: u32) = ?n" using n by (simp add: unat_of_nat)
  then have zero: "(of_nat ?n :: u32) = 0 \<longleftrightarrow> task = []"
    by (simp only: unat_eq_0 [symmetric] length_0_conv)
  show ?thesis
  proof (cases "fits room task")
    case False
    then show ?thesis using ok(2) get1 dec len
      by (auto simp: yf_task_pop_def fits_def split: option.splits)
  next
    case True
    let ?q = "q\<lparr> read_offset := o2 \<rparr>"
    have "o2 = o1" if "task = []" using that by (simp add: o1_def o2_def)
    moreover have "\<not> (case room of None \<Rightarrow> False | Some m \<Rightarrow> m < ?n)"
      using True by (auto simp: fits_def split: option.splits)
    ultimately have run: "yf_task_pop q room = Inr (YF_OK, Some (info, task), ?q)"
      using ok(2) get1 dec len get2 zero
      by (cases room; cases "task = []") (simp_all add: yf_task_pop_def Let_def)
    have "tq_used ?q = ?u - (40 + ?n)"
      using tq_used_rest [OF ok(1), of "40 + ?n"] u by (simp add: tq_used_def o2_def)
    then have "tq_used ?q = length ?rest" using u by simp
    moreover have "ring_ok ?q" using ok(1) c(2) by (simp add: ring_ok_def o2_def)
    ultimately have "tq_rep ?q ts" using rep t(2) by (auto simp: tq_rep_def)
    with run True show ?thesis by auto
  qed
qed

subsection \<open>First in, first out\<close>

text \<open>What the two sides of a bridge rely on.\<close>

datatype ('a, 'b) fifo_event = Accepted 'a | Rejected 'a | Popped 'b | Nothing | Too_big

datatype 'a fifo_op = Push 'a | Pop "nat option"

fun fifo_run :: "('q \<Rightarrow> 'a \<Rightarrow> (int \<times> 'q) run) \<Rightarrow> ('q \<Rightarrow> nat option \<Rightarrow> (int \<times> 'b option \<times> 'q) run) \<Rightarrow>
    'a fifo_op list \<Rightarrow> 'q \<Rightarrow> (('a, 'b) fifo_event list \<times> 'q) run" where
  "fifo_run push pop [] q = Inr ([], q)"
| "fifo_run push pop (Push x # ops) q =
     run_bind (push q x) (\<lambda>(ret, q).
     run_bind (fifo_run push pop ops q) (\<lambda>(es, q).
     Inr ((if ret = YF_OK then Accepted x else Rejected x) # es, q)))"
| "fifo_run push pop (Pop room # ops) q =
     run_bind (pop q room) (\<lambda>(ret, r, q).
     run_bind (fifo_run push pop ops q) (\<lambda>(es, q).
     Inr ((case r of Some y \<Rightarrow> Popped y | None \<Rightarrow> if ret = YF_AGAIN then Nothing else Too_big) # es, q)))"

fun accepted :: "('a, 'b) fifo_event list \<Rightarrow> 'a list" where
  "accepted [] = []"
| "accepted (Accepted x # es) = x # accepted es"
| "accepted (_ # es) = accepted es"

fun popped :: "('a, 'b) fifo_event list \<Rightarrow> 'b list" where
  "popped [] = []"
| "popped (Popped x # es) = x # popped es"
| "popped (_ # es) = popped es"

locale fifo =
  fixes rep :: "'q \<Rightarrow> 'a list \<Rightarrow> bool"
    and push :: "'q \<Rightarrow> 'a \<Rightarrow> (int \<times> 'q) run"
    and pop :: "'q \<Rightarrow> nat option \<Rightarrow> (int \<times> 'b option \<times> 'q) run"
    and view :: "'a \<Rightarrow> 'b"
    and good :: "'a \<Rightarrow> bool"
    and fit :: "nat option \<Rightarrow> 'a \<Rightarrow> bool"
  assumes push_ok: "rep q xs \<Longrightarrow> good x \<Longrightarrow> \<exists>ret q'. push q x = Inr (ret, q') \<and>
      (if ret = YF_OK then rep q' (xs @ [x]) else ret = YF_ERROR \<and> q' = q)"
    and pop_empty: "rep q [] \<Longrightarrow> pop q room = Inr (YF_AGAIN, None, q)"
    and pop_first: "rep q (x # xs) \<Longrightarrow>
      if fit room x then \<exists>q'. pop q room = Inr (YF_OK, Some (view x), q') \<and> rep q' xs
      else pop q room = Inr (YF_ERROR, None, q)"
begin

lemma run_fifo:
  "rep q xs \<Longrightarrow> \<forall>x. Push x \<in> set ops \<longrightarrow> good x \<Longrightarrow>
   \<exists>es q' ys. fifo_run push pop ops q = Inr (es, q') \<and> rep q' ys \<and>
     map view (xs @ accepted es) = popped es @ map view ys"
proof (induction ops arbitrary: q xs)
  case (Cons op ops)
  have good: "\<forall>x. Push x \<in> set ops \<longrightarrow> good x" using Cons.prems(2) by simp
  show ?case
  proof (cases op)
    case (Push x)
    obtain ret q1 where p: "push q x = Inr (ret, q1)"
      "if ret = YF_OK then rep q1 (xs @ [x]) else ret = YF_ERROR \<and> q1 = q"
      using push_ok [OF Cons.prems(1), of x] Cons.prems(2) Push by auto
    then have "rep q1 (if ret = YF_OK then xs @ [x] else xs)" using Cons.prems(1) by (auto split: if_splits)
    from Cons.IH [OF this good] obtain es q2 ys where
      "fifo_run push pop ops q1 = Inr (es, q2)" "rep q2 ys"
      "map view ((if ret = YF_OK then xs @ [x] else xs) @ accepted es) = popped es @ map view ys" by blast
    with p(1) Push show ?thesis by (cases "ret = YF_OK") auto
  next
    case (Pop room)
    have "\<exists>ret r q1 xs1. pop q room = Inr (ret, r, q1) \<and> rep q1 xs1 \<and>
        map view xs = (case r of Some y \<Rightarrow> [y] | None \<Rightarrow> []) @ map view xs1"
    proof (cases xs)
      case Nil
      then show ?thesis using Cons.prems(1) pop_empty [of q room] by fastforce
    next
      case (Cons x xs1)
      with \<open>rep q xs\<close> show ?thesis using pop_first [of q x xs1 room]
        by (cases "fit room x") fastforce+
    qed
    then obtain ret r q1 xs1 where p: "pop q room = Inr (ret, r, q1)" "rep q1 xs1"
      "map view xs = (case r of Some y \<Rightarrow> [y] | None \<Rightarrow> []) @ map view xs1" by blast
    from Cons.IH [OF p(2) good] obtain es q2 ys where
      "fifo_run push pop ops q1 = Inr (es, q2)" "rep q2 ys"
      "map view (xs1 @ accepted es) = popped es @ map view ys" by blast
    with p(1,3) Pop show ?thesis by (auto split: option.splits)
  qed
qed auto

end

definition tq_push :: "task_queue \<Rightarrow> u32 \<times> task_info \<times> u8 list \<Rightarrow> (int \<times> task_queue) run" where
  "tq_push q t = (case t of (now, info, task) \<Rightarrow> yf_task_push now q info task)"

definition tq_good :: "u32 \<times> task_info \<times> u8 list \<Rightarrow> bool" where
  "tq_good t = (case t of (now, info, task) \<Rightarrow> info_ok info \<and> length task < 2 ^ 32)"

interpretation tq_fifo: fifo tq_rep tq_push yf_task_pop snd tq_good "\<lambda>room t. fits room (snd (snd t))"
proof
  fix q ts and t :: "u32 \<times> task_info \<times> u8 list"
  assume rep: "tq_rep q ts" and good: "tq_good t"
  obtain now info task where t: "t = (now, info, task)" by (cases t) auto
  have "info_ok info" "length task < 2 ^ 32" using good by (simp_all add: tq_good_def t)
  from tq_push_spec [OF rep this, of now] show "\<exists>ret q'. tq_push q t = Inr (ret, q') \<and>
      (if ret = YF_OK then tq_rep q' (ts @ [t]) else ret = YF_ERROR \<and> q' = q)"
    unfolding t by (cases "length task + 40 < yf_tq_free_capacity q") (auto simp: tq_push_def)
next
  fix q room assume "tq_rep q []"
  then show "yf_task_pop q room = Inr (YF_AGAIN, None, q)" by (rule tq_pop_empty)
next
  fix q ts room and t :: "u32 \<times> task_info \<times> u8 list"
  assume "tq_rep q (t # ts)"
  then show "if fits room (snd (snd t))
      then \<exists>q'. yf_task_pop q room = Inr (YF_OK, Some (snd t), q') \<and> tq_rep q' ts
      else yf_task_pop q room = Inr (YF_ERROR, None, q)"
    using tq_pop_spec [of q "fst t" "fst (snd t)" "snd (snd t)" ts room]
    by (cases t) (auto split: if_splits)
qed


subsection \<open>Properties\<close>

lemma yf_init_task_queue_rep:
  assumes "magic mem \<noteq> YF_MAGIC_VAL" "TQ_HEAD_LEN < n" "length (tq_buf mem) = n - TQ_HEAD_LEN"
  shows "tq_rep (yf_init_task_queue mem n) []"
  using assms by (auto simp: yf_init_task_queue_def tq_rep_def ring_ok_def tq_used_def ring_from_def)

definition blank_queue :: "nat \<Rightarrow> task_queue" where
  "blank_queue n = \<lparr> magic = 0, capacity = 0, read_offset = 0, write_offset = 0,
     tq_buf = replicate (n - TQ_HEAD_LEN) 0 \<rparr>"

lemma blank_queue_rep: "TQ_HEAD_LEN < n \<Longrightarrow> tq_rep (yf_init_task_queue (blank_queue n) n) []"
  by (rule yf_init_task_queue_rep) (simp_all add: blank_queue_def YF_MAGIC_VAL_def)

definition some_info :: task_info where
  "some_info = \<lparr> ti_id = 5, ti_sec = 0, ti_msec = 0, ti_status = 0, ti_timeout_ms = 10,
     ti_timeout = False, ti_error = False \<rparr>"

definition some_head :: task_head where
  "some_head = \<lparr> th_magic = YF_MAGIC_VAL, th_len = 3, th_time = 9, th_info = some_info \<rparr>"



text \<open>
  C14: Whatever pushes and pops are interleaved, none touches memory outside the ring or fails
  an assertion, and the tasks popped are the tasks accepted, in the order they were pushed.
\<close>

theorem yf_task_queue_fifo:
  assumes "tq_rep q ts" and "\<forall>t. Push t \<in> set ops \<longrightarrow> tq_good t"
  shows "\<exists>es q' rest. fifo_run tq_push yf_task_pop ops q = Inr (es, q') \<and> tq_rep q' rest \<and>
    map snd (ts @ accepted es) = popped es @ map snd rest"
  using assms by (rule tq_fifo.run_fifo)

theorem yf_task_queue_fifo_witness:
  "\<exists>es q' rest. fifo_run tq_push yf_task_pop
       [Push (0, some_info, [1, 2, 3]), Push (1, some_info, [4]), Pop (Some 10)]
       (yf_init_task_queue (blank_queue 160) 160) = Inr (es, q') \<and>
     tq_rep q' rest \<and> map snd (accepted es) = popped es @ map snd rest"
proof -
  let ?ops = "[Push (0, some_info, [1, 2, 3]), Push (1, some_info, [4]), Pop (Some 10)]"
  have q: "tq_rep (yf_init_task_queue (blank_queue 160) 160) []"
    by (rule blank_queue_rep) (simp add: TQ_HEAD_LEN_def)
  have "\<forall>t. Push t \<in> set ?ops \<longrightarrow> tq_good t"
    by (auto simp: tq_good_def info_ok_def some_info_def)
  from yf_task_queue_fifo [OF q this] obtain es q' rest where
    run: "fifo_run tq_push yf_task_pop ?ops (yf_init_task_queue (blank_queue 160) 160) = Inr (es, q')"
    and "tq_rep q' rest" and eq: "map snd ([] @ accepted es) = popped es @ map snd rest" by blast
  from run \<open>tq_rep q' rest\<close> show ?thesis
  proof (intro exI conjI)
    show "map snd (accepted es) = popped es @ map snd rest" using eq unfolding append_Nil .
  qed
qed

text \<open>
  C15: A push succeeds exactly when the payload and its head leave at least one byte of the ring
  free, and appends the task; a push that fails changes nothing.
\<close>

theorem yf_task_push_correct:
  assumes "tq_rep q ts" "info_ok info" "length task < 2 ^ 32"
  shows "if length task + 40 < yf_tq_free_capacity q
    then \<exists>q'. yf_task_push now q info task = Inr (YF_OK, q') \<and> tq_rep q' (ts @ [(now, info, task)]) \<and>
      capacity q' = capacity q
    else yf_task_push now q info task = Inr (YF_ERROR, q)"
  using assms by (rule tq_push_spec)

theorem yf_task_push_correct_witness:
  "yf_task_push 0 (yf_init_task_queue (blank_queue 75) 75) some_info [1, 2, 3] =
     Inr (YF_ERROR, yf_init_task_queue (blank_queue 75) 75)"
proof -
  have "tq_rep (yf_init_task_queue (blank_queue 75) 75) []"
    by (rule blank_queue_rep) (simp add: TQ_HEAD_LEN_def)
  from yf_task_push_correct [OF this, of some_info "[1, 2, 3]" 0] show ?thesis
    by (simp add: info_ok_def some_info_def yf_tq_free_capacity_def yf_init_task_queue_def
        blank_queue_def TQ_HEAD_LEN_def YF_MAGIC_VAL_def)
qed

text \<open>
  A buffer of at most 32 bytes is reported as an error in the log only: the function
  returns the buffer as a queue, and the first push on it fails its assertion.
\<close>

theorem yf_init_task_queue_too_small:
  assumes "magic mem \<noteq> YF_MAGIC_VAL" "n \<le> TQ_HEAD_LEN"
  shows "yf_init_task_queue mem n = mem \<and>
    yf_task_push now (yf_init_task_queue mem n) info task = Inl Assert_failed"
  using assms by (simp add: yf_init_task_queue_def yf_task_push_def)

theorem yf_init_task_queue_too_small_witness:
  "yf_task_push 0 (yf_init_task_queue (blank_queue 20) 20) some_info [] = Inl Assert_failed"
proof (rule conjunct2 [OF yf_init_task_queue_too_small])
  show "magic (blank_queue 20) \<noteq> YF_MAGIC_VAL" by (simp add: blank_queue_def YF_MAGIC_VAL_def)
  show "20 \<le> TQ_HEAD_LEN" by (simp add: TQ_HEAD_LEN_def)
qed

end
