(* ===== verification/Node_Pool.thy ===== *)
theory Node_Pool
  imports Id_Seed Yf_List
begin

section \<open>Node pools\<close>

text \<open>
  Models \<^verbatim>\<open>base_struct/yf_node_pool.h\<close> and \<^verbatim>\<open>yf_node_pool.c\<close>: pools of equal nodes named by
  64-bit ids. The memory is the heads in front of the nodes (\<open>np_heads\<close>, by head address)
  and the links of the free list, which lie in the free nodes themselves (\<open>np_links\<close>, the
  heap of theory Yf_List). The bit fields \<^verbatim>\<open>total_num:24\<close>, \<^verbatim>\<open>pool_index:8\<close> and
  \<^verbatim>\<open>id_pre:31\<close> are words truncated where they are stored; pointers are numbers that do not
  wrap, and the 32-bit products of the code are taken modulo \<open>2 ^ 32\<close>.
\<close>

record np_head =
  nh_magic :: u32
  nh_id_pre :: u32
  nh_used :: bool

record np_mem =
  np_heads :: "addr \<Rightarrow> np_head"
  np_links :: sheap

record node_pool =
  nodes_array :: addr
  total_num :: u32
  pool_index :: u32
  each_taken_size :: u32
  free_list :: addr
  free_size :: u32
  np_seed :: id_seed_group

definition NP_NODE_HEAD_SIZE :: nat where "NP_NODE_HEAD_SIZE = 8"

definition np_nh_2_addr :: "addr \<Rightarrow> addr" where
  "np_nh_2_addr nh = nh + NP_NODE_HEAD_SIZE"

definition np_addr_2_nh :: "addr \<Rightarrow> addr" where
  "np_addr_2_nh a = a - NP_NODE_HEAD_SIZE"

definition np_head0 :: np_head where
  "np_head0 = \<lparr> nh_magic = 0, nh_id_pre = 0, nh_used = False \<rparr>"

definition yf_node_taken_size :: "u32 \<Rightarrow> u32" where
  "yf_node_taken_size sz = ucast (yf_align (of_nat NP_NODE_HEAD_SIZE + ucast sz :: u64) 8)"

fun np_init_nodes :: "nat \<Rightarrow> u32 \<Rightarrow> node_pool \<Rightarrow> np_mem \<Rightarrow> np_mem run" where
  "np_init_nodes 0 i P M = Inr M"
| "np_init_nodes (Suc n) i P M =
     (let nh = nodes_array P + unat (each_taken_size P * i);
          hs = (np_heads M)(nh := np_head0) in
      run_bind (yf_slist_push (np_links M) (np_nh_2_addr nh) (free_list P)) (\<lambda>l.
      np_init_nodes n (i + 1) P \<lparr> np_heads = hs, np_links = l \<rparr>))"

definition yf_init_node_pool ::
  "u64 \<Rightarrow> id_seed_glob \<Rightarrow> np_mem \<Rightarrow> node_pool \<Rightarrow> (id_seed_glob \<times> np_mem \<times> node_pool) run" where
  "yf_init_node_pool now G M P =
     c_assert (unat (each_taken_size P) > NP_NODE_HEAD_SIZE)
       (run_bind (yf_id_seed_group_init now G (np_seed P) 0) (\<lambda>(_, G, g).
        let P = P\<lparr> free_size := total_num P, np_seed := g \<rparr> in
        run_bind (yf_init_slist_head (np_links M) (free_list P)) (\<lambda>l.
        run_bind (np_init_nodes (unat (total_num P)) 0 P (M\<lparr> np_links := l \<rparr>)) (\<lambda>M.
        Inr (G, M, P)))))"

text \<open>The first component of the result is the node, 0 for the null pointer.\<close>

definition yf_alloc_node_from_pool ::
  "u64 \<Rightarrow> id_seed_glob \<Rightarrow> np_mem \<Rightarrow> node_pool \<Rightarrow>
   (addr \<times> id_seed_glob \<times> np_mem \<times> node_pool) run" where
  "yf_alloc_node_from_pool now G M P =
     (if free_size P = 0 then Inr (NULL, G, M, P)
      else
        run_bind (yf_slist_pop (np_links M) (free_list P)) (\<lambda>(part, l).
        c_assert (part \<noteq> NULL)
          (run_bind (yf_id_seed_alloc now G (np_seed P)) (\<lambda>(v, G, g).
           let nh = \<lparr> nh_magic = YF_MAGIC_VAL, nh_id_pre = take_bit 31 v, nh_used = True \<rparr> in
           Inr (part, G,
             \<lparr> np_heads = (np_heads M)(np_addr_2_nh part := nh), np_links = l \<rparr>,
             P\<lparr> free_size := free_size P - 1, np_seed := g \<rparr>)))))"

definition yf_free_node_to_pool ::
  "np_mem \<Rightarrow> node_pool \<Rightarrow> addr \<Rightarrow> (np_mem \<times> node_pool) run" where
  "yf_free_node_to_pool M P node =
     (let nh = np_addr_2_nh node; head = np_heads M nh in
      c_assert (nh_id_pre head \<noteq> 0 \<and> nh_used head \<and> nh_magic head = YF_MAGIC_VAL)
        (c_assert (nodes_array P \<le> nh \<and>
            nh < nodes_array P + unat (each_taken_size P * total_num P))
          (run_bind (yf_slist_push (np_links M) node (free_list P)) (\<lambda>l.
           Inr (\<lparr> np_heads = (np_heads M)(nh := np_head0), np_links = l \<rparr>,
             P\<lparr> free_size := free_size P + 1 \<rparr>)))))"

definition yf_get_id_by_node :: "np_mem \<Rightarrow> node_pool \<Rightarrow> addr \<Rightarrow> u64 run" where
  "yf_get_id_by_node M P node =
     (let nh = np_addr_2_nh node; head = np_heads M nh in
      c_assert (nh_used head \<and> nh_magic head = YF_MAGIC_VAL)
        (require Div_by_zero (each_taken_size P \<noteq> 0)
          (let offset = of_nat (nh - nodes_array P) div ucast (each_taken_size P) :: u64 in
           Inr (push_bit 32 (offset OR scast (push_bit 24 (pool_index P))) OR
             ucast (nh_id_pre head)))))"

text \<open>Nothing bounds the node number of the id: a head outside the array is read.\<close>

definition yf_get_node_by_id :: "np_mem \<Rightarrow> node_pool \<Rightarrow> u64 \<Rightarrow> addr run" where
  "yf_get_node_by_id M P i =
     (let k = drop_bit 32 i AND mask 24;
          nh = nodes_array P + unat (k * ucast (each_taken_size P)) in
      require Out_of_bounds (k < ucast (total_num P))
        (let head = np_heads M nh in
         if \<not> nh_used head then Inr NULL
         else c_assert (nh_magic head = YF_MAGIC_VAL)
           (if ucast (nh_id_pre head) \<noteq> yf_u32tou64_getl i then Inr NULL
            else Inr (np_nh_2_addr nh))))"

subsection \<open>Parts of an id\<close>

definition id_idx :: "u64 \<Rightarrow> nat" where "id_idx i = unat (drop_bit 32 i AND mask 24)"
definition id_low :: "u64 \<Rightarrow> nat" where "id_low i = unat (yf_u32tou64_getl i)"
definition id_chunk :: "u64 \<Rightarrow> nat" where "id_chunk i = unat (drop_bit 56 i)"

definition mk_id :: "u32 \<Rightarrow> nat \<Rightarrow> u32 \<Rightarrow> u64" where
  "mk_id c k v = push_bit 32 (of_nat k OR scast (push_bit 24 c)) OR ucast v"

lemma unat_ucast_32: "unat (ucast (v :: u32) :: u64) = unat v"
proof -
  have "unat v < 2 ^ LENGTH(32)" by (rule unsigned_less)
  then have "unat v < 2 ^ 64" by simp
  then show ?thesis by (simp add: unsigned_ucast_eq take_bit_nat_eq_self)
qed

lemma getl_take: "yf_u32tou64_getl i = take_bit 32 i"
  by (simp add: yf_u32tou64_getl_def take_bit_eq_mask mask_eq_exp_minus_1)

lemma take_bit_24: "k < 2 ^ 24 \<Longrightarrow> take_bit 24 (of_nat k :: u64) = of_nat k"
proof (rule word_unat_eq_iff [THEN iffD2])
  assume "k < 2 ^ 24"
  then show "unat (take_bit 24 (of_nat k :: u64)) = unat (of_nat k :: u64)"
    by (simp add: unsigned_take_bit_eq unat_of_nat take_bit_nat_eq_self)
qed

lemma id_low_mk: "id_low (mk_id c k v) = unat v"
proof -
  have "take_bit 32 (mk_id c k v) = ucast v"
    unfolding mk_id_def by (rule bit_eqI) (auto simp: bit_simps dest: bit_imp_le_length)
  then show ?thesis by (simp add: id_low_def getl_take unat_ucast_32)
qed

lemma id_idx_mk:
  assumes "k < 2 ^ 24" shows "id_idx (mk_id c k v) = k"
proof -
  have "drop_bit 32 (mk_id c k v) AND mask 24 = take_bit 24 (of_nat k)"
    unfolding mk_id_def by (rule bit_eqI) (auto simp: bit_simps dest: bit_imp_le_length)
  also have "\<dots> = of_nat k" using assms by (rule take_bit_24)
  finally show ?thesis using assms by (simp add: id_idx_def unat_of_nat)
qed

lemma id_chunk_mk:
  assumes "k < 2 ^ 24" "unat c < 256" shows "id_chunk (mk_id c k v) = unat c"
proof -
  have c: "take_bit 8 c = c" 
    by (rule word_unat_eq_iff [THEN iffD2]) (use assms(2) in \<open>simp add: unsigned_take_bit_eq take_bit_nat_eq_self\<close>)
  have k: "mk_id c k v = push_bit 32 (take_bit 24 (of_nat k) OR scast (push_bit 24 c)) OR ucast v"
    by (simp only: mk_id_def take_bit_24 [OF assms(1)])
  have "drop_bit 56 (mk_id c k v) = ucast (take_bit 8 c)"
    unfolding k by (rule bit_eqI) (auto simp: bit_simps dest: bit_imp_le_length)
  also have "\<dots> = ucast c" by (simp only: c)
  finally show ?thesis by (simp add: id_chunk_def unat_ucast_32)
qed

subsection \<open>Representation\<close>

text \<open>
  \<open>np_rep (G, M, P) L U\<close>: the free list holds the free nodes, the ids in use are those of
  \<open>L\<close>, each paired with its node, the nodes of both are all the nodes of the array, and \<open>U\<close>
  is the set of all ids ever given out. The counter of the id seeds has not rolled over.
\<close>

definition head_at :: "node_pool \<Rightarrow> nat \<Rightarrow> addr" where
  "head_at P k = nodes_array P + unat (each_taken_size P) * k"

definition node_at :: "node_pool \<Rightarrow> nat \<Rightarrow> addr" where
  "node_at P k = np_nh_2_addr (head_at P k)"

definition np_geom :: "node_pool \<Rightarrow> bool" where
  "np_geom P \<longleftrightarrow> 8 dvd unat (each_taken_size P) \<and> 8 < unat (each_taken_size P) \<and>
     unat (total_num P) < 2 ^ 24 \<and> unat (pool_index P) < 256 \<and>
     unat (each_taken_size P) * unat (total_num P) < 2 ^ 32 \<and>
     0 < nodes_array P \<and> 0 < free_list P \<and>
     (free_list P < nodes_array P \<or>
      nodes_array P + unat (each_taken_size P) * unat (total_num P) \<le> free_list P)"

definition seeds_ok :: "id_seed_glob \<Rightarrow> bool" where
  "seeds_ok G \<longleftrightarrow> 0 < unat (group_used G) \<and> 16384 dvd unat (group_used G) \<and>
     unat (group_used G) < 2 ^ 31 \<and> start_factor G = 2"

definition seed_ok :: "id_seed_glob \<Rightarrow> id_seed_group \<Rightarrow> nat set \<Rightarrow> bool" where
  "seed_ok G g V \<longleftrightarrow> group_ok g (unat (group_used G)) \<and> slice_multi g = 1 \<and>
     0 \<notin> owned g \<and> owned g \<inter> V = {} \<and> V \<subseteq> {..<unat (group_used G)}"

definition live_ok :: "np_mem \<Rightarrow> node_pool \<Rightarrow> u64 \<Rightarrow> addr \<Rightarrow> bool" where
  "live_ok M P i n \<longleftrightarrow> n = node_at P (id_idx i) \<and> id_low i \<noteq> 0 \<and>
     nh_used (np_heads M (head_at P (id_idx i))) \<and>
     nh_magic (np_heads M (head_at P (id_idx i))) = YF_MAGIC_VAL \<and>
     unat (nh_id_pre (np_heads M (head_at P (id_idx i)))) = id_low i"

definition np_ids :: "node_pool \<Rightarrow> u64 set \<Rightarrow> bool" where
  "np_ids P U \<longleftrightarrow> inj_on id_low U \<and>
     (\<forall>i \<in> U. id_idx i < unat (total_num P) \<and> id_chunk i = unat (pool_index P))"

definition np_nodes :: "np_mem \<Rightarrow> node_pool \<Rightarrow> (u64 \<times> addr) list \<Rightarrow> nat list \<Rightarrow> bool" where
  "np_nodes M P L fs \<longleftrightarrow>
     slist (np_links M) (free_list P) (map (node_at P) fs) \<and> unat (free_size P) = length fs \<and>
     distinct (fs @ map (id_idx \<circ> fst) L) \<and>
     set (fs @ map (id_idx \<circ> fst) L) = {..<unat (total_num P)} \<and>
     (\<forall>k \<in> set fs. \<not> nh_used (np_heads M (head_at P k))) \<and>
     (\<forall>(i, n) \<in> set L. live_ok M P i n)"

definition np_rep ::
  "id_seed_glob \<times> np_mem \<times> node_pool \<Rightarrow> (u64 \<times> addr) list \<Rightarrow> u64 set \<Rightarrow> bool" where
  "np_rep s L U \<longleftrightarrow> (case s of (G, M, P) \<Rightarrow>
     np_geom P \<and> seeds_ok G \<and> seed_ok G (np_seed P) (id_low ` U) \<and> np_ids P U \<and>
     fst ` set L \<subseteq> U \<and> (\<exists>fs. np_nodes M P L fs))"

lemma head_at_inj:
  assumes "np_geom P" shows "head_at P j = head_at P k \<longleftrightarrow> j = k"
  using assms by (auto simp: head_at_def np_geom_def)

lemma node_at_inj:
  assumes "np_geom P" shows "node_at P j = node_at P k \<longleftrightarrow> j = k"
  using head_at_inj [OF assms] by (auto simp: node_at_def np_nh_2_addr_def)

lemma nh_node_at [simp]: "np_addr_2_nh (node_at P k) = head_at P k"
  by (simp add: np_addr_2_nh_def node_at_def np_nh_2_addr_def)

lemma head_at_end:
  assumes "np_geom P" "k < unat (total_num P)"
  shows "head_at P k + unat (each_taken_size P) \<le>
    nodes_array P + unat (each_taken_size P) * unat (total_num P)"
proof -
  have "unat (each_taken_size P) * (k + 1) \<le> unat (each_taken_size P) * unat (total_num P)"
    using assms(2) by (intro mult_le_mono2) simp
  then show ?thesis by (simp add: head_at_def)
qed

lemma node_at_nonzero: "np_geom P \<Longrightarrow> node_at P k \<noteq> 0"
  by (simp add: node_at_def np_nh_2_addr_def NP_NODE_HEAD_SIZE_def)

lemma node_at_free_list:
  assumes "np_geom P" "k < unat (total_num P)"
  shows "node_at P k \<noteq> free_list P"
  using assms head_at_end [OF assms]
  by (auto simp: np_geom_def node_at_def np_nh_2_addr_def NP_NODE_HEAD_SIZE_def head_at_def)

lemma unat_each_mult:
  assumes "np_geom P" "k < unat (total_num P)"
  shows "unat (each_taken_size P * of_nat k) = unat (each_taken_size P) * k"
proof -
  have "unat (each_taken_size P) * k < 2 ^ 32"
    using head_at_end [OF assms] assms(1) by (simp add: head_at_def np_geom_def)
  moreover have "k < 2 ^ 32" using assms by (simp add: np_geom_def)
  ultimately show ?thesis by (simp add: unat_word_ariths(2) unat_of_nat)
qed

lemma unat_each_total:
  "np_geom P \<Longrightarrow> unat (each_taken_size P * total_num P) = unat (each_taken_size P) * unat (total_num P)"
  by (simp add: unat_word_ariths(2) np_geom_def)

subsection \<open>Operations\<close>

text \<open>A refill takes one slice: while one is left below \<open>2 ^ 31\<close>, the counter does not roll over.\<close>

lemma seed_alloc_ok:
  assumes G: "seeds_ok G" "unat (group_used G) + 16384 < 2 ^ 31" and g: "seed_ok G g V"
  shows "\<exists>v G' g'. yf_id_seed_alloc now G g = Inr (v, G', g') \<and> seeds_ok G' \<and>
    unat (group_used G') \<le> unat (group_used G) + 16384 \<and> unat (group_used G) \<le> unat (group_used G') \<and>
    seed_ok G' g' (insert (unat v) V) \<and> unat v \<notin> V \<and> 0 < unat v \<and> unat v < 2 ^ 31"
proof -
  have m: "slice_multi g = 1" using g by (simp add: seed_ok_def)
  have "unat (group_used G + ID_SEED_SLICE_SIZE * 1) = unat (group_used G) + 16384"
    using G(2) by (simp add: ID_SEED_SLICE_SIZE_def unat_word_ariths(1))
  then have nr: "\<not> group_used G + ID_SEED_SLICE_SIZE * 1 \<ge> 2 ^ 31"
    and u: "unat (group_used G + ID_SEED_SLICE_SIZE * 1) = unat (group_used G) + 16384"
    using G(2) by (simp_all add: word_le_nat_alt)
  have upd: "id_seed_group_update now G h 1 =
      Inr (G\<lparr> group_used := group_used G + ID_SEED_SLICE_SIZE * 1 \<rparr>, h\<lparr> seed := group_used G \<rparr>)" for h
    using nr by (simp add: id_seed_group_update_def Let_def)
  have "\<exists>v G' g'. yf_id_seed_alloc now G g = Inr (v, G', g') \<and> start_factor G' = start_factor G \<and>
      unat (group_used G') \<le> unat (group_used G) + 16384 \<and> slice_multi g' = 1"
    using u m by (cases "take_bit 8 (used_slice g + 1) = 1") (simp_all add: yf_id_seed_alloc_def Let_def upd)
  then obtain v G' g' where run: "yf_id_seed_alloc now G g = Inr (v, G', g')"
    and G': "start_factor G' = start_factor G"
    and le: "unat (group_used G') \<le> unat (group_used G) + 16384"
    and m': "slice_multi g' = 1" by blast
  have f: "factor_ok G" "start_factor G' = 2" using G(1) G' by (simp_all add: seeds_ok_def factor_ok_def)
  have "16384 dvd unat (group_used G)" "unat (group_used G) < 2 ^ 31" "0 < unat (group_used G)"
    using G(1) by (simp_all add: seeds_ok_def)
  moreover have gok: "group_ok g (unat (group_used G))" using g by (simp add: seed_ok_def)
  ultimately have st: "unat v \<in> owned g" "unat (group_used G) \<le> unat (group_used G')"
    "unat (group_used G') < 2 ^ 31" "16384 dvd unat (group_used G')" "group_ok g' (unat (group_used G'))"
    "owned g' \<subseteq> owned g - {unat v} \<union> {unat (group_used G) ..< unat (group_used G')}"
    "0 < unat (group_used G)"
    using alloc_step [OF run f] by blast+
  have below: "owned g \<subseteq> {..<unat (group_used G)}" using gok by (rule owned_below)
  have v: "unat v < unat (group_used G)" "0 \<notin> owned g" "owned g \<inter> V = {}" "V \<subseteq> {..<unat (group_used G)}"
    using st(1) below g by (auto simp: seed_ok_def)
  have "seeds_ok G'" using st f(2) by (simp add: seeds_ok_def)
  moreover have "seed_ok G' g' (insert (unat v) V)"
    unfolding seed_ok_def
  proof (intro conjI)
    show "0 \<notin> owned g'" using st(6,7) v(2) by auto
    show "owned g' \<inter> insert (unat v) V = {}" using st(6) v by fastforce
    show "insert (unat v) V \<subseteq> {..<unat (group_used G')}" using v(1,4) st(2) by auto
  qed (use st(5) m' in simp_all)
  moreover have "unat v \<notin> V" "0 < unat v" using v(2,3) st(1) by (auto intro: ccontr)
  moreover have "unat v < 2 ^ 31" using v(1) G(2) by linarith
  ultimately show ?thesis using run le st(2) by blast
qed

lemma seed_ok_mono:
  "seed_ok G g V \<Longrightarrow> unat (group_used G) \<le> unat (group_used G') \<Longrightarrow> seed_ok G' g V"
  using group_ok_mono by (fastforce simp: seed_ok_def)

definition np_span :: "node_pool \<Rightarrow> addr set" where
  "np_span P = {nodes_array P ..< nodes_array P + unat (each_taken_size P) * unat (total_num P)}"

definition np_frame :: "node_pool \<Rightarrow> np_mem \<Rightarrow> np_mem \<Rightarrow> bool" where
  "np_frame P M M' \<longleftrightarrow> (\<forall>a. a \<notin> np_span P \<longrightarrow> np_heads M' a = np_heads M a) \<and>
     (\<forall>a. a \<notin> np_span P \<longrightarrow> a \<noteq> free_list P \<longrightarrow> np_links M' a = np_links M a)"

lemma slist_push_frame: "yf_slist_push h n l = Inr h' \<Longrightarrow> a \<noteq> n \<Longrightarrow> a \<noteq> l \<Longrightarrow> h' a = h a"
  by (auto simp: yf_slist_push_def s_read_def s_write_def run_simps)

lemma slist_pop_frame: "yf_slist_pop h l = Inr (x, h') \<Longrightarrow> a \<noteq> x \<Longrightarrow> a \<noteq> l \<Longrightarrow> h' a = h a"
  by (auto simp: yf_slist_pop_def s_read_def s_write_def run_simps split: if_splits)

lemma span_at:
  assumes "np_geom P" "k < unat (total_num P)"
  shows "head_at P k \<in> np_span P" "node_at P k \<in> np_span P"
proof -
  have "8 < unat (each_taken_size P)" "nodes_array P \<le> head_at P k" "node_at P k = head_at P k + 8"
    using assms(1) by (simp_all add: np_geom_def head_at_def node_at_def np_nh_2_addr_def NP_NODE_HEAD_SIZE_def)
  then show "head_at P k \<in> np_span P" "node_at P k \<in> np_span P"
    unfolding np_span_def atLeastLessThan_iff using head_at_end [OF assms] by linarith+
qed

lemma np_frameI:
  assumes "np_geom P" "k < unat (total_num P)"
    and "np_heads M' = (np_heads M)(head_at P k := hd')" "np_links M' = l"
    and "\<And>a. a \<noteq> node_at P k \<Longrightarrow> a \<noteq> free_list P \<Longrightarrow> l a = np_links M a"
  shows "np_frame P M M'"
  unfolding np_frame_def
proof (intro conjI allI impI)
  fix a assume a: "a \<notin> np_span P"
  then show "np_heads M' a = np_heads M a" using span_at [OF assms(1,2)] assms(3) by auto
  show "np_links M' a = np_links M a" if "a \<noteq> free_list P"
    using assms(4) assms(5) [OF _ that] span_at [OF assms(1,2)] a by auto
qed

lemma at_update_fun [simp]:
  "node_at (P\<lparr> free_size := f, np_seed := g \<rparr>) = node_at P"
  "node_at (P\<lparr> free_size := f \<rparr>) = node_at P"
  by (rule ext; simp add: head_at_def node_at_def)+

lemma at_update [simp]:
  "head_at (P\<lparr> free_size := f, np_seed := g \<rparr>) k = head_at P k"
  "node_at (P\<lparr> free_size := f, np_seed := g \<rparr>) k = node_at P k"
  "head_at (P\<lparr> free_size := f \<rparr>) k = head_at P k"
  "node_at (P\<lparr> free_size := f \<rparr>) k = node_at P k"
  by (simp_all add: head_at_def node_at_def)

lemma np_geom_update [simp]:
  "np_geom (P\<lparr> free_size := f, np_seed := g \<rparr>) = np_geom P"
  "np_geom (P\<lparr> free_size := f \<rparr>) = np_geom P"
  by (simp_all add: np_geom_def)

lemma get_id_at:
  assumes g: "np_geom P" "k < unat (total_num P)"
    and head: "np_heads M (head_at P k) = \<lparr> nh_magic = YF_MAGIC_VAL, nh_id_pre = v, nh_used = True \<rparr>"
  shows "yf_get_id_by_node M P (node_at P k) = Inr (mk_id (pool_index P) k v)"
proof -
  let ?e = "unat (each_taken_size P)"
  have e: "0 < ?e" "k < 2 ^ 24" using g by (simp_all add: np_geom_def)
  have "?e * k \<le> ?e * unat (total_num P)" using g(2) by (intro mult_le_mono2) simp
  moreover have "?e * unat (total_num P) < 2 ^ 32" using g(1) by (simp only: np_geom_def)
  ultimately have "?e * k < 2 ^ 32" by (rule le_less_trans)
  then have le: "?e * k < 2 ^ 64" by (rule less_trans) simp
  have "unat (of_nat (?e * k) div ucast (each_taken_size P) :: u64) = ?e * k div ?e"
    using le by (simp only: unat_div unat_ucast_32 unat_of_nat) simp
  also have "\<dots> = unat (of_nat k :: u64)" using e by (simp add: unat_of_nat)
  finally have off: "of_nat (?e * k) div ucast (each_taken_size P) = (of_nat k :: u64)"
    by (rule word_unat_eq_iff [THEN iffD2])
  have d: "head_at P k - nodes_array P = ?e * k" by (simp add: head_at_def)
  have nz: "each_taken_size P \<noteq> 0" using e(1) by auto
  show ?thesis
    unfolding yf_get_id_by_node_def Let_def nh_node_at head d off mk_id_def using nz by simp
qed

lemma np_alloc_ok:
  assumes rep: "np_rep (G0, M, P) L U" and G: "seeds_ok G" "unat (group_used G0) \<le> unat (group_used G)"
    "unat (group_used G) + 16384 < 2 ^ 31" and nz: "free_size P \<noteq> 0"
  shows "\<exists>n i G' M' f g. let P' = P\<lparr> free_size := f, np_seed := g \<rparr> in
    yf_alloc_node_from_pool now G M P = Inr (n, G', M', P') \<and> n \<noteq> NULL \<and>
    yf_get_id_by_node M' P' n = Inr i \<and> i \<notin> U \<and> n \<notin> snd ` set L \<and>
    unat (group_used G') \<le> unat (group_used G) + 16384 \<and> unat (group_used G) \<le> unat (group_used G') \<and>
    np_rep (G', M', P') ((i, n) # L) (insert i U) \<and> np_frame P M M'"
proof -
  from rep obtain fs where geom: "np_geom P" and seed: "seed_ok G0 (np_seed P) (id_low ` U)"
    and ids: "np_ids P U" and LU: "fst ` set L \<subseteq> U" and nodes: "np_nodes M P L fs"
    by (auto simp: np_rep_def)
  have len: "unat (free_size P) = length fs" using nodes by (simp add: np_nodes_def)
  moreover have "unat (free_size P) \<noteq> 0" using nz by (simp add: unsigned_eq_0_iff)
  ultimately obtain k ks where fs: "fs = k # ks" by (cases fs) auto
  have k: "k < unat (total_num P)" using nodes fs by (auto simp: np_nodes_def)
  have kL: "k \<notin> set (map (id_idx \<circ> fst) L)" "k \<notin> set ks" using nodes fs by (auto simp: np_nodes_def)
  let ?n = "node_at P k"
  have sl: "slist (np_links M) (free_list P) (?n # map (node_at P) ks)"
    using nodes fs by (simp add: np_nodes_def)
  from slist_pop_spec [OF this] obtain l where pop: "yf_slist_pop (np_links M) (free_list P) = Inr (?n, l)"
    and l: "slist l (free_list P) (map (node_at P) ks)" by auto
  from seed_alloc_ok [OF G(1,3) seed_ok_mono [OF seed G(2)], of now] obtain v G' g where
    alloc: "yf_id_seed_alloc now G (np_seed P) = Inr (v, G', g)" and G': "seeds_ok G'"
    "unat (group_used G') \<le> unat (group_used G) + 16384" "unat (group_used G) \<le> unat (group_used G')"
    and g: "seed_ok G' g (insert (unat v) (id_low ` U))"
    and v: "unat v \<notin> id_low ` U" "0 < unat v" "unat v < 2 ^ 31" by blast
  have v31: "take_bit 31 v = v"
    by (rule word_unat_eq_iff [THEN iffD2]) (use v(3) in \<open>simp add: unsigned_take_bit_eq take_bit_nat_eq_self\<close>)
  define i where "i = mk_id (pool_index P) k v"
  define M' where "M' = \<lparr> np_heads = (np_heads M)(head_at P k :=
      \<lparr> nh_magic = YF_MAGIC_VAL, nh_id_pre = v, nh_used = True \<rparr>), np_links = l \<rparr>"
  define P' where "P' = P\<lparr> free_size := free_size P - 1, np_seed := g \<rparr>"
  have k24: "k < 2 ^ 24" "unat (pool_index P) < 256" using geom k by (simp_all add: np_geom_def)
  have i: "id_low i = unat v" "id_idx i = k" "id_chunk i = unat (pool_index P)"
    using k24 by (simp_all add: i_def id_low_mk id_idx_mk id_chunk_mk)
  have run: "yf_alloc_node_from_pool now G M P = Inr (?n, G', M', P')"
    using nz node_at_nonzero [OF geom, of k]
    by (simp add: yf_alloc_node_from_pool_def pop alloc v31 M'_def P'_def Let_def)
  have get: "yf_get_id_by_node M' P' ?n = Inr i"
    using get_id_at [of P' k M' v] geom k by (simp add: P'_def M'_def i_def)
  have iU: "i \<notin> U" using v(1) unfolding i(1) [symmetric] by blast
  have ids': "np_ids P' (insert i U)"
    using ids v(1) i k by (auto simp: np_ids_def P'_def)
  have live: "live_ok M' P' j m" if "(j, m) \<in> set L" for j m
  proof -
    have "id_idx j \<noteq> k" using kL that by force
    then have "head_at P (id_idx j) \<noteq> head_at P k" using geom by (simp add: head_at_inj)
    moreover have "live_ok M P j m" using nodes that by (auto simp: np_nodes_def)
    ultimately show ?thesis by (simp add: live_ok_def M'_def P'_def)
  qed
  have nL: "?n \<notin> snd ` set L"
  proof
    assume "?n \<in> snd ` set L"
    then obtain j where j: "(j, ?n) \<in> set L" by auto
    then have "?n = node_at P (id_idx j)" using nodes by (auto simp: np_nodes_def live_ok_def)
    then have "k = id_idx j" using geom by (simp add: node_at_inj)
    with kL j show False by force
  qed
  have "free_size P \<noteq> 0" by (rule nz)
  then have fs1: "unat (free_size P - 1) = length ks"
    using len fs by (simp add: unat_sub word_le_nat_alt unat_gt_0)
  have nodes': "np_nodes M' P' ((i, ?n) # L) ks"
    unfolding np_nodes_def
  proof (intro conjI)
    show "slist (np_links M') (free_list P') (map (node_at P') ks)" using l by (simp add: M'_def P'_def)
    show "unat (free_size P') = length ks" using fs1 by (simp add: P'_def)
    show "distinct (ks @ map (id_idx \<circ> fst) ((i, ?n) # L))" using nodes fs i by (auto simp: np_nodes_def)
    show "set (ks @ map (id_idx \<circ> fst) ((i, ?n) # L)) = {..<unat (total_num P')}"
      using nodes fs i by (auto simp: np_nodes_def P'_def)
    show "\<forall>j \<in> set ks. \<not> nh_used (np_heads M' (head_at P' j))"
      using nodes fs kL(2) geom by (auto simp: np_nodes_def M'_def P'_def head_at_inj)
    show "\<forall>(j, m) \<in> set ((i, ?n) # L). live_ok M' P' j m"
      using live i v(2) by (auto simp: live_ok_def M'_def P'_def)
  qed
  have rep': "np_rep (G', M', P') ((i, ?n) # L) (insert i U)"
    unfolding np_rep_def prod.case
    using geom G' g ids' LU nodes' i(1) by (auto simp: P'_def)
  have "np_frame P M M'"
    by (rule np_frameI [OF geom k, where l = l]) (auto simp: M'_def slist_pop_frame [OF pop])
  with run get iU nL G' rep' node_at_nonzero [OF geom, of k] show ?thesis
    unfolding P'_def Let_def by blast
qed

lemma np_free_ok:
  assumes rep: "np_rep (G, M, P) L U" and L: "(i, n) \<in> set L"
  shows "\<exists>M' f. let P' = P\<lparr> free_size := f \<rparr> in
    yf_free_node_to_pool M P n = Inr (M', P') \<and> np_rep (G, M', P') (removeAll (i, n) L) U \<and> np_frame P M M'"
proof -
  from rep obtain fs where geom: "np_geom P" and seed: "seeds_ok G" "seed_ok G (np_seed P) (id_low ` U)"
    and ids: "np_ids P U" and LU: "fst ` set L \<subseteq> U" and nodes: "np_nodes M P L fs"
    by (auto simp: np_rep_def)
  define k where "k = id_idx i"
  define M0 where "M0 = M"
  have k: "k < unat (total_num P)" using ids LU L by (force simp: np_ids_def k_def)
  have live: "live_ok M P i n" using nodes L by (auto simp: np_nodes_def)
  then have n: "n = node_at P k" by (simp add: live_ok_def k_def)
  have kfs: "k \<notin> set fs" using nodes L by (force simp: np_nodes_def k_def)
  have "n \<notin> set (free_list P # map (node_at P) fs)"
    using kfs node_at_free_list [OF geom k] geom by (auto simp: n node_at_inj)
  then obtain l where push: "yf_slist_push (np_links M) n (free_list P) = Inr l"
    and l: "slist l (free_list P) (map (node_at P) (k # fs))"
    using slist_push_spec [of "np_links M" "free_list P" "map (node_at P) fs" n] nodes
      node_at_nonzero [OF geom, of k] by (auto simp: np_nodes_def n)
  define M' where "M' = \<lparr> np_heads = (np_heads M)(head_at P k := np_head0), np_links = l \<rparr>"
  define P' where "P' = P\<lparr> free_size := free_size P + 1 \<rparr>"
  have span: "nodes_array P \<le> head_at P k"
    "head_at P k < nodes_array P + unat (each_taken_size P * total_num P)"
    using span_at(1) [OF geom k] geom by (simp_all add: np_span_def unat_each_total)
  have "nh_id_pre (np_heads M (head_at P k)) \<noteq> 0" using live by (auto simp: live_ok_def k_def)
  then have run: "yf_free_node_to_pool M P n = Inr (M', P')"
    using live span push
    by (simp add: yf_free_node_to_pool_def Let_def n live_ok_def k_def M'_def P'_def)
  define L' where "L' = removeAll (i, n) L"
  have L': "set L' = set L - {(i, n)}" by (simp add: L'_def)
  have uniq: "j = i \<and> m = n" if "(j, m) \<in> set L" "id_idx j = k" for j m
  proof -
    have "distinct (map (id_idx \<circ> fst) L)" using nodes by (simp add: np_nodes_def)
    then have "inj_on (id_idx \<circ> fst) (set L)" by (simp add: distinct_map)
    from inj_onD [OF this, of "(j, m)" "(i, n)"] that L show ?thesis by (simp add: k_def)
  qed
  have "distinct fs" "set fs \<subseteq> {..<unat (total_num P)} - {k}" using nodes kfs by (auto simp: np_nodes_def)
  then have "length fs \<le> card ({..<unat (total_num P)} - {k})"
    using card_mono [of "{..<unat (total_num P)} - {k}" "set fs"] by (simp add: distinct_card)
  then have "length fs < unat (total_num P)" using k by simp
  moreover have "unat (total_num P) < 2 ^ 24" using geom by (simp add: np_geom_def)
  ultimately have sz: "unat (free_size P + 1) = length fs + 1"
    using nodes by (simp add: np_nodes_def unat_word_ariths(1))
  have nodes': "np_nodes M' P' L' (k # fs)"
    unfolding np_nodes_def
  proof (intro conjI)
    show "slist (np_links M') (free_list P') (map (node_at P') (k # fs))"
      using l by (simp add: M'_def P'_def)
    show "unat (free_size P') = length (k # fs)" using sz by (simp add: P'_def)
    have "distinct (map (id_idx \<circ> fst) L')"
      unfolding L'_def removeAll_filter_not_eq
      by (rule distinct_map_filter) (use nodes in \<open>simp add: np_nodes_def\<close>)
    then show "distinct ((k # fs) @ map (id_idx \<circ> fst) L')"
      using nodes kfs uniq by (auto simp: np_nodes_def L')
    have "(id_idx \<circ> fst) ` set L' = (id_idx \<circ> fst) ` set L - {k}"
      unfolding L' k_def by (subst inj_on_image_set_diff [of _ "set L"])
        (use nodes L in \<open>auto simp: np_nodes_def distinct_map\<close>)
    moreover have "set fs \<union> (id_idx \<circ> fst) ` set L = {..<unat (total_num P)}"
      using nodes by (simp add: np_nodes_def)
    ultimately have "insert k (set fs \<union> (id_idx \<circ> fst) ` set L') = {..<unat (total_num P)}"
      using k by auto
    then show "set ((k # fs) @ map (id_idx \<circ> fst) L') = {..<unat (total_num P')}"
      by (simp add: P'_def)
    show "\<forall>j \<in> set (k # fs). \<not> nh_used (np_heads M' (head_at P' j))"
      using nodes geom by (auto simp: np_nodes_def M'_def P'_def head_at_inj np_head0_def)
    show "\<forall>(j, m) \<in> set L'. live_ok M' P' j m"
      using nodes uniq geom by (auto simp: np_nodes_def L' live_ok_def M'_def P'_def head_at_inj)
  qed
  have "np_rep (G, M', P') L' U"
    unfolding np_rep_def prod.case
    using geom seed ids LU nodes' by (auto simp: P'_def L' np_ids_def)
  moreover have "np_frame P M M'"
    by (rule np_frameI [OF geom k, where l = l]) (auto simp: M'_def slist_push_frame [OF push] n)
  ultimately show ?thesis using run unfolding P'_def Let_def L'_def by blast
qed

lemma np_lookup_ok:
  assumes rep: "np_rep (G, M, P) L U" and i: "i \<in> U"
  shows "yf_get_node_by_id M P i = Inr (case map_of L i of None \<Rightarrow> NULL | Some n \<Rightarrow> n)"
proof -
  from rep obtain fs where geom: "np_geom P" and ids: "np_ids P U"
    and LU: "fst ` set L \<subseteq> U" and nodes: "np_nodes M P L fs"
    by (auto simp: np_rep_def)
  let ?k = "id_idx i" and ?kw = "drop_bit 32 i AND mask 24 :: u64"
  have k: "?k < unat (total_num P)" using ids i by (auto simp: np_ids_def)
  then have kw: "?kw < ucast (total_num P)" by (simp add: word_less_nat_alt unat_ucast_32 id_idx_def)
  have "unat (each_taken_size P) * ?k \<le> unat (each_taken_size P) * unat (total_num P)"
    using k by (intro mult_le_mono2) simp
  moreover have "unat (each_taken_size P) * unat (total_num P) < 2 ^ 32" using geom by (simp only: np_geom_def)
  ultimately have "unat (each_taken_size P) * ?k < 2 ^ 32" by (rule le_less_trans)
  then have "unat (each_taken_size P) * ?k < 2 ^ 64" by (rule less_trans) simp
  then have nh: "nodes_array P + unat (?kw * ucast (each_taken_size P)) = head_at P ?k"
    by (simp add: unat_word_ariths(2) unat_ucast_32 head_at_def id_idx_def mult.commute)
  have pre: "ucast v = yf_u32tou64_getl i \<longleftrightarrow> unat v = id_low i" for v :: u32
    by (simp add: word_unat_eq_iff unat_ucast_32 id_low_def)
  show ?thesis
  proof (cases "map_of L i")
    case (Some n)
    then have "(i, n) \<in> set L" by (rule map_of_SomeD)
    then have live: "live_ok M P i n" using nodes by (auto simp: np_nodes_def)
    then show ?thesis
      unfolding yf_get_node_by_id_def Let_def nh using kw
      by (simp add: Some live_ok_def pre node_at_def)
  next
    case None
    then have iL: "i \<notin> fst ` set L" by (simp add: map_of_eq_None_iff)
    have "?k \<in> set fs \<or> ?k \<in> (id_idx \<circ> fst) ` set L" using nodes k by (auto simp: np_nodes_def)
    then show ?thesis
    proof
      assume "?k \<in> set fs"
      then have "\<not> nh_used (np_heads M (head_at P ?k))" using nodes by (simp add: np_nodes_def)
      then show ?thesis
        unfolding yf_get_node_by_id_def Let_def nh using kw by (simp add: None)
    next
      assume "?k \<in> (id_idx \<circ> fst) ` set L"
      then obtain j m where j: "(j, m) \<in> set L" "id_idx j = ?k" by auto
      then have "j \<in> U" "j \<noteq> i" using LU iL by force+
      moreover have "live_ok M P j m" using nodes j(1) by (auto simp: np_nodes_def)
      moreover have "id_low j \<noteq> id_low i"
        using ids i \<open>j \<in> U\<close> \<open>j \<noteq> i\<close> by (auto simp: np_ids_def dest: inj_onD)
      ultimately show ?thesis
        unfolding yf_get_node_by_id_def Let_def nh using kw j(2) by (simp add: None live_ok_def pre)
    qed
  qed
qed

subsection \<open>Initialisation\<close>

lemma seed_init_ok:
  assumes G: "seeds_ok G" "unat (group_used G) + 16384 < 2 ^ 31"
  shows "\<exists>G' g'. yf_id_seed_group_init now G g 0 = Inr (YF_OK, G', g') \<and> seeds_ok G' \<and>
    unat (group_used G') \<le> unat (group_used G) + 16384 \<and> unat (group_used G) \<le> unat (group_used G') \<and>
    seed_ok G' g' {}"
proof -
  have u: "unat (group_used G + ID_SEED_SLICE_SIZE * 1) = unat (group_used G) + 16384"
    using G(2) by (simp add: ID_SEED_SLICE_SIZE_def unat_word_ariths(1))
  then have nr: "\<not> group_used G + ID_SEED_SLICE_SIZE * 1 \<ge> 2 ^ 31"
    using G(2) by (simp_all add: word_le_nat_alt)
  have nz: "group_used G \<noteq> 0" "0 < unat (group_used G)" "16384 dvd unat (group_used G)"
    using G(1) by (auto simp: seeds_ok_def unat_gt_0)
  let ?G = "G\<lparr> group_used := group_used G + ID_SEED_SLICE_SIZE * 1 \<rparr>"
  let ?g = "g\<lparr> slice_multi := 1, seed := group_used G, used_slice := 0 \<rparr>"
  have "yf_id_seed_group_init now G g 0 = Inr (YF_OK, ?G, ?g)"
    using nr nz by (simp add: yf_id_seed_group_init_def id_seed_group_update_def Let_def)
  moreover have "seeds_ok ?G"
    using G u nz by (simp add: seeds_ok_def)
  moreover have "seed_ok ?G ?g {}"
    using u nz by (auto simp: seed_ok_def group_ok_def owned_def)
  ultimately show ?thesis using u by auto
qed

lemma np_init_nodes_ok:
  assumes "np_geom P" "n + i \<le> unat (total_num P)"
    and "slist (np_links M) (free_list P) (map (node_at P) (rev [0..<i]))"
    and "\<forall>j < i. \<not> nh_used (np_heads M (head_at P j))"
  shows "\<exists>M'. np_init_nodes n (of_nat i) P M = Inr M' \<and>
    slist (np_links M') (free_list P) (map (node_at P) (rev [0..<n + i])) \<and>
    (\<forall>j < n + i. \<not> nh_used (np_heads M' (head_at P j))) \<and> np_frame P M M'"
  using assms(2-4)
proof (induction n arbitrary: i M)
  case 0
  then show ?case by (simp add: np_frame_def)
next
  case (Suc n)
  have i: "i < unat (total_num P)" using Suc.prems(1) by simp
  have nh: "nodes_array P + unat (each_taken_size P * of_nat i) = head_at P i"
    using unat_each_mult [OF assms(1) i] by (simp add: head_at_def)
  have "node_at P i \<notin> set (free_list P # map (node_at P) (rev [0..<i]))"
    using node_at_free_list [OF assms(1) i] assms(1) by (auto simp: node_at_inj)
  from slist_push_spec [OF Suc.prems(2) node_at_nonzero [OF assms(1)] this] obtain l where
    push: "yf_slist_push (np_links M) (node_at P i) (free_list P) = Inr l"
    and l: "slist l (free_list P) (map (node_at P) (rev [0..<Suc i]))" by auto
  let ?M = "\<lparr> np_heads = (np_heads M)(head_at P i := np_head0), np_links = l \<rparr>"
  have used: "\<forall>j < Suc i. \<not> nh_used (np_heads ?M (head_at P j))"
    using Suc.prems(3) by (auto simp: np_head0_def less_Suc_eq)
  have frame: "np_frame P M ?M"
    by (rule np_frameI [OF assms(1) i, where l = l]) (auto simp: slist_push_frame [OF push])
  have "np_init_nodes (Suc n) (of_nat i) P M = np_init_nodes n (of_nat (Suc i)) P ?M"
    using push by (simp add: nh node_at_def [symmetric] add.commute)
  moreover obtain M' where "np_init_nodes n (of_nat (Suc i)) P ?M = Inr M'"
    "slist (np_links M') (free_list P) (map (node_at P) (rev [0..<n + Suc i]))"
    "\<forall>j < n + Suc i. \<not> nh_used (np_heads M' (head_at P j))" "np_frame P ?M M'"
    using Suc.IH [of "Suc i" ?M] Suc.prems(1) l used by auto
  ultimately show ?case using frame by (auto simp: np_frame_def)
qed

lemma np_init_ok:
  assumes P: "np_geom P" and G: "seeds_ok G" "unat (group_used G) + 16384 < 2 ^ 31"
  shows "\<exists>G' M' f g. let P' = P\<lparr> free_size := f, np_seed := g \<rparr> in
    yf_init_node_pool now G M P = Inr (G', M', P') \<and> np_rep (G', M', P') [] {} \<and>
    unat (group_used G') \<le> unat (group_used G) + 16384 \<and> unat (group_used G) \<le> unat (group_used G') \<and>
    free_size P' = total_num P \<and> np_frame P M M'"
proof -
  from seed_init_ok [OF G, of now "np_seed P"] obtain G' g where
    init: "yf_id_seed_group_init now G (np_seed P) 0 = Inr (YF_OK, G', g)" and G': "seeds_ok G'"
    "unat (group_used G') \<le> unat (group_used G) + 16384" "unat (group_used G) \<le> unat (group_used G')"
    and g: "seed_ok G' g {}" by blast
  define P' where "P' = P\<lparr> free_size := total_num P, np_seed := g \<rparr>"
  define M1 where "M1 = M\<lparr> np_links := (np_links M)(free_list P := 0) \<rparr>"
  have geom': "np_geom P'" using P by (simp add: P'_def)
  have "slist (np_links M1) (free_list P') []"
    using P by (simp add: slist_def M1_def P'_def np_geom_def)
  then obtain M' where M': "np_init_nodes (unat (total_num P')) 0 P' M1 = Inr M'"
    "slist (np_links M') (free_list P') (map (node_at P') (rev [0..<unat (total_num P')]))"
    "\<forall>j < unat (total_num P'). \<not> nh_used (np_heads M' (head_at P' j))" "np_frame P' M1 M'"
    using np_init_nodes_ok [OF geom', of "unat (total_num P')" 0 M1] by auto
  have fl: "free_list P \<noteq> 0" "unat (each_taken_size P) > NP_NODE_HEAD_SIZE"
    using P by (simp_all add: np_geom_def NP_NODE_HEAD_SIZE_def)
  have "yf_init_slist_head (np_links M) (free_list P) = Inr ((np_links M)(free_list P := 0))"
    using fl by (simp add: yf_init_slist_head_def s_write_def)
  then have run: "yf_init_node_pool now G M P = Inr (G', M', P')"
    using fl init M'(1) by (simp add: yf_init_node_pool_def Let_def P'_def M1_def)
  have "np_nodes M' P' [] (rev [0..<unat (total_num P')])"
    using M' by (simp add: np_nodes_def P'_def atLeast0LessThan)
  then have "np_rep (G', M', P') [] {}"
    unfolding np_rep_def prod.case using geom' G' g by (auto simp: P'_def np_ids_def)
  moreover have "np_frame P M M'"
    using M'(4) by (auto simp: np_frame_def np_span_def M1_def P'_def)
  moreover have "free_size P' = total_num P" by (simp add: P'_def)
  ultimately show ?thesis using run G' unfolding P'_def Let_def by blast
qed

subsection \<open>The contract of a pool of ids\<close>

text \<open>
  A client takes entries, gives back entries it holds, and looks up ids it was given at any
  time. \<open>id_run\<close> plays such a client and keeps a ticket for each entry taken: its id, its
  node and whether it is still held. Each lookup is recorded with the answer the client expects:
  the node while the entry is held, nothing afterwards.
\<close>

datatype 'e id_op = Take 'e | Give nat | Look nat

fun id_run :: "('e \<Rightarrow> 's \<Rightarrow> (('i \<times> 'n) option \<times> 's) run) \<Rightarrow> ('s \<Rightarrow> 'i \<Rightarrow> 'n \<Rightarrow> 's run) \<Rightarrow>
    ('s \<Rightarrow> 'i \<Rightarrow> 'n option run) \<Rightarrow> 'e id_op list \<Rightarrow> ('i \<times> 'n \<times> bool) list \<Rightarrow> 's \<Rightarrow>
    (('i \<times> 'n \<times> bool) list \<times> ('n option \<times> 'n option) list \<times> 's) run" where
  "id_run tk gv lk [] H s = Inr (H, [], s)"
| "id_run tk gv lk (Take e # ops) H s =
     run_bind (tk e s) (\<lambda>(r, s).
     id_run tk gv lk ops (case r of None \<Rightarrow> H | Some (i, n) \<Rightarrow> H @ [(i, n, True)]) s)"
| "id_run tk gv lk (Give j # ops) H s =
     (case (if j < length H then Some (H ! j) else None) of
        Some (i, n, True) \<Rightarrow> run_bind (gv s i n) (id_run tk gv lk ops (H[j := (i, n, False)]))
      | _ \<Rightarrow> id_run tk gv lk ops H s)"
| "id_run tk gv lk (Look j # ops) H s =
     (case (if j < length H then Some (H ! j) else None) of
        Some (i, n, held) \<Rightarrow>
          run_bind (lk s i) (\<lambda>r.
          run_bind (id_run tk gv lk ops H s) (\<lambda>(H', rs, s').
          Inr (H', (r, if held then Some n else None) # rs, s')))
      | None \<Rightarrow> id_run tk gv lk ops H s)"

fun id_cost :: "('e \<Rightarrow> nat) \<Rightarrow> 'e id_op list \<Rightarrow> nat" where
  "id_cost c [] = 0"
| "id_cost c (Take e # ops) = c e + id_cost c ops"
| "id_cost c (_ # ops) = id_cost c ops"

definition tickets_ok :: "('i \<times> 'n \<times> bool) list \<Rightarrow> ('i \<times> 'n) list \<Rightarrow> 'i set \<Rightarrow> bool" where
  "tickets_ok H L U \<longleftrightarrow> distinct (map fst H) \<and> fst ` set H \<subseteq> U \<and>
     (\<forall>i n. (i, n) \<in> set L \<longleftrightarrow> (i, n, True) \<in> set H)"

lemma tickets_take:
  "tickets_ok H L U \<Longrightarrow> i \<notin> U \<Longrightarrow> tickets_ok (H @ [(i, n, True)]) ((i, n) # L) (insert i U)"
  by (auto simp: tickets_ok_def)

lemma tickets_give:
  assumes "tickets_ok H L U" "j < length H" "H ! j = (i, n, True)"
  shows "(i, n) \<in> set L" "tickets_ok (H[j := (i, n, False)]) (removeAll (i, n) L) U"
proof -
  have in_H: "(i, n, True) \<in> set H" using assms(2,3) by (metis nth_mem)
  then show "(i, n) \<in> set L" using assms(1) by (auto simp: tickets_ok_def)
  have d: "distinct (map fst H)" using assms(1) by (simp add: tickets_ok_def)
  have fsts: "map fst (H[j := (i, n, False)]) = map fst H"
    using assms(2,3) by (simp add: map_update list_update_same_conv)
  have other: "H ! k = (i, m, b) \<Longrightarrow> k < length H \<Longrightarrow> k = j" for k m b
    using d assms(2,3) nth_eq_iff_index_eq [OF d, of k j] by simp
  have "(a, m) \<in> set (removeAll (i, n) L) \<longleftrightarrow> (a, m, True) \<in> set (H[j := (i, n, False)])" for a m
  proof
    assume "(a, m) \<in> set (removeAll (i, n) L)"
    then have "(a, m, True) \<in> set H" "(a, m) \<noteq> (i, n)" using assms(1) by (auto simp: tickets_ok_def)
    then obtain k where "k < length H" "H ! k = (a, m, True)" "k \<noteq> j"
      using assms(3) by (force simp: in_set_conv_nth)
    then show "(a, m, True) \<in> set (H[j := (i, n, False)])" by (auto simp: in_set_conv_nth intro!: exI [of _ k])
  next
    assume "(a, m, True) \<in> set (H[j := (i, n, False)])"
    then obtain k where k0: "k < length H" "H[j := (i, n, False)] ! k = (a, m, True)"
      by (auto simp: in_set_conv_nth)
    then have k: "k < length H" "k \<noteq> j" "H ! k = (a, m, True)" by (cases "k = j"; simp)+
    then have "(a, m, True) \<in> set H" "a \<noteq> i" using other by (auto simp: in_set_conv_nth)
    then show "(a, m) \<in> set (removeAll (i, n) L)" using assms(1) by (auto simp: tickets_ok_def)
  qed
  moreover have "fst ` set (H[j := (i, n, False)]) \<subseteq> U"
    using assms(1) fsts by (metis list.set_map tickets_ok_def)
  ultimately show "tickets_ok (H[j := (i, n, False)]) (removeAll (i, n) L) U"
    using d fsts by (simp add: tickets_ok_def)
qed

locale id_pool =
  fixes tk :: "'e \<Rightarrow> 's \<Rightarrow> (('i \<times> 'n) option \<times> 's) run"
    and gv :: "'s \<Rightarrow> 'i \<Rightarrow> 'n \<Rightarrow> 's run"
    and lk :: "'s \<Rightarrow> 'i \<Rightarrow> 'n option run"
    and rep :: "'s \<Rightarrow> ('i \<times> 'n) list \<Rightarrow> 'i set \<Rightarrow> bool"
    and cost :: "'e \<Rightarrow> nat"
    and room :: "'s \<Rightarrow> nat"
  assumes take_law: "rep s L U \<Longrightarrow> cost e \<le> room s \<Longrightarrow>
      \<exists>r s'. tk e s = Inr (r, s') \<and> room s \<le> room s' + cost e \<and>
        (case r of None \<Rightarrow> rep s' L U
         | Some (i, n) \<Rightarrow> i \<notin> U \<and> n \<notin> snd ` set L \<and> rep s' ((i, n) # L) (insert i U))"
    and give_law: "rep s L U \<Longrightarrow> (i, n) \<in> set L \<Longrightarrow>
      \<exists>s'. gv s i n = Inr s' \<and> room s \<le> room s' \<and> rep s' (removeAll (i, n) L) U"
    and look_law: "rep s L U \<Longrightarrow> i \<in> U \<Longrightarrow> lk s i = Inr (map_of L i)"
    and ids_law: "rep s L U \<Longrightarrow> distinct (map fst L)"
begin

lemma look_ticket:
  assumes "rep s L U" "tickets_ok H L U" "j < length H" "H ! j = (i, n, held)"
  shows "lk s i = Inr (if held then Some n else None)"
proof -
  have H: "(i, n, held) \<in> set H" using assms(3,4) by (metis nth_mem)
  then have "i \<in> U" using assms(2) by (force simp: tickets_ok_def)
  then have lk: "lk s i = Inr (map_of L i)" by (rule look_law [OF assms(1)])
  show ?thesis
  proof (cases held)
    case True
    then have "(i, n) \<in> set L" using H assms(2) by (auto simp: tickets_ok_def)
    with ids_law [OF assms(1)] have "map_of L i = Some n" by simp
    with True lk show ?thesis by simp
  next
    case False
    have "(i, m) \<notin> set L" for m
    proof
      assume "(i, m) \<in> set L"
      then have "(i, m, True) \<in> set H" using assms(2) by (auto simp: tickets_ok_def)
      moreover have "inj_on fst (set H)" using assms(2) by (simp add: tickets_ok_def distinct_map)
      ultimately show False using H False inj_onD [of fst "set H" "(i, m, True)" "(i, n, held)"] by simp
    qed
    then have "map_of L i = None" by (auto simp: map_of_eq_None_iff)
    with False lk show ?thesis by simp
  qed
qed

lemma run_ids:
  assumes "rep s L U" "tickets_ok H L U" "id_cost cost ops \<le> room s"
  shows "\<exists>H' rs s' L' U'. id_run tk gv lk ops H s = Inr (H', rs, s') \<and> rep s' L' U' \<and>
    tickets_ok H' L' U' \<and> (\<forall>(r, x) \<in> set rs. r = x)"
  using assms
proof (induction ops arbitrary: s L U H)
  case Nil
  then show ?case by auto
next
  case (Cons op ops)
  show ?case
  proof (cases op)
    case (Take e)
    then have "cost e \<le> room s" using Cons.prems(3) by simp
    from take_law [OF Cons.prems(1) this] obtain r s' where tk: "tk e s = Inr (r, s')"
      and room: "room s \<le> room s' + cost e"
      and r: "case r of None \<Rightarrow> rep s' L U
         | Some (i, n) \<Rightarrow> i \<notin> U \<and> n \<notin> snd ` set L \<and> rep s' ((i, n) # L) (insert i U)" by blast
    have c: "id_cost cost ops \<le> room s'" using Cons.prems(3) room Take by simp
    show ?thesis
    proof (cases r)
      case None
      with Cons.IH [of s' L U H] r c Cons.prems(2) tk Take show ?thesis by simp
    next
      case (Some p)
      then obtain i n where p: "r = Some (i, n)" by (cases p) auto
      with r have "rep s' ((i, n) # L) (insert i U)" "tickets_ok (H @ [(i, n, True)]) ((i, n) # L) (insert i U)"
        using tickets_take [OF Cons.prems(2)] by auto
      from Cons.IH [OF this c] show ?thesis using tk p Take by simp
    qed
  next
    case (Give j)
    show ?thesis
    proof (cases "j < length H \<and> snd (snd (H ! j))")
      case True
      then obtain i n where j: "j < length H" "H ! j = (i, n, True)" by (cases "H ! j") auto
      from give_law [OF Cons.prems(1) tickets_give(1) [OF Cons.prems(2) j]] obtain s' where
        gv: "gv s i n = Inr s'" and s': "room s \<le> room s'" "rep s' (removeAll (i, n) L) U" by blast
      have "id_cost cost ops \<le> room s'" using Cons.prems(3) s'(1) Give by simp
      from Cons.IH [OF s'(2) tickets_give(2) [OF Cons.prems(2) j] this] show ?thesis
        using Give j gv by simp
    next
      case False
      then have "id_run tk gv lk (op # ops) H s = id_run tk gv lk ops H s"
        using Give by (auto split: prod.splits bool.splits)
      then show ?thesis using Cons.IH [OF Cons.prems(1,2)] Cons.prems(3) Give by simp
    qed
  next
    case (Look j)
    have IH: "\<exists>H' rs s' L' U'. id_run tk gv lk ops H s = Inr (H', rs, s') \<and> rep s' L' U' \<and>
      tickets_ok H' L' U' \<and> (\<forall>(r, x) \<in> set rs. r = x)"
      using Cons.IH [OF Cons.prems(1,2)] Cons.prems(3) Look by simp
    show ?thesis
    proof (cases "j < length H")
      case True
      obtain i n held where "H ! j = (i, n, held)" by (cases "H ! j") auto
      with IH look_ticket [OF Cons.prems(1,2) True] show ?thesis using Look True by fastforce
    qed (use IH Look in simp)
  qed
qed

end

subsection \<open>A single pool\<close>

text \<open>
  One call of a client: the other groups have moved the global counter by some slices since the
  last call, then a node is allocated and its id computed.
\<close>

type_synonym np_state = "id_seed_glob \<times> np_mem \<times> node_pool"

definition others_used :: "nat \<Rightarrow> id_seed_glob \<Rightarrow> id_seed_glob" where
  "others_used d G = G\<lparr> group_used := group_used G + of_nat d * 2 ^ 14 \<rparr>"

fun np_take :: "u64 \<times> nat \<Rightarrow> np_state \<Rightarrow> ((u64 \<times> addr) option \<times> np_state) run" where
  "np_take (now, d) (G, M, P) =
     run_bind (yf_alloc_node_from_pool now (others_used d G) M P) (\<lambda>(n, G, M, P).
     if n = NULL then Inr (None, (G, M, P))
     else run_bind (yf_get_id_by_node M P n) (\<lambda>i. Inr (Some (i, n), (G, M, P))))"

fun np_give :: "np_state \<Rightarrow> u64 \<Rightarrow> addr \<Rightarrow> np_state run" where
  "np_give (G, M, P) i n = run_bind (yf_free_node_to_pool M P n) (\<lambda>(M, P). Inr (G, M, P))"

fun np_look :: "np_state \<Rightarrow> u64 \<Rightarrow> addr option run" where
  "np_look (G, M, P) i = run_bind (yf_get_node_by_id M P i) (\<lambda>n.
     Inr (if n = NULL then None else Some n))"

definition slices_left :: "id_seed_glob \<Rightarrow> nat" where
  "slices_left G = (2 ^ 31 - 1 - unat (group_used G)) div 16384"

definition seed_cost :: "u64 \<times> nat \<Rightarrow> nat" where "seed_cost e = snd e + 1"

lemma others_used_ok:
  assumes "seeds_ok G" "d + 1 \<le> slices_left G"
  shows "seeds_ok (others_used d G)" "unat (group_used G) \<le> unat (group_used (others_used d G))"
    "unat (group_used (others_used d G)) + 16384 < 2 ^ 31"
    "unat (group_used (others_used d G)) = unat (group_used G) + d * 16384"
proof -
  have lt: "unat (group_used G) < 2 ^ 31" using assms(1) by (simp add: seeds_ok_def)
  have "(d + 1) * 16384 \<le> slices_left G * 16384" using assms(2) by (rule mult_le_mono1)
  also have "\<dots> \<le> 2 ^ 31 - 1 - unat (group_used G)" unfolding slices_left_def by (rule div_times_less_eq_dividend)
  finally have le: "unat (group_used G) + d * 16384 + 16384 < 2 ^ 31" using lt by simp
  then have "unat (of_nat d * 2 ^ 14 :: u32) = d * 16384"
    by (simp add: unat_word_ariths(2) unat_of_nat)
  then show u: "unat (group_used (others_used d G)) = unat (group_used G) + d * 16384"
    using le by (simp add: others_used_def unat_word_ariths(1))
  show "seeds_ok (others_used d G)" using assms(1) le u by (simp add: seeds_ok_def others_used_def)
  show "unat (group_used G) \<le> unat (group_used (others_used d G))" using u by simp
  show "unat (group_used (others_used d G)) + 16384 < 2 ^ 31" using u le by simp
qed

lemma slices_left_step:
  assumes "unat (group_used G') \<le> unat (group_used G) + c * 16384"
  shows "slices_left G \<le> slices_left G' + c"
proof -
  have "2 ^ 31 - 1 - unat (group_used G) \<le> (2 ^ 31 - 1 - unat (group_used G')) + c * 16384" using assms by simp
  then have "slices_left G \<le> ((2 ^ 31 - 1 - unat (group_used G')) + c * 16384) div 16384"
    unfolding slices_left_def by (rule div_le_mono)
  then show ?thesis by (simp add: slices_left_def)
qed

lemma np_take_ok:
  assumes rep: "np_rep s L U" and c: "seed_cost e \<le> slices_left (fst s)"
  shows "\<exists>r s'. np_take e s = Inr (r, s') \<and> slices_left (fst s) \<le> slices_left (fst s') + seed_cost e \<and>
        (case r of None \<Rightarrow> np_rep s' L U
         | Some (i, n) \<Rightarrow> i \<notin> U \<and> n \<notin> snd ` set L \<and> np_rep s' ((i, n) # L) (insert i U))"
proof -
  obtain now d where e: "e = (now, d)" by (cases e)
  obtain G M P where s: "s = (G, M, P)" by (cases s) auto
  have G: "seeds_ok G" "d + 1 \<le> slices_left G" using rep c by (simp_all add: np_rep_def seed_cost_def e s)
  note o = others_used_ok [OF G]
  show ?thesis
  proof (cases "free_size P = 0")
    case True
    have "np_take e s = Inr (None, (others_used d G, M, P))"
      using True by (simp add: e s yf_alloc_node_from_pool_def)
    moreover have "np_rep (others_used d G, M, P) L U"
      using rep o seed_ok_mono [OF _ o(2)] by (auto simp: np_rep_def s)
    moreover have "slices_left G \<le> slices_left (others_used d G) + (d + 1)"
      by (rule slices_left_step) (simp add: o(4))
    ultimately show ?thesis by (simp add: seed_cost_def e s)
  next
    case False
    from np_alloc_ok [OF rep [unfolded s] o(1-3) False, of now] obtain n i G' M' P' where
      run: "yf_alloc_node_from_pool now (others_used d G) M P = Inr (n, G', M', P')" "n \<noteq> NULL"
      "yf_get_id_by_node M' P' n = Inr i" and i: "i \<notin> U" "n \<notin> snd ` set L"
      and G': "unat (group_used G') \<le> unat (group_used (others_used d G)) + 16384"
      and rep': "np_rep (G', M', P') ((i, n) # L) (insert i U)"
      unfolding Let_def by blast
    have "np_take e s = Inr (Some (i, n), (G', M', P'))" using run by (simp add: e s)
    moreover have "slices_left G \<le> slices_left G' + (d + 1)"
      by (rule slices_left_step) (use G' o(4) in simp)
    ultimately show ?thesis using i rep' by (simp add: seed_cost_def e s)
  qed
qed

lemma np_live_nonzero:
  assumes "np_rep (G, M, P) L U" "(i, n) \<in> set L" shows "n \<noteq> NULL"
  using assms node_at_nonzero by (fastforce simp: np_rep_def np_nodes_def live_ok_def)

interpretation np: id_pool np_take np_give np_look np_rep seed_cost "\<lambda>s. slices_left (fst s)"
proof
  fix s :: np_state and L U and e :: "u64 \<times> nat"
  assume "np_rep s L U" "seed_cost e \<le> slices_left (fst s)"
  then show "\<exists>r s'. np_take e s = Inr (r, s') \<and> slices_left (fst s) \<le> slices_left (fst s') + seed_cost e \<and>
        (case r of None \<Rightarrow> np_rep s' L U
         | Some (i, n) \<Rightarrow> i \<notin> U \<and> n \<notin> snd ` set L \<and> np_rep s' ((i, n) # L) (insert i U))"
    by (rule np_take_ok)
next
  fix s :: np_state and L U i n
  assume rep: "np_rep s L U" and L: "(i, n) \<in> set L"
  obtain G M P where s: "s = (G, M, P)" by (cases s) auto
  from np_free_ok [OF rep [unfolded s] L] obtain M' P' where
    "yf_free_node_to_pool M P n = Inr (M', P')" "np_rep (G, M', P') (removeAll (i, n) L) U"
    unfolding Let_def by blast
  then show "\<exists>s'. np_give s i n = Inr s' \<and> slices_left (fst s) \<le> slices_left (fst s') \<and>
      np_rep s' (removeAll (i, n) L) U"
    by (simp add: s)
next
  fix s :: np_state and L U i
  assume rep: "np_rep s L U" and i: "i \<in> U"
  obtain G M P where s: "s = (G, M, P)" by (cases s) auto
  show "np_look s i = Inr (map_of L i)"
    using np_lookup_ok [OF rep [unfolded s] i] np_live_nonzero [OF rep [unfolded s]]
    by (cases "map_of L i") (auto simp: s dest: map_of_SomeD)
next
  fix s :: np_state and L U
  assume rep: "np_rep s L U"
  then have "distinct (map (id_idx \<circ> fst) L)" by (auto simp: np_rep_def np_nodes_def)
  then show "distinct (map fst L)" by (auto simp: distinct_map inj_on_def)
qed

subsection \<open>Properties\<close>

definition some_mem :: np_mem where
  "some_mem = \<lparr> np_heads = (\<lambda>_. np_head0), np_links = (\<lambda>_. 0) \<rparr>"

definition some_glob :: id_seed_glob where
  "some_glob = \<lparr> group_used = 16384, start_factor = 2 \<rparr>"

lemma some_glob_ok: "seeds_ok some_glob" "unat (group_used some_glob) = 16384"
  by (simp_all add: some_glob_def seeds_ok_def)

text \<open>
  C16: On an initialised pool no call of a client that gives back only what it holds fails an
  assertion or touches memory outside the pool, every id handed out is new, and an id names its
  node exactly while the node is held: the id of a node given back finds nothing, also after
  the node is in use again.
\<close>

theorem yf_node_pool_ids:
  assumes "np_geom P" "seeds_ok G" "unat (group_used G) + 16384 < 2 ^ 31"
    and "yf_init_node_pool now G M P = Inr s" "id_cost seed_cost ops \<le> slices_left (fst s)"
  shows "\<exists>H rs s'. id_run np_take np_give np_look ops [] s = Inr (H, rs, s') \<and>
    distinct (map fst H) \<and> (\<forall>(r, x) \<in> set rs. r = x)"
proof -
  from np_init_ok [OF assms(1-3), of now M] assms(4) have rep: "np_rep s [] {}"
    unfolding Let_def by auto
  have "tickets_ok [] ([] :: (u64 \<times> addr) list) {}" by (simp add: tickets_ok_def)
  from np.run_ids [OF rep this assms(5)] show ?thesis by (auto simp: tickets_ok_def)
qed

definition some_pool :: node_pool where
  "some_pool = \<lparr> nodes_array = 4096, total_num = 2, pool_index = 0, each_taken_size = 16,
     free_list = 64, free_size = 0, np_seed = id_seed_group0 \<rparr>"

theorem yf_node_pool_ids_witness:
  "\<exists>s H rs s'. yf_init_node_pool 1000000 some_glob some_mem some_pool = Inr s \<and>
    id_run np_take np_give np_look
      [Take (1000000, 0), Look 0, Give 0, Look 0, Take (1000001, 3), Look 0, Look 1] [] s = Inr (H, rs, s') \<and>
    distinct (map fst H) \<and> (\<forall>(r, x) \<in> set rs. r = x)"
proof -
  have P: "np_geom some_pool" by (simp add: np_geom_def some_pool_def)
  have G: "unat (group_used some_glob) + 16384 < 2 ^ 31" by (simp add: some_glob_ok)
  from np_init_ok [OF P some_glob_ok(1) G, of 1000000 some_mem] obtain G' M' P' where
    init: "yf_init_node_pool 1000000 some_glob some_mem some_pool = Inr (G', M', P')"
    and G': "unat (group_used G') \<le> 32768" unfolding Let_def by (auto simp: some_glob_ok)
  let ?ops = "[Take (1000000, 0), Look 0, Give 0, Look 0, Take (1000001, 3), Look 0, Look 1] :: (u64 \<times> nat) id_op list"
  have "(2 ^ 31 - 1 - 32768) div 16384 \<le> slices_left G'"
    unfolding slices_left_def by (rule div_le_mono) (use G' in simp)
  then have "id_cost seed_cost ?ops \<le> slices_left (fst (G', M', P'))" by (simp add: seed_cost_def)
  from yf_node_pool_ids [OF P some_glob_ok(1) G init this] init show ?thesis by blast
qed

end

