(* ===== verification/Hn_Pool.thy ===== *)
theory Hn_Pool
  imports Node_Pool
begin

section \<open>Node pools of several chunks\<close>

text \<open>
  Models the second half of \<^verbatim>\<open>base_struct/yf_node_pool.c\<close>, pools that grow by chunks.
  \<^verbatim>\<open>yf_hnpool_in_t\<close>: its arrays of pools and of pool pointers have \<^verbatim>\<open>max_chunk\<close> entries, a
  pool pointer is the number of the pool or null. The memory of a new chunk and the order in
  which \<^verbatim>\<open>qsort\<close> leaves equal entries are arguments: \<open>ck c\<close> is what \<^verbatim>\<open>yf_alloc\<close> returns for
  chunk \<open>c\<close>, and \<open>qs\<close> sorts a list with a comparison.
\<close>

record hnpool =
  num_per_chunk :: u32
  max_chunk :: u8
  used_chunk :: u8
  alloc_chunk :: u8
  hn_taken_size :: u32
  node_pools_at :: addr
  node_pools :: "node_pool list"
  node_pool_infos :: "nat option list"

definition NODE_POOL_SIZE :: nat where "NODE_POOL_SIZE = 40"
definition FREE_LIST_OFF :: nat where "FREE_LIST_OFF = 16"
definition HNPOOL_SIZE :: nat where "HNPOOL_SIZE = 32"

definition cmp_pool_freesize :: "node_pool list \<Rightarrow> nat option \<Rightarrow> nat option \<Rightarrow> int" where
  "cmp_pool_freesize ps p1 p2 = sint (free_size (ps ! the p2) - free_size (ps ! the p1))"

definition hnpool_init_child_pool ::
  "u64 \<Rightarrow> id_seed_glob \<Rightarrow> np_mem \<Rightarrow> hnpool \<Rightarrow> addr \<Rightarrow> (id_seed_glob \<times> np_mem \<times> hnpool) run" where
  "hnpool_init_child_pool now G M hp mem =
     (let c = unat (used_chunk hp) in
      require Out_of_bounds (c < length (node_pools hp))
        (let P = (node_pools hp ! c)\<lparr> nodes_array := mem, total_num := take_bit 24 (num_per_chunk hp),
                   each_taken_size := hn_taken_size hp, pool_index := ucast (used_chunk hp) \<rparr>;
             infos = (node_pool_infos hp)[c := Some c] in
         run_bind (yf_init_node_pool now G M P) (\<lambda>(G, M, P).
         Inr (G, M, hp\<lparr> node_pools := (node_pools hp)[c := P], node_pool_infos := infos,
           used_chunk := used_chunk hp + 1 \<rparr>))))"

text \<open>\<open>malloc sz\<close> is the memory returned for a request of \<open>sz\<close> bytes, all of them zeroed, or null.\<close>

definition node_pool0 :: "addr \<Rightarrow> node_pool" where
  "node_pool0 fl = \<lparr> nodes_array = 0, total_num = 0, pool_index = 0, each_taken_size = 0,
     free_list = fl, free_size = 0, np_seed = id_seed_group0 \<rparr>"

definition hnpool0 :: "addr \<Rightarrow> u32 \<Rightarrow> u8 \<Rightarrow> u32 \<Rightarrow> hnpool" where
  "hnpool0 at num mx sz = \<lparr> num_per_chunk = num, max_chunk = mx, used_chunk = 0, alloc_chunk = 0,
     hn_taken_size = sz, node_pools_at = at + HNPOOL_SIZE,
     node_pools = map (\<lambda>c. node_pool0 (at + HNPOOL_SIZE + NODE_POOL_SIZE * c + FREE_LIST_OFF)) [0..<unat mx],
     node_pool_infos = replicate (unat mx) None \<rparr>"

definition yf_hnpool_create ::
  "(u32 \<Rightarrow> addr) \<Rightarrow> u64 \<Rightarrow> id_seed_glob \<Rightarrow> np_mem \<Rightarrow> u32 \<Rightarrow> u32 \<Rightarrow> u8 \<Rightarrow>
   (hnpool option \<times> id_seed_glob \<times> np_mem) run" where
  "yf_hnpool_create malloc now G M node_size num mx =
     (if num = 0 then Inr (None, G, M)
      else if ucast num * (ucast mx :: u64) \<ge> scast (push_bit 31 (1 :: u32)) then Inr (None, G, M)
      else
        let node_pool_size = of_nat NODE_POOL_SIZE * ucast mx :: u32;
            np_info_size = 8 * ucast mx :: u32;
            node_size = yf_node_taken_size node_size;
            at = malloc (of_nat HNPOOL_SIZE + node_pool_size + np_info_size + node_size * num) in
        if at = NULL then Inr (None, G, M)
        else
          let hp = hnpool0 at num mx node_size in
          run_bind (hnpool_init_child_pool now G M hp
              (node_pools_at hp + unat node_pool_size + unat np_info_size))
            (\<lambda>(G, M, hp). Inr (Some hp, G, M)))"

definition hnp_sort ::
  "((nat option \<Rightarrow> nat option \<Rightarrow> int) \<Rightarrow> nat option list \<Rightarrow> nat option list) \<Rightarrow> hnpool \<Rightarrow> hnpool run" where
  "hnp_sort qs hp =
     (let used = take (unat (used_chunk hp)) (node_pool_infos hp) in
      require Null_deref (None \<notin> set used)
        (Inr (hp\<lparr> node_pool_infos := qs (cmp_pool_freesize (node_pools hp)) used @
           drop (unat (used_chunk hp)) (node_pool_infos hp) \<rparr>)))"

definition pool_of :: "hnpool \<Rightarrow> nat \<Rightarrow> node_pool run" where
  "pool_of hp k = require Out_of_bounds (k < length (node_pool_infos hp))
     (case node_pool_infos hp ! k of
        None \<Rightarrow> Inl Null_deref
      | Some p \<Rightarrow> require Out_of_bounds (p < length (node_pools hp)) (Inr (node_pools hp ! p)))"

type_synonym hn_result = "(addr \<times> u64) option \<times> id_seed_glob \<times> np_mem \<times> hnpool"

definition alloc_from ::
  "u64 \<Rightarrow> id_seed_glob \<Rightarrow> np_mem \<Rightarrow> hnpool \<Rightarrow> nat \<Rightarrow> hn_result run" where
  "alloc_from now G M hp p =
     run_bind (yf_alloc_node_from_pool now G M (node_pools hp ! p)) (\<lambda>(node, G, M, P).
     c_assert (node \<noteq> NULL)
       (run_bind (yf_get_id_by_node M P node) (\<lambda>i.
        Inr (Some (node, i), G, M, hp\<lparr> node_pools := (node_pools hp)[p := P] \<rparr>))))"

text \<open>
  One pass of the loop of \<^verbatim>\<open>yf_hnpool_alloc\<close>: it returns, or goes on with the next values of
  its variables.
\<close>

datatype hn_next = Hn_return hn_result | Hn_again id_seed_glob np_mem hnpool bool

definition hn_grow :: "(nat \<Rightarrow> addr) \<Rightarrow> u64 \<Rightarrow> id_seed_glob \<Rightarrow> np_mem \<Rightarrow> hnpool \<Rightarrow> hn_next run" where
  "hn_grow ck now G M hp =
     (if used_chunk hp < max_chunk hp
      then let mem = ck (unat (used_chunk hp)) in
        if mem = NULL then Inr (Hn_return (None, G, M, hp))
        else run_bind (hnpool_init_child_pool now G M hp mem) (\<lambda>(G, M, hp).
             Inr (Hn_again G M (hp\<lparr> alloc_chunk := alloc_chunk hp + 1 \<rparr>) True))
      else Inr (Hn_return (None, G, M, hp)))"

definition hn_pass ::
  "((nat option \<Rightarrow> nat option \<Rightarrow> int) \<Rightarrow> nat option list \<Rightarrow> nat option list) \<Rightarrow> (nat \<Rightarrow> addr) \<Rightarrow> u64 \<Rightarrow>
   id_seed_glob \<Rightarrow> np_mem \<Rightarrow> hnpool \<Rightarrow> bool \<Rightarrow> hn_next run" where
  "hn_pass qs ck now G M hp srt =
     run_bind (pool_of hp (unat (alloc_chunk hp))) (\<lambda>pool.
     if free_size pool \<noteq> 0
     then run_bind (alloc_from now G M hp (the (node_pool_infos hp ! unat (alloc_chunk hp)))) (\<lambda>r.
       Inr (Hn_return r))
     else if unat (alloc_chunk hp) + 1 = unat (used_chunk hp)
     then if srt then hn_grow ck now G M hp
       else run_bind (hnp_sort qs hp) (\<lambda>hp.
         run_bind (pool_of hp 0) (\<lambda>first.
         if free_size first \<noteq> 0 then Inr (Hn_again G M (hp\<lparr> alloc_chunk := 0 \<rparr>) True)
         else hn_grow ck now G M hp))
     else Inr (Hn_again G M (hp\<lparr> alloc_chunk := alloc_chunk hp + 1 \<rparr>) srt))"

partial_function (option) hnpool_loop ::
  "((nat option \<Rightarrow> nat option \<Rightarrow> int) \<Rightarrow> nat option list \<Rightarrow> nat option list) \<Rightarrow> (nat \<Rightarrow> addr) \<Rightarrow> u64 \<Rightarrow>
   id_seed_glob \<Rightarrow> np_mem \<Rightarrow> hnpool \<Rightarrow> bool \<Rightarrow> hn_result run option" where
  "hnpool_loop qs ck now G M hp srt =
     (case hn_pass qs ck now G M hp srt of
        Inl e \<Rightarrow> Some (Inl e)
      | Inr (Hn_return r) \<Rightarrow> Some (Inr r)
      | Inr (Hn_again G M hp srt) \<Rightarrow> hnpool_loop qs ck now G M hp srt)"

definition yf_hnpool_alloc ::
  "((nat option \<Rightarrow> nat option \<Rightarrow> int) \<Rightarrow> nat option list \<Rightarrow> nat option list) \<Rightarrow> (nat \<Rightarrow> addr) \<Rightarrow> u64 \<Rightarrow>
   id_seed_glob \<Rightarrow> np_mem \<Rightarrow> hnpool \<Rightarrow> hn_result run option" where
  "yf_hnpool_alloc qs ck now G M hp = hnpool_loop qs ck now G M hp False"

definition yf_hnpool_id2node :: "np_mem \<Rightarrow> hnpool \<Rightarrow> u64 \<Rightarrow> addr run" where
  "yf_hnpool_id2node M hp i =
     (let chunk = unat (ucast (drop_bit 56 i) :: u32) in
      require Out_of_bounds (chunk < length (node_pools hp))
        (yf_get_node_by_id M (node_pools hp ! chunk) i))"

definition yf_hnpool_free :: "np_mem \<Rightarrow> hnpool \<Rightarrow> u64 \<Rightarrow> addr \<Rightarrow> (np_mem \<times> hnpool) run" where
  "yf_hnpool_free M hp i node =
     run_bind (if node = NULL then yf_hnpool_id2node M hp i else Inr node) (\<lambda>node.
     if node = NULL then Inr (M, hp)
     else let chunk = unat (ucast (drop_bit 56 i) :: u32) in
       require Out_of_bounds (chunk < length (node_pools hp))
         (run_bind (yf_free_node_to_pool M (node_pools hp ! chunk) node) (\<lambda>(M, P).
          Inr (M, hp\<lparr> node_pools := (node_pools hp)[chunk := P] \<rparr>))))"

subsection \<open>Representation\<close>

lemma unat_u8: "unat (w :: u8) < 256"
proof -
  have "unat w < 2 ^ LENGTH(8)" by (rule unsigned_less)
  then show ?thesis by simp
qed

definition apart :: "node_pool \<Rightarrow> node_pool \<Rightarrow> bool" where
  "apart P Q \<longleftrightarrow> np_span P \<inter> np_span Q = {} \<and> free_list P \<notin> np_span Q \<and>
     free_list Q \<notin> np_span P \<and> free_list P \<noteq> free_list Q"

lemma schain_cong: "(\<And>a. a \<in> set (l # xs) \<Longrightarrow> h' a = h a) \<Longrightarrow> schain h l xs \<Longrightarrow> schain h' l xs"
  by (induction xs arbitrary: l) auto

lemma np_nodes_frame:
  assumes nodes: "np_nodes M P L fs" and geom: "np_geom P" and fr: "np_frame Q M M'" and ap: "apart P Q"
  shows "np_nodes M' P L fs"
proof -
  let ?ks = "fs @ map (id_idx \<circ> fst) L"
  have ks: "set ?ks = {..<unat (total_num P)}" using nodes by (simp add: np_nodes_def)
  have same: "np_heads M' (head_at P k) = np_heads M (head_at P k)" if "k \<in> set ?ks" for k
    using that span_at(1) [OF geom, of k] ap fr unfolding ks by (auto simp: apart_def np_frame_def)
  have link: "np_links M' a = np_links M a" if "a \<in> set (free_list P # map (node_at P) fs)" for a
  proof -
    have "a = free_list P \<or> a \<in> np_span P"
    proof -
      have "node_at P k \<in> np_span P" if "k \<in> set fs" for k
        using that ks by (intro span_at(2) [OF geom]) auto
      then show ?thesis using that by auto
    qed
    then show ?thesis using ap fr by (auto simp: apart_def np_frame_def)
  qed
  have "slist (np_links M') (free_list P) (map (node_at P) fs)"
    using nodes schain_cong [of "free_list P" "map (node_at P) fs" "np_links M'" "np_links M", OF link]
    unfolding np_nodes_def slist_def by blast
  moreover have "live_ok M' P i n" if "(i, n) \<in> set L" for i n
  proof -
    have "id_idx i \<in> set ?ks" using that by force
    then show ?thesis using same nodes that by (auto simp: np_nodes_def live_ok_def)
  qed
  moreover have "\<not> nh_used (np_heads M' (head_at P k))" if "k \<in> set fs" for k
  proof -
    have "k \<in> set ?ks" using that by simp
    then show ?thesis using same nodes that by (simp add: np_nodes_def)
  qed
  ultimately show ?thesis using nodes by (auto simp: np_nodes_def)
qed

lemma np_rep_frame:
  assumes rep: "np_rep (G, M, P) L U" and fr: "np_frame Q M M'" and ap: "apart P Q"
    and G: "seeds_ok G'" "unat (group_used G) \<le> unat (group_used G')"
  shows "np_rep (G', M', P) L U"
  using rep np_nodes_frame [OF _ _ fr ap] seed_ok_mono [OF _ G(2)] G(1)
  by (auto simp: np_rep_def)

lemma np_rep_mono:
  assumes "np_rep (G, M, P) L U" "seeds_ok G'" "unat (group_used G) \<le> unat (group_used G')"
  shows "np_rep (G', M, P) L U"
  using assms seed_ok_mono [OF _ assms(3)] by (auto simp: np_rep_def)

definition chunk_size :: "hnpool \<Rightarrow> nat" where
  "chunk_size hp = unat (hn_taken_size hp) * unat (num_per_chunk hp)"

definition fl_at :: "hnpool \<Rightarrow> nat \<Rightarrow> addr" where
  "fl_at hp c = node_pools_at hp + NODE_POOL_SIZE * c + FREE_LIST_OFF"

definition hnp_geom :: "(nat \<Rightarrow> addr) \<Rightarrow> hnpool \<Rightarrow> bool" where
  "hnp_geom ck hp \<longleftrightarrow> 8 dvd unat (hn_taken_size hp) \<and> 8 < unat (hn_taken_size hp) \<and>
     0 < unat (num_per_chunk hp) \<and> unat (num_per_chunk hp) < 2 ^ 24 \<and> chunk_size hp < 2 ^ 32 \<and>
     (\<forall>c < unat (max_chunk hp). ck c = 0 \<or>
        node_pools_at hp + NODE_POOL_SIZE * unat (max_chunk hp) \<le> ck c \<or>
        ck c + chunk_size hp \<le> node_pools_at hp) \<and>
     (\<forall>c < unat (max_chunk hp). \<forall>d < unat (max_chunk hp). c \<noteq> d \<longrightarrow> ck c \<noteq> 0 \<longrightarrow> ck d \<noteq> 0 \<longrightarrow>
        disj (ck c, chunk_size hp) (ck d, chunk_size hp))"

lemma hnp_geomD:
  assumes hp: "hnp_geom ck hp" and c: "c < unat (max_chunk hp)" "ck c \<noteq> 0"
  shows "node_pools_at hp + NODE_POOL_SIZE * unat (max_chunk hp) \<le> ck c \<or>
      ck c + chunk_size hp \<le> node_pools_at hp"
    and "d < unat (max_chunk hp) \<Longrightarrow> c \<noteq> d \<Longrightarrow> ck d \<noteq> 0 \<Longrightarrow>
      disj (ck c, chunk_size hp) (ck d, chunk_size hp)"
proof -
  from hp have "\<forall>c < unat (max_chunk hp). ck c = 0 \<or>
        node_pools_at hp + NODE_POOL_SIZE * unat (max_chunk hp) \<le> ck c \<or>
        ck c + chunk_size hp \<le> node_pools_at hp"
    unfolding hnp_geom_def by (elim conjE)
  from this [rule_format, OF c(1)] c(2)
  show "node_pools_at hp + NODE_POOL_SIZE * unat (max_chunk hp) \<le> ck c \<or>
      ck c + chunk_size hp \<le> node_pools_at hp" by simp
  from hp have "\<forall>c < unat (max_chunk hp). \<forall>d < unat (max_chunk hp). c \<noteq> d \<longrightarrow> ck c \<noteq> 0 \<longrightarrow> ck d \<noteq> 0 \<longrightarrow>
        disj (ck c, chunk_size hp) (ck d, chunk_size hp)"
    unfolding hnp_geom_def by (elim conjE)
  from this [rule_format, OF c(1) _ _ c(2)]
  show "d < unat (max_chunk hp) \<Longrightarrow> c \<noteq> d \<Longrightarrow> ck d \<noteq> 0 \<Longrightarrow>
      disj (ck c, chunk_size hp) (ck d, chunk_size hp)" .
qed

definition pool_fits :: "(nat \<Rightarrow> addr) \<Rightarrow> hnpool \<Rightarrow> nat \<Rightarrow> node_pool \<Rightarrow> bool" where
  "pool_fits ck hp c P \<longleftrightarrow> nodes_array P = ck c \<and> ck c \<noteq> 0 \<and> total_num P = num_per_chunk hp \<and>
     each_taken_size P = hn_taken_size hp \<and> unat (pool_index P) = c \<and> free_list P = fl_at hp c"

lemma pool_fits_geom:
  assumes "hnp_geom ck hp" "pool_fits ck hp c P" "c < unat (max_chunk hp)"
  shows "np_geom P"
proof -
  have "unat (max_chunk hp) < 256" using unat_u8 [of "max_chunk hp"] by simp
  moreover have "NODE_POOL_SIZE * c + NODE_POOL_SIZE \<le> NODE_POOL_SIZE * unat (max_chunk hp)"
    using assms(3) by (simp add: NODE_POOL_SIZE_def)
  moreover have "ck c = 0 \<or> node_pools_at hp + NODE_POOL_SIZE * unat (max_chunk hp) \<le> ck c \<or>
        ck c + chunk_size hp \<le> node_pools_at hp" using assms by (simp add: hnp_geom_def)
  ultimately show ?thesis
    using assms by (auto simp: np_geom_def pool_fits_def hnp_geom_def chunk_size_def fl_at_def
        FREE_LIST_OFF_def NODE_POOL_SIZE_def)
qed

lemma pool_fits_apart:
  assumes hp: "hnp_geom ck hp" and P: "pool_fits ck hp c P" "c < unat (max_chunk hp)"
    and Q: "pool_fits ck hp d Q" "d < unat (max_chunk hp)" and ne: "c \<noteq> d"
  shows "apart P Q"
proof -
  have out: "fl_at hp k \<notin> {ck j ..< ck j + chunk_size hp}"
    if "k < unat (max_chunk hp)" "j < unat (max_chunk hp)" "ck j \<noteq> 0" for k j
  proof -
    have "NODE_POOL_SIZE * k + NODE_POOL_SIZE \<le> NODE_POOL_SIZE * unat (max_chunk hp)"
      using that(1) by (simp add: NODE_POOL_SIZE_def)
    moreover have "node_pools_at hp + NODE_POOL_SIZE * unat (max_chunk hp) \<le> ck j \<or>
        ck j + chunk_size hp \<le> node_pools_at hp"
      by (rule hnp_geomD(1) [OF hp that(2,3)])
    ultimately show ?thesis by (auto simp: fl_at_def FREE_LIST_OFF_def NODE_POOL_SIZE_def)
  qed
  have span: "np_span P = {ck c ..< ck c + chunk_size hp}" "np_span Q = {ck d ..< ck d + chunk_size hp}"
    using P Q by (simp_all add: np_span_def pool_fits_def chunk_size_def)
  have "ck c \<noteq> 0" "ck d \<noteq> 0" using P Q by (simp_all add: pool_fits_def)
  from hnp_geomD(2) [OF hp P(2) this(1) Q(2) ne this(2)]
  have "np_span P \<inter> np_span Q = {}" unfolding span by (auto simp: disj_def)
  moreover have "fl_at hp c \<noteq> fl_at hp d" using ne by (simp add: fl_at_def NODE_POOL_SIZE_def)
  moreover have "free_list P = fl_at hp c" "free_list Q = fl_at hp d" "ck c \<noteq> 0" "ck d \<noteq> 0"
    using P Q by (simp_all add: pool_fits_def)
  ultimately show ?thesis
    unfolding apart_def span using out [OF P(2) Q(2)] out [OF Q(2) P(2)] by metis
qed

definition hnp_rep :: "(nat \<Rightarrow> addr) \<Rightarrow> id_seed_glob \<Rightarrow> np_mem \<Rightarrow> hnpool \<Rightarrow>
    (nat \<Rightarrow> (u64 \<times> addr) list) \<Rightarrow> (nat \<Rightarrow> u64 set) \<Rightarrow> bool" where
  "hnp_rep ck G M hp Ls Us \<longleftrightarrow>
     (let m = unat (max_chunk hp); u = unat (used_chunk hp) in
      hnp_geom ck hp \<and> length (node_pools hp) = m \<and> length (node_pool_infos hp) = m \<and>
      u \<le> m \<and>
      mset (take u (node_pool_infos hp)) = mset (map Some [0..<u]) \<and>
      (\<forall>c < m. free_list (node_pools hp ! c) = fl_at hp c) \<and>
      (\<forall>c < u. pool_fits ck hp c (node_pools hp ! c) \<and> np_rep (G, M, node_pools hp ! c) (Ls c) (Us c)) \<and>
      (\<forall>c \<ge> u. Ls c = [] \<and> Us c = {}) \<and> seeds_ok G)"

lemma hnp_repD:
  assumes "hnp_rep ck G M hp Ls Us"
  shows "hnp_geom ck hp" "length (node_pools hp) = unat (max_chunk hp)"
    "length (node_pool_infos hp) = unat (max_chunk hp)" "unat (used_chunk hp) \<le> unat (max_chunk hp)"
    "mset (take (unat (used_chunk hp)) (node_pool_infos hp)) = mset (map Some [0..<unat (used_chunk hp)])"
    "c < unat (max_chunk hp) \<Longrightarrow> free_list (node_pools hp ! c) = fl_at hp c"
    "c < unat (used_chunk hp) \<Longrightarrow> pool_fits ck hp c (node_pools hp ! c)"
    "c < unat (used_chunk hp) \<Longrightarrow> np_rep (G, M, node_pools hp ! c) (Ls c) (Us c)"
    "unat (used_chunk hp) \<le> c \<Longrightarrow> Ls c = [] \<and> Us c = {}" "seeds_ok G"
  using assms by (simp_all add: hnp_rep_def Let_def)

lemma pool_fits_cong [simp]:
  "pool_fits ck (hp\<lparr> node_pools := ps \<rparr>) = pool_fits ck hp"
  "pool_fits ck (hp\<lparr> alloc_chunk := a \<rparr>) = pool_fits ck hp"
  "pool_fits ck (hp\<lparr> node_pool_infos := is \<rparr>) = pool_fits ck hp"
  "pool_fits ck (hp\<lparr> used_chunk := u \<rparr>) = pool_fits ck hp"
  by (simp_all add: fun_eq_iff pool_fits_def fl_at_def)

lemma hnp_geom_cong [simp]:
  "hnp_geom ck (hp\<lparr> node_pools := ps \<rparr>) = hnp_geom ck hp"
  "hnp_geom ck (hp\<lparr> alloc_chunk := a \<rparr>) = hnp_geom ck hp"
  "hnp_geom ck (hp\<lparr> node_pool_infos := is \<rparr>) = hnp_geom ck hp"
  "hnp_geom ck (hp\<lparr> used_chunk := u \<rparr>) = hnp_geom ck hp"
  by (simp_all add: hnp_geom_def chunk_size_def)

lemma fl_at_cong [simp]:
  "fl_at (hp\<lparr> node_pools := ps \<rparr>) = fl_at hp"
  "fl_at (hp\<lparr> alloc_chunk := a \<rparr>) = fl_at hp"
  "fl_at (hp\<lparr> node_pool_infos := is \<rparr>) = fl_at hp"
  "fl_at (hp\<lparr> used_chunk := u \<rparr>) = fl_at hp"
  by (simp_all add: fun_eq_iff fl_at_def)

lemma hnp_rep_alloc [simp]: "hnp_rep ck G M (hp\<lparr> alloc_chunk := a \<rparr>) Ls Us = hnp_rep ck G M hp Ls Us"
  by (simp add: hnp_rep_def)

lemma hnp_rep_mono:
  assumes "hnp_rep ck G M hp Ls Us" "seeds_ok G'" "unat (group_used G) \<le> unat (group_used G')"
  shows "hnp_rep ck G' M hp Ls Us"
  using assms np_rep_mono [OF _ assms(2,3)] by (simp add: hnp_rep_def Let_def)

lemma hnp_update:
  assumes rep: "hnp_rep ck G M hp Ls Us" and p: "p < unat (used_chunk hp)"
    and P: "pool_fits ck hp p P'" "np_rep (G', M', P') L' U'"
    and fr: "np_frame (node_pools hp ! p) M M'" and G: "unat (group_used G) \<le> unat (group_used G')"
  shows "hnp_rep ck G' M' (hp\<lparr> node_pools := (node_pools hp)[p := P'] \<rparr>) (Ls(p := L')) (Us(p := U'))"
proof -
  note r = hnp_repD [OF rep]
  have G': "seeds_ok G'" using P(2) by (simp add: np_rep_def)
  have p': "p < unat (max_chunk hp)" using p r(4) by simp
  let ?ps = "(node_pools hp)[p := P']"
  have other: "pool_fits ck hp c (?ps ! c) \<and>
      np_rep (G', M', ?ps ! c) ((Ls(p := L')) c) ((Us(p := U')) c)" if c: "c < unat (used_chunk hp)" for c
  proof (cases "c = p")
    case True
    then show ?thesis using P p' r(2) by simp
  next
    case False
    have c': "c < unat (max_chunk hp)" using c r(4) by simp
    have "apart (node_pools hp ! c) (node_pools hp ! p)"
      by (rule pool_fits_apart [OF r(1) r(7) [OF c] c' r(7) [OF p] p' False])
    from np_rep_frame [OF r(8) [OF c] fr this G' G] show ?thesis using False r(7) [OF c] by simp
  qed
  have fl: "free_list (?ps ! c) = fl_at hp c" if "c < unat (max_chunk hp)" for c
    using r(6) [OF that] P(1) p' r(2) by (cases "c = p") (simp_all add: pool_fits_def)
  show ?thesis
    unfolding hnp_rep_def Let_def using r other fl p G' by simp
qed

lemma alloc_from_ok:
  assumes rep: "hnp_rep ck G0 M hp Ls Us" and p: "p < unat (used_chunk hp)"
    and nz: "free_size (node_pools hp ! p) \<noteq> 0" and G: "seeds_ok G" "unat (group_used G0) \<le> unat (group_used G)"
    "unat (group_used G) + 16384 < 2 ^ 31"
  shows "\<exists>n i G' M' hp'. alloc_from now G M hp p = Inr (Some (n, i), G', M', hp') \<and>
    id_chunk i = p \<and> i \<notin> Us p \<and> n \<notin> snd ` set (Ls p) \<and>
    hnp_rep ck G' M' hp' (Ls(p := (i, n) # Ls p)) (Us(p := insert i (Us p))) \<and>
    alloc_chunk hp' = alloc_chunk hp \<and> used_chunk hp' = used_chunk hp"
proof -
  note r = hnp_repD [OF rep]
  from np_alloc_ok [OF r(8) [OF p] G nz, of now] obtain n i G' M' f g where
    run: "yf_alloc_node_from_pool now G M (node_pools hp ! p) =
        Inr (n, G', M', (node_pools hp ! p)\<lparr> free_size := f, np_seed := g \<rparr>)" "n \<noteq> NULL"
      "yf_get_id_by_node M' ((node_pools hp ! p)\<lparr> free_size := f, np_seed := g \<rparr>) n = Inr i"
    and i: "i \<notin> Us p" "n \<notin> snd ` set (Ls p)"
    and G': "unat (group_used G) \<le> unat (group_used G')"
    and rep': "np_rep (G', M', (node_pools hp ! p)\<lparr> free_size := f, np_seed := g \<rparr>) ((i, n) # Ls p) (insert i (Us p))"
    and fr: "np_frame (node_pools hp ! p) M M'" unfolding Let_def by blast
  let ?P = "(node_pools hp ! p)\<lparr> free_size := f, np_seed := g \<rparr>"
  have fits: "pool_fits ck hp p ?P" using r(7) [OF p] by (simp add: pool_fits_def)
  have "id_chunk i = p" using rep' r(7) [OF p] by (simp add: np_rep_def np_ids_def pool_fits_def)
  moreover have "alloc_from now G M hp p = Inr (Some (n, i), G', M', hp\<lparr> node_pools := (node_pools hp)[p := ?P] \<rparr>)"
    using run by (simp add: alloc_from_def)
  moreover have "hnp_rep ck G' M' (hp\<lparr> node_pools := (node_pools hp)[p := ?P] \<rparr>)
      (Ls(p := (i, n) # Ls p)) (Us(p := insert i (Us p)))"
    using hnp_update [OF rep p fits rep' fr] G(2) G' by simp
  moreover have "alloc_chunk (hp\<lparr> node_pools := (node_pools hp)[p := ?P] \<rparr>) = alloc_chunk hp"
    "used_chunk (hp\<lparr> node_pools := (node_pools hp)[p := ?P] \<rparr>) = used_chunk hp" by simp_all
  ultimately show ?thesis using i by blast
qed

lemma child_ok:
  assumes rep: "hnp_rep ck G0 M hp Ls Us" and more: "used_chunk hp < max_chunk hp"
    and mem: "ck (unat (used_chunk hp)) \<noteq> 0" and G: "seeds_ok G" "unat (group_used G0) \<le> unat (group_used G)"
    "unat (group_used G) + 16384 < 2 ^ 31"
  shows "\<exists>G' M' hp'. hnpool_init_child_pool now G M hp (ck (unat (used_chunk hp))) = Inr (G', M', hp') \<and>
    hnp_rep ck G' M' hp' Ls Us \<and> unat (group_used G') \<le> unat (group_used G) + 16384 \<and>
    unat (group_used G) \<le> unat (group_used G') \<and> alloc_chunk hp' = alloc_chunk hp \<and>
    used_chunk hp' = used_chunk hp + 1 \<and> max_chunk hp' = max_chunk hp \<and>
    free_size (node_pools hp' ! unat (used_chunk hp)) \<noteq> 0 \<and>
    node_pool_infos hp' ! unat (used_chunk hp) = Some (unat (used_chunk hp))"
proof -
  note r = hnp_repD [OF rep]
  define u where "u = unat (used_chunk hp)"
  have um: "u < unat (max_chunk hp)" using more by (simp add: u_def word_less_nat_alt)
  have u1: "unat (used_chunk hp + 1) = u + 1"
    using um unat_u8 [of "max_chunk hp"] by (simp add: u_def unat_word_ariths(1))
  have num: "take_bit 24 (num_per_chunk hp) = num_per_chunk hp" "0 < unat (num_per_chunk hp)"
    using r(1) by (auto simp: hnp_geom_def word_unat_eq_iff unsigned_take_bit_eq take_bit_nat_eq_self)
  define P where "P = (node_pools hp ! u)\<lparr> nodes_array := ck u, total_num := num_per_chunk hp,
                   each_taken_size := hn_taken_size hp, pool_index := ucast (used_chunk hp) \<rparr>"
  have "unat (ucast (used_chunk hp) :: u32) = u"
    using unat_u8 [of "used_chunk hp"] by (simp add: u_def unsigned_ucast_eq take_bit_nat_eq_self)
  then have fits: "pool_fits ck hp u P"
    using mem r(6) [OF um] by (simp add: pool_fits_def P_def u_def)
  from np_init_ok [OF pool_fits_geom [OF r(1) fits um] G(1,3), of now M] obtain G' M' f g where
    run: "yf_init_node_pool now G M P = Inr (G', M', P\<lparr> free_size := f, np_seed := g \<rparr>)"
    and rep': "np_rep (G', M', P\<lparr> free_size := f, np_seed := g \<rparr>) [] {}"
    and G': "unat (group_used G') \<le> unat (group_used G) + 16384" "unat (group_used G) \<le> unat (group_used G')"
    and fs: "free_size (P\<lparr> free_size := f, np_seed := g \<rparr>) = total_num P"
    and fr: "np_frame P M M'" unfolding Let_def by blast
  let ?P = "P\<lparr> free_size := f, np_seed := g \<rparr>"
  let ?hp = "hp\<lparr> node_pools := (node_pools hp)[u := ?P], node_pool_infos := (node_pool_infos hp)[u := Some u],
    used_chunk := used_chunk hp + 1 \<rparr>"
  have child: "hnpool_init_child_pool now G M hp (ck (unat (used_chunk hp))) = Inr (G', M', ?hp)"
    using run um r(2) num by (simp add: hnpool_init_child_pool_def u_def [symmetric] P_def)
  have G0: "seeds_ok G'" "unat (group_used G0) \<le> unat (group_used G')"
    using rep' G' G(2) by (simp_all add: np_rep_def)
  have old: "np_rep (G', M', node_pools hp ! c) (Ls c) (Us c)" if c: "c < u" for c
  proof -
    have "apart (node_pools hp ! c) P"
      using pool_fits_apart [OF r(1) r(7) _ fits um] c um by (simp add: u_def)
    then show ?thesis using np_rep_frame [OF r(8) fr _ G0] c by (simp add: u_def)
  qed
  have "mset (take (Suc u) ((node_pool_infos hp)[u := Some u])) = mset (map Some [0..<Suc u])"
    using um r(3,5) by (simp add: take_Suc_conv_app_nth u_def)
  moreover have "pool_fits ck hp u ?P" using fits by (simp add: pool_fits_def)
  moreover have "free_list ?P = fl_at hp u" using fits by (simp add: pool_fits_def)
  ultimately have "hnp_rep ck G' M' ?hp Ls Us"
    unfolding hnp_rep_def Let_def
    using r um u1 old rep' G0(1)
    by (auto simp: u_def [symmetric] nth_list_update less_Suc_eq)
  moreover have "f \<noteq> 0" using fs num(2) by (auto simp: P_def)
  ultimately show ?thesis using child G' um r(2,3) by (simp add: u_def [symmetric])
qed

subsection \<open>The loop of an allocation\<close>

definition qsort_ok ::
  "((nat option \<Rightarrow> nat option \<Rightarrow> int) \<Rightarrow> nat option list \<Rightarrow> nat option list) \<Rightarrow> bool" where
  "qsort_ok qs \<longleftrightarrow> (\<forall>cmp xs. mset (qs cmp xs) = mset xs \<and>
     ((\<exists>f. \<forall>a \<in> set xs. \<forall>b \<in> set xs. cmp a b = f b - f a) \<longrightarrow>
      sorted_wrt (\<lambda>a b. cmp a b \<le> 0) (qs cmp xs)))"

definition hn_served :: "(nat \<Rightarrow> addr) \<Rightarrow> (nat \<Rightarrow> (u64 \<times> addr) list) \<Rightarrow> (nat \<Rightarrow> u64 set) \<Rightarrow> hn_result \<Rightarrow> bool" where
  "hn_served ck Ls Us r \<longleftrightarrow> (\<exists>n i G M hp. r = (Some (n, i), G, M, hp) \<and>
     (let p = id_chunk i in p < unat (used_chunk hp) \<and> i \<notin> Us p \<and> n \<notin> snd ` set (Ls p) \<and>
      unat (alloc_chunk hp) < unat (used_chunk hp) \<and>
      hnp_rep ck G M hp (Ls(p := (i, n) # Ls p)) (Us(p := insert i (Us p)))))"

definition hn_refused :: "(nat \<Rightarrow> addr) \<Rightarrow> (nat \<Rightarrow> (u64 \<times> addr) list) \<Rightarrow> (nat \<Rightarrow> u64 set) \<Rightarrow> hn_result \<Rightarrow> bool" where
  "hn_refused ck Ls Us r \<longleftrightarrow> (\<exists>G M hp. r = (None, G, M, hp) \<and> hnp_rep ck G M hp Ls Us \<and>
     unat (alloc_chunk hp) < unat (used_chunk hp) \<and>
     (\<forall>p < unat (used_chunk hp). free_size (node_pools hp ! p) = 0) \<and>
     (used_chunk hp = max_chunk hp \<or> ck (unat (used_chunk hp)) = 0))"

lemma pool_of_alloc [simp]: "pool_of (hp\<lparr> alloc_chunk := a \<rparr>) k = pool_of hp k"
  by (simp add: pool_of_def cong: option.case_cong)

lemma pool_of_ok:
  assumes rep: "hnp_rep ck G M hp Ls Us" and k: "k < unat (used_chunk hp)"
  shows "\<exists>p. node_pool_infos hp ! k = Some p \<and> p < unat (used_chunk hp) \<and>
    pool_of hp k = Inr (node_pools hp ! p)"
proof -
  note r = hnp_repD [OF rep]
  have set: "set (take (unat (used_chunk hp)) (node_pool_infos hp)) = Some ` {..<unat (used_chunk hp)}"
    using arg_cong [OF r(5), of set_mset] by (simp add: atLeast0LessThan)
  have "take (unat (used_chunk hp)) (node_pool_infos hp) ! k \<in> set (take (unat (used_chunk hp)) (node_pool_infos hp))"
    by (rule nth_mem) (use k r(3,4) in simp)
  then obtain p where "node_pool_infos hp ! k = Some p" "p < unat (used_chunk hp)"
    unfolding set using k by auto
  then show ?thesis using k r(2,3,4) by (simp add: pool_of_def)
qed

lemma pass_free:
  assumes rep: "hnp_rep ck G0 M hp Ls Us" and a: "unat (alloc_chunk hp) < unat (used_chunk hp)"
    and pool: "pool_of hp (unat (alloc_chunk hp)) = Inr P" "free_size P \<noteq> 0"
    and G: "seeds_ok G" "unat (group_used G0) \<le> unat (group_used G)"
    "unat (group_used G) + 16384 < 2 ^ 31"
  shows "\<exists>r. hnpool_loop qs ck now G M hp srt = Some (Inr r) \<and> hn_served ck Ls Us r"
proof -
  from pool_of_ok [OF rep a] pool(1) obtain p where
    p: "node_pool_infos hp ! unat (alloc_chunk hp) = Some p" "p < unat (used_chunk hp)"
      "P = node_pools hp ! p" by auto
  from alloc_from_ok [OF rep p(2) _ G, of now] pool(2) p(3) obtain n i G' M' hp' where
    run: "alloc_from now G M hp p = Inr (Some (n, i), G', M', hp')"
    and i: "id_chunk i = p" "i \<notin> Us p" "n \<notin> snd ` set (Ls p)"
    and rep': "hnp_rep ck G' M' hp' (Ls(p := (i, n) # Ls p)) (Us(p := insert i (Us p)))"
    and same: "alloc_chunk hp' = alloc_chunk hp" "used_chunk hp' = used_chunk hp" by blast
  have "hn_pass qs ck now G M hp srt = Inr (Hn_return (Some (n, i), G', M', hp'))"
    using pool p run by (simp add: hn_pass_def)
  then have "hnpool_loop qs ck now G M hp srt = Some (Inr (Some (n, i), G', M', hp'))"
    by (subst hnpool_loop.simps) simp
  moreover have "hn_served ck Ls Us (Some (n, i), G', M', hp')"
    using i rep' same a p by (simp add: hn_served_def)
  ultimately show ?thesis by blast
qed

abbreviation "hn_step qs ck now x \<equiv>
  (case x of Inl e \<Rightarrow> Some (Inl e) | Inr (Hn_return r) \<Rightarrow> Some (Inr r)
   | Inr (Hn_again G M hp srt) \<Rightarrow> hnpool_loop qs ck now G M hp srt)"

lemma grow_ok:
  assumes rep: "hnp_rep ck G0 M hp Ls Us" and a: "unat (alloc_chunk hp) + 1 = unat (used_chunk hp)"
    and full: "\<forall>p < unat (used_chunk hp). free_size (node_pools hp ! p) = 0"
    and G: "seeds_ok G" "unat (group_used G0) \<le> unat (group_used G)"
    "unat (group_used G) + 2 * 16384 < 2 ^ 31"
  shows "\<exists>r. hn_step qs ck now (hn_grow ck now G M hp) = Some (Inr r) \<and>
    (hn_served ck Ls Us r \<or> hn_refused ck Ls Us r)"
proof (cases "used_chunk hp < max_chunk hp \<and> ck (unat (used_chunk hp)) \<noteq> 0")
  case False
  then have c: "used_chunk hp = max_chunk hp \<or> ck (unat (used_chunk hp)) = 0"
    using hnp_repD(4) [OF rep] by (auto simp: word_less_nat_alt word_unat_eq_iff)
  have "hn_grow ck now G M hp = Inr (Hn_return (None, G, M, hp))"
    using False by (auto simp: hn_grow_def)
  moreover have "hn_refused ck Ls Us (None, G, M, hp)"
    using hnp_rep_mono [OF rep G(1,2)] a full c by (simp add: hn_refused_def)
  ultimately show ?thesis by simp
next
  case True
  have G1: "unat (group_used G) + 16384 < 2 ^ 31" using G(3) by simp
  from child_ok [OF rep conjunct1 [OF True] conjunct2 [OF True] G(1,2) G1, of now] obtain G' M' hp' where
    run: "hnpool_init_child_pool now G M hp (ck (unat (used_chunk hp))) = Inr (G', M', hp')"
    and rep': "hnp_rep ck G' M' hp' Ls Us"
    and G': "unat (group_used G') \<le> unat (group_used G) + 16384"
    and c: "alloc_chunk hp' = alloc_chunk hp" "used_chunk hp' = used_chunk hp + 1"
      "free_size (node_pools hp' ! unat (used_chunk hp)) \<noteq> 0"
      "node_pool_infos hp' ! unat (used_chunk hp) = Some (unat (used_chunk hp))"
      "max_chunk hp' = max_chunk hp" by blast
  let ?hp = "hp'\<lparr> alloc_chunk := alloc_chunk hp' + 1 \<rparr>"
  have um: "unat (used_chunk hp) < unat (max_chunk hp)" using True by (simp add: word_less_nat_alt)
  have al: "unat (alloc_chunk hp + 1) = unat (used_chunk hp)"
    using a unat_u8 [of "used_chunk hp"] by (simp add: unat_word_ariths(1))
  have us: "unat (used_chunk hp + 1) = unat (used_chunk hp) + 1"
    using um unat_u8 [of "max_chunk hp"] by (simp add: unat_word_ariths(1))
  have "pool_of ?hp (unat (alloc_chunk ?hp)) = Inr (node_pools hp' ! unat (used_chunk hp))"
    using c al um hnp_repD(2,3) [OF rep'] by (simp add: pool_of_def)
  moreover have "unat (alloc_chunk ?hp) < unat (used_chunk ?hp)" using c al us by simp
  ultimately obtain r where "hnpool_loop qs ck now G' M' ?hp True = Some (Inr r)" "hn_served ck Ls Us r"
    using pass_free [of ck G' M' ?hp Ls Us _ G' qs now True] rep' c(3) G' G(3) hnp_repD(10) [OF rep'] by auto
  moreover have "hn_grow ck now G M hp = Inr (Hn_again G' M' ?hp True)"
    using True run by (simp add: hn_grow_def)
  ultimately show ?thesis by auto
qed

lemma sint_small:
  fixes z :: u32
  assumes "unat z < 2 ^ 31" shows "sint z = int (unat z)"
proof -
  have z: "int (unat z) = uint z" by simp
  from assms have "int (unat z) < int (2 ^ 31)" by (simp only: of_nat_less_iff)
  then have "uint z < 2 ^ 31" unfolding z by simp
  moreover have "- (2 ^ 31) \<le> uint z"
    by (rule order_trans [OF _ unsigned_greater_eq]) simp
  ultimately have "signed_take_bit 31 (uint z) = uint z"
    using signed_take_bit_int_eq_self [of 31 "uint z"] by blast
  moreover have "sint z = signed_take_bit 31 (uint z)" using sint_uint [of z] by simp
  ultimately show ?thesis using z by simp
qed

lemma sint_diff_small:
  fixes x y :: u32
  assumes "unat x < 2 ^ 24" "unat y < 2 ^ 24"
  shows "sint (x - y) = int (unat x) - int (unat y)"
proof -
  have "sint (x - y) = signed_take_bit 31 (sint x - sint y)"
    by (simp add: sint_word_ariths signed_take_bit_diff)
  also have "\<dots> = signed_take_bit 31 (int (unat x) - int (unat y))"
    using assms by (simp add: sint_small)
  also have "\<dots> = int (unat x) - int (unat y)"
  proof (rule signed_take_bit_int_eq_self)
    define a b where "a = int (unat x)" and "b = int (unat y)"
    have "a < int (2 ^ 24)" "b < int (2 ^ 24)"
      using assms unfolding a_def b_def by (simp_all only: of_nat_less_iff)
    then have "a < 16777216" "b < 16777216" by simp_all
    moreover have "0 \<le> a" "0 \<le> b" unfolding a_def b_def by (rule of_nat_0_le_iff)+
    ultimately have "- (2 ^ 31) \<le> a - b" "a - b < 2 ^ 31" by simp_all
    then show "- (2 ^ 31) \<le> int (unat x) - int (unat y)" "int (unat x) - int (unat y) < 2 ^ 31"
      unfolding a_def b_def .
  qed
  finally show ?thesis .
qed

lemma sort_ok:
  assumes qs: "qsort_ok qs" and rep: "hnp_rep ck G M hp Ls Us" and u: "0 < unat (used_chunk hp)"
  shows "\<exists>is. hnp_sort qs hp = Inr (hp\<lparr> node_pool_infos := is \<rparr>) \<and>
    hnp_rep ck G M (hp\<lparr> node_pool_infos := is \<rparr>) Ls Us \<and>
    (\<exists>p. is ! 0 = Some p \<and> p < unat (used_chunk hp) \<and>
      (free_size (node_pools hp ! p) = 0 \<longrightarrow>
       (\<forall>c < unat (used_chunk hp). free_size (node_pools hp ! c) = 0)))"
proof -
  note r = hnp_repD [OF rep]
  let ?u = "unat (used_chunk hp)" and ?cmp = "cmp_pool_freesize (node_pools hp)"
  let ?xs = "take ?u (node_pool_infos hp)"
  define ys where "ys = qs ?cmp ?xs"
  have set: "set ?xs = Some ` {..<?u}"
    using arg_cong [OF r(5), of set_mset] by (simp add: atLeast0LessThan)
  have m: "mset ys = mset ?xs" using qs by (simp add: qsort_ok_def ys_def)
  then have sety: "set ys = Some ` {..<?u}" using set by (metis set_mset_mset)
  have len: "length ys = ?u" using arg_cong [OF m, of size] r(3,4) by simp
  define f :: "nat option \<Rightarrow> int" where "f x = int (unat (free_size (node_pools hp ! the x)))" for x
  have small: "unat (free_size (node_pools hp ! c)) < 2 ^ 24" if c: "c < ?u" for c
  proof -
    obtain fs where n: "np_nodes M (node_pools hp ! c) (Ls c) fs" and g: "np_geom (node_pools hp ! c)"
      using r(8) [OF c] by (auto simp: np_rep_def)
    have "distinct fs" "set fs \<subseteq> {..<unat (total_num (node_pools hp ! c))}"
      using n by (auto simp: np_nodes_def)
    then have "length fs \<le> unat (total_num (node_pools hp ! c))"
      using card_mono [of "{..<unat (total_num (node_pools hp ! c))}" "set fs"] by (simp add: distinct_card)
    then show ?thesis using n g by (simp add: np_nodes_def np_geom_def)
  qed
  have cmp: "?cmp a b = f b - f a" if ab: "a \<in> Some ` {..<?u}" "b \<in> Some ` {..<?u}" for a b
  proof -
    show ?thesis using ab small by (auto simp: cmp_pool_freesize_def f_def sint_diff_small)
  qed
  have "\<exists>f. \<forall>a \<in> set ?xs. \<forall>b \<in> set ?xs. ?cmp a b = f b - f a"
    unfolding set using cmp by (intro exI [of _ f]) blast
  then have srt: "sorted_wrt (\<lambda>a b. ?cmp a b \<le> 0) ys"
    using qs by (simp only: qsort_ok_def ys_def)
  obtain y rest where ys: "ys = y # rest" using len u by (cases ys) auto
  have "y \<in> set ys" using ys by simp
  then obtain p where p: "y = Some p" "p < ?u" using sety by auto
  have zero: "free_size (node_pools hp ! c) = 0" if z: "free_size (node_pools hp ! p) = 0" and c: "c < ?u" for c
  proof -
    have "Some c \<in> set ys" using sety c by simp
    then have "Some c = y \<or> ?cmp y (Some c) \<le> 0" using srt ys by auto
    then have "f (Some c) \<le> f y" using cmp [of y "Some c"] p c by auto
    then show ?thesis using z p by (simp add: f_def unsigned_eq_0_iff)
  qed
  let ?is = "ys @ drop ?u (node_pool_infos hp)"
  have "hnp_sort qs hp = Inr (hp\<lparr> node_pool_infos := ?is \<rparr>)"
    using set by (auto simp: hnp_sort_def ys_def [symmetric] Let_def)
  moreover have "hnp_rep ck G M (hp\<lparr> node_pool_infos := ?is \<rparr>) Ls Us"
    using rep len m by (simp add: hnp_rep_def Let_def)
  ultimately show ?thesis using p ys zero by (intro exI [of _ ?is]) auto
qed

lemma scan_ok:
  assumes qs: "qsort_ok qs" and G: "seeds_ok G" "unat (group_used G0) \<le> unat (group_used G)"
    "unat (group_used G) + 2 * 16384 < 2 ^ 31"
  shows "hnp_rep ck G0 M hp Ls Us \<Longrightarrow> unat (alloc_chunk hp) < unat (used_chunk hp) \<Longrightarrow>
    \<exists>r. hnpool_loop qs ck now G M hp False = Some (Inr r) \<and> (hn_served ck Ls Us r \<or> hn_refused ck Ls Us r)"
proof (induction "unat (used_chunk hp) - unat (alloc_chunk hp)" arbitrary: hp rule: less_induct)
  case less
  note rep = less.prems(1) and a = less.prems(2)
  have G1: "unat (group_used G) + 16384 < 2 ^ 31" using G(3) by simp
  obtain p where p: "node_pool_infos hp ! unat (alloc_chunk hp) = Some p" "p < unat (used_chunk hp)"
    "pool_of hp (unat (alloc_chunk hp)) = Inr (node_pools hp ! p)" using pool_of_ok [OF rep a] by blast
  show ?case
  proof (cases "free_size (node_pools hp ! p) = 0")
    case False
    from pass_free [OF rep a p(3) False G(1,2) G1] show ?thesis by blast
  next
    case empty: True
    show ?thesis
    proof (cases "unat (alloc_chunk hp) + 1 = unat (used_chunk hp)")
      case False
      let ?hp = "hp\<lparr> alloc_chunk := alloc_chunk hp + 1 \<rparr>"
      have al: "unat (alloc_chunk hp + 1) = unat (alloc_chunk hp) + 1"
        using a unat_u8 [of "used_chunk hp"] by (simp add: unat_word_ariths(1))
      have "hn_pass qs ck now G M hp False = Inr (Hn_again G M ?hp False)"
        using p empty False by (simp add: hn_pass_def)
      then have "hnpool_loop qs ck now G M hp False = hnpool_loop qs ck now G M ?hp False"
        by (subst hnpool_loop.simps) simp
      then show ?thesis using less.hyps [of ?hp] al rep a False by simp
    next
      case True
      have u0: "0 < unat (used_chunk hp)" using a by simp
      from sort_ok [OF qs rep u0] obtain "is" q where
        srt: "hnp_sort qs hp = Inr (hp\<lparr> node_pool_infos := is \<rparr>)"
        and rep': "hnp_rep ck G0 M (hp\<lparr> node_pool_infos := is \<rparr>) Ls Us"
        and q: "is ! 0 = Some q" "q < unat (used_chunk hp)"
          "free_size (node_pools hp ! q) = 0 \<Longrightarrow>
           (\<forall>c < unat (used_chunk hp). free_size (node_pools hp ! c) = 0)" by blast
      let ?hp = "hp\<lparr> node_pool_infos := is \<rparr>"
      have first: "pool_of ?hp 0 = Inr (node_pools hp ! q)"
        using pool_of_ok [OF rep', of 0] q u0 by auto
      show ?thesis
      proof (cases "free_size (node_pools hp ! q) = 0")
        case False
        let ?hq = "?hp\<lparr> alloc_chunk := 0 \<rparr>"
        have "hn_pass qs ck now G M hp False = Inr (Hn_again G M ?hq True)"
          using p empty True srt first False by (simp add: hn_pass_def)
        then have "hnpool_loop qs ck now G M hp False = hnpool_loop qs ck now G M ?hq True"
          by (subst hnpool_loop.simps) simp
        moreover have "pool_of ?hq (unat (alloc_chunk ?hq)) = Inr (node_pools hp ! q)"
          using first by simp
        ultimately show ?thesis
          using pass_free [of ck G0 M ?hq Ls Us _ G qs now True] rep' False u0 G(1,2) G1 by auto
      next
        case zero: True
        have "hn_pass qs ck now G M hp False = hn_grow ck now G M ?hp"
          using p empty True srt first zero by (simp add: hn_pass_def)
        then have "hnpool_loop qs ck now G M hp False = hn_step qs ck now (hn_grow ck now G M ?hp)"
          by (subst hnpool_loop.simps) simp
        then show ?thesis using grow_ok [OF rep' _ _ G] True q(3) [OF zero] by simp
      qed
    qed
  qed
qed

subsection \<open>Properties\<close>

lemma limit_never_reached:
  fixes num :: u32 and mx :: u8
  shows "\<not> ucast num * (ucast mx :: u64) \<ge> scast (push_bit 31 (1 :: u32))"
proof -
  have "unat num < 2 ^ LENGTH(32)" by (rule unsigned_less)
  then have n: "unat num < 2 ^ 32" by simp
  have "unat num * unat mx \<le> 2 ^ 32 * 256"
    using n unat_u8 [of mx] by (intro mult_le_mono) simp_all
  then have lt: "unat num * unat mx < 2 ^ 64" by simp
  have "unat (ucast mx :: u64) = unat mx"
    using unat_u8 [of mx] by (simp add: unsigned_ucast_eq take_bit_nat_eq_self)
  then have "unat (ucast num * (ucast mx :: u64)) = unat num * unat mx"
    using lt by (simp add: unat_word_ariths(2) unat_ucast_32)
  moreover have "unat (scast (push_bit 31 (1 :: u32)) :: u64) = 18446744071562067968"
    by (simp add: unat_eq_nat_uint)
  ultimately show ?thesis using \<open>unat num * unat mx \<le> 2 ^ 32 * 256\<close> by (simp add: word_le_nat_alt)
qed

lemma create_ok:
  fixes num :: u32 and mx :: u8 and node_size :: u32 and malloc :: "u32 \<Rightarrow> addr"
  defines "sz \<equiv> yf_node_taken_size node_size"
  defines "at \<equiv> malloc (of_nat HNPOOL_SIZE + of_nat NODE_POOL_SIZE * ucast mx + 8 * ucast mx + sz * num)"
  assumes num: "num \<noteq> 0" and mx: "mx \<noteq> 0" and at: "at \<noteq> NULL"
    and geom: "hnp_geom ck (hnpool0 at num mx sz)" and ck: "ck 0 = at + HNPOOL_SIZE + 48 * unat mx"
    and G: "seeds_ok G" "unat (group_used G) + 16384 < 2 ^ 31"
  shows "\<exists>G' M' hp. yf_hnpool_create malloc now G M node_size num mx = Inr (Some hp, G', M') \<and>
    hnp_rep ck G' M' hp (\<lambda>_. []) (\<lambda>_. {}) \<and> unat (alloc_chunk hp) = 0 \<and> unat (used_chunk hp) = 1 \<and>
    unat (group_used G') \<le> unat (group_used G) + 16384"
proof -
  let ?hp = "hnpool0 at num mx sz"
  have rep0: "hnp_rep ck G M ?hp (\<lambda>_. []) (\<lambda>_. {})"
    unfolding hnp_rep_def Let_def
    using geom G(1) by (simp add: hnpool0_def fl_at_def node_pool0_def)
  have m: "unat (of_nat NODE_POOL_SIZE * ucast mx :: u32) = 40 * unat mx" "unat (8 * ucast mx :: u32) = 8 * unat mx"
    using unat_u8 [of mx]
    by (simp_all add: NODE_POOL_SIZE_def unat_word_ariths(2) unsigned_ucast_eq take_bit_nat_eq_self)
  have mem: "node_pools_at ?hp + unat (of_nat NODE_POOL_SIZE * ucast mx :: u32) + unat (8 * ucast mx :: u32) = ck 0"
    unfolding m ck by (simp add: hnpool0_def)
  have used: "unat (used_chunk ?hp) = 0" "used_chunk ?hp < max_chunk ?hp"
    using mx by (simp_all add: hnpool0_def word_less_nat_alt unat_gt_0)
  have "ck (unat (used_chunk ?hp)) \<noteq> 0" using at ck used(1) by simp
  from child_ok [OF rep0 used(2) this G(1) order_refl G(2), of now] obtain G' M' hp where
    run: "hnpool_init_child_pool now G M ?hp (ck 0) = Inr (G', M', hp)"
    and hp: "hnp_rep ck G' M' hp (\<lambda>_. []) (\<lambda>_. {})" "unat (group_used G') \<le> unat (group_used G) + 16384"
      "alloc_chunk hp = alloc_chunk ?hp" "used_chunk hp = used_chunk ?hp + 1"
    unfolding used(1) by blast
  have "yf_hnpool_create malloc now G M node_size num mx = Inr (Some hp, G', M')"
    using num at limit_never_reached [of num mx] run
    by (simp add: yf_hnpool_create_def Let_def sz_def [symmetric] at_def [symmetric] mem)
  moreover have "unat (alloc_chunk hp) = 0" "unat (used_chunk hp) = 1"
    using hp(3,4) by (simp_all add: hnpool0_def)
  ultimately show ?thesis using hp by blast
qed

text \<open>
  C17: While ids have not rolled over, \<^verbatim>\<open>yf_hnpool_alloc\<close> always returns. It hands out a node
  that was free under an id never used before in its chunk, growing the pool when every chunk is
  used up, and it returns null only when all nodes are in use and no chunk can be added.
\<close>

theorem yf_hnpool_alloc_correct:
  assumes "hnp_rep ck G0 M hp Ls Us" "unat (alloc_chunk hp) < unat (used_chunk hp)" "qsort_ok qs"
    and "seeds_ok G" "unat (group_used G0) \<le> unat (group_used G)"
    "unat (group_used G) + 2 * 16384 < 2 ^ 31"
  shows "\<exists>r. yf_hnpool_alloc qs ck now G M hp = Some (Inr r) \<and>
    (hn_served ck Ls Us r \<or> hn_refused ck Ls Us r)"
  unfolding yf_hnpool_alloc_def using assms by (intro scan_ok)

fun isort_ins :: "('a \<Rightarrow> 'a \<Rightarrow> int) \<Rightarrow> 'a \<Rightarrow> 'a list \<Rightarrow> 'a list" where
  "isort_ins cmp x [] = [x]"
| "isort_ins cmp x (y # ys) = (if cmp x y \<le> 0 then x # y # ys else y # isort_ins cmp x ys)"

fun isort :: "('a \<Rightarrow> 'a \<Rightarrow> int) \<Rightarrow> 'a list \<Rightarrow> 'a list" where
  "isort cmp [] = []"
| "isort cmp (x # xs) = isort_ins cmp x (isort cmp xs)"

lemma mset_isort_ins: "mset (isort_ins cmp x xs) = add_mset x (mset xs)"
  by (induction xs) auto

lemma mset_isort: "mset (isort cmp xs) = mset xs"
  by (induction xs) (auto simp: mset_isort_ins)

lemma set_isort: "set (isort cmp xs) = set xs"
  using mset_isort [of cmp xs] by (metis set_mset_mset)

lemma isort_ins_sorted:
  assumes "\<forall>a \<in> insert x (set xs). \<forall>b \<in> insert x (set xs). cmp a b = (f b - f a :: int)"
    and "sorted_wrt (\<lambda>a b. cmp a b \<le> 0) xs"
  shows "sorted_wrt (\<lambda>a b. cmp a b \<le> 0) (isort_ins cmp x xs)"
  using assms
proof (induction xs)
  case (Cons y ys)
  have "set (isort_ins cmp x ys) = insert x (set ys)"
    using mset_isort_ins [of cmp x ys] by (metis set_mset_mset set_mset_add_mset_insert)
  with Cons show ?case by fastforce
qed simp

lemma qsort_ok_isort: "qsort_ok isort"
  unfolding qsort_ok_def
proof (intro allI conjI impI)
  fix cmp :: "nat option \<Rightarrow> nat option \<Rightarrow> int" and xs :: "nat option list"
  assume "\<exists>f. \<forall>a \<in> set xs. \<forall>b \<in> set xs. cmp a b = f b - f a"
  then show "sorted_wrt (\<lambda>a b. cmp a b \<le> 0) (isort cmp xs)"
  proof (induction xs)
    case (Cons x xs)
    then obtain f where f: "\<forall>a \<in> insert x (set xs). \<forall>b \<in> insert x (set xs). cmp a b = f b - f a" by auto
    have "sorted_wrt (\<lambda>a b. cmp a b \<le> 0) (isort cmp xs)" using Cons f by (intro Cons.IH) auto
    with f show ?case using isort_ins_sorted [of x "isort cmp xs" cmp f] by (simp add: set_isort)
  qed simp
qed (rule mset_isort)

text \<open>Two nodes of 16 bytes a chunk, at most three chunks, of which the C library grants two.\<close>

definition some_ck :: "nat \<Rightarrow> addr" where
  "some_ck c = (if c = 0 then 8336 else if c = 1 then 4096 else 0)"

lemma some_geom: "hnp_geom some_ck (hnpool0 8160 2 3 16)"
  by (auto simp: hnp_geom_def hnpool0_def chunk_size_def some_ck_def disj_def HNPOOL_SIZE_def
      NODE_POOL_SIZE_def)

lemma some_taken: "yf_node_taken_size 8 = 16"
  by (simp add: yf_node_taken_size_def yf_align_def NP_NODE_HEAD_SIZE_def)

theorem yf_hnpool_alloc_correct_witness:
  "\<exists>G M hp r. yf_hnpool_create (\<lambda>_. 8160) 1000000 some_glob some_mem 8 2 3 = Inr (Some hp, G, M) \<and>
     yf_hnpool_alloc isort some_ck 1000000 G M hp = Some (Inr r) \<and>
     (hn_served some_ck (\<lambda>_. []) (\<lambda>_. {}) r \<or> hn_refused some_ck (\<lambda>_. []) (\<lambda>_. {}) r)"
proof -
  have geom: "hnp_geom some_ck (hnpool0 ((\<lambda>_. 8160) (of_nat HNPOOL_SIZE + of_nat NODE_POOL_SIZE * ucast (3 :: u8) +
      8 * ucast (3 :: u8) + yf_node_taken_size 8 * 2)) 2 3 (yf_node_taken_size 8))"
    unfolding some_taken by (rule some_geom)
  from create_ok [of 2 3 "\<lambda>_. 8160", OF _ _ _ geom _ some_glob_ok(1), of 1000000 some_mem]
  obtain G M hp where
    create: "yf_hnpool_create (\<lambda>_. 8160) 1000000 some_glob some_mem 8 2 3 = Inr (Some hp, G, M)"
    and rep: "hnp_rep some_ck G M hp (\<lambda>_. []) (\<lambda>_. {})" and a: "unat (alloc_chunk hp) = 0" "unat (used_chunk hp) = 1"
    and G: "unat (group_used G) \<le> 16384 + 16384"
    by (auto simp: some_glob_ok(2) some_ck_def HNPOOL_SIZE_def)
  have "seeds_ok G" using hnp_repD(10) [OF rep] .
  with yf_hnpool_alloc_correct [OF rep _ qsort_ok_isort, of G 1000000] a G create show ?thesis by auto
qed

text \<open>
  The bound on the number of nodes compares with a shift into the sign bit, which becomes
  \<open>2 ^ 64 - 2 ^ 31\<close> and rejects nothing. With \<open>2 ^ 24\<close> nodes a chunk, the 24-bit field that
  holds their number is 0, and the pool is created without a single node.
\<close>

theorem yf_hnpool_create_no_limit:
  fixes mx :: u8 and malloc :: "u32 \<Rightarrow> addr"
  assumes "mx \<noteq> 0" "\<forall>sz. malloc sz \<noteq> NULL" "seeds_ok G" "unat (group_used G) + 16384 < 2 ^ 31"
  shows "\<exists>G' M' hp. yf_hnpool_create malloc now G M 8 (2 ^ 24) mx = Inr (Some hp, G', M') \<and>
    total_num (node_pools hp ! 0) = 0 \<and> free_size (node_pools hp ! 0) = 0"
proof -
  let ?at = "malloc (of_nat HNPOOL_SIZE + of_nat NODE_POOL_SIZE * ucast mx + 8 * ucast mx + yf_node_taken_size 8 * 2 ^ 24)"
  let ?hp = "hnpool0 ?at (2 ^ 24) mx 16"
  have m0: "0 < unat mx" using assms(1) by (simp add: unat_gt_0)
  define mem where "mem = node_pools_at ?hp + unat (of_nat NODE_POOL_SIZE * ucast mx :: u32) + unat (8 * ucast mx :: u32)"
  define P where "P = (node_pools ?hp ! 0)\<lparr> nodes_array := mem, total_num := 0,
      each_taken_size := 16, pool_index := 0 \<rparr>"
  have fl: "free_list P \<noteq> 0" using m0 by (simp add: P_def hnpool0_def node_pool0_def FREE_LIST_OFF_def)
  from seed_init_ok [OF assms(3,4), of now "np_seed P"] obtain G' g where
    "yf_id_seed_group_init now G (np_seed P) 0 = Inr (YF_OK, G', g)" by blast
  with fl obtain M' where init: "yf_init_node_pool now G M P =
      Inr (G', M', P\<lparr> free_size := 0, np_seed := g \<rparr>)"
    by (simp add: yf_init_node_pool_def P_def NP_NODE_HEAD_SIZE_def yf_init_slist_head_def s_write_def)
  have "take_bit 24 (2 ^ 24 :: u32) = 0" by simp
  then have "hnpool_init_child_pool now G M ?hp mem = Inr (G', M', ?hp\<lparr>
      node_pools := (node_pools ?hp)[0 := P\<lparr> free_size := 0, np_seed := g \<rparr>],
      node_pool_infos := (node_pool_infos ?hp)[0 := Some 0], used_chunk := 1 \<rparr>)"
    using init m0 by (simp add: hnpool_init_child_pool_def hnpool0_def P_def Let_def)
  then have "\<exists>hp. yf_hnpool_create malloc now G M 8 (2 ^ 24) mx = Inr (Some hp, G', M') \<and>
      node_pools hp ! 0 = P\<lparr> free_size := 0, np_seed := g \<rparr>"
    using assms(2) limit_never_reached [of "2 ^ 24" mx] m0
    by (simp add: yf_hnpool_create_def Let_def some_taken mem_def hnpool0_def)
  then show ?thesis by (auto simp: P_def)
qed

theorem yf_hnpool_create_no_limit_witness:
  "\<exists>G' M' hp. yf_hnpool_create (\<lambda>_. 8160) 1000000 some_glob some_mem 8 (2 ^ 24) 3 = Inr (Some hp, G', M') \<and>
    total_num (node_pools hp ! 0) = 0 \<and> free_size (node_pools hp ! 0) = 0"
  by (rule yf_hnpool_create_no_limit) (simp_all add: some_glob_ok)

end
