(* ===== verification/Yf_String.thy ===== *)
theory Yf_String
  imports Yf_Prelude
begin

section \<open>Strings and formatted output\<close>

text \<open>
  Models \<^verbatim>\<open>base_struct/yf_string.h\<close> and \<^verbatim>\<open>yf_string.c\<close>. A \<^verbatim>\<open>char\<close> is a HOL \<open>char\<close>, a
  pointer to characters is the list of the characters readable from it, and reading past them is
  the fault \<open>Read_past_end\<close>. The output of the formatter is the list of the characters written
  so far into a buffer of \<open>cap\<close> characters: writing one more than that is \<open>Out_of_bounds\<close>. The
  variable arguments are tagged values; the operations on \<^verbatim>\<open>double\<close> are a parameter.
\<close>

abbreviation (input) NUL :: char where "NUL \<equiv> CHR 0x00"

definition code :: "char \<Rightarrow> nat" where "code c = of_char c"

definition schar :: "char \<Rightarrow> int" where
  "schar c = (if code c < 128 then int (code c) else int (code c) - 256)"

subsection \<open>Copies and comparisons\<close>

definition yf_islower :: "char \<Rightarrow> bool" where "yf_islower c = (97 \<le> code c \<and> code c \<le> 122)"
definition yf_isupper :: "char \<Rightarrow> bool" where "yf_isupper c = (65 \<le> code c \<and> code c \<le> 90)"

definition yf_tolower :: "char \<Rightarrow> char" where
  "yf_tolower c = (if yf_isupper c then char_of (code c + 32) else c)"

definition yf_toupper :: "char \<Rightarrow> char" where
  "yf_toupper c = (if yf_islower c then char_of (code c - 32) else c)"

fun yf_strtolower :: "string \<Rightarrow> nat \<Rightarrow> string run" where
  "yf_strtolower s 0 = Inr s"
| "yf_strtolower [] (Suc n) = Inl Read_past_end"
| "yf_strtolower (c # s) (Suc n) = run_bind (yf_strtolower s n) (\<lambda>s. Inr (yf_tolower c # s))"

fun yf_strtoupper :: "string \<Rightarrow> nat \<Rightarrow> string run" where
  "yf_strtoupper s 0 = Inr s"
| "yf_strtoupper [] (Suc n) = Inl Read_past_end"
| "yf_strtoupper (c # s) (Suc n) = run_bind (yf_strtoupper s n) (\<lambda>s. Inr (yf_toupper c # s))"

text \<open>\<open>yf_cpystrn src n\<close>: the characters written and the offset of the result in the target.\<close>

fun cpystrn_loop :: "nat \<Rightarrow> string \<Rightarrow> (string \<times> nat) run" where
  "cpystrn_loop 0 src = Inr ([NUL], 0)"
| "cpystrn_loop (Suc n) [] = Inl Read_past_end"
| "cpystrn_loop (Suc n) (c # src) =
     (if c = NUL then Inr ([NUL], 0)
      else run_bind (cpystrn_loop n src) (\<lambda>(w, k). Inr (c # w, k + 1)))"

definition yf_cpystrn :: "string \<Rightarrow> nat \<Rightarrow> (string \<times> nat) run" where
  "yf_cpystrn src n = (if n = 0 then Inr ([], 0) else cpystrn_loop (n - 1) src)"

fun yf_strcasecmp :: "string \<Rightarrow> string \<Rightarrow> int run" where
  "yf_strcasecmp (a # s1) (b # s2) =
     (let c1 = yf_tolower a; c2 = yf_tolower b in
      if c1 = c2 then if c1 \<noteq> NUL then yf_strcasecmp s1 s2 else Inr 0
      else Inr (schar c1 - schar c2))"
| "yf_strcasecmp _ _ = Inl Read_past_end"

fun yf_strncasecmp :: "string \<Rightarrow> string \<Rightarrow> nat \<Rightarrow> int run" where
  "yf_strncasecmp s1 s2 0 = Inr 0"
| "yf_strncasecmp (a # s1) (b # s2) (Suc n) =
     (let c1 = yf_tolower a; c2 = yf_tolower b in
      if c1 = c2 then if c1 \<noteq> NUL then yf_strncasecmp s1 s2 n else Inr 0
      else Inr (schar c1 - schar c2))"
| "yf_strncasecmp _ _ (Suc n) = Inl Read_past_end"

subsection \<open>Hexadecimal\<close>

definition hex_lower :: string where "hex_lower = ''0123456789abcdef''"
definition hex_upper :: string where "hex_upper = ''0123456789ABCDEF''"

text \<open>The table is indexed by a signed \<^verbatim>\<open>char\<close> shifted arithmetically.\<close>

fun yf_bin_2_hex :: "string \<Rightarrow> string run" where
  "yf_bin_2_hex [] = Inr []"
| "yf_bin_2_hex (c # src) =
     require Out_of_bounds (0 \<le> schar c div 16)
       (run_bind (yf_bin_2_hex src) (\<lambda>dst.
        Inr (hex_lower ! nat (schar c div 16) # hex_lower ! nat (schar c mod 16) # dst)))"

fun hex_2_bin_loop :: "string \<Rightarrow> string" where
  "hex_2_bin_loop (a # b # src) =
     char_of ((code a * 16 mod 256) OR code b) # hex_2_bin_loop src"
| "hex_2_bin_loop _ = []"

definition yf_hex_2_bin :: "string \<Rightarrow> (int \<times> string)" where
  "yf_hex_2_bin src = (if odd (length src) then (-1, [])
     else (int (length src div 2), hex_2_bin_loop src))"

subsection \<open>Numbers\<close>

definition YF_INT64_LEN :: nat where "YF_INT64_LEN = 20"
definition YF_INT32_LEN :: nat where "YF_INT32_LEN = 11"

text \<open>The three loops that write digits in front of \<open>p\<close>.\<close>

function dec_loop :: "nat \<Rightarrow> string \<Rightarrow> string" where
  "dec_loop n p =
     (let p = char_of (n mod 10 + 48) # p; n = n div 10 in
      if n \<noteq> 0 then dec_loop n p else p)"
  by pat_completeness auto
termination by (relation "measure fst") auto

function hex_loop :: "string \<Rightarrow> nat \<Rightarrow> string \<Rightarrow> string" where
  "hex_loop tab n p =
     (let p = tab ! (n mod 16) # p; n = n div 16 in
      if n \<noteq> 0 then hex_loop tab n p else p)"
  by pat_completeness auto
termination by (relation "measure (fst \<circ> snd)") auto

declare dec_loop.simps [simp del] hex_loop.simps [simp del]

definition yf_sprintf_num :: "nat \<Rightarrow> u64 \<Rightarrow> char \<Rightarrow> nat \<Rightarrow> nat \<Rightarrow> string \<Rightarrow> string run" where
  "yf_sprintf_num cap ui64 zero hexadecimal width out =
     (let p = (if hexadecimal = 0 then dec_loop (unat ui64) []
               else if hexadecimal = 1 then hex_loop hex_lower (unat ui64) []
               else hex_loop hex_upper (unat ui64) []) in
      require Out_of_bounds (length p \<le> YF_INT64_LEN \<and> length out \<le> cap)
        (let out = out @ replicate (min (width - length p) (cap - length out)) zero in
         Inr (out @ take (min (length p) (cap - length out)) p)))"

subsection \<open>Formats\<close>

record 'd dbl_ops =
  d_neg :: "'d \<Rightarrow> bool"
  d_minus :: "'d \<Rightarrow> 'd"
  d_trunc :: "'d \<Rightarrow> u64"
  d_frac :: "'d \<Rightarrow> u64 \<Rightarrow> nat \<Rightarrow> u64"

text \<open>
  Arguments: an integer or pointer value, a \<^verbatim>\<open>yf_str_t *\<close> with its length and the characters
  behind it, a \<^verbatim>\<open>char *\<close>, a \<^verbatim>\<open>double\<close>.
\<close>

datatype 'd va = Va_int u64 | Va_str u64 string | Va_chars string | Va_dbl 'd

record spec =
  sp_zero :: char
  sp_width :: u32
  sp_sign :: bool
  sp_hex :: nat
  sp_max_width :: bool
  sp_frac_width :: u32
  sp_slen :: u64

fun get_num :: "u32 \<Rightarrow> string \<Rightarrow> u32 \<times> string" where
  "get_num w [] = (w, [])"
| "get_num w (c # fmt) =
     (if 48 \<le> code c \<and> code c \<le> 57 then get_num (w * 10 + of_nat (code c) - 48) fmt else (w, c # fmt))"

fun get_flags :: "spec \<Rightarrow> 'd va list \<Rightarrow> string \<Rightarrow> (spec \<times> 'd va list \<times> string) run" where
  "get_flags sp args [] = Inr (sp, args, [])"
| "get_flags sp args (c # fmt) =
     (if c = CHR ''u'' then get_flags (sp\<lparr> sp_sign := False \<rparr>) args fmt
      else if c = CHR ''m'' then get_flags (sp\<lparr> sp_max_width := True \<rparr>) args fmt
      else if c = CHR ''X'' then get_flags (sp\<lparr> sp_sign := False, sp_hex := 2 \<rparr>) args fmt
      else if c = CHR ''x'' then get_flags (sp\<lparr> sp_sign := False, sp_hex := 1 \<rparr>) args fmt
      else if c = CHR ''.'' then
        (let (fw, fmt) = get_num (sp_frac_width sp) fmt in Inr (sp\<lparr> sp_frac_width := fw \<rparr>, args, fmt))
      else if c = CHR ''*'' then
        (case args of Va_int n # args \<Rightarrow> get_flags (sp\<lparr> sp_slen := n \<rparr>) args fmt | _ \<Rightarrow> Inl Bad_argument)
      else Inr (sp, args, c # fmt))"

definition get_spec :: "'d va list \<Rightarrow> string \<Rightarrow> (spec \<times> 'd va list \<times> string) run" where
  "get_spec args fmt =
     (let zero = (case fmt of c # _ \<Rightarrow> if c = CHR ''0'' then CHR ''0'' else CHR '' '' | [] \<Rightarrow> CHR '' '');
          (w, fmt) = get_num 0 fmt in
      get_flags \<lparr> sp_zero = zero, sp_width = w, sp_sign = True, sp_hex = 0, sp_max_width = False,
        sp_frac_width = 0, sp_slen = -1 \<rparr> args fmt)"

definition put :: "nat \<Rightarrow> char \<Rightarrow> string \<Rightarrow> string run" where
  "put cap c out = require Out_of_bounds (length out < cap) (Inr (out @ [c]))"

definition copy_mem :: "nat \<Rightarrow> string \<Rightarrow> u64 \<Rightarrow> string \<Rightarrow> string run" where
  "copy_mem cap mem n out =
     (let len = min (cap - length out) (unat n) in
      require Read_past_end (len \<le> length mem)
        (require Out_of_bounds (length out + len \<le> cap) (Inr (out @ take len mem))))"

fun copy_cstr :: "nat \<Rightarrow> string \<Rightarrow> string \<Rightarrow> string run" where
  "copy_cstr cap [] out = Inl Read_past_end"
| "copy_cstr cap (c # mem) out =
     (if c \<noteq> NUL \<and> length out < cap
      then run_bind (put cap c out) (copy_cstr cap mem) else Inr out)"

text \<open>The integer a directive reads: the 32-bit types take the low half of the argument.\<close>

definition int_arg :: "char \<Rightarrow> bool \<Rightarrow> u64 \<Rightarrow> u64" where
  "int_arg c sign v =
     (if c \<in> {CHR ''i'', CHR ''d'', CHR ''D''}
      then if sign then scast (ucast v :: u32) else ucast (ucast v :: u32)
      else if c = CHR ''P'' then scast (ucast v :: u32)
      else v)"

definition put_signed :: "nat \<Rightarrow> u64 \<Rightarrow> string \<Rightarrow> (u64 \<times> string) run" where
  "put_signed cap i64 out =
     (if sint i64 < 0
      then run_bind (put cap CHR ''-'' out) (\<lambda>out.
           require Overflow (sint i64 \<noteq> - (2 ^ 63)) (Inr (- i64, out)))
      else Inr (i64, out))"

definition put_int :: "nat \<Rightarrow> char \<Rightarrow> spec \<Rightarrow> u64 \<Rightarrow> string \<Rightarrow> string run" where
  "put_int cap c sp v out =
     (let sign = (sp_sign sp \<or> c \<in> {CHR ''O'', CHR ''P'', CHR ''T''}) \<and> c \<noteq> CHR ''p'';
          zero = (if c = CHR ''p'' then CHR ''0'' else sp_zero sp);
          hex = (if c = CHR ''p'' then 2 else sp_hex sp);
          width = (if c = CHR ''p'' then 16
                   else if c = CHR ''i'' \<and> sp_max_width sp then YF_INT32_LEN else unat (sp_width sp));
          a = int_arg c sign v in
      run_bind (if sign then put_signed cap a out else Inr (a, out)) (\<lambda>(ui64, out).
      yf_sprintf_num cap ui64 zero hex width out))"

definition put_dbl :: "'d dbl_ops \<Rightarrow> nat \<Rightarrow> spec \<Rightarrow> 'd \<Rightarrow> string \<Rightarrow> string run" where
  "put_dbl fl cap sp f out =
     run_bind (if d_neg fl f then run_bind (put cap CHR ''-'' out) (\<lambda>out. Inr (d_minus fl f, out))
               else Inr (f, out)) (\<lambda>(f, out).
     let ui64 = d_trunc fl f in
     run_bind (yf_sprintf_num cap ui64 (sp_zero sp) 0 (unat (sp_width sp)) out) (\<lambda>out.
     if sp_frac_width sp \<noteq> 0
     then run_bind (if length out < cap then put cap CHR ''.'' out else Inr out) (\<lambda>out.
       yf_sprintf_num cap (d_frac fl f ui64 (unat (sp_frac_width sp))) CHR ''0'' 0
         (unat (sp_frac_width sp)) out)
     else Inr out))"

definition int_directives :: "char set" where
  "int_directives = set ''OPTzidlDLp''"

text \<open>
  The second switch, on the character after the flags. At the end of the format the default
  case copies the terminator and steps over it; the next test of \<^verbatim>\<open>*fmt\<close> is past the end.
\<close>

fun directive :: "'d dbl_ops \<Rightarrow> nat \<Rightarrow> spec \<Rightarrow> 'd va list \<Rightarrow> string \<Rightarrow> string \<Rightarrow>
    (string \<times> 'd va list \<times> string) run" where
  "directive fl cap sp args [] out = run_bind (put cap NUL out) (\<lambda>out. Inl Read_past_end)"
| "directive fl cap sp args (c # fmt) out =
     (if c = CHR ''V'' then
        (case args of Va_str n mem # args \<Rightarrow> run_bind (copy_mem cap mem n out) (\<lambda>out. Inr (fmt, args, out))
         | _ \<Rightarrow> Inl Bad_argument)
      else if c = CHR ''s'' then
        (case args of Va_chars mem # args \<Rightarrow>
           run_bind (if sp_slen sp = -1 then copy_cstr cap mem out else copy_mem cap mem (sp_slen sp) out)
             (\<lambda>out. Inr (fmt, args, out))
         | _ \<Rightarrow> Inl Bad_argument)
      else if c \<in> int_directives then
        (case args of Va_int v # args \<Rightarrow> run_bind (put_int cap c sp v out) (\<lambda>out. Inr (fmt, args, out))
         | _ \<Rightarrow> Inl Bad_argument)
      else if c = CHR ''f'' then
        (case args of Va_dbl f # args \<Rightarrow> run_bind (put_dbl fl cap sp f out) (\<lambda>out. Inr (fmt, args, out))
         | _ \<Rightarrow> Inl Bad_argument)
      else if c = CHR ''c'' then
        (case args of Va_int v # args \<Rightarrow>
           run_bind (put cap (char_of (unat v mod 256)) out) (\<lambda>out. Inr (fmt, args, out))
         | _ \<Rightarrow> Inl Bad_argument)
      else run_bind (put cap (if c = CHR ''Z'' then NUL else if c = CHR ''N'' then CHR 0x0A else c) out)
             (\<lambda>out. Inr (fmt, args, out)))"

lemma get_num_length: "get_num w fmt = (w', fmt') \<Longrightarrow> length fmt' \<le> length fmt"
  by (induction w fmt rule: get_num.induct) (auto split: if_splits)

lemma get_flags_length: "get_flags sp args fmt = Inr (sp', args', fmt') \<Longrightarrow> length fmt' \<le> length fmt"
proof (induction sp args fmt rule: get_flags.induct)
  case (2 sp args c fmt)
  then show ?case
    using get_num_length [of "sp_frac_width sp" fmt]
    by (auto simp: Let_def split: if_splits prod.splits list.splits va.splits)
qed simp

lemma get_spec_length: "get_spec args fmt = Inr (sp, args', fmt') \<Longrightarrow> length fmt' \<le> length fmt"
  using get_flags_length get_num_length by (fastforce simp: get_spec_def Let_def split: prod.splits)

lemma directive_length: "directive fl cap sp args fmt out = Inr (fmt', args', out') \<Longrightarrow> length fmt' < length fmt"
  by (cases fmt) (auto simp: run_simps split: if_splits list.splits va.splits)

function vslprintf_loop :: "'d dbl_ops \<Rightarrow> nat \<Rightarrow> string \<Rightarrow> 'd va list \<Rightarrow> string \<Rightarrow> string run" where
  "vslprintf_loop fl cap [] args out = Inr out"
| "vslprintf_loop fl cap (c # fmt) args out =
     (if length out < cap
      then if c = CHR 0x25
        then run_bind (get_spec args fmt) (\<lambda>(sp, args, fmt).
             run_bind (directive fl cap sp args fmt out) (\<lambda>(fmt, args, out).
             vslprintf_loop fl cap fmt args out))
        else run_bind (put cap c out) (vslprintf_loop fl cap fmt args)
      else Inr out)"
  by pat_completeness auto
termination
  by (relation "measure (\<lambda>(_, _, fmt, _, _). length fmt)")
    (use get_spec_length directive_length in \<open>fastforce\<close>)+

definition yf_vslprintf :: "'d dbl_ops \<Rightarrow> nat \<Rightarrow> string \<Rightarrow> 'd va list \<Rightarrow> string run" where
  "yf_vslprintf fl cap fmt args = vslprintf_loop fl cap fmt args []"

definition yf_snprintf :: "'d dbl_ops \<Rightarrow> nat \<Rightarrow> string \<Rightarrow> 'd va list \<Rightarrow> string run" where
  "yf_snprintf fl mx fmt args = yf_vslprintf fl mx fmt args"

subsection \<open>Digits\<close>

lemma dec_loop_app: "dec_loop n p = dec_loop n [] @ p"
proof (induction n arbitrary: p rule: less_induct)
  case (less n)
  show ?case
  proof (cases "n div 10 = 0")
    case True
    then show ?thesis by (simp add: dec_loop.simps [of n] Let_def)
  next
    case False
    then have "n div 10 < n" by simp
    from less.IH [OF this, of "char_of (n mod 10 + 48) # p"] less.IH [OF this, of "[char_of (n mod 10 + 48)]"]
    show ?thesis using False by (simp add: dec_loop.simps [of n] Let_def)
  qed
qed

lemma dec_loop_unfold:
  "dec_loop n [] = (if n div 10 = 0 then [] else dec_loop (n div 10) []) @ [char_of (n mod 10 + 48)]"
  by (subst dec_loop.simps) (simp add: Let_def dec_loop_app [of "n div 10" "[_]"])

lemma hex_loop_app: "hex_loop tab n p = hex_loop tab n [] @ p"
proof (induction n arbitrary: p rule: less_induct)
  case (less n)
  show ?case
  proof (cases "n div 16 = 0")
    case True
    then show ?thesis by (simp add: hex_loop.simps [of tab n] Let_def)
  next
    case False
    then have "n div 16 < n" by simp
    from less.IH [OF this, of "tab ! (n mod 16) # p"] less.IH [OF this, of "[tab ! (n mod 16)]"]
    show ?thesis using False by (simp add: hex_loop.simps [of tab n] Let_def)
  qed
qed

lemma dec_loop_length: "n < 10 ^ Suc k \<Longrightarrow> length (dec_loop n []) \<le> Suc k"
proof (induction k arbitrary: n)
  case 0
  then show ?case by (subst dec_loop_unfold) simp
next
  case (Suc k)
  have "n div 10 < 10 ^ Suc k" using Suc.prems by (simp add: div_less_iff_less_mult mult.commute)
  from Suc.IH [OF this] show ?case by (subst dec_loop_unfold) simp
qed

lemma hex_loop_length: "n < 16 ^ Suc k \<Longrightarrow> length (hex_loop tab n []) \<le> Suc k"
proof (induction k arbitrary: n)
  case 0
  then show ?case by (subst hex_loop.simps) (simp add: Let_def)
next
  case (Suc k)
  have "n div 16 < 16 ^ Suc k" using Suc.prems by (simp add: div_less_iff_less_mult mult.commute)
  from Suc.IH [OF this] show ?case
    by (subst hex_loop.simps) (simp add: Let_def hex_loop_app [of tab "n div 16" "[_]"])
qed

lemma unat_u64: "unat (w :: u64) < 18446744073709551616"
proof -
  have "unat w < 2 ^ LENGTH(64)" by (rule unsigned_less)
  then show ?thesis by simp
qed

lemma digits_fit:
  "length (dec_loop (unat (w :: u64)) []) \<le> 20" "length (hex_loop tab (unat w) []) \<le> 16"
proof -
  have "unat w < 10 ^ Suc 19" "unat w < 16 ^ Suc 15" using unat_u64 [of w] by simp_all
  from dec_loop_length [OF this(1)] hex_loop_length [OF this(2)]
  show "length (dec_loop (unat w) []) \<le> 20" "length (hex_loop tab (unat w) []) \<le> 16" by simp_all
qed

text \<open>What the printed digits mean.\<close>

definition dec_val :: "string \<Rightarrow> nat" where
  "dec_val s = foldl (\<lambda>a c. a * 10 + (code c - 48)) 0 s"

definition int_val :: "string \<Rightarrow> int" where
  "int_val s = (case s of c # t \<Rightarrow> if c = CHR ''-'' then - int (dec_val t) else int (dec_val s) | [] \<Rightarrow> 0)"

definition is_digit :: "char \<Rightarrow> bool" where "is_digit c = (48 \<le> code c \<and> code c \<le> 57)"

lemma code_char_of: "n < 256 \<Longrightarrow> code (char_of n) = n"
  by (simp add: code_def)

lemma dec_val_snoc: "dec_val (s @ [c]) = dec_val s * 10 + (code c - 48)"
  by (simp add: dec_val_def)

lemma digit_char: "code (char_of (n mod 10 + 48)) = n mod 10 + 48" "is_digit (char_of (n mod 10 + 48))"
proof -
  have "n mod 10 < 10" by simp
  then have "n mod 10 + 48 < 256" by linarith
  then show c: "code (char_of (n mod 10 + 48)) = n mod 10 + 48" by (rule code_char_of)
  show "is_digit (char_of (n mod 10 + 48))" unfolding is_digit_def c using \<open>n mod 10 < 10\<close> by linarith
qed

lemma dec_loop_val: "dec_val (dec_loop n []) = n \<and> list_all is_digit (dec_loop n []) \<and> dec_loop n [] \<noteq> []"
proof (induction n rule: less_induct)
  case (less n)
  show ?case
  proof (cases "n div 10 = 0")
    case True
    then have "n < 10" by simp
    then show ?thesis
      using digit_char [of n] by (subst (1 2 3) dec_loop_unfold) (simp add: True dec_val_def)
  next
    case False
    then have "n div 10 < n" by simp
    from less.IH [OF this] False digit_char [of n] show ?thesis
      by (subst (1 2 3) dec_loop_unfold) (simp add: dec_val_snoc)
  qed
qed

subsection \<open>Bounds\<close>

text \<open>A write that stays inside the buffer, whatever else may be wrong with the call.\<close>

definition inside :: "nat \<Rightarrow> string run \<Rightarrow> bool" where
  "inside cap r \<longleftrightarrow> (case r of Inl e \<Rightarrow> e \<in> {Read_past_end, Bad_argument, Overflow} | Inr out \<Rightarrow> length out \<le> cap)"

lemma inside_simps [simp]:
  "inside cap (Inr out) \<longleftrightarrow> length out \<le> cap"
  "inside cap (Inl e) \<longleftrightarrow> e \<in> {Read_past_end, Bad_argument, Overflow}"
  by (simp_all add: inside_def)

lemma inside_bind: "inside cap r \<Longrightarrow> (\<And>out. length out \<le> cap \<Longrightarrow> inside cap (k out)) \<Longrightarrow> inside cap (run_bind r k)"
  by (cases r) auto

lemma inside_put: "length out < cap \<Longrightarrow> inside cap (put cap c out)"
  by (simp add: put_def)

lemma pad_le: "a \<le> cap \<Longrightarrow> a + (min x (cap - a) + min l (cap - (a + min x (cap - a)))) \<le> (cap :: nat)"
  by (auto simp: min_def)

lemma inside_num: "length out \<le> cap \<Longrightarrow> inside cap (yf_sprintf_num cap w z h wd out)"
  using digits_fit(1) [of w] digits_fit(2) [of hex_lower w] digits_fit(2) [of hex_upper w]
  by (auto simp: yf_sprintf_num_def Let_def YF_INT64_LEN_def require_def pad_le)

lemma inside_mem: "length out \<le> cap \<Longrightarrow> inside cap (copy_mem cap mem n out)"
  by (auto simp: copy_mem_def Let_def require_def)

lemma inside_cstr: "length out \<le> cap \<Longrightarrow> inside cap (copy_cstr cap mem out)"
proof (induction mem arbitrary: out)
  case (Cons c mem)
  then show ?case by (auto simp: put_def)
qed simp

lemma inside_int: "length out < cap \<Longrightarrow> inside cap (put_int cap c sp v out)"
  using inside_num [of _ cap]
  by (auto simp: put_int_def put_signed_def put_def Let_def require_def)

lemma inside_dbl: "length out < cap \<Longrightarrow> inside cap (put_dbl fl cap sp f out)"
  unfolding put_dbl_def
  by (cases "d_neg fl f"; auto simp: put_def Let_def intro!: inside_bind inside_num)

definition inside3 :: "nat \<Rightarrow> (string \<times> 'd va list \<times> string) run \<Rightarrow> bool" where
  "inside3 cap r \<longleftrightarrow> inside cap (run_bind r (\<lambda>(_, _, out). Inr out))"

lemma inside3_bind: "inside cap r \<Longrightarrow> inside3 cap (run_bind r (\<lambda>out. Inr (fmt, args, out)))"
  by (cases r) (auto simp: inside3_def)

lemma inside3_if: "(b \<Longrightarrow> inside3 cap x) \<Longrightarrow> (\<not> b \<Longrightarrow> inside3 cap y) \<Longrightarrow> inside3 cap (if b then x else y)"
  by simp

lemma inside3_bad [simp]: "inside3 cap (Inl Bad_argument)"
  by (simp add: inside3_def)

lemma inside_directive:
  assumes out: "length out < cap"
  shows "inside3 cap (directive fl cap sp args fmt out)"
proof -
  have le: "length out \<le> cap" using out by simp
  have str: "inside cap (if b then copy_cstr cap mem out else copy_mem cap mem n out)" for b mem n
    using inside_mem [OF le] inside_cstr [OF le] by simp
  show ?thesis
  proof (cases fmt)
    case Nil
    then show ?thesis using out by (simp add: put_def inside3_def)
  next
    case (Cons c rest)
    show ?thesis
      unfolding Cons directive.simps
    proof (intro inside3_if)
      show "inside3 cap (case args of Va_str n mem # args \<Rightarrow>
          run_bind (copy_mem cap mem n out) (\<lambda>out. Inr (rest, args, out)) | _ \<Rightarrow> Inl Bad_argument)"
        using inside_mem [OF le] by (auto intro!: inside3_bind split: list.split va.split)
      show "inside3 cap (case args of Va_chars mem # args \<Rightarrow>
           run_bind (if sp_slen sp = -1 then copy_cstr cap mem out else copy_mem cap mem (sp_slen sp) out)
             (\<lambda>out. Inr (rest, args, out)) | _ \<Rightarrow> Inl Bad_argument)"
        by (simp only: inside3_bind [OF str] inside3_bad split: list.split va.split) simp
      show "inside3 cap (case args of Va_int v # args \<Rightarrow>
          run_bind (put_int cap c sp v out) (\<lambda>out. Inr (rest, args, out)) | _ \<Rightarrow> Inl Bad_argument)"
        using inside_int [OF out] by (auto intro!: inside3_bind split: list.split va.split)
      show "inside3 cap (case args of Va_dbl f # args \<Rightarrow>
          run_bind (put_dbl fl cap sp f out) (\<lambda>out. Inr (rest, args, out)) | _ \<Rightarrow> Inl Bad_argument)"
        using inside_dbl [OF out] by (auto intro!: inside3_bind split: list.split va.split)
      show "inside3 cap (case args of Va_int v # args \<Rightarrow>
          run_bind (put cap (char_of (unat v mod 256)) out) (\<lambda>out. Inr (rest, args, out)) | _ \<Rightarrow> Inl Bad_argument)"
        using inside_put [OF out] by (auto intro!: inside3_bind split: list.split va.split)
    qed (rule inside3_bind [OF inside_put [OF out]])
  qed
qed

lemma get_flags_fault: "get_flags sp args fmt = Inl e \<Longrightarrow> e = Bad_argument"
  by (induction sp args fmt rule: get_flags.induct)
    (auto simp: Let_def split: if_splits prod.splits list.splits va.splits)

lemma get_spec_fault: "get_spec args fmt = Inl e \<Longrightarrow> e = Bad_argument"
  using get_flags_fault by (fastforce simp: get_spec_def Let_def split: prod.splits)

lemma inside_loop: "length out \<le> cap \<Longrightarrow> inside cap (vslprintf_loop fl cap fmt args out)"
proof (induction fl cap fmt args out rule: vslprintf_loop.induct)
  case (2 fl cap c fmt args out)
  show ?case
  proof (cases "length out < cap \<and> c = CHR 0x25")
    case False
    then show ?thesis using "2.IH"(2) "2.prems" by (auto simp: put_def)
  next
    case True
    show ?thesis
    proof (cases "get_spec args fmt")
      case (Inl e)
      then show ?thesis using True get_spec_fault [OF Inl] by simp
    next
      case (Inr x)
      obtain sp args' fmt' where x: "x = (sp, args', fmt')" by (cases x) auto
      show ?thesis
      proof (cases "directive fl cap sp args' fmt' out")
        case (Inl e)
        then show ?thesis using inside_directive [of out cap fl sp args' fmt'] True
          by (simp add: \<open>get_spec args fmt = Inr x\<close> x inside3_def)
      next
        case (Inr y)
        obtain fmt'' args'' out' where y: "y = (fmt'', args'', out')" by (cases y) auto
        have "length out' \<le> cap"
          using inside_directive [of out cap fl sp args' fmt'] True by (simp add: Inr y inside3_def)
        from "2.IH"(1) [OF conjunct1 [OF True] conjunct2 [OF True] \<open>get_spec args fmt = Inr x\<close>
            x [symmetric] refl Inr y [symmetric] refl this]
        show ?thesis using True by (simp add: \<open>get_spec args fmt = Inr x\<close> x Inr y)
      qed
    qed
  qed
qed simp

subsection \<open>Properties\<close>

lemma yf_cpystrn_correct:
  assumes "NUL \<notin> set s" "0 < n"
  shows "yf_cpystrn (s @ NUL # rest) n = Inr (take (n - 1) s @ [NUL], min (n - 1) (length s))"
proof -
  have "cpystrn_loop k (s @ NUL # rest) = Inr (take k s @ [NUL], min k (length s))" for k
    using assms(1)
  proof (induction s arbitrary: k)
    case Nil
    then show ?case by (cases k) auto
  next
    case (Cons c s)
    then show ?case by (cases k) auto
  qed
  then show ?thesis using assms(2) by (simp add: yf_cpystrn_def)
qed

text \<open>
  C18: Whatever the format and the arguments are, the formatter writes at most as many
  characters as the buffer has: it ends with that many or fewer, or the call itself is at fault
  (an argument of another type, a string without its terminator, the least 64-bit integer).
\<close>

theorem yf_snprintf_bounded:
  "case yf_snprintf fl mx fmt args of
     Inl e \<Rightarrow> e \<in> {Read_past_end, Bad_argument, Overflow} | Inr out \<Rightarrow> length out \<le> mx"
  using inside_loop [of "[]" mx fl fmt args]
  by (simp add: yf_snprintf_def yf_vslprintf_def inside_def)

lemma sprintf_num_dec:
  assumes "length out + length (dec_loop (unat w) []) \<le> cap"
  shows "yf_sprintf_num cap w z 0 0 out = Inr (out @ dec_loop (unat w) [])"
  using assms digits_fit(1) [of w]
  by (simp add: yf_sprintf_num_def Let_def YF_INT64_LEN_def)

lemma int_val_digits:
  assumes "list_all is_digit s" "s \<noteq> []"
  shows "int_val s = int (dec_val s)" "int_val (CHR ''-'' # s) = - int (dec_val s)"
  using assms by (auto simp: int_val_def is_digit_def code_def neq_Nil_conv)

lemma sint_nonneg:
  fixes v :: u64
  assumes "0 \<le> sint v" shows "sint v = int (unat v)"
proof -
  have s: "sint v = signed_take_bit 63 (uint v)" using sint_uint [of v] by simp
  then have nb: "\<not> bit (uint v) 63" using assms by (simp add: signed_take_bit_nonnegative_iff)
  have "uint v < 2 ^ LENGTH(64)" by (rule unsigned_less)
  then have "uint v < 2 ^ Suc 63" by simp
  then have "uint v = take_bit (Suc 63) (uint v)"
    by (intro take_bit_int_eq_self [symmetric] unsigned_greater_eq)
  also have "\<dots> = take_bit 63 (uint v)" using nb by (simp only: take_bit_Suc_from_most of_bool_eq mult_zero_right add_0)
  also have "\<dots> = sint v" unfolding s using nb by (rule signed_take_bit_eq_if_positive [symmetric])
  finally show ?thesis by simp
qed

lemma sint_minus:
  fixes v :: u64
  assumes "sint v < 0" "sint v \<noteq> - (2 ^ 63)"
  shows "sint (- v) = - sint v"
proof -
  have "sint (- v) = signed_take_bit 63 (- sint v)" by (simp add: sint_word_minus)
  also have "\<dots> = - sint v"
  proof (rule signed_take_bit_int_eq_self)
    define i where "i = sint v"
    have "- (2 ^ 63) \<le> i" "i < 0" "i \<noteq> - (2 ^ 63)"
      using sint_greater_eq [of v] assms unfolding i_def by simp_all
    then have "- i < 2 ^ 63" "- (2 ^ 63) \<le> - i" by simp_all
    then show "- sint v < 2 ^ 63" "- (2 ^ 63) \<le> - sint v" unfolding i_def .
  qed
  finally show ?thesis .
qed

lemma spec_L: "get_spec args ''L'' = Inr (\<lparr> sp_zero = CHR '' '', sp_width = 0, sp_sign = True, sp_hex = 0,
    sp_max_width = False, sp_frac_width = 0, sp_slen = -1 \<rparr>, args, ''L'')"
  by (simp add: get_spec_def code_def)

lemma format_L:
  "yf_snprintf fl mx ''%L'' [Va_int v] =
     (if mx = 0 then Inr [] else run_bind (put_signed mx v []) (\<lambda>(u, out). yf_sprintf_num mx u CHR '' '' 0 0 out))"
  (is "_ = (if _ then _ else ?r)")
proof -
  let ?sp = "\<lparr> sp_zero = CHR '' '', sp_width = 0, sp_sign = True, sp_hex = 0,
    sp_max_width = False, sp_frac_width = 0, sp_slen = -1 \<rparr>"
  have "put_int mx CHR ''L'' ?sp v [] = ?r"
    by (simp add: put_int_def int_arg_def)
  then have "directive fl mx ?sp [Va_int v] ''L'' [] = run_bind ?r (\<lambda>out. Inr ([], [], out))"
    by (simp add: int_directives_def)
  then show ?thesis
    unfolding yf_snprintf_def yf_vslprintf_def
    by (cases ?r) (simp_all add: spec_L)
qed

text \<open>
  C19: The digits printed for a signed 64-bit integer denote it, for every integer but the
  least one, in a buffer of 20 characters or more.
\<close>

theorem yf_snprintf_int_roundtrip:
  assumes "20 \<le> mx" "sint (v :: u64) \<noteq> - (2 ^ 63)"
  shows "\<exists>s. yf_snprintf fl mx ''%L'' [Va_int v] = Inr s \<and> int_val s = sint v"
proof -
  have neg: "\<exists>s. yf_snprintf fl mx ''%L'' [Va_int v] = Inr s \<and> int_val s = sint v" if n: "sint v < 0"
  proof -
    let ?u = "- v"
    have u: "int (unat ?u) = - sint v"
      using sint_nonneg [of ?u] sint_minus [OF n assms(2)] n by simp
    define i where "i = sint v"
    define k where "k = unat ?u"
    have "- (2 ^ 63) \<le> i" using sint_greater_eq [of v] unfolding i_def by simp
    moreover have "int k = - i" using u unfolding i_def k_def .
    ultimately have "k \<le> 2 ^ 63" by simp
    then have "k < 10 ^ Suc 18" by simp
    then have "unat ?u < 10 ^ Suc 18" unfolding k_def .
    from dec_loop_length [OF this] assms(1)
    have "yf_sprintf_num mx ?u CHR '' '' 0 0 ''-'' = Inr (''-'' @ dec_loop (unat ?u) [])"
      by (intro sprintf_num_dec) simp
    moreover have "put_signed mx v [] = Inr (?u, ''-'')"
      using n assms by (simp add: put_signed_def put_def)
    ultimately have "yf_snprintf fl mx ''%L'' [Va_int v] = Inr (CHR ''-'' # dec_loop (unat ?u) [])"
      using assms(1) by (simp add: format_L)
    then show ?thesis using int_val_digits(2) dec_loop_val [of "unat ?u"] u by simp
  qed
  have pos: "\<exists>s. yf_snprintf fl mx ''%L'' [Va_int v] = Inr s \<and> int_val s = sint v" if n: "\<not> sint v < 0"
  proof -
    have "yf_sprintf_num mx v CHR '' '' 0 0 [] = Inr (dec_loop (unat v) [])"
      using sprintf_num_dec [of "[]" v mx] digits_fit(1) [of v] assms(1) by simp
    then have "yf_snprintf fl mx ''%L'' [Va_int v] = Inr (dec_loop (unat v) [])"
      using n assms(1) by (simp add: format_L put_signed_def)
    then show ?thesis using int_val_digits(1) dec_loop_val [of "unat v"] sint_nonneg [of v] n by simp
  qed
  show ?thesis using neg pos by blast
qed

definition no_dbl :: "unit dbl_ops" where
  "no_dbl = \<lparr> d_neg = (\<lambda>_. False), d_minus = id, d_trunc = (\<lambda>_. 0), d_frac = (\<lambda>_ _ _. 0) \<rparr>"

theorem yf_snprintf_int_roundtrip_witness:
  "\<exists>s. yf_snprintf no_dbl 20 ''%L'' [Va_int (-5)] = Inr s \<and> int_val s = sint (-5 :: u64)"
  by (rule yf_snprintf_int_roundtrip) simp_all

text \<open>
  A format that ends in the middle of a directive is read past its terminator: the default
  case steps over it. The buffer only has to be long enough for the directive to be reached.
\<close>

theorem yf_snprintf_trailing_percent:
  assumes "CHR 0x25 \<notin> set s" "length s < mx"
  shows "yf_snprintf fl mx (s @ ''%'') args = Inl Read_past_end"
proof -
  have "vslprintf_loop fl mx (s @ ''%'') args out = Inl Read_past_end"
    if "length out + length s < mx" for out
    using assms(1) that
  proof (induction s arbitrary: out)
    case Nil
    then show ?case by (simp add: get_spec_def put_def)
  next
    case (Cons c s)
    have "c \<noteq> CHR 0x25" using Cons.prems(1) by auto
    with Cons show ?case by (simp add: put_def)
  qed
  then show ?thesis using assms(2) by (simp add: yf_snprintf_def yf_vslprintf_def)
qed

theorem yf_snprintf_trailing_percent_witness:
  "yf_snprintf no_dbl 100 (''100'' @ ''%'') [] = Inl Read_past_end"
  by (rule yf_snprintf_trailing_percent) simp_all

lemma nth_hex_lower:
  assumes "k < 10" shows "hex_lower ! k = char_of (k + 48)"
proof -
  have "list_all (\<lambda>k. hex_lower ! k = char_of (k + 48)) [0..<10]" by code_simp
  then show ?thesis using assms by (simp add: list_all_iff)
qed

lemma or_48:
  assumes "h < 10" "l < (10 :: nat)" shows "((h + 48) * 16 mod 256) OR (l + 48) = (h * 16 + l) OR 48"
proof -
  let ?ds = "[0, 1, 2, 3, 4, 5, 6, 7, 8, 9] :: nat list"
  have "\<forall>h \<in> set ?ds. \<forall>l \<in> set ?ds. ((h + 48) * 16 mod 256) OR (l + 48) = (h * 16 + l) OR 48"
    by (simp, simp flip: numeral_2_eq_2)
  moreover have "h \<in> set ?ds" "l \<in> set ?ds" using assms by simp_all presburger+
  ultimately show ?thesis by blast
qed

definition bcd_char :: "char \<Rightarrow> bool" where
  "bcd_char c \<longleftrightarrow> code c < 128 \<and> code c div 16 < 10 \<and> code c mod 16 < 10"

lemma bin_2_hex_bcd:
  assumes "list_all bcd_char src"
  shows "\<exists>dst. yf_bin_2_hex src = Inr dst \<and> length dst = 2 * length src \<and>
    hex_2_bin_loop dst = map (\<lambda>c. char_of (code c OR 48)) src"
  using assms
proof (induction src)
  case (Cons c src)
  then obtain dst where dst: "yf_bin_2_hex src = Inr dst" "length dst = 2 * length src"
    "hex_2_bin_loop dst = map (\<lambda>c. char_of (code c OR 48)) src" by auto
  let ?h = "code c div 16" and ?l = "code c mod 16"
  have c: "code c < 128" "?h < 10" "?l < 10" using Cons.prems by (simp_all add: bcd_char_def)
  have sc: "schar c = int (code c)" using c(1) by (simp add: schar_def)
  have nn: "nat (schar c div 16) = ?h" "nat (schar c mod 16) = ?l"
    unfolding sc by (simp_all add: nat_div_distrib nat_mod_distrib)
  have "yf_bin_2_hex (c # src) = Inr (char_of (?h + 48) # char_of (?l + 48) # dst)"
    using dst(1) nth_hex_lower [OF c(2)] nth_hex_lower [OF c(3)] nn sc
    by (simp add: pos_imp_zdiv_nonneg_iff)
  moreover have "code (char_of (?h + 48)) = ?h + 48" "code (char_of (?l + 48)) = ?l + 48"
    using c by (simp_all add: code_char_of)
  moreover have "((?h + 48) * 16 mod 256) OR (?l + 48) = code c OR 48"
    using or_48 [OF c(2,3)] by simp
  ultimately show ?case using dst by simp
qed simp



lemma yf_bin_2_hex_high: "c \<in> set src \<Longrightarrow> 128 \<le> code c \<Longrightarrow> yf_bin_2_hex src = Inl Out_of_bounds"
proof (induction src)
  case (Cons a src)
  show ?case
  proof (cases "0 \<le> schar a div 16")
    case True
    have "code c < 256" by (simp add: code_def)
    then have "schar c div 16 < 0" using Cons.prems by (simp add: schar_def)
    then have "c \<noteq> a" using True by auto
    with Cons True show ?thesis by simp
  qed simp
qed simp

end
