(* ===== verification/Tm_Event.thy ===== *)
theory Tm_Event
  imports Bit_Op
begin

section \<open>The timer driver\<close>

text \<open>
  Models \<^verbatim>\<open>mio_driver/event_in/yf_tm_event_in.h\<close> and \<^verbatim>\<open>yf_tm_event_in.c\<close>: a wheel of 128
  lists of 2 ms (near timers) with a bit set of its nonempty lists, a wheel of 1024 lists of
  128 ms (far timers) and one list for the rest. Timers are numbers; a list is the sequence of
  its timers (the lists are those of theory Yf_List), and the link a timer holds names the list it
  is linked in, none for null pointers. Times are milliseconds since \<^verbatim>\<open>yf_start_times\<close>; the
  counters of periods are numbers, they would need \<open>2 ^ 64\<close> ms to wrap. The callbacks of
  expired timers are a parameter.
\<close>

datatype tm_list = Near nat | Far nat | Too_far

record tm_timer =
  tm_linker :: "tm_list option"
  tm_head :: "tm_list option"
  time_start :: nat
  time_out_ms :: nat
  is_fd_evt :: bool

record tm_driver =
  stm_evts_num :: u32
  fdtm_evts_num :: u32
  far_tm_period_cnt :: nat
  too_far_tm_period_cnt :: nat
  timeout_list :: "nat list"
  tm_free_list :: "nat list"
  tm_lists :: "tm_list \<Rightarrow> nat list"
  far_tm_roll_index :: nat
  near_flags0 :: u64
  near_flags1 :: u64
  near_evts_num :: u32
  near_tm_roll_index :: nat
  tm_period_cnt :: nat
  nearest_timeout_ms :: nat
  timers :: "nat \<Rightarrow> tm_timer"

definition YF_NEAREST_TIMER_ROLL_SIZE :: nat where "YF_NEAREST_TIMER_ROLL_SIZE = 128"
definition YF_FAR_TIMER_ROLL_SIZE :: nat where "YF_FAR_TIMER_ROLL_SIZE = 1024"
definition YF_TIMER_PRCS_MS :: nat where "YF_TIMER_PRCS_MS = 2"
definition YF_FAR_TIMER_PRCS_MS :: nat where "YF_FAR_TIMER_PRCS_MS = 128"
definition YF_NEAR_TIMER_MS_DIST :: nat where "YF_NEAR_TIMER_MS_DIST = 256"
definition YF_FAR_TIMER_MS_DIST :: nat where "YF_FAR_TIMER_MS_DIST = 131072"

lemmas tm_sizes = YF_NEAREST_TIMER_ROLL_SIZE_def YF_FAR_TIMER_ROLL_SIZE_def YF_TIMER_PRCS_MS_def
  YF_FAR_TIMER_PRCS_MS_def YF_NEAR_TIMER_MS_DIST_def YF_FAR_TIMER_MS_DIST_def

definition yf_far_timer_inc :: "tm_driver \<Rightarrow> nat \<Rightarrow> nat" where
  "yf_far_timer_inc d i = (far_tm_roll_index d + i) mod YF_FAR_TIMER_ROLL_SIZE"

definition yf_near_timer_inc :: "tm_driver \<Rightarrow> nat \<Rightarrow> nat" where
  "yf_near_timer_inc d i = (near_tm_roll_index d + i) mod YF_NEAREST_TIMER_ROLL_SIZE"

definition near_set_flag :: "nat \<Rightarrow> tm_driver \<Rightarrow> tm_driver" where
  "near_set_flag i d = (if i div 64 = 0
     then d\<lparr> near_flags0 := yf_set_bit (near_flags0 d) (i mod 64) \<rparr>
     else d\<lparr> near_flags1 := yf_set_bit (near_flags1 d) (i mod 64) \<rparr>)"

definition near_reset_flag :: "nat \<Rightarrow> tm_driver \<Rightarrow> tm_driver" where
  "near_reset_flag i d = (if i div 64 = 0
     then d\<lparr> near_flags0 := yf_reset_bit (near_flags0 d) (i mod 64) \<rparr>
     else d\<lparr> near_flags1 := yf_reset_bit (near_flags1 d) (i mod 64) \<rparr>)"

subsection \<open>Adding and deleting\<close>

definition tm_link :: "nat \<Rightarrow> tm_list \<Rightarrow> tm_driver \<Rightarrow> tm_driver" where
  "tm_link t l d = d\<lparr> tm_lists := (tm_lists d)(l := tm_lists d l @ [t]),
     timers := (timers d)(t := (timers d t)\<lparr> tm_linker := Some l \<rparr>) \<rparr>"

definition tm_unlink :: "nat \<Rightarrow> tm_driver \<Rightarrow> tm_driver" where
  "tm_unlink t d = (case tm_linker (timers d t) of
     None \<Rightarrow> d
   | Some l \<Rightarrow> d\<lparr> tm_lists := (tm_lists d)(l := removeAll t (tm_lists d l)),
       timers := (timers d)(t := (timers d t)\<lparr> tm_linker := None \<rparr>) \<rparr>)"

definition LIST_ADD_TIMER :: "nat \<Rightarrow> tm_list \<Rightarrow> tm_driver \<Rightarrow> tm_driver" where
  "LIST_ADD_TIMER t l d = (let d = tm_link t l d in
     d\<lparr> timers := (timers d)(t := (timers d t)\<lparr> tm_head := Some l \<rparr>) \<rparr>)"

definition yf_add_near_timer :: "nat \<Rightarrow> nat \<Rightarrow> tm_driver \<Rightarrow> tm_driver run" where
  "yf_add_near_timer t ms d =
     c_assert (YF_TIMER_PRCS_MS \<le> ms \<and> ms \<le> YF_NEAR_TIMER_MS_DIST)
       (let index = ms div 2 - 1;
            d = near_set_flag index d;
            d = LIST_ADD_TIMER t (Near (yf_near_timer_inc d index)) d;
            d = d\<lparr> near_evts_num := near_evts_num d + 1 \<rparr> in
        Inr (if ms < nearest_timeout_ms d then d\<lparr> nearest_timeout_ms := ms \<rparr> else d))"

text \<open>
  The link of a timer is in a union with the link of the list of expired timers: adding a timer
  that waits there for its callback would cut that list, which is a fault here.
\<close>

definition yf_add_timer :: "nat \<Rightarrow> nat \<Rightarrow> tm_driver \<Rightarrow> tm_driver run" where
  "yf_add_timer t tm_ms d =
     require Bad_argument (t \<notin> set (timeout_list d))
       (let d = (if tm_linker (timers d t) \<noteq> None then tm_unlink t d
                 else if is_fd_evt (timers d t) then d\<lparr> fdtm_evts_num := fdtm_evts_num d + 1 \<rparr>
                 else d\<lparr> stm_evts_num := stm_evts_num d + 1 \<rparr>);
            ms = align_up (max YF_TIMER_PRCS_MS tm_ms) YF_TIMER_PRCS_MS in
        if ms \<ge> YF_FAR_TIMER_MS_DIST then Inr (tm_link t Too_far d)
        else if ms \<ge> YF_NEAR_TIMER_MS_DIST then
          (let pass_mod_ms = (tm_period_cnt d * 2) mod YF_FAR_TIMER_PRCS_MS;
               diff_ms = ms - (YF_FAR_TIMER_PRCS_MS - pass_mod_ms);
               index = yf_far_timer_inc d (diff_ms div YF_FAR_TIMER_PRCS_MS) in
           Inr (LIST_ADD_TIMER t (Far index) d))
        else yf_add_near_timer t ms d)"

definition yf_del_timer :: "nat \<Rightarrow> tm_driver \<Rightarrow> int \<times> tm_driver" where
  "yf_del_timer t d =
     (if tm_linker (timers d t) = None then (YF_ERROR, d)
      else
        let d = (if is_fd_evt (timers d t) then d\<lparr> fdtm_evts_num := fdtm_evts_num d - 1 \<rparr>
                 else d\<lparr> stm_evts_num := stm_evts_num d - 1 \<rparr>);
            d = tm_unlink t d in
        case tm_head (timers d t) of
          Some (Near i) \<Rightarrow>
            (let d = (if tm_lists d (Near i) = []
                      then near_reset_flag ((i + YF_NEAREST_TIMER_ROLL_SIZE - near_tm_roll_index d)
                             mod YF_NEAREST_TIMER_ROLL_SIZE) d
                      else d) in
             (YF_OK, d\<lparr> near_evts_num := near_evts_num d - 1 \<rparr>))
        | _ \<Rightarrow> (YF_OK, d))"

subsection \<open>Expiry\<close>

definition yf_timeout_handler :: "nat \<Rightarrow> bool \<Rightarrow> tm_driver \<Rightarrow> tm_driver" where
  "yf_timeout_handler t is_nearest d =
     (let d = (if is_nearest then d\<lparr> near_evts_num := near_evts_num d - 1 \<rparr> else d) in
      d\<lparr> timers := (timers d)(t := (timers d t)\<lparr> tm_head := None \<rparr>),
         timeout_list := t # timeout_list d \<rparr>)"

text \<open>The body of the loop deletes its timer from the list; no other changes before it ends.\<close>

fun timeout_all :: "nat list \<Rightarrow> bool \<Rightarrow> tm_driver \<Rightarrow> tm_driver" where
  "timeout_all [] is_nearest d = d"
| "timeout_all (t # ts) is_nearest d =
     timeout_all ts is_nearest (yf_timeout_handler t is_nearest (tm_unlink t d))"

definition yf_list_timeout_handler :: "tm_list \<Rightarrow> bool \<Rightarrow> tm_driver \<Rightarrow> tm_driver" where
  "yf_list_timeout_handler l is_nearest d = timeout_all (tm_lists d l) is_nearest d"

fun near_row :: "int list \<Rightarrow> nat \<Rightarrow> int \<Rightarrow> tm_driver \<Rightarrow> tm_driver run" where
  "near_row [] index_begin diff d = Inl Out_of_bounds"
| "near_row (x # xs) index_begin diff d =
     (if x \<noteq> YF_END_INDEX \<and> x < diff
      then let l = Near ((index_begin + nat x) mod YF_NEAREST_TIMER_ROLL_SIZE) in
        c_assert (tm_lists d l \<noteq> [])
          (near_row xs index_begin diff (yf_list_timeout_handler l True d))
      else Inr d)"

definition yf_check_near_timer_list :: "nat \<Rightarrow> int \<Rightarrow> u16 \<Rightarrow> tm_driver \<Rightarrow> tm_driver run" where
  "yf_check_near_timer_list list_offset diff bit_val d =
     near_row (yf_bit_indexs bit_val) (yf_near_timer_inc d list_offset) diff d"

text \<open>\<^verbatim>\<open>yf_timeout_caller\<close>: \<open>cb t\<close> is what the callback of timer \<open>t\<close> makes of the driver.\<close>

partial_function (option) yf_timeout_caller ::
  "(nat \<Rightarrow> tm_driver \<Rightarrow> tm_driver run) \<Rightarrow> tm_driver \<Rightarrow> tm_driver run option" where
  "yf_timeout_caller cb d =
     (case timeout_list d of
        [] \<Rightarrow> Some (Inr d)
      | t # ts \<Rightarrow>
          (case cb t (if is_fd_evt (timers d t)
                 then d\<lparr> timeout_list := ts, fdtm_evts_num := fdtm_evts_num d - 1 \<rparr>
                 else d\<lparr> timeout_list := ts, stm_evts_num := stm_evts_num d - 1 \<rparr>) of
             Inl e \<Rightarrow> Some (Inl e)
           | Inr d \<Rightarrow> yf_timeout_caller cb d))"

subsection \<open>The next timeout\<close>

definition set_tm_ms :: "u16 \<Rightarrow> nat \<Rightarrow> tm_driver \<Rightarrow> tm_driver" where
  "set_tm_ms bitval offset_bit d =
     d\<lparr> nearest_timeout_ms := (nat (hd (yf_bit_indexs bitval) + 1) + offset_bit) * 2 \<rparr>"

definition get_nearest_tm_ms :: "u64 \<Rightarrow> nat \<Rightarrow> tm_driver \<Rightarrow> tm_driver" where
  "get_nearest_tm_ms flags offset_bit d =
     (if ubits_32 flags 0 \<noteq> 0
      then if ubits_16 flags 0 0 \<noteq> 0 then set_tm_ms (ubits_16 flags 0 0) offset_bit d
        else set_tm_ms (ubits_16 flags 0 1) (offset_bit + 16) d
      else if ubits_16 flags 1 0 \<noteq> 0 then set_tm_ms (ubits_16 flags 1 0) (offset_bit + 32) d
        else set_tm_ms (ubits_16 flags 1 1) (offset_bit + 48) d)"

definition yf_update_nearest_tm_ms :: "tm_driver \<Rightarrow> tm_driver run" where
  "yf_update_nearest_tm_ms d =
     (if near_evts_num d \<noteq> 0
      then if near_flags0 d \<noteq> 0 then Inr (get_nearest_tm_ms (near_flags0 d) 0 d)
        else c_assert (near_flags1 d \<noteq> 0) (Inr (get_nearest_tm_ms (near_flags1 d) 64 d))
      else
        let unempty = (if tm_lists d (Far (yf_far_timer_inc d 1)) \<noteq> [] then 1
                       else if tm_lists d (Far (yf_far_timer_inc d 2)) \<noteq> [] then 2 else 3) in
        Inr (d\<lparr> nearest_timeout_ms := unempty * YF_FAR_TIMER_PRCS_MS \<rparr>))"

definition yf_init_tm_driver :: "bool \<Rightarrow> nat \<Rightarrow> tm_driver \<Rightarrow> (int \<times> tm_driver) run" where
  "yf_init_tm_driver alloc_ok nstimers d =
     (if \<not> alloc_ok then Inr (YF_ERROR, d)
      else run_bind (yf_update_nearest_tm_ms
          (d\<lparr> timeout_list := [], tm_free_list := [0..<nstimers], tm_lists := (\<lambda>_. []),
             tm_period_cnt := 0 \<rparr>)) (\<lambda>d. Inr (YF_OK, d)))"

subsection \<open>Polling\<close>

text \<open>
  The near timers: \<open>near_part\<close> is one expansion of \<^verbatim>\<open>YF_TEST_BIT16\<close>, \<open>near_word\<close> one pass
  of the loop over the halves of a flag word and \<open>near_flag\<close> one pass from the label
  \<^verbatim>\<open>check_near_timer\<close>. Each also returns \<^verbatim>\<open>tmp_diff_periods\<close>; the jump to
  \<^verbatim>\<open>update_near_flags\<close> is taken where it is not positive.
\<close>

definition near_flags :: "tm_driver \<Rightarrow> nat \<Rightarrow> u64" where
  "near_flags d flag_index = (if flag_index = 0 then near_flags0 d else near_flags1 d)"

definition near_part :: "nat \<Rightarrow> nat \<Rightarrow> nat \<Rightarrow> int \<times> tm_driver \<Rightarrow> (int \<times> tm_driver) run" where
  "near_part flag_index words_part part = (\<lambda>(tmp, d).
     let bit_val = ubits_16 (near_flags d flag_index) words_part part in
     run_bind (if bit_val \<noteq> 0
               then yf_check_near_timer_list (64 * flag_index + 32 * words_part + 16 * part) tmp bit_val d
               else Inr d) (\<lambda>d. Inr (tmp - 16, d)))"

definition near_word :: "nat \<Rightarrow> nat \<Rightarrow> int \<times> tm_driver \<Rightarrow> (int \<times> tm_driver) run" where
  "near_word flag_index words_part = (\<lambda>(tmp, d).
     if ubits_32 (near_flags d flag_index) words_part \<noteq> 0
     then run_bind (near_part flag_index words_part 0 (tmp, d)) (\<lambda>(tmp, d).
       if tmp \<le> 0 then Inr (tmp, d) else near_part flag_index words_part 1 (tmp, d))
     else Inr (tmp - 32, d))"

definition near_flag :: "nat \<Rightarrow> int \<times> tm_driver \<Rightarrow> (int \<times> tm_driver) run" where
  "near_flag flag_index = (\<lambda>(tmp, d).
     if near_flags d flag_index \<noteq> 0
     then run_bind (near_word flag_index 0 (tmp, d)) (\<lambda>(tmp, d).
       if tmp \<le> 0 then Inr (tmp, d) else near_word flag_index 1 (tmp, d))
     else Inr (tmp - 64, d))"

text \<open>With at most 128 periods the second pass ends with none left.\<close>

definition near_scan :: "nat \<Rightarrow> tm_driver \<Rightarrow> tm_driver run" where
  "near_scan diff d =
     run_bind (near_flag 0 (int (min diff YF_NEAREST_TIMER_ROLL_SIZE), d)) (\<lambda>(tmp, d).
     if tmp > 0 then run_bind (near_flag 1 (tmp, d)) (\<lambda>(tmp, d). Inr d) else Inr d)"

definition update_near_flags :: "nat \<Rightarrow> tm_driver \<Rightarrow> tm_driver run" where
  "update_near_flags diff d =
     (if diff < YF_NEAREST_TIMER_ROLL_SIZE \<and> near_evts_num d \<noteq> 0
      then let d = d\<lparr> near_tm_roll_index := yf_near_timer_inc d diff \<rparr> in
        Inr (if diff < 64
          then d\<lparr> near_flags0 := drop_bit diff (near_flags0 d) OR push_bit (64 - diff) (near_flags1 d),
                  near_flags1 := drop_bit diff (near_flags1 d) \<rparr>
          else d\<lparr> near_flags0 := drop_bit (diff - 64) (near_flags1 d), near_flags1 := 0 \<rparr>)
      else c_assert (diff \<ge> YF_NEAREST_TIMER_ROLL_SIZE \<longrightarrow> near_evts_num d = 0)
        (Inr (d\<lparr> near_flags0 := 0, near_flags1 := 0 \<rparr>)))"

definition poll_near :: "nat \<Rightarrow> tm_driver \<Rightarrow> tm_driver run" where
  "poll_near diff d =
     (if near_evts_num d \<noteq> 0 then run_bind (near_scan diff d) (update_near_flags diff) else Inr d)"

text \<open>
  The far timers. The list that may hold both expired and near timers is moved timer by
  timer, and so is the list the wheel arrives at.
\<close>

fun move_mid :: "nat \<Rightarrow> nat list \<Rightarrow> tm_driver \<Rightarrow> tm_driver run" where
  "move_mid now [] d = Inr d"
| "move_mid now (t # ts) d =
     (let time_ms = time_out_ms (timers d t); passed_tv = now - time_start (timers d t);
          d = tm_unlink t d in
      if passed_tv \<ge> time_ms then move_mid now ts (yf_timeout_handler t False d)
      else run_bind (yf_add_near_timer t (align_up (time_ms - passed_tv) YF_TIMER_PRCS_MS) d)
             (move_mid now ts))"

fun move_prev :: "nat \<Rightarrow> nat list \<Rightarrow> tm_driver \<Rightarrow> tm_driver run" where
  "move_prev now [] d = Inr d"
| "move_prev now (t # ts) d =
     (let time_ms = time_out_ms (timers d t); passed_tv = now - time_start (timers d t);
          time_ms = max (time_ms - passed_tv) YF_TIMER_PRCS_MS in
      run_bind (yf_add_near_timer t (align_up time_ms YF_TIMER_PRCS_MS) (tm_unlink t d))
        (move_prev now ts))"

fun far_expired :: "nat list \<Rightarrow> tm_driver \<Rightarrow> tm_driver" where
  "far_expired [] d = d"
| "far_expired (i # is) d =
     far_expired is (yf_list_timeout_handler (Far (yf_far_timer_inc d i)) False d)"

definition poll_far :: "nat \<Rightarrow> nat \<Rightarrow> tm_driver \<Rightarrow> tm_driver run" where
  "poll_far now diff d =
     run_bind (if diff > 1
               then let d = far_expired [1..<diff - 1] d;
                        l = Far (yf_far_timer_inc d (diff - 1)) in
                    move_mid now (tm_lists d l) d
               else Inr d) (\<lambda>d.
     let d = d\<lparr> far_tm_roll_index := yf_far_timer_inc d diff \<rparr> in
     move_prev now (tm_lists d (Far (far_tm_roll_index d))) d)"

text \<open>
  The timers too far for the wheel. \<^verbatim>\<open>yf_list_for_each_safe\<close> reads the next timer before the
  body moves the current one; a timer with \<open>131071\<close> ms left is rounded up and added at the end
  of the list that is traversed.
\<close>

fun tm_next :: "nat \<Rightarrow> nat list \<Rightarrow> nat option" where
  "tm_next t (a # b # xs) = (if a = t then Some b else tm_next t (b # xs))"
| "tm_next t xs = None"

definition too_far_rest :: "nat \<Rightarrow> tm_timer \<Rightarrow> nat" where
  "too_far_rest now x =
     (let passed_ms = now - time_start x in
      if passed_ms \<ge> time_out_ms x then 0 else time_out_ms x - passed_ms)"

partial_function (option) too_far_loop ::
  "nat \<Rightarrow> nat option \<Rightarrow> bool \<Rightarrow> tm_driver \<Rightarrow> (bool \<times> tm_driver) run option" where
  "too_far_loop now pos big_lacy d =
     (case pos of
        None \<Rightarrow> Some (Inr (big_lacy, d))
      | Some t \<Rightarrow>
          (let keep = tm_next t (tm_lists d Too_far);
               rest_ms = too_far_rest now (timers d t) in
           if rest_ms \<ge> YF_FAR_TIMER_MS_DIST then too_far_loop now keep big_lacy d
           else case yf_add_timer t rest_ms d of
               Inl e \<Rightarrow> Some (Inl e)
             | Inr d \<Rightarrow> too_far_loop now keep (big_lacy \<or> rest_ms < YF_NEAR_TIMER_MS_DIST) d))"

definition poll_too_far :: "nat \<Rightarrow> tm_driver \<Rightarrow> tm_driver run option" where
  "poll_too_far now d =
     (let pos = (case tm_lists d Too_far of [] \<Rightarrow> None | t # _ \<Rightarrow> Some t) in
      Option.bind (too_far_loop now pos False d) (\<lambda>r.
      Some (run_bind r (\<lambda>(big_lacy, d). if big_lacy then yf_update_nearest_tm_ms d else Inr d))))"

definition and_call ::
  "(nat \<Rightarrow> tm_driver \<Rightarrow> tm_driver run) \<Rightarrow> tm_driver run \<Rightarrow> tm_driver run option" where
  "and_call cb r = (case r of Inl e \<Rightarrow> Some (Inl e) | Inr d \<Rightarrow> yf_timeout_caller cb d)"

definition yf_poll_timer ::
  "(nat \<Rightarrow> tm_driver \<Rightarrow> tm_driver run) \<Rightarrow> nat \<Rightarrow> tm_driver \<Rightarrow> tm_driver run option" where
  "yf_poll_timer cb now d =
     (let passed = now div 2 in
      if \<not> tm_period_cnt d \<le> passed then Some (Inl Assert_failed)
      else if passed = tm_period_cnt d then Some (Inr d)
      else case poll_near (passed - tm_period_cnt d) (d\<lparr> tm_period_cnt := passed \<rparr>) of
          Inl e \<Rightarrow> Some (Inl e)
        | Inr d \<Rightarrow>
          (let far_passed = passed div 64 in
           if \<not> far_tm_period_cnt d \<le> far_passed then Some (Inl Assert_failed)
           else if far_passed = far_tm_period_cnt d then and_call cb (yf_update_nearest_tm_ms d)
           else case run_bind (poll_far now (far_passed - far_tm_period_cnt d)
                    (d\<lparr> far_tm_period_cnt := far_passed \<rparr>)) yf_update_nearest_tm_ms of
               Inl e \<Rightarrow> Some (Inl e)
             | Inr d \<Rightarrow>
               (let too_far_passed = far_passed div 512 in
                if \<not> too_far_tm_period_cnt d \<le> too_far_passed then Some (Inl Assert_failed)
                else if too_far_passed = too_far_tm_period_cnt d then yf_timeout_caller cb d
                else Option.bind (poll_too_far now (d\<lparr> too_far_tm_period_cnt := too_far_passed \<rparr>))
                  (and_call cb))))"

definition yf_on_time_reset :: "tm_driver \<Rightarrow> tm_driver" where
  "yf_on_time_reset d = d\<lparr> tm_period_cnt := 0, far_tm_period_cnt := 0, too_far_tm_period_cnt := 0 \<rparr>"

subsection \<open>Timer events\<close>

definition tm_timer0 :: tm_timer where
  "tm_timer0 = \<lparr> tm_linker = None, tm_head = None, time_start = 0, time_out_ms = 0, is_fd_evt = False \<rparr>"

definition yf_alloc_tm_evt :: "tm_driver \<Rightarrow> (int \<times> nat option) \<times> tm_driver" where
  "yf_alloc_tm_evt d = (case tm_free_list d of
     [] \<Rightarrow> ((YF_ERROR, None), d)
   | t # ts \<Rightarrow> ((YF_OK, Some t), d\<lparr> tm_free_list := ts, timers := (timers d)(t := tm_timer0) \<rparr>))"

definition yf_free_tm_evt :: "nat \<Rightarrow> tm_driver \<Rightarrow> (int \<times> tm_driver) run" where
  "yf_free_tm_evt t d =
     (let d = snd (yf_del_timer t d) in
      if is_fd_evt (timers d t) then Inr (YF_ERROR, d)
      else require Bad_argument (t \<notin> set (timeout_list d))
        (Inr (YF_OK, d\<lparr> tm_free_list := t # tm_free_list d \<rparr>)))"

definition yf_set_timer_val :: "nat \<Rightarrow> nat \<Rightarrow> nat \<Rightarrow> bool \<Rightarrow> tm_driver \<Rightarrow> tm_driver" where
  "yf_set_timer_val t now out_ms fd d = d\<lparr> timers := (timers d)(t := (timers d t)
     \<lparr> time_out_ms := out_ms mod 2 ^ 30, time_start := now, is_fd_evt := fd \<rparr>) \<rparr>"

definition yf_register_tm_evt :: "nat \<Rightarrow> nat \<Rightarrow> nat \<Rightarrow> tm_driver \<Rightarrow> tm_driver run" where
  "yf_register_tm_evt t now out_ms d =
     (let d = yf_set_timer_val t now out_ms False d in
      yf_add_timer t (time_out_ms (timers d t)) d)"

definition yf_unregister_tm_evt :: "nat \<Rightarrow> tm_driver \<Rightarrow> int \<times> tm_driver" where
  "yf_unregister_tm_evt t d = yf_del_timer t d"

end
