(* ===== verification/Tm_Wheel.thy ===== *)
theory Tm_Wheel
  imports Tm_Event
begin

section \<open>The near wheel\<close>

text \<open>
  The near wheel of theory Tm_Event as a set of countdowns: the timer in the slot \<open>k\<close> places
  after the roll index has \<open>k + 1\<close> periods left. Adding, deleting and polling a wheel is adding
  to, deleting from and counting down that set, although a poll finds the lists through the flag
  words and the table of set bits.
\<close>

subsection \<open>Expiring a list\<close>

definition links_ok :: "tm_driver \<Rightarrow> bool" where
  "links_ok d \<longleftrightarrow> (\<forall>t l. t \<in> set (tm_lists d l) \<longleftrightarrow> tm_linker (timers d t) = Some l) \<and>
     (\<forall>l. distinct (tm_lists d l)) \<and>
     (\<forall>t i. tm_linker (timers d t) = Some (Near i) \<longrightarrow> tm_head (timers d t) = Some (Near i))"

definition expire :: "tm_list \<Rightarrow> bool \<Rightarrow> tm_driver \<Rightarrow> tm_driver" where
  "expire l near d = d\<lparr> tm_lists := (tm_lists d)(l := []),
     timers := (\<lambda>t. if t \<in> set (tm_lists d l)
                    then (timers d t)\<lparr> tm_linker := None, tm_head := None \<rparr> else timers d t),
     near_evts_num := near_evts_num d - (if near then of_nat (length (tm_lists d l)) else 0),
     timeout_list := rev (tm_lists d l) @ timeout_list d \<rparr>"

lemma links_ok_D:
  assumes "links_ok d"
  shows "t \<in> set (tm_lists d l) \<longleftrightarrow> tm_linker (timers d t) = Some l" "distinct (tm_lists d l)"
    "tm_linker (timers d t) = Some (Near i) \<Longrightarrow> tm_head (timers d t) = Some (Near i)"
  using assms unfolding links_ok_def by blast+

lemma four_fields:
  "\<lbrakk>a = a'; b = b'; c = c'; e = e'\<rbrakk> \<Longrightarrow>
   d\<lparr> tm_lists := a, timers := b, near_evts_num := c, timeout_list := e \<rparr> =
   d\<lparr> tm_lists := a', timers := b', near_evts_num := c', timeout_list := e' \<rparr>"
  by simp

lemma timeout_all_spec:
  assumes "distinct ts" "tm_lists d l = ts" "\<And>t. t \<in> set ts \<Longrightarrow> tm_linker (timers d t) = Some l"
  shows "timeout_all ts near d = expire l near d"
  using assms
proof (induction ts arbitrary: d)
  case Nil
  then show ?case by (simp add: expire_def fun_upd_idem)
next
  case (Cons t ts)
  have l: "tm_linker (timers d t) = Some l" using Cons.prems(3) by simp
  have t: "t \<notin> set ts" using Cons.prems(1) by simp
  define D where "D = d\<lparr> tm_lists := (tm_lists d)(l := ts),
    timers := (timers d)(t := (timers d t)\<lparr> tm_linker := None, tm_head := None \<rparr>),
    near_evts_num := near_evts_num d - (if near then 1 else 0), timeout_list := t # timeout_list d \<rparr>"
  have "removeAll t (t # ts) = ts" using t by simp
  then have D: "yf_timeout_handler t near (tm_unlink t d) = D"
    unfolding D_def using l Cons.prems(2)
    by (cases near) (simp_all add: yf_timeout_handler_def tm_unlink_def Let_def)
  have "timeout_all ts near D = expire l near D"
    by (rule Cons.IH) (use Cons.prems t in \<open>auto simp: D_def\<close>)
  also have "\<dots> = expire l near d"
  proof -
    have "expire l near D = d\<lparr> tm_lists := (tm_lists d)(l := []),
      timers := (\<lambda>a. if a \<in> set ts then (timers D a)\<lparr> tm_linker := None, tm_head := None \<rparr> else timers D a),
      near_evts_num := near_evts_num d - (if near then 1 else 0) - (if near then of_nat (length ts) else 0),
      timeout_list := rev ts @ t # timeout_list d \<rparr>"
    proof -
      have over: "D\<lparr> tm_lists := a, timers := b, near_evts_num := c, timeout_list := e \<rparr> =
          d\<lparr> tm_lists := a, timers := b, near_evts_num := c, timeout_list := e \<rparr>" for a b c e
        unfolding D_def by simp
      have sel: "tm_lists D l = ts" "(tm_lists D)(l := []) = (tm_lists d)(l := [])"
        "near_evts_num D = near_evts_num d - (if near then 1 else 0)" "timeout_list D = t # timeout_list d"
        unfolding D_def by simp_all
      show ?thesis unfolding expire_def over sel ..
    qed
    also have "\<dots> = expire l near d"
      unfolding expire_def Cons.prems(2)
    proof (rule four_fields)
      show "near_evts_num d - (if near then 1 else 0) - (if near then of_nat (length ts) else 0) =
          near_evts_num d - (if near then of_nat (length (t # ts)) else 0)"
        by (cases near) simp_all
      show "(\<lambda>a. if a \<in> set ts then (timers D a)\<lparr> tm_linker := None, tm_head := None \<rparr> else timers D a) =
          (\<lambda>a. if a \<in> set (t # ts) then (timers d a)\<lparr> tm_linker := None, tm_head := None \<rparr> else timers d a)"
        by (rule ext) (simp add: D_def)
    qed simp_all
    finally show ?thesis .
  qed
  finally show ?case by (simp add: D)
qed

lemma list_timeout_spec: "links_ok d \<Longrightarrow> yf_list_timeout_handler l near d = expire l near d"
  unfolding yf_list_timeout_handler_def
  by (rule timeout_all_spec) (auto simp: links_ok_D)

lemma expire_links: "links_ok d \<Longrightarrow> links_ok (expire l near d)"
  by (auto simp: links_ok_def expire_def)

lemma expire_empty: "tm_lists d l = [] \<Longrightarrow> expire l near d = d"
  by (simp add: expire_def fun_upd_idem)

lemma expire_simps [simp]:
  "near_flags (expire l near d) = near_flags d"
  "near_flags0 (expire l near d) = near_flags0 d" "near_flags1 (expire l near d) = near_flags1 d"
  "near_tm_roll_index (expire l near d) = near_tm_roll_index d"
  "tm_lists (expire l near d) = (tm_lists d)(l := [])"
  "timeout_list (expire l near d) = rev (tm_lists d l) @ timeout_list d"
  "tm_period_cnt (expire l near d) = tm_period_cnt d" "far_tm_period_cnt (expire l near d) = far_tm_period_cnt d"
  by (simp_all add: expire_def near_flags_def fun_eq_iff)

subsection \<open>Slots and flags\<close>

definition slot_at :: "tm_driver \<Rightarrow> nat \<Rightarrow> nat" where
  "slot_at d k = (near_tm_roll_index d + k) mod 128"

definition near_slot :: "tm_driver \<Rightarrow> nat \<Rightarrow> nat list" where
  "near_slot d k = tm_lists d (Near (slot_at d k))"

definition near_flag_bit :: "tm_driver \<Rightarrow> nat \<Rightarrow> bool" where
  "near_flag_bit d k = bit (near_flags d (k div 64)) (k mod 64)"

definition near_count :: "tm_driver \<Rightarrow> nat" where
  "near_count d = (\<Sum>i < 128. length (tm_lists d (Near i)))"

definition wheel_inv :: "tm_driver \<Rightarrow> bool" where
  "wheel_inv d \<longleftrightarrow> links_ok d \<and> near_tm_roll_index d < 128 \<and>
     (\<forall>k < 128. near_flag_bit d k \<longleftrightarrow> near_slot d k \<noteq> []) \<and>
     near_evts_num d = of_nat (near_count d) \<and> near_count d < 2 ^ 32"

lemma shift_mod_inj:
  fixes n :: nat
  assumes "(r + j) mod n = (r + k) mod n" "j < n" "k < n" shows "j = k"
  using assms
proof (induction j k rule: linorder_wlog)
  case (le j k)
  have "r + j \<le> r + k" using le(1) by simp
  then obtain q where "r + k = r + j + n * q" using le(2) by (elim mod_eq_nat2E)
  then have "k = j + n * q" by simp
  with le show ?case by (cases q) auto
qed simp

lemma slot_at_inj: "j < 128 \<Longrightarrow> k < 128 \<Longrightarrow> slot_at d j = slot_at d k \<longleftrightarrow> j = k"
  unfolding slot_at_def using shift_mod_inj [of "near_tm_roll_index d" j 128 k] by blast

text \<open>Expiring the first \<open>n\<close> slots.\<close>

primrec expire_upto :: "nat \<Rightarrow> tm_driver \<Rightarrow> tm_driver" where
  "expire_upto 0 d = d"
| "expire_upto (Suc n) d = expire (Near (slot_at d n)) True (expire_upto n d)"

lemma expire_upto_simps [simp]:
  "near_flags (expire_upto n d) = near_flags d"
  "near_flags0 (expire_upto n d) = near_flags0 d" "near_flags1 (expire_upto n d) = near_flags1 d"
  "near_tm_roll_index (expire_upto n d) = near_tm_roll_index d"
  "tm_period_cnt (expire_upto n d) = tm_period_cnt d" "far_tm_period_cnt (expire_upto n d) = far_tm_period_cnt d"
  by (induction n) simp_all

lemma expire_slot_at [simp]: "slot_at (expire l near d) = slot_at d"
  by (simp add: slot_at_def fun_eq_iff)

lemma expire_upto_slot_at [simp]: "slot_at (expire_upto n d) = slot_at d"
  by (simp add: slot_at_def fun_eq_iff)

lemma expire_upto_links: "links_ok d \<Longrightarrow> links_ok (expire_upto n d)"
  by (induction n) (simp_all add: expire_links)

lemma expire_upto_slot:
  "n \<le> 128 \<Longrightarrow> k < 128 \<Longrightarrow> near_slot (expire_upto n d) k = (if k < n then [] else near_slot d k)"
  by (induction n) (auto simp: near_slot_def less_Suc_eq slot_at_inj)

lemma expire_upto_timeout:
  "n \<le> 128 \<Longrightarrow> timeout_list (expire_upto n d) =
     rev (concat (map (near_slot d) [0..<n])) @ timeout_list d"
proof (induction n)
  case (Suc n)
  have "tm_lists (expire_upto n d) (Near (slot_at d n)) = near_slot d n"
    using expire_upto_slot [of n n d] Suc.prems by (simp add: near_slot_def)
  with Suc show ?case by simp
qed simp

lemma expire_upto_far: "\<forall>i. l \<noteq> Near i \<Longrightarrow> tm_lists (expire_upto n d) l = tm_lists d l"
  by (induction n) auto

lemma expire_upto_skip:
  "\<lbrakk>n \<le> m; m \<le> 128; \<And>k. n \<le> k \<Longrightarrow> k < m \<Longrightarrow> near_slot d k = []\<rbrakk> \<Longrightarrow> expire_upto m d = expire_upto n d"
proof (induction m)
  case (Suc m)
  show ?case
  proof (cases "n = Suc m")
    case False
    then have n: "n \<le> m" using Suc.prems(1) by simp
    then have IH: "expire_upto m d = expire_upto n d" using Suc by simp
    have "near_slot (expire_upto m d) m = []"
      using expire_upto_slot [of m m d] Suc.prems(2) Suc.prems(3) [of m] n by simp
    then show ?thesis using IH by (simp add: near_slot_def expire_empty)
  qed simp
qed simp

lemma count_expire:
  "i < 128 \<Longrightarrow> near_count d = length (tm_lists d (Near i)) + near_count (expire (Near i) near d)"
proof -
  assume i: "i < 128"
  have "near_count d = length (tm_lists d (Near i)) + (\<Sum>j \<in> {..<128} - {i}. length (tm_lists d (Near j)))"
    unfolding near_count_def using i by (intro sum.remove) auto
  also have "(\<Sum>j \<in> {..<128} - {i}. length (tm_lists d (Near j))) =
      (\<Sum>j \<in> {..<128} - {i}. length (tm_lists (expire (Near i) near d) (Near j)))"
    by (intro sum.cong) auto
  also have "\<dots> = near_count (expire (Near i) near d)"
  proof -
    have "near_count (expire (Near i) near d) = length (tm_lists (expire (Near i) near d) (Near i)) +
        (\<Sum>j \<in> {..<128} - {i}. length (tm_lists (expire (Near i) near d) (Near j)))"
      unfolding near_count_def using i by (intro sum.remove) auto
    then show ?thesis by simp
  qed
  finally show ?thesis .
qed

lemma expire_count:
  "near_evts_num d = of_nat (near_count d) \<Longrightarrow>
   near_evts_num (expire_upto n d) = of_nat (near_count (expire_upto n d)) \<and>
   near_count (expire_upto n d) \<le> near_count d"
proof (induction n)
  case (Suc n)
  let ?d = "expire_upto n d" and ?i = "slot_at d n"
  have IH: "near_evts_num ?d = of_nat (near_count ?d)" "near_count ?d \<le> near_count d" using Suc by auto
  have c: "near_count ?d = length (tm_lists ?d (Near ?i)) + near_count (expire_upto (Suc n) d)"
    using count_expire [of ?i ?d True] by (simp add: slot_at_def)
  have "near_evts_num (expire_upto (Suc n) d) = near_evts_num ?d - of_nat (length (tm_lists ?d (Near ?i)))"
    by (simp add: expire_def)
  then show ?case using c IH by simp
qed simp

subsection \<open>Scanning the flags\<close>

lemma wheel_inv_D:
  assumes "wheel_inv d"
  shows "links_ok d" "near_tm_roll_index d < 128"
    "k < 128 \<Longrightarrow> near_flag_bit d k \<longleftrightarrow> near_slot d k \<noteq> []"
    "near_evts_num d = of_nat (near_count d)" "near_count d < 2 ^ 32"
  using assms unfolding wheel_inv_def by blast+

lemma expire_upto_step:
  assumes "k < 128" "n \<le> 128" "near_slot d k = []"
  shows "expire_upto (min n (Suc k)) d = expire_upto (min n k) d"
proof (rule expire_upto_skip)
  show "near_slot d j = []" if "min n k \<le> j" "j < min n (Suc k)" for j
  proof -
    have "j = k" using that by auto
    then show ?thesis using assms(3) by simp
  qed
qed (use assms in auto)

lemma near_row_spec:
  assumes "links_ok d" "n \<le> 128" "o16 + 16 \<le> 128" "i \<le> 16"
    and P: "\<And>x. x < 16 \<Longrightarrow> P x \<longleftrightarrow> near_slot d (o16 + x) \<noteq> []"
  shows "near_row (map int (filter P [i..<16]) @ [YF_END_INDEX]) (slot_at d o16) (int n - int o16)
      (expire_upto (min n (o16 + i)) d) = Inr (expire_upto (min n (o16 + 16)) d)"
  using assms(4)
proof (induction "16 - i" arbitrary: i)
  case 0
  then show ?case by simp
next
  case (Suc m)
  then have i: "i < 16" "m = 16 - Suc i" by auto
  have IH: "near_row (map int (filter P [Suc i..<16]) @ [YF_END_INDEX]) (slot_at d o16) (int n - int o16)
      (expire_upto (min n (o16 + Suc i)) d) = Inr (expire_upto (min n (o16 + 16)) d)"
    using Suc.hyps(1) [OF i(2)] i(1) by simp
  have k: "o16 + i < 128" using assms(3) i by simp
  have upt: "[i..<16] = i # [Suc i..<16]" using i(1) by (rule upt_conv_Cons)
  show ?case
  proof (cases "P i")
    case False
    then have "near_slot d (o16 + i) = []" using P i by simp
    then have "expire_upto (min n (o16 + i)) d = expire_upto (min n (o16 + Suc i)) d"
      using expire_upto_step [OF k assms(2)] by simp
    then show ?thesis unfolding upt using IH False by simp
  next
    case True
    show ?thesis
    proof (cases "o16 + i < n")
      case False
      then have "min n (o16 + i) = n" "min n (o16 + 16) = n" "\<not> int i < int n - int o16"
        using i(1) by auto
      then show ?thesis unfolding upt using True by simp
    next
      case lt: True
      let ?d = "expire_upto (o16 + i) d"
      have m: "min n (o16 + i) = o16 + i" "min n (o16 + Suc i) = Suc (o16 + i)" "int i < int n - int o16"
        using lt by auto
      have s: "(slot_at d o16 + i) mod YF_NEAREST_TIMER_ROLL_SIZE = slot_at d (o16 + i)"
        by (simp add: slot_at_def tm_sizes mod_add_left_eq add.assoc)
      have "near_slot ?d (o16 + i) = near_slot d (o16 + i)"
        using expire_upto_slot [of "o16 + i" "o16 + i" d] k by simp
      then have ne: "tm_lists ?d (Near (slot_at d (o16 + i))) \<noteq> []"
        using True P [OF i(1)] by (simp add: near_slot_def)
      have e: "yf_list_timeout_handler (Near (slot_at d (o16 + i))) True ?d = expire_upto (Suc (o16 + i)) d"
        using list_timeout_spec [OF expire_upto_links [OF assms(1)]] by simp
      show ?thesis
        unfolding upt m using True m(3) ne e IH [unfolded m(2)]
        by (simp add: YF_END_INDEX_def Let_def s m del: expire_upto.simps)
    qed
  qed
qed

lemma div_mod_64: "r < 64 \<Longrightarrow> (64 * fi + r) div 64 = fi \<and> (64 * fi + r) mod 64 = (r :: nat)"
  by simp

lemma flag_bits:
  assumes "fi < 2" "wp < 2" "part < 2" "x < 16"
  shows "bit (ubits_16 (near_flags d fi) wp part) x \<longleftrightarrow> near_flag_bit d (64 * fi + 32 * wp + 16 * part + x)"
proof -
  let ?k = "64 * fi + 32 * wp + 16 * part + x"
  have "32 * wp + 16 * part + x < 64" using assms by simp
  then have "?k div 64 = fi" "?k mod 64 = 32 * wp + 16 * part + x"
    using div_mod_64 [of "32 * wp + 16 * part + x" fi] by (simp_all only: add.assoc)
  then show ?thesis using assms(4) by (simp add: near_flag_bit_def ubits_16_def bit_simps add.commute)
qed

lemma word_bits:
  assumes "fi < 2" "wp < 2" "x < 32"
  shows "bit (ubits_32 (near_flags d fi) wp) x \<longleftrightarrow> near_flag_bit d (64 * fi + 32 * wp + x)"
proof -
  let ?k = "64 * fi + 32 * wp + x"
  have "32 * wp + x < 64" using assms by simp
  then have "?k div 64 = fi" "?k mod 64 = 32 * wp + x"
    using div_mod_64 [of "32 * wp + x" fi] by (simp_all only: add.assoc)
  then show ?thesis using assms(3) by (simp add: near_flag_bit_def ubits_32_def bit_simps add.commute)
qed

text \<open>The state of the scan when it has passed the first \<open>o16\<close> periods of \<open>n\<close>.\<close>

definition scanned :: "nat \<Rightarrow> tm_driver \<Rightarrow> nat \<Rightarrow> int \<times> tm_driver" where
  "scanned n d k = (int n - int k, expire_upto (min n k) d)"

lemma skip_slots:
  assumes "n \<le> 128" "k + m \<le> 128" "\<And>x. x < m \<Longrightarrow> near_slot d (k + x) = []"
  shows "expire_upto (min n (k + m)) d = expire_upto (min n k) d"
proof (rule expire_upto_skip)
  show "near_slot d j = []" if "min n k \<le> j" "j < min n (k + m)" for j
  proof -
    have "j = k + (j - k)" "j - k < m" using that by auto
    then show ?thesis using assms(3) [of "j - k"] by simp
  qed
qed (use assms in auto)

lemma near_part_spec:
  assumes inv: "wheel_inv d" and n: "n \<le> 128" and b: "fi < 2" "wp < 2" "part < 2"
    and o16: "o16 = 64 * fi + 32 * wp + 16 * part"
  shows "near_part fi wp part (scanned n d o16) = Inr (scanned n d (o16 + 16))"
proof -
  note i = wheel_inv_D [OF inv]
  let ?w = "ubits_16 (near_flags d fi) wp part"
  have le: "o16 + 16 \<le> 128" using b o16 by auto
  have P: "bit ?w x \<longleftrightarrow> near_slot d (o16 + x) \<noteq> []" if "x < 16" for x
    using flag_bits [OF b that, of d] i(3) [of "o16 + x"] le that o16 by simp
  have tmp: "int n - int o16 - 16 = int n - int (o16 + 16)" by simp
  show ?thesis
  proof (cases "?w = 0")
    case True
    have "expire_upto (min n (o16 + 16)) d = expire_upto (min n o16) d"
      using P True le n by (intro skip_slots) auto
    then show ?thesis using True tmp by (simp add: near_part_def scanned_def)
  next
    case False
    have "near_row (yf_bit_indexs ?w) (slot_at d o16) (int n - int o16) (expire_upto (min n (o16 + 0)) d) =
        Inr (expire_upto (min n (o16 + 16)) d)"
      unfolding yf_bit_indexs_spec using near_row_spec [OF i(1) n le _ P, of 0] by simp
    then show ?thesis
      using False tmp o16
      by (simp add: near_part_def scanned_def yf_check_near_timer_list_def yf_near_timer_inc_def
          slot_at_def tm_sizes)
  qed
qed

lemma near_word_spec:
  assumes inv: "wheel_inv d" and n: "n \<le> 128" and b: "fi < 2" "wp < 2"
    and k: "k = 64 * fi + 32 * wp"
  shows "\<exists>k'. near_word fi wp (scanned n d k) = Inr (scanned n d k') \<and> (k' = k + 32 \<or> n \<le> k')"
proof (cases "ubits_32 (near_flags d fi) wp = 0")
  case True
  have "near_slot d (k + x) = []" if "x < 32" for x
    using word_bits [OF b that, of d] wheel_inv_D(3) [OF inv, of "k + x"] b k that True by auto
  then have "expire_upto (min n (k + 32)) d = expire_upto (min n k) d"
    using n b k by (intro skip_slots) auto
  then have "near_word fi wp (scanned n d k) = Inr (scanned n d (k + 32))"
    using True by (simp add: near_word_def scanned_def)
  then show ?thesis by blast
next
  case False
  have 0: "near_part fi wp 0 (scanned n d k) = Inr (scanned n d (k + 16))"
    using near_part_spec [OF inv n b, of 0 k] k by simp
  have 1: "near_part fi wp 1 (scanned n d (k + 16)) = Inr (scanned n d (k + 16 + 16))"
    using near_part_spec [OF inv n b, of 1 "k + 16"] k by simp
  show ?thesis
  proof (cases "n \<le> k + 16")
    case True
    have "near_word fi wp (scanned n d k) = Inr (scanned n d (k + 16))"
      using 0 False True by (simp add: near_word_def scanned_def)
    then show ?thesis using True by blast
  next
    case gt: False
    have "near_word fi wp (scanned n d k) = Inr (scanned n d (k + 16 + 16))"
      using 0 1 False gt by (simp add: near_word_def scanned_def)
    then show ?thesis by (intro exI [of _ "k + 16 + 16"]) simp
  qed
qed

lemma near_flag_spec:
  assumes inv: "wheel_inv d" and n: "n \<le> 128" and b: "fi < 2" and k: "k = 64 * fi"
  shows "\<exists>k'. near_flag fi (scanned n d k) = Inr (scanned n d k') \<and> (k' = k + 64 \<or> n \<le> k')"
proof (cases "near_flags d fi = 0")
  case True
  have "near_slot d (k + x) = []" if "x < 64" for x
  proof -
    have "(64 * fi + x) div 64 = fi" using that by simp
    then have "\<not> near_flag_bit d (k + x)" using True by (simp add: near_flag_bit_def k)
    then show ?thesis using wheel_inv_D(3) [OF inv, of "k + x"] b k that by auto
  qed
  then have "expire_upto (min n (k + 64)) d = expire_upto (min n k) d"
    using n b k by (intro skip_slots) auto
  then have "near_flag fi (scanned n d k) = Inr (scanned n d (k + 64))"
    using True by (simp add: near_flag_def scanned_def)
  then show ?thesis by blast
next
  case False
  obtain k1 where 1: "near_word fi 0 (scanned n d k) = Inr (scanned n d k1)" "k1 = k + 32 \<or> n \<le> k1"
    using near_word_spec [OF inv n b, of 0 k] k by auto
  show ?thesis
  proof (cases "n \<le> k1")
    case True
    have "near_flag fi (scanned n d k) = Inr (scanned n d k1)"
      using 1 False True by (simp add: near_flag_def scanned_def)
    then show ?thesis using True by blast
  next
    case gt: False
    then obtain k2 where 2: "near_word fi 1 (scanned n d k1) = Inr (scanned n d k2)" "k2 = k1 + 32 \<or> n \<le> k2"
      using near_word_spec [OF inv n b, of 1 k1] k 1(2) by auto
    have "near_flag fi (scanned n d k) = Inr (scanned n d k2)"
      using 1 2 False gt by (simp add: near_flag_def scanned_def)
    then show ?thesis using 1(2) 2(2) gt by (intro exI [of _ k2]) auto
  qed
qed

lemma near_scan_spec:
  assumes inv: "wheel_inv d"
  shows "near_scan diff d = Inr (expire_upto (min diff 128) d)"
proof -
  let ?n = "min diff 128"
  have start: "(int (min diff YF_NEAREST_TIMER_ROLL_SIZE), d) = scanned ?n d 0"
    by (simp add: scanned_def tm_sizes)
  have n: "?n \<le> 128" by simp
  obtain k1 where 1: "near_flag 0 (scanned ?n d 0) = Inr (scanned ?n d k1)" "k1 = 64 \<or> ?n \<le> k1"
    using near_flag_spec [OF inv n, of 0 0] by auto
  show ?thesis
  proof (cases "?n \<le> k1")
    case True
    then have "min ?n k1 = ?n" "\<not> int ?n - int k1 > 0" by linarith+
    then show ?thesis
      unfolding near_scan_def start 1(1) unfolding scanned_def by (simp only: run_bind_simps prod.case if_False)
  next
    case False
    then obtain k2 where 2: "near_flag 1 (scanned ?n d k1) = Inr (scanned ?n d k2)" "k2 = k1 + 64 \<or> ?n \<le> k2"
      using near_flag_spec [OF inv n, of 1 k1] 1(2) by auto
    then have "?n \<le> k2" using 1(2) False by auto
    then have "min ?n k2 = ?n" "int ?n - int k1 > 0" using False by linarith+
    then show ?thesis
      unfolding near_scan_def start 1(1) using 2(1)
      unfolding scanned_def by (simp only: run_bind_simps prod.case if_True)
  qed
qed

lemma count_0_slot: "near_count d = 0 \<Longrightarrow> near_slot d k = []"
proof -
  assume "near_count d = 0"
  then have "\<forall>i < 128. tm_lists d (Near i) = []" by (simp add: near_count_def)
  then show ?thesis by (simp add: near_slot_def slot_at_def)
qed

lemma slot_exists:
  assumes "near_tm_roll_index d < 128" "i < 128"
  shows "slot_at d ((i + 128 - near_tm_roll_index d) mod 128) = i"
proof -
  let ?r = "near_tm_roll_index d"
  have "(?r + (i + 128 - ?r) mod 128) mod 128 = (?r + (i + 128 - ?r)) mod 128" by (rule mod_add_right_eq)
  also have "?r + (i + 128 - ?r) = i + 128" using assms(1) by linarith
  finally show ?thesis using assms(2) by (simp add: slot_at_def)
qed

lemma slots_empty_count:
  assumes "near_tm_roll_index d < 128" "\<And>k. k < 128 \<Longrightarrow> near_slot d k = []"
  shows "near_count d = 0"
proof -
  have "tm_lists d (Near i) = []" if i: "i < 128" for i
    using slot_exists [OF assms(1) i] assms(2) [of "(i + 128 - near_tm_roll_index d) mod 128"]
    by (simp add: near_slot_def)
  then show ?thesis by (simp add: near_count_def)
qed

subsection \<open>Polling\<close>

lemma rolled_flags:
  assumes d': "near_flags0 d' = (if diff < 64 then drop_bit diff f0 OR push_bit (64 - diff) f1 else drop_bit (diff - 64) f1)"
      "near_flags1 d' = (if diff < 64 then drop_bit diff f1 else 0)"
    and d: "near_flags0 d = f0" "near_flags1 d = f1" and diff: "0 < diff" "diff < 128" and k: "k < 128"
  shows "near_flag_bit d' k \<longleftrightarrow> k + diff < 128 \<and> near_flag_bit d (k + diff)"
proof -
  have bd: "\<not> bit f0 j" "\<not> bit f1 j" if "64 \<le> j" for j
    using that by (auto dest: bit_imp_le_length)
  have nf: "near_flag_bit d j \<longleftrightarrow> (if j < 64 then bit f0 j else bit f1 (j - 64))" if "j < 128" for j
  proof (cases "j < 64")
    case False
    then have "j div 64 = 1" "j mod 64 = j - 64" using that div_mod_64 [of "j - 64" 1] by simp_all
    then show ?thesis using False d by (simp add: near_flag_bit_def near_flags_def)
  qed (use d in \<open>simp add: near_flag_bit_def near_flags_def\<close>)
  have nf': "near_flag_bit d' j \<longleftrightarrow> (if j < 64 then bit (near_flags0 d') j else bit (near_flags1 d') (j - 64))"
    if "j < 128" for j
  proof (cases "j < 64")
    case False
    then have "j div 64 = 1" "j mod 64 = j - 64" using that div_mod_64 [of "j - 64" 1] by simp_all
    then show ?thesis using False by (simp add: near_flag_bit_def near_flags_def)
  qed (simp add: near_flag_bit_def near_flags_def)
  show ?thesis
  proof (cases "k + diff < 128")
    case True
    show ?thesis
      unfolding nf' [OF k] nf [OF True] using d' diff k True bd
      by (auto simp: bit_simps not_less algebra_simps)
  next
    case False
    then show ?thesis
      unfolding nf' [OF k] using d' diff k bd
      by (auto simp: bit_simps not_less algebra_simps)
  qed
qed

definition polled :: "nat \<Rightarrow> tm_driver \<Rightarrow> tm_driver \<Rightarrow> bool" where
  "polled diff d d' \<longleftrightarrow> wheel_inv d' \<and>
     (\<forall>k < 128. near_slot d' k = (if k + diff < 128 then near_slot d (k + diff) else [])) \<and>
     timeout_list d' = rev (concat (map (near_slot d) [0..<min diff 128])) @ timeout_list d \<and>
     (\<forall>i. tm_lists d' (Far i) = tm_lists d (Far i)) \<and> tm_lists d' Too_far = tm_lists d Too_far \<and>
     tm_period_cnt d' = tm_period_cnt d \<and> far_tm_period_cnt d' = far_tm_period_cnt d"

lemma update_near_flags_zero:
  "near_evts_num d = 0 \<Longrightarrow> update_near_flags n d = Inr (d\<lparr> near_flags0 := 0, near_flags1 := 0 \<rparr>)"
  by (simp add: update_near_flags_def tm_sizes)

lemma poll_near_spec:
  assumes inv: "wheel_inv d" and diff: "0 < diff"
  shows "\<exists>d'. poll_near diff d = Inr d' \<and> polled diff d d'"
proof (cases "near_evts_num d = 0")
  case True
  note i = wheel_inv_D [OF inv]
  have "unat (near_evts_num d) = near_count d" using i(4,5) by (simp add: unat_of_nat)
  then have "near_count d = 0" using True by simp
  then have empty: "near_slot d k = []" for k by (rule count_0_slot)
  have "concat (map (near_slot d) [0..<m]) = []" for m by (simp add: empty)
  then have "polled diff d d" using inv by (simp add: polled_def empty)
  then show ?thesis using True by (simp add: poll_near_def)
next
  case nz: False
  note i = wheel_inv_D [OF inv]
  let ?n = "min diff 128"
  let ?E = "expire_upto ?n d"
  have scan: "poll_near diff d = update_near_flags diff ?E"
    using nz near_scan_spec [OF inv, of diff] by (simp add: poll_near_def)
  have links: "links_ok ?E" by (rule expire_upto_links [OF i(1)])
  have cnt: "near_evts_num ?E = of_nat (near_count ?E)" "near_count ?E < 2 ^ 32"
    using expire_count [OF i(4), of ?n] i(5) by auto
  have slotE: "near_slot ?E k = (if k < ?n then [] else near_slot d k)" if "k < 128" for k
    by (rule expire_upto_slot) (use that in simp_all)
  have to: "timeout_list ?E = rev (concat (map (near_slot d) [0..<?n])) @ timeout_list d"
    by (rule expire_upto_timeout) simp
  have far: "tm_lists ?E (Far j) = tm_lists d (Far j)" "tm_lists ?E Too_far = tm_lists d Too_far" for j
    by (rule expire_upto_far, simp)+
  show ?thesis
  proof (cases "diff < 128 \<and> near_evts_num ?E \<noteq> 0")
    case True
    then have n: "?n = diff" "diff < 128" by auto
    define r where "r = (near_tm_roll_index d + diff) mod 128"
    define d' where "d' = (if diff < 64
          then ?E\<lparr> near_tm_roll_index := r, near_flags0 := drop_bit diff (near_flags0 d) OR push_bit (64 - diff) (near_flags1 d),
                  near_flags1 := drop_bit diff (near_flags1 d) \<rparr>
          else ?E\<lparr> near_tm_roll_index := r, near_flags0 := drop_bit (diff - 64) (near_flags1 d), near_flags1 := 0 \<rparr>)"
    have run: "poll_near diff d = Inr d'"
    proof -
      have nzE: "near_evts_num (expire_upto diff d) \<noteq> 0" using True unfolding n(1) by simp
      show ?thesis
        unfolding scan n(1) d'_def r_def using nzE n(2)
        by (simp add: update_near_flags_def yf_near_timer_inc_def tm_sizes Let_def)
    qed
    have sel: "tm_lists d' = tm_lists ?E" "timers d' = timers ?E" "near_evts_num d' = near_evts_num ?E"
      "timeout_list d' = timeout_list ?E" "near_tm_roll_index d' = r" "tm_period_cnt d' = tm_period_cnt d"
      "far_tm_period_cnt d' = far_tm_period_cnt d"
      by (simp_all add: d'_def)
    have slot: "near_slot d' k = (if k + diff < 128 then near_slot d (k + diff) else [])" if k: "k < 128" for k
    proof -
      have s: "slot_at d' k = (near_tm_roll_index d + (diff + k)) mod 128"
        by (simp add: slot_at_def sel r_def mod_add_left_eq add.assoc)
      show ?thesis
      proof (cases "k + diff < 128")
        case True
        then have "near_slot d' k = near_slot ?E (k + diff)"
          unfolding near_slot_def sel s by (simp add: slot_at_def add.commute)
        then show ?thesis using slotE [OF True] n True by simp
      next
        case False
        then have "(near_tm_roll_index d + (diff + k)) mod 128 = slot_at d (k + diff - 128)"
          using mod_add_self2 [of "near_tm_roll_index d + (k + diff - 128)" 128]
          by (simp add: slot_at_def algebra_simps)
        then have "near_slot d' k = near_slot ?E (k + diff - 128)"
          by (simp add: near_slot_def sel s)
        moreover have "k + diff - 128 < diff" "k + diff - 128 < 128" using k False n by (simp_all add: tm_sizes)
        ultimately show ?thesis using slotE [of "k + diff - 128"] n False by simp
      qed
    qed
    have fl: "near_flag_bit d' k \<longleftrightarrow> near_slot d' k \<noteq> []" if k: "k < 128" for k
    proof -
      have "near_flag_bit d' k \<longleftrightarrow> k + diff < 128 \<and> near_flag_bit d (k + diff)"
        by (rule rolled_flags [OF _ _ refl refl diff n(2) k]) (simp_all add: d'_def)
      then show ?thesis using slot [OF k] i(3) [of "k + diff"] by auto
    qed
    have "links_ok d'" using links by (simp add: links_ok_def sel)
    moreover have "near_count d' = near_count ?E" by (simp add: near_count_def sel)
    moreover have "r < 128" by (simp add: r_def)
    ultimately have "wheel_inv d'" using fl cnt by (simp add: wheel_inv_def sel)
    then have "polled diff d d'" using slot to far n by (simp add: polled_def sel)
    with run show ?thesis by blast
  next
    case False
    have c0: "near_count ?E = 0"
    proof (cases "diff < 128")
      case True
      then have "near_evts_num ?E = 0" using False by simp
      moreover have "unat (near_evts_num ?E) = near_count ?E" using cnt by (simp add: unat_of_nat)
      ultimately show ?thesis by simp
    next
      case False
      then have "?n = 128" by simp
      then have "near_slot ?E k = []" if "k < 128" for k using slotE [OF that] that by simp
      then show ?thesis using slots_empty_count [of ?E] i(2) by simp
    qed
    let ?d = "?E\<lparr> near_flags0 := 0, near_flags1 := 0 \<rparr>"
    have run: "poll_near diff d = Inr ?d"
    proof -
      have "near_evts_num ?E = of_nat 0" using cnt(1) unfolding c0 .
      then have "near_evts_num ?E = 0" by simp
      then show ?thesis unfolding scan by (rule update_near_flags_zero)
    qed
    have empty: "near_slot ?E k = []" for k using c0 by (rule count_0_slot)
    have same: "near_slot ?d k = near_slot ?E k" "near_count ?d = near_count ?E" for k
      by (simp_all add: near_slot_def slot_at_def near_count_def)
    have nf: "\<not> near_flag_bit ?d k" for k by (simp add: near_flag_bit_def near_flags_def)
    have "links_ok ?d" using links by (simp add: links_ok_def)
    moreover have "near_evts_num ?d = of_nat (near_count ?d)" using cnt(1) by (simp add: same)
    moreover have "near_tm_roll_index ?d < 128" "near_count ?d < 2 ^ 32" using i(2) c0 by (simp_all add: same)
    moreover have "\<forall>k < 128. near_flag_bit ?d k \<longleftrightarrow> near_slot ?d k \<noteq> []" using nf by (simp add: same empty)
    ultimately have "wheel_inv ?d" unfolding wheel_inv_def by blast
    moreover have "near_slot d (k + diff) = []" if "k + diff < 128" for k
      using slotE [OF that] that empty by (simp split: if_splits)
    ultimately have "polled diff d ?d" using to far by (simp add: polled_def same empty)
    with run show ?thesis by blast
  qed
qed

subsection \<open>Adding and deleting\<close>

lemma near_count_cong: "(\<And>i. tm_lists d' (Near i) = tm_lists d (Near i)) \<Longrightarrow> near_count d' = near_count d"
  by (simp add: near_count_def)

lemma near_count_upd:
  assumes "i < 128" "tm_lists d' (Near i) = xs" "\<And>j. j \<noteq> i \<Longrightarrow> tm_lists d' (Near j) = tm_lists d (Near j)"
  shows "near_count d' + length (tm_lists d (Near i)) = near_count d + length xs"
proof -
  have "near_count d = length (tm_lists d (Near i)) + (\<Sum>j \<in> {..<128} - {i}. length (tm_lists d (Near j)))"
    unfolding near_count_def using assms(1) by (intro sum.remove) auto
  moreover have "near_count d' = length (tm_lists d' (Near i)) + (\<Sum>j \<in> {..<128} - {i}. length (tm_lists d' (Near j)))"
    unfolding near_count_def using assms(1) by (intro sum.remove) auto
  moreover have "(\<Sum>j \<in> {..<128} - {i}. length (tm_lists d' (Near j))) =
      (\<Sum>j \<in> {..<128} - {i}. length (tm_lists d (Near j)))"
    by (intro sum.cong) (use assms(3) in auto)
  ultimately show ?thesis using assms(2) by simp
qed

lemma flag_bit_set:
  assumes "k < 128" "j < 128"
  shows "near_flag_bit (near_set_flag k d) j \<longleftrightarrow> near_flag_bit d j \<or> j = k"
    "near_flag_bit (near_reset_flag k d) j \<longleftrightarrow> near_flag_bit d j \<and> j \<noteq> k"
proof -
  have dm: "j = k \<longleftrightarrow> j div 64 = k div 64 \<and> j mod 64 = k mod 64" by (metis div_mult_mod_eq)
  have d: "k div 64 = 0 \<or> k div 64 = 1" "j div 64 = 0 \<or> j div 64 = 1" using assms by auto
  have m: "k mod 64 < 64" "j mod 64 < 64" by simp_all
  show "near_flag_bit (near_set_flag k d) j \<longleftrightarrow> near_flag_bit d j \<or> j = k"
    unfolding dm using d m
    by (auto simp: near_flag_bit_def near_set_flag_def near_flags_def yf_set_bit_def bit_simps)
  show "near_flag_bit (near_reset_flag k d) j \<longleftrightarrow> near_flag_bit d j \<and> j \<noteq> k"
    unfolding dm using d m
    by (auto simp: near_flag_bit_def near_reset_flag_def near_flags_def yf_reset_bit_def bit_simps)
qed

lemma flag_sel [simp]:
  "tm_lists (near_set_flag k d) = tm_lists d" "timers (near_set_flag k d) = timers d"
  "near_evts_num (near_set_flag k d) = near_evts_num d" "near_tm_roll_index (near_set_flag k d) = near_tm_roll_index d"
  "timeout_list (near_set_flag k d) = timeout_list d" "nearest_timeout_ms (near_set_flag k d) = nearest_timeout_ms d"
  "tm_lists (near_reset_flag k d) = tm_lists d" "timers (near_reset_flag k d) = timers d"
  "near_evts_num (near_reset_flag k d) = near_evts_num d" "near_tm_roll_index (near_reset_flag k d) = near_tm_roll_index d"
  "timeout_list (near_reset_flag k d) = timeout_list d"
  by (simp_all add: near_set_flag_def near_reset_flag_def)

text \<open>What a driver is for the wheel: the other fields do not matter to the invariant.\<close>

lemma near_slot_cong: "tm_lists d' = tm_lists d \<Longrightarrow> near_tm_roll_index d' = near_tm_roll_index d \<Longrightarrow> near_slot d' = near_slot d"
  by (simp add: near_slot_def slot_at_def fun_eq_iff)

lemma flag_bit_cong: "near_flags0 d' = near_flags0 d \<Longrightarrow> near_flags1 d' = near_flags1 d \<Longrightarrow> near_flag_bit d' = near_flag_bit d"
  by (simp add: near_flag_bit_def near_flags_def fun_eq_iff)

lemma add_near_ok:
  assumes inv: "wheel_inv d" and t: "tm_linker (timers d t) = None"
    and p: "1 \<le> p" "p \<le> 128" and room: "near_count d + 1 < 2 ^ 32"
  shows "\<exists>d'. yf_add_near_timer t (2 * p) d = Inr d' \<and> wheel_inv d' \<and> timeout_list d' = timeout_list d \<and>
    (\<forall>k < 128. near_slot d' k = (if k = p - 1 then near_slot d k @ [t] else near_slot d k))"
proof -
  note i = wheel_inv_D [OF inv]
  let ?k = "p - 1"
  define j where "j = slot_at d ?k"
  have k: "?k < 128" using p by simp
  have j: "j < 128" by (simp add: j_def slot_at_def)
  define d' where "d' = (let d = near_set_flag ?k d; d = LIST_ADD_TIMER t (Near j) d;
      d = d\<lparr> near_evts_num := near_evts_num d + 1 \<rparr> in
      if 2 * p < nearest_timeout_ms d then d\<lparr> nearest_timeout_ms := 2 * p \<rparr> else d)"
  have "yf_near_timer_inc (near_set_flag ?k d) ?k = j"
    by (simp add: yf_near_timer_inc_def j_def slot_at_def tm_sizes)
  then have run: "yf_add_near_timer t (2 * p) d = Inr d'"
    using p by (simp add: yf_add_near_timer_def d'_def tm_sizes Let_def)
  have sel: "tm_lists d' = (tm_lists d)(Near j := tm_lists d (Near j) @ [t])"
    "timers d' = (timers d)(t := (timers d t)\<lparr> tm_linker := Some (Near j), tm_head := Some (Near j) \<rparr>)"
    "near_evts_num d' = near_evts_num d + 1" "near_tm_roll_index d' = near_tm_roll_index d"
    "timeout_list d' = timeout_list d" "near_flags0 d' = near_flags0 (near_set_flag ?k d)"
    "near_flags1 d' = near_flags1 (near_set_flag ?k d)"
    by (simp_all add: d'_def LIST_ADD_TIMER_def tm_link_def Let_def)
  have t': "t \<notin> set (tm_lists d l)" for l using t links_ok_D(1) [OF i(1)] by simp
  have links: "links_ok d'"
    unfolding links_ok_def
  proof (intro conjI allI impI)
    fix u l show "u \<in> set (tm_lists d' l) \<longleftrightarrow> tm_linker (timers d' u) = Some l"
      using t t' links_ok_D(1) [OF i(1)] by (auto simp: sel)
    show "distinct (tm_lists d' l)" using t' links_ok_D(2) [OF i(1)] by (auto simp: sel)
  next
    fix u q assume "tm_linker (timers d' u) = Some (Near q)"
    then show "tm_head (timers d' u) = Some (Near q)"
      using links_ok_D(3) [OF i(1)] by (auto simp: sel split: if_splits)
  qed
  have slot: "near_slot d' q = (if q = ?k then near_slot d q @ [t] else near_slot d q)" if q: "q < 128" for q
    using slot_at_inj [OF q k, of d] by (auto simp: near_slot_def slot_at_def sel j_def)
  have fl: "near_flag_bit d' = near_flag_bit (near_set_flag ?k d)" by (rule flag_bit_cong) (simp_all add: sel)
  have "near_count d' + length (tm_lists d (Near j)) = near_count d + length (tm_lists d (Near j) @ [t])"
    by (rule near_count_upd [OF j]) (simp_all add: sel)
  then have c: "near_count d' = near_count d + 1" by simp
  have "wheel_inv d'"
    unfolding wheel_inv_def
  proof (intro conjI allI impI)
    show "near_flag_bit d' q \<longleftrightarrow> near_slot d' q \<noteq> []" if "q < 128" for q
      using flag_bit_set(1) [OF k that] i(3) [OF that] slot [OF that] by (auto simp: fl)
  qed (use links i(2,4) c room in \<open>simp_all add: sel\<close>)
  then show ?thesis using run slot sel(5) by blast
qed

lemma add_ok:
  assumes inv: "wheel_inv d" and t: "tm_linker (timers d t) = None" "t \<notin> set (timeout_list d)"
    and p: "1 \<le> p" "p \<le> 127" and room: "near_count d + 1 < 2 ^ 32"
  shows "\<exists>d'. yf_add_timer t (2 * p) d = Inr d' \<and> wheel_inv d' \<and> timeout_list d' = timeout_list d \<and>
    (\<forall>k < 128. near_slot d' k = (if k = p - 1 then near_slot d k @ [t] else near_slot d k))"
proof -
  define D where "D = (if is_fd_evt (timers d t) then d\<lparr> fdtm_evts_num := fdtm_evts_num d + 1 \<rparr>
                 else d\<lparr> stm_evts_num := stm_evts_num d + 1 \<rparr>)"
  have sel: "tm_lists D = tm_lists d" "timers D = timers d" "near_tm_roll_index D = near_tm_roll_index d"
    "near_evts_num D = near_evts_num d" "near_flags0 D = near_flags0 d" "near_flags1 D = near_flags1 d"
    "timeout_list D = timeout_list d"
    by (simp_all add: D_def)
  have slots: "near_slot D = near_slot d" by (rule near_slot_cong) (simp_all add: sel)
  have cnt: "near_count D = near_count d" by (rule near_count_cong) (simp add: sel)
  have "near_flag_bit D = near_flag_bit d" by (rule flag_bit_cong) (simp_all add: sel)
  then have invD: "wheel_inv D" using inv by (simp add: wheel_inv_def links_ok_def slots cnt sel)
  have ms: "align_up (max 2 (2 * p)) 2 = 2 * p" using p by (simp add: max_def)
  have "yf_add_timer t (2 * p) d = yf_add_near_timer t (2 * p) D"
    using t p ms by (simp add: yf_add_timer_def Let_def D_def tm_sizes)
  moreover from p have "p \<le> 128" by simp
  ultimately show ?thesis
    using add_near_ok [OF invD, unfolded slots cnt sel, OF t(1) p(1) _ room] by simp
qed

lemma del_ok:
  assumes inv: "wheel_inv d" and t: "t \<in> set (near_slot d k)" "k < 128"
  shows "\<exists>d'. yf_del_timer t d = (YF_OK, d') \<and> wheel_inv d' \<and> timeout_list d' = timeout_list d \<and>
    (\<forall>q < 128. near_slot d' q = removeAll t (near_slot d q))"
proof -
  note i = wheel_inv_D [OF inv]
  define j where "j = slot_at d k"
  have j: "j < 128" by (simp add: j_def slot_at_def)
  have tj: "t \<in> set (tm_lists d (Near j))" using t by (simp add: near_slot_def j_def)
  then have lk: "tm_linker (timers d t) = Some (Near j)" using links_ok_D(1) [OF i(1)] by simp
  then have hd: "tm_head (timers d t) = Some (Near j)" by (rule links_ok_D(3) [OF i(1)])
  define xs where "xs = removeAll t (tm_lists d (Near j))"
  define D where "D = tm_unlink t (if is_fd_evt (timers d t) then d\<lparr> fdtm_evts_num := fdtm_evts_num d - 1 \<rparr>
                 else d\<lparr> stm_evts_num := stm_evts_num d - 1 \<rparr>)"
  define d' where "d' = (let d = (if tm_lists D (Near j) = [] then near_reset_flag k D else D) in
      d\<lparr> near_evts_num := near_evts_num d - 1 \<rparr>)"
  have selD: "tm_lists D = (tm_lists d)(Near j := xs)"
    "timers D = (timers d)(t := (timers d t)\<lparr> tm_linker := None \<rparr>)"
    "near_tm_roll_index D = near_tm_roll_index d"
    "near_evts_num D = near_evts_num d" "near_flags0 D = near_flags0 d" "near_flags1 D = near_flags1 d"
    "timeout_list D = timeout_list d"
    using lk by (simp_all add: D_def tm_unlink_def xs_def)
  have "(j + 128 - near_tm_roll_index d) mod 128 = k"
    using slot_at_inj [of "(j + 128 - near_tm_roll_index d) mod 128" k d] slot_exists [OF i(2) j] t(2)
    by (simp add: j_def)
  then have run: "yf_del_timer t d = (YF_OK, d')"
    using lk hd by (simp add: yf_del_timer_def Let_def d'_def D_def [symmetric] selD tm_sizes)
  have sel: "tm_lists d' = (tm_lists d)(Near j := xs)" "timers d' = timers D"
    "near_tm_roll_index d' = near_tm_roll_index d" "near_evts_num d' = near_evts_num d - 1"
    "timeout_list d' = timeout_list d"
    by (simp_all add: d'_def Let_def selD)
  have links: "links_ok d'"
    unfolding links_ok_def
  proof (intro conjI allI impI)
    fix u l show "u \<in> set (tm_lists d' l) \<longleftrightarrow> tm_linker (timers d' u) = Some l"
      using links_ok_D(1) [OF i(1)] lk by (auto simp: sel selD xs_def)
    show "distinct (tm_lists d' l)" using links_ok_D(2) [OF i(1)]
      by (auto simp: sel xs_def removeAll_filter_not_eq)
  next
    fix u q assume "tm_linker (timers d' u) = Some (Near q)"
    then show "tm_head (timers d' u) = Some (Near q)"
      using links_ok_D(3) [OF i(1)] by (auto simp: sel selD split: if_splits)
  qed
  have slot: "near_slot d' q = removeAll t (near_slot d q)" if q: "q < 128" for q
  proof (cases "q = k")
    case True
    then show ?thesis by (simp add: near_slot_def slot_at_def sel j_def xs_def)
  next
    case False
    then have "slot_at d q \<noteq> j" using slot_at_inj [OF q t(2), of d] by (simp add: j_def)
    moreover from this have "t \<notin> set (tm_lists d (Near (slot_at d q)))"
      using links_ok_D(1) [OF i(1)] lk by auto
    ultimately show ?thesis by (simp add: near_slot_def slot_at_def sel)
  qed
  have "length xs + 1 = length (tm_lists d (Near j))"
  proof -
    have "xs = remove1 t (tm_lists d (Near j))"
      unfolding xs_def by (rule distinct_remove1_removeAll [symmetric, OF links_ok_D(2) [OF i(1)]])
    then show ?thesis using tj length_pos_if_in_set [OF tj] by (simp add: length_remove1)
  qed
  moreover have "near_count d' + length (tm_lists d (Near j)) = near_count d + length xs"
    by (rule near_count_upd [OF j]) (simp_all add: sel)
  ultimately have c: "near_count d = near_count d' + 1" by simp
  have fl: "near_flag_bit d' q \<longleftrightarrow> near_slot d' q \<noteq> []" if q: "q < 128" for q
  proof -
    have xk: "tm_lists D (Near j) = near_slot d' k" by (simp add: selD near_slot_def slot_at_def sel j_def)
    have D: "near_flag_bit D = near_flag_bit d" by (rule flag_bit_cong) (simp_all add: selD)
    have "near_flag_bit d' = near_flag_bit (if tm_lists D (Near j) = [] then near_reset_flag k D else D)"
      by (rule flag_bit_cong) (simp_all add: d'_def Let_def)
    then have "near_flag_bit d' q \<longleftrightarrow> near_flag_bit d q \<and> \<not> (q = k \<and> near_slot d' k = [])"
      using flag_bit_set(2) [OF t(2) q, of D] xk by (auto simp: D)
    moreover have "near_slot d' q = near_slot d q" if "q \<noteq> k"
    proof -
      have "t \<notin> set (near_slot d q)"
        using links_ok_D(1) [OF i(1), of t "Near (slot_at d q)"] lk slot_at_inj [OF q t(2), of d] that
        by (auto simp: near_slot_def j_def)
      then show ?thesis using slot [OF q] by simp
    qed
    moreover have "near_slot d k \<noteq> []" using t(1) by auto
    ultimately show ?thesis using i(3) [OF q] by (cases "q = k") auto
  qed
  have "wheel_inv d'"
    using links i(2,4,5) c fl by (simp add: wheel_inv_def sel)
  then show ?thesis using run slot sel(5) by blast
qed

end
