(* ===== verification/Tm_Poll.thy ===== *)
theory Tm_Poll
  imports Tm_Wheel
begin

section \<open>What polling does to timers\<close>

text \<open>
  The contract of a set of countdowns, its interpretation on the near wheel and the properties of
  the timer driver. Also the two ways in which the driver fails: a near timer that is added again
  while it is linked, and timers that are moved to the end of the list that is traversed.
\<close>

subsection \<open>Countdowns\<close>

fun run_ticks :: "(nat \<Rightarrow> 'd \<Rightarrow> 'e + 'd) \<Rightarrow> nat list \<Rightarrow> 'd \<Rightarrow> 'e + 'd" where
  "run_ticks tick [] d = Inr d"
| "run_ticks tick (n # ns) d = (case tick n d of Inl e \<Rightarrow> Inl e | Inr d \<Rightarrow> run_ticks tick ns d)"

locale countdown =
  fixes inv :: "'d \<Rightarrow> bool"
    and due :: "'d \<Rightarrow> 't \<Rightarrow> nat \<Rightarrow> bool"
    and fired :: "'d \<Rightarrow> 't set"
    and tick :: "nat \<Rightarrow> 'd \<Rightarrow> 'e + 'd"
  assumes tick: "inv d \<Longrightarrow> 0 < n \<Longrightarrow> \<exists>d'. tick n d = Inr d' \<and> inv d' \<and>
      (\<forall>t p. due d' t p \<longleftrightarrow> 0 < p \<and> due d t (p + n)) \<and>
      fired d' = {t. \<exists>p. p \<le> n \<and> due d t p} \<union> fired d"
    and positive: "due d t p \<Longrightarrow> 0 < p"
    and unique: "inv d \<Longrightarrow> due d t p \<Longrightarrow> due d t q \<Longrightarrow> p = q"
begin

lemma ticks_run:
  assumes "inv d" "\<forall>n \<in> set ns. 0 < n"
  shows "\<exists>d'. run_ticks tick ns d = Inr d' \<and> inv d' \<and>
    (\<forall>t p. due d' t p \<longleftrightarrow> 0 < p \<and> due d t (p + sum_list ns)) \<and>
    fired d' = {t. \<exists>p. p \<le> sum_list ns \<and> due d t p} \<union> fired d"
  using assms
proof (induction ns arbitrary: d)
  case Nil
  have "\<not> (p = 0 \<and> due d t p)" for t p using positive [of d t p] by blast
  then show ?case using Nil positive by fastforce
next
  case (Cons n ns)
  then obtain e where e: "tick n d = Inr e" "inv e" "\<And>t p. due e t p \<longleftrightarrow> 0 < p \<and> due d t (p + n)"
      "fired e = {t. \<exists>p. p \<le> n \<and> due d t p} \<union> fired d"
    using tick [of d n] by auto
  have "\<forall>n \<in> set ns. 0 < n" using Cons.prems(2) by simp
  then obtain d' where d': "run_ticks tick ns e = Inr d'" "inv d'"
      "\<And>t p. due d' t p \<longleftrightarrow> 0 < p \<and> due e t (p + sum_list ns)"
      "fired d' = {t. \<exists>p. p \<le> sum_list ns \<and> due e t p} \<union> fired e"
    using Cons.IH [OF e(2)] by auto
  have m: "(\<exists>p. p \<le> sum_list ns \<and> 0 < p \<and> due d t (p + n)) \<or> (\<exists>p. p \<le> n \<and> due d t p) \<longleftrightarrow>
      (\<exists>p. p \<le> n + sum_list ns \<and> due d t p)" for t
  proof (intro iffI; elim disjE exE)
    fix p assume "p \<le> n + sum_list ns \<and> due d t p"
    then show "(\<exists>p. p \<le> sum_list ns \<and> 0 < p \<and> due d t (p + n)) \<or> (\<exists>p. p \<le> n \<and> due d t p)"
      by (cases "p \<le> n") (auto intro: exI [of _ "p - n"])
  next
    fix p assume "p \<le> sum_list ns \<and> 0 < p \<and> due d t (p + n)"
    then show "\<exists>p. p \<le> n + sum_list ns \<and> due d t p" by (intro exI [of _ "p + n"]) simp
  qed (auto intro: trans_le_add1)
  have "fired d' = {t. (\<exists>p. p \<le> sum_list ns \<and> 0 < p \<and> due d t (p + n)) \<or> (\<exists>p. p \<le> n \<and> due d t p)} \<union> fired d"
    unfolding d'(4) e(3,4) by blast
  then have "fired d' = {t. \<exists>p. p \<le> sum_list (n # ns) \<and> due d t p} \<union> fired d" by (simp add: m)
  moreover have "due d' t p \<longleftrightarrow> 0 < p \<and> due d t (p + sum_list (n # ns))" for t p
    by (auto simp: d'(3) e(3) ac_simps)
  ultimately show ?case using d'(1,2) e(1) by auto
qed

lemma fires_when_due:
  assumes "inv d" "\<forall>n \<in> set ns. 0 < n" "due d t p" "t \<notin> fired d"
  shows "\<exists>d'. run_ticks tick ns d = Inr d' \<and> inv d' \<and> (t \<in> fired d' \<longleftrightarrow> p \<le> sum_list ns)"
proof -
  obtain d' where d': "run_ticks tick ns d = Inr d'" "inv d'"
      "fired d' = {t. \<exists>p. p \<le> sum_list ns \<and> due d t p} \<union> fired d"
    using ticks_run [OF assms(1,2)] by auto
  have "(\<exists>q. q \<le> sum_list ns \<and> due d t q) \<longleftrightarrow> p \<le> sum_list ns"
    using assms(3) unique [OF assms(1) assms(3)] by blast
  then show ?thesis using d' assms(4) by simp
qed

end

subsection \<open>The near wheel counts down\<close>

definition near_due :: "tm_driver \<Rightarrow> nat \<Rightarrow> nat \<Rightarrow> bool" where
  "near_due d t p \<longleftrightarrow> 0 < p \<and> p \<le> 128 \<and> t \<in> set (near_slot d (p - 1))"

lemma near_due_unique:
  assumes "wheel_inv d" "near_due d t p" "near_due d t q" shows "p = q"
proof -
  have "tm_linker (timers d t) = Some (Near (slot_at d (p - 1)))"
    "tm_linker (timers d t) = Some (Near (slot_at d (q - 1)))"
    using assms links_ok_D(1) [of d t] wheel_inv_D(1) [OF assms(1)] by (auto simp: near_due_def near_slot_def)
  then have "slot_at d (p - 1) = slot_at d (q - 1)" by simp
  moreover have "p - 1 < 128" "q - 1 < 128" using assms(2,3) by (auto simp: near_due_def)
  ultimately have "p - 1 = q - 1" using slot_at_inj by blast
  moreover have "0 < p" "0 < q" using assms(2,3) by (simp_all add: near_due_def)
  ultimately show ?thesis by simp
qed

lemma near_due_fired:
  "t \<in> set (concat (map (near_slot d) [0..<min n 128])) \<longleftrightarrow> (\<exists>p. p \<le> n \<and> near_due d t p)"
proof
  assume "t \<in> set (concat (map (near_slot d) [0..<min n 128]))"
  then obtain k where "k < min n 128" "t \<in> set (near_slot d k)" by auto
  then have "Suc k \<le> n \<and> near_due d t (Suc k)" by (simp add: near_due_def)
  then show "\<exists>p. p \<le> n \<and> near_due d t p" ..
next
  assume "\<exists>p. p \<le> n \<and> near_due d t p"
  then obtain p where p: "p \<le> n" "0 < p" "p \<le> 128" "t \<in> set (near_slot d (p - 1))" by (auto simp: near_due_def)
  then show "t \<in> set (concat (map (near_slot d) [0..<min n 128]))"
    by (auto intro!: bexI [of _ "p - 1"])
qed

lemma near_tick:
  assumes "wheel_inv d" "0 < n"
  shows "\<exists>d'. poll_near n d = Inr d' \<and> wheel_inv d' \<and>
      (\<forall>t p. near_due d' t p \<longleftrightarrow> 0 < p \<and> near_due d t (p + n)) \<and>
      set (timeout_list d') = {t. \<exists>p. p \<le> n \<and> near_due d t p} \<union> set (timeout_list d)"
proof -
  obtain d' where d': "poll_near n d = Inr d'" "polled n d d'" using poll_near_spec [OF assms] by blast
  have slot: "near_slot d' k = (if k + n < 128 then near_slot d (k + n) else [])" if "k < 128" for k
    using d'(2) that by (simp add: polled_def)
  have "near_due d' t p \<longleftrightarrow> 0 < p \<and> near_due d t (p + n)" for t p
  proof (cases "0 < p \<and> p \<le> 128")
    case True
    then have "p - 1 < 128" "p - 1 + n = p + n - 1" by auto
    then show ?thesis using slot [of "p - 1"] True by (auto simp: near_due_def)
  qed (auto simp: near_due_def)
  moreover have "set (timeout_list d') = {t. \<exists>p. p \<le> n \<and> near_due d t p} \<union> set (timeout_list d)"
    using d'(2) near_due_fired [of _ d n] by (auto simp: polled_def)
  moreover have "wheel_inv d'" using d'(2) by (simp add: polled_def)
  ultimately show ?thesis using d'(1) by blast
qed

interpretation nw: countdown wheel_inv near_due "\<lambda>d. set (timeout_list d)" poll_near
  by unfold_locales (auto simp: near_due_def dest: near_tick near_due_unique)

lemma near_due_add:
  assumes "wheel_inv d" "tm_linker (timers d t) = None" "t \<notin> set (timeout_list d)"
    "1 \<le> p" "p \<le> 127" "near_count d + 1 < 2 ^ 32"
  shows "\<exists>d'. yf_add_timer t (2 * p) d = Inr d' \<and> wheel_inv d' \<and> timeout_list d' = timeout_list d \<and>
    near_due d' t p"
proof -
  obtain d' where d': "yf_add_timer t (2 * p) d = Inr d'" "wheel_inv d'" "timeout_list d' = timeout_list d"
      "\<forall>k < 128. near_slot d' k = (if k = p - 1 then near_slot d k @ [t] else near_slot d k)"
    using add_ok [OF assms] by blast
  have "t \<in> set (near_slot d' (p - 1))" using d'(4) assms(5) by simp
  then have "near_due d' t p" using assms(4,5) by (simp add: near_due_def)
  then show ?thesis using d'(1,2,3) by blast
qed

text \<open>
  C21: A timer of at most 254 ms added to the driver joins the timers that expired in exactly the
  poll in which the periods passed reach its own number, however the time is cut into polls: no
  poll fails, none misses it, none takes it early.
\<close>

theorem yf_timer_fires_when_due:
  assumes "wheel_inv d" "tm_linker (timers d t) = None" "t \<notin> set (timeout_list d)"
    "1 \<le> p" "p \<le> 127" "near_count d + 1 < 2 ^ 32" "\<forall>n \<in> set ns. 0 < n"
  shows "\<exists>d0 d'. yf_add_timer t (2 * p) d = Inr d0 \<and> run_ticks poll_near ns d0 = Inr d' \<and> wheel_inv d' \<and>
    (t \<in> set (timeout_list d') \<longleftrightarrow> p \<le> sum_list ns)"
proof -
  obtain d0 where d0: "yf_add_timer t (2 * p) d = Inr d0" "wheel_inv d0"
      "timeout_list d0 = timeout_list d" "near_due d0 t p"
    using near_due_add [OF assms(1-6)] by blast
  then have "t \<notin> set (timeout_list d0)" using assms(3) by simp
  then show ?thesis using nw.fires_when_due [OF d0(2) assms(7) d0(4)] d0(1) by blast
qed

definition tm_driver0 :: tm_driver where
  "tm_driver0 = \<lparr> stm_evts_num = 0, fdtm_evts_num = 0, far_tm_period_cnt = 0, too_far_tm_period_cnt = 0,
     timeout_list = [], tm_free_list = [], tm_lists = (\<lambda>_. []), far_tm_roll_index = 0, near_flags0 = 0,
     near_flags1 = 0, near_evts_num = 0, near_tm_roll_index = 0, tm_period_cnt = 0,
     nearest_timeout_ms = 384, timers = (\<lambda>_. tm_timer0) \<rparr>"

lemma tm_driver0_inv: "wheel_inv tm_driver0" "near_count tm_driver0 = 0"
  by (simp_all add: wheel_inv_def links_ok_def tm_driver0_def tm_timer0_def near_flag_bit_def
      near_flags_def near_slot_def near_count_def)

theorem yf_timer_fires_when_due_witness:
  "\<exists>d0 d'. yf_add_timer 3 (2 * 5) tm_driver0 = Inr d0 \<and> run_ticks poll_near [2, 1, 2] d0 = Inr d' \<and>
    wheel_inv d' \<and> (3 \<in> set (timeout_list d') \<longleftrightarrow> 5 \<le> sum_list [2, 1, 2 :: nat])"
  by (rule yf_timer_fires_when_due [OF tm_driver0_inv(1)])
     (simp_all only: tm_driver0_inv(2), simp_all add: tm_driver0_def tm_timer0_def)

subsection \<open>The next timeout\<close>

lemma set_tm_ms_spec:
  assumes "w \<noteq> 0"
  shows "\<exists>x < 16. bit w x \<and> (\<forall>y < x. \<not> bit w y) \<and>
    set_tm_ms w off d = d\<lparr> nearest_timeout_ms := 2 * (off + x + 1) \<rparr>"
proof -
  let ?P = "filter (bit w) [0..<16]"
  from assms obtain b where b: "bit w b" by (auto simp: bit_eq_iff)
  then have "b < 16" using bit_imp_le_length [OF b] by simp
  with b have "\<exists>x. bit w x \<and> x < 16" by blast
  then obtain x where x: "bit w x" "x < 16" "\<And>y. y < x \<Longrightarrow> \<not> (bit w y \<and> y < 16)"
    using exists_least_iff [of "\<lambda>x. bit w x \<and> x < 16"] by blast
  have less: "\<not> bit w y" if "y < x" for y using x(2) x(3) [OF that] that by simp
  have "[0..<16] = [0..<x] @ x # [Suc x..<16]" 
    using upt_add_eq_append [of 0 x "16 - x"] upt_conv_Cons [OF x(2)] x(2) by simp
  moreover have "filter (bit w) [0..<x] = []" using less by (auto simp: filter_empty_conv)
  ultimately have "hd ?P = x" "?P \<noteq> []" using x(1) by simp_all
  then have "hd (yf_bit_indexs w) = int x" by (simp add: yf_bit_indexs_spec hd_append hd_map)
  moreover have "nat (int x + 1) = Suc x" by simp
  ultimately show ?thesis using x(1,2) less
    by (intro exI [of _ x]) (simp add: set_tm_ms_def)
qed

lemma get_nearest_spec:
  assumes fi: "fi < 2" and nz: "near_flags d fi \<noteq> 0"
  shows "\<exists>k. 64 * fi \<le> k \<and> k < 64 * fi + 64 \<and> near_flag_bit d k \<and>
    (\<forall>j. 64 * fi \<le> j \<and> j < k \<longrightarrow> \<not> near_flag_bit d j) \<and>
    get_nearest_tm_ms (near_flags d fi) (64 * fi) d = d\<lparr> nearest_timeout_ms := 2 * (k + 1) \<rparr>"
proof -
  let ?f = "near_flags d fi"
  have part: ?thesis
    if wp: "wp < 2" "part < 2" and w: "ubits_16 ?f wp part \<noteq> 0"
      and e: "get_nearest_tm_ms ?f (64 * fi) d = set_tm_ms (ubits_16 ?f wp part) (64 * fi + 32 * wp + 16 * part) d"
      and before: "\<And>x. x < 32 * wp + 16 * part \<Longrightarrow> \<not> near_flag_bit d (64 * fi + x)" for wp part
  proof -
    let ?o = "64 * fi + 32 * wp + 16 * part"
    obtain x where x: "x < 16" "bit (ubits_16 ?f wp part) x" "\<And>y. y < x \<Longrightarrow> \<not> bit (ubits_16 ?f wp part) y"
      "set_tm_ms (ubits_16 ?f wp part) ?o d = d\<lparr> nearest_timeout_ms := 2 * (?o + x + 1) \<rparr>"
      using set_tm_ms_spec [OF w, of ?o d] by blast
    have "\<not> near_flag_bit d j" if j: "64 * fi \<le> j \<and> j < ?o + x" for j
    proof (cases "j < ?o")
      case True
      then show ?thesis using before [of "j - 64 * fi"] j by auto
    next
      case False
      then have "j = ?o + (j - ?o)" "j - ?o < x" using j by auto
      then show ?thesis using flag_bits [OF fi wp, of "j - ?o" d] x(1,3) by auto
    qed
    moreover have "near_flag_bit d (?o + x)" using flag_bits [OF fi wp x(1), of d] x(2) by simp
    moreover have "64 * fi \<le> ?o + x" "?o + x < 64 * fi + 64" using wp x(1) by auto
    ultimately show ?thesis using e x(4) by (intro exI [of _ "?o + x"]) simp
  qed
  have zero16: "\<not> near_flag_bit d (64 * fi + (32 * wp + 16 * part + x))"
    if "ubits_16 ?f wp part = 0" "x < 16" "wp < 2" "part < 2" for wp part x
    using flag_bits [OF fi that(3,4,2), of d] that(1) by (simp add: add.assoc)
  have zero32: "\<not> near_flag_bit d (64 * fi + x)" if "ubits_32 ?f 0 = 0" "x < 32" for x
    using word_bits [OF fi _ that(2), of 0 d] that(1) by simp
  have flag0: "\<not> near_flag_bit d (64 * fi + x)" if "ubits_16 ?f 0 0 = 0" "x < 16" for x
    using zero16 [OF that(1,2)] by simp
  show ?thesis
  proof (cases "ubits_32 ?f 0 = 0")
    case low: False
    show ?thesis
    proof (cases "ubits_16 ?f 0 0 = 0")
      case False
      then show ?thesis using low by (intro part [of 0 0]) (simp_all add: get_nearest_tm_ms_def)
    next
      case True
      have "ubits_16 ?f 0 1 \<noteq> 0"
      proof
        assume w: "ubits_16 ?f 0 1 = 0"
        have "\<not> near_flag_bit d (64 * fi + x)" if "x < 32" for x
        proof (cases "x < 16")
          case False
          then have "x = 16 + (x - 16)" "x - 16 < 16" using that by auto
          then show ?thesis using zero16 [OF w, of "x - 16"] by simp
        qed (rule flag0 [OF True])
        then have "\<not> bit (ubits_32 ?f 0) x" if "x < 32" for x
          using word_bits [OF fi _ that, of 0 d] that by simp
        then have "ubits_32 ?f 0 = 0" by (intro bit_word_eqI) auto
        with low show False by simp
      qed
      then show ?thesis using low True flag0
        by (intro part [of 0 1]) (simp_all add: get_nearest_tm_ms_def)
    qed
  next
    case low: True
    show ?thesis
    proof (cases "ubits_16 ?f 1 0 = 0")
      case False
      then show ?thesis using low zero32 by (intro part [of 1 0]) (simp_all add: get_nearest_tm_ms_def)
    next
      case True
      have flags: "\<not> near_flag_bit d (64 * fi + x)" if "x < 48" for x
      proof (cases "x < 32")
        case False
        then have "x = 32 + (x - 32)" "x - 32 < 16" using that by auto
        then show ?thesis using zero16 [OF True, of "x - 32"] by simp
      qed (rule zero32 [OF low])
      have "ubits_16 ?f 1 1 \<noteq> 0"
      proof
        assume w: "ubits_16 ?f 1 1 = 0"
        have "\<not> near_flag_bit d (64 * fi + x)" if "x < 64" for x
        proof (cases "x < 48")
          case False
          then have "x = 48 + (x - 48)" "x - 48 < 16" using that by auto
          then show ?thesis using zero16 [OF w, of "x - 48"] by simp
        qed (rule flags)
        then have "\<not> bit ?f x" if "x < 64" for x
          using that div_mod_64 [OF that, of fi] by (auto simp: near_flag_bit_def)
        then have "?f = 0" by (intro bit_word_eqI) auto
        with nz show False by simp
      qed
      then show ?thesis using low True flags
        by (intro part [of 1 1]) (simp_all add: get_nearest_tm_ms_def add.commute)
    qed
  qed
qed

definition nearest_ok :: "tm_driver \<Rightarrow> bool" where
  "nearest_ok d \<longleftrightarrow> ((\<exists>t p. near_due d t p) \<longrightarrow>
     (\<exists>t p. near_due d t p \<and> nearest_timeout_ms d = 2 * p \<and> (\<forall>u q. near_due d u q \<longrightarrow> p \<le> q)))"

lemma update_nearest_spec:
  assumes inv: "wheel_inv d"
  shows "\<exists>m. yf_update_nearest_tm_ms d = Inr (d\<lparr> nearest_timeout_ms := m \<rparr>) \<and>
    nearest_ok (d\<lparr> nearest_timeout_ms := m \<rparr>)"
proof -
  note i = wheel_inv_D [OF inv]
  have upd: "near_due (d\<lparr> nearest_timeout_ms := m \<rparr>) = near_due d" for m
    by (intro ext) (simp add: near_due_def near_slot_def slot_at_def)
  have due: "near_flag_bit d (p - 1)" if "near_due d t p" for t p
    using that i(3) [of "p - 1"] by (auto simp: near_due_def)
  have found: ?thesis if k: "k < 128" "near_flag_bit d k" "\<forall>j < k. \<not> near_flag_bit d j"
    and run: "yf_update_nearest_tm_ms d = Inr (d\<lparr> nearest_timeout_ms := 2 * (k + 1) \<rparr>)" for k
  proof -
    obtain t where "t \<in> set (near_slot d k)" using i(3) [OF k(1)] k(2) by (cases "near_slot d k") auto
    then have "near_due d t (k + 1)" using k(1) by (simp add: near_due_def)
    moreover have "k + 1 \<le> q" if "near_due d u q" for u q
    proof (rule ccontr)
      assume "\<not> k + 1 \<le> q"
      moreover have "0 < q" using that by (simp add: near_due_def)
      ultimately have "q - 1 < k" by simp
      then show False using due [OF that] k(3) by blast
    qed
    ultimately have "nearest_ok (d\<lparr> nearest_timeout_ms := 2 * (k + 1) \<rparr>)"
      unfolding nearest_ok_def upd by (intro impI exI [of _ t] exI [of _ "k + 1"]) simp
    then show ?thesis using run by blast
  qed
  show ?thesis
  proof (cases "near_evts_num d = 0")
    case True
    have "unat (near_evts_num d) = near_count d" using i(4,5) by (simp add: unat_of_nat)
    then have "near_count d = 0" using True by simp
    then have "\<not> near_due d t p" for t p using count_0_slot by (simp add: near_due_def)
    then have "nearest_ok (d\<lparr> nearest_timeout_ms := m \<rparr>)" for m by (simp add: nearest_ok_def upd)
    moreover have "\<exists>m. yf_update_nearest_tm_ms d = Inr (d\<lparr> nearest_timeout_ms := m \<rparr>)"
      using True unfolding yf_update_nearest_tm_ms_def by auto
    ultimately show ?thesis by blast
  next
    case n: False
    show ?thesis
    proof (cases "near_flags0 d = 0")
      case False
      then have f: "near_flags d 0 \<noteq> 0" by (simp add: near_flags_def)
      obtain k where k: "k < 64" "near_flag_bit d k" "\<forall>j < k. \<not> near_flag_bit d j"
        "get_nearest_tm_ms (near_flags0 d) 0 d = d\<lparr> nearest_timeout_ms := 2 * (k + 1) \<rparr>"
        using get_nearest_spec [OF _ f] by (auto simp: near_flags_def)
      then show ?thesis using n False by (intro found [of k]) (simp_all add: yf_update_nearest_tm_ms_def)
    next
      case z: True
      have low: "\<not> near_flag_bit d j" if "j < 64" for j using z that by (simp add: near_flag_bit_def near_flags_def)
      have f: "near_flags d 1 \<noteq> 0"
      proof
        assume "near_flags d 1 = 0"
        then have "\<not> near_flag_bit d j" for j using z by (simp add: near_flag_bit_def near_flags_def)
        then have "near_slot d j = []" if "j < 128" for j using i(3) [OF that] by blast
        then have "near_count d = 0" using slots_empty_count [of d] i(2) by blast
        then show False using n i(4) by simp
      qed
      obtain k where k: "64 \<le> k" "k < 128" "near_flag_bit d k" "\<forall>j. 64 \<le> j \<and> j < k \<longrightarrow> \<not> near_flag_bit d j"
        "get_nearest_tm_ms (near_flags1 d) 64 d = d\<lparr> nearest_timeout_ms := 2 * (k + 1) \<rparr>"
        using get_nearest_spec [OF _ f] by (auto simp: near_flags_def)
      have "\<forall>j < k. \<not> near_flag_bit d j" using k(4) low by (metis not_less)
      then show ?thesis using n z f k by (intro found [of k]) (simp_all add: yf_update_nearest_tm_ms_def near_flags_def)
    qed
  qed
qed

text \<open>
  C22: A poll that stays within a period of the far wheel takes exactly the near timers whose time
  has passed, in whatever words and halves of the flags they are, moves the others by the number
  of periods, computes the time to the earliest of them, and hands what expired to the
  callbacks.
\<close>

theorem yf_poll_timer_near:
  assumes inv: "wheel_inv d" and now: "tm_period_cnt d < now div 2" "now div 128 = far_tm_period_cnt d"
  shows "\<exists>d'. yf_poll_timer cb now d = yf_timeout_caller cb d' \<and> wheel_inv d' \<and> nearest_ok d' \<and>
    tm_period_cnt d' = now div 2 \<and>
    (\<forall>t p. near_due d' t p \<longleftrightarrow> 0 < p \<and> near_due d t (p + (now div 2 - tm_period_cnt d))) \<and>
    set (timeout_list d') = {t. \<exists>p. p \<le> now div 2 - tm_period_cnt d \<and> near_due d t p} \<union> set (timeout_list d)"
proof -
  define D where "D = d\<lparr> tm_period_cnt := now div 2 \<rparr>"
  have slots: "near_slot D = near_slot d" by (rule near_slot_cong) (simp_all add: D_def)
  then have dueD: "near_due D = near_due d" by (intro ext) (simp add: near_due_def)
  have cnt: "near_count D = near_count d" by (rule near_count_cong) (simp add: D_def)
  have "near_flag_bit D = near_flag_bit d" by (rule flag_bit_cong) (simp_all add: D_def)
  then have invD: "wheel_inv D" using inv by (simp add: wheel_inv_def links_ok_def slots cnt) (simp add: D_def)
  have toD: "timeout_list D = timeout_list d" by (simp add: D_def)
  let ?n = "now div 2 - tm_period_cnt d"
  have pos: "0 < ?n" using now by simp
  obtain e where e: "poll_near ?n D = Inr e" "polled ?n D e" using poll_near_spec [OF invD pos] by blast
  from near_tick [OF invD pos] e(1) have tick: "wheel_inv e"
      "\<forall>t p. near_due e t p \<longleftrightarrow> 0 < p \<and> near_due d t (p + ?n)"
      "set (timeout_list e) = {t. \<exists>p. p \<le> ?n \<and> near_due d t p} \<union> set (timeout_list d)"
    unfolding dueD toD by auto
  obtain m where m: "yf_update_nearest_tm_ms e = Inr (e\<lparr> nearest_timeout_ms := m \<rparr>)"
      "nearest_ok (e\<lparr> nearest_timeout_ms := m \<rparr>)"
    using update_nearest_spec [OF tick(1)] by blast
  let ?d = "e\<lparr> nearest_timeout_ms := m \<rparr>"
  have cnts: "tm_period_cnt e = now div 2" "far_tm_period_cnt e = now div 2 div 64"
    using e(2) now(2) by (simp_all add: polled_def D_def flip: div_mult2_eq)
  have upd: "near_due ?d = near_due e" "near_slot ?d = near_slot e" "near_count ?d = near_count e"
      "near_flag_bit ?d = near_flag_bit e"
    by (auto intro!: ext near_slot_cong near_count_cong
      simp: near_due_def near_slot_def slot_at_def near_flag_bit_def near_flags_def)
  have "wheel_inv ?d" using tick(1) by (simp add: wheel_inv_def links_ok_def upd)
  moreover have "yf_poll_timer cb now d = yf_timeout_caller cb ?d"
    using now(1) e(1) m(1) cnts by (simp add: yf_poll_timer_def Let_def and_call_def D_def)
  ultimately show ?thesis using m(2) tick(2,3) cnts by (intro exI [of _ ?d]) (simp add: upd)
qed

theorem yf_poll_timer_near_witness:
  "\<exists>d'. yf_poll_timer (\<lambda>_. Inr) 9 tm_driver0 = yf_timeout_caller (\<lambda>_. Inr) d' \<and> wheel_inv d' \<and> nearest_ok d' \<and>
    tm_period_cnt d' = 9 div 2 \<and>
    (\<forall>t p. near_due d' t p \<longleftrightarrow> 0 < p \<and> near_due tm_driver0 t (p + (9 div 2 - tm_period_cnt tm_driver0))) \<and>
    set (timeout_list d') = {t. \<exists>p. p \<le> 9 div 2 - tm_period_cnt tm_driver0 \<and> near_due tm_driver0 t p} \<union>
      set (timeout_list tm_driver0)"
  by (rule yf_poll_timer_near [OF tm_driver0_inv(1)]) (simp_all add: tm_driver0_def)

subsection \<open>Where the driver fails\<close>

definition going_round :: "nat \<Rightarrow> nat option \<Rightarrow> tm_driver \<Rightarrow> bool" where
  "going_round now pos d \<longleftrightarrow> (\<exists>t u us. tm_lists d Too_far = t # u # us \<and> pos = Some t \<and> distinct (t # u # us) \<and>
     (\<forall>x \<in> {t, u} \<union> set us. too_far_rest now (timers d x) = 131071 \<and> tm_linker (timers d x) = Some Too_far \<and>
        x \<notin> set (timeout_list d)))"

lemma align_131071: "align_up (max YF_TIMER_PRCS_MS 131071) YF_TIMER_PRCS_MS = 131072"
  by (simp add: tm_sizes align_up_def)

lemma going_round_step:
  assumes "going_round now (Some t) d"
  shows "too_far_rest now (timers d t) = 131071"
    "\<exists>d'. yf_add_timer t 131071 d = Inr d' \<and> going_round now (tm_next t (tm_lists d Too_far)) d'"
proof -
  obtain u us where d: "tm_lists d Too_far = t # u # us" "distinct (t # u # us)"
      "\<And>x. x \<in> {t, u} \<union> set us \<Longrightarrow> too_far_rest now (timers d x) = 131071 \<and>
        tm_linker (timers d x) = Some Too_far \<and> x \<notin> set (timeout_list d)"
    using assms by (auto simp: going_round_def)
  show "too_far_rest now (timers d t) = 131071" using d(3) by simp
  let ?d = "tm_link t Too_far (tm_unlink t d)"
  have t: "tm_linker (timers d t) = Some Too_far" "t \<notin> set (timeout_list d)" using d(3) [of t] by simp_all
  then have run: "yf_add_timer t 131071 d = Inr ?d"
    unfolding yf_add_timer_def Let_def align_131071 by (simp add: YF_FAR_TIMER_MS_DIST_def)
  have lists: "tm_lists ?d Too_far = u # us @ [t]"
    using d(1,2) t(1) by (auto simp: tm_link_def tm_unlink_def)
  have rest: "timeout_list ?d = timeout_list d"
    "too_far_rest now (timers ?d x) = too_far_rest now (timers d x)"
    "tm_linker (timers ?d x) = (if x = t then Some Too_far else tm_linker (timers d x))" for x
    using t(1) by (simp_all add: tm_link_def tm_unlink_def too_far_rest_def Let_def)
  obtain v vs where v: "us @ [t] = v # vs" by (cases us) auto
  have "distinct (u # us @ [t])" "\<forall>x \<in> {u} \<union> set (us @ [t]). x \<in> {t, u} \<union> set us" using d(2) by auto
  then have "going_round now (Some u) ?d"
    unfolding going_round_def lists rest using d(3) v
    by (intro exI [of _ u] exI [of _ v] exI [of _ vs]) auto
  then show "\<exists>d'. yf_add_timer t 131071 d = Inr d' \<and> going_round now (tm_next t (tm_lists d Too_far)) d'"
    using run d(1) by simp
qed

lemma too_far_round_None:
  assumes "too_far_loop now pos big_lacy d = Some y" shows "\<not> going_round now pos d"
proof (rule too_far_loop.raw_induct [where P = "\<lambda>now pos big_lacy d y. \<not> going_round now pos d", OF _ assms])
  fix loop and now :: nat and pos big_lacy d y
  assume IH: "\<And>pos big_lacy d b y. loop pos big_lacy d b = Some y \<Longrightarrow> \<not> going_round pos big_lacy b"
    and body: "(case pos of
        None \<Rightarrow> Some (Inr (big_lacy, d))
      | Some t \<Rightarrow>
          (let keep = tm_next t (tm_lists d Too_far);
               rest_ms = too_far_rest now (timers d t) in
           if rest_ms \<ge> YF_FAR_TIMER_MS_DIST then loop now keep big_lacy d
           else case yf_add_timer t rest_ms d of
               Inl e \<Rightarrow> Some (Inl e)
             | Inr d \<Rightarrow> loop now keep (big_lacy \<or> rest_ms < YF_NEAR_TIMER_MS_DIST) d)) = Some y"
  show "\<not> going_round now pos d"
  proof
    assume r: "going_round now pos d"
    then obtain t where t: "pos = Some t" by (auto simp: going_round_def)
    with r have "going_round now (Some t) d" by simp
    note s = going_round_step [OF this]
    obtain d' where d': "yf_add_timer t 131071 d = Inr d'" "going_round now (tm_next t (tm_lists d Too_far)) d'"
      using s(2) by blast
    have "loop now (tm_next t (tm_lists d Too_far)) (big_lacy \<or> 131071 < YF_NEAR_TIMER_MS_DIST) d' = Some y"
      using body t s(1) d'(1) by (simp add: YF_FAR_TIMER_MS_DIST_def Let_def)
    from IH [OF this] d'(2) show False by simp
  qed
qed

lemma too_far_round: "going_round now pos d \<Longrightarrow> too_far_loop now pos big_lacy d = None"
  using too_far_round_None by (cases "too_far_loop now pos big_lacy d") auto

text \<open>
  C23: When two or more of the timers beyond the wheels have exactly 131071 ms left, the walk over
  their list never ends: each is rounded up to 131072 ms, which is too far again, and is put
  at the end of the list that is walked.
\<close>

theorem poll_too_far_never_ends:
  assumes "distinct (tm_lists d Too_far)" "2 \<le> length (tm_lists d Too_far)"
    "\<forall>t \<in> set (tm_lists d Too_far). time_start (timers d t) \<le> now \<and>
       time_out_ms (timers d t) = 131071 + (now - time_start (timers d t)) \<and>
       tm_linker (timers d t) = Some Too_far \<and> t \<notin> set (timeout_list d)"
  shows "poll_too_far now d = None"
proof -
  obtain t u us where l: "tm_lists d Too_far = t # u # us"
    using assms(2) by (cases "tm_lists d Too_far"; cases "tl (tm_lists d Too_far)") auto
  then have "going_round now (Some t) d"
    using assms(1,3) by (auto simp: going_round_def too_far_rest_def Let_def)
  then show ?thesis using too_far_round [of now "Some t" d False] l by (simp add: poll_too_far_def)
qed

theorem poll_too_far_never_ends_witness:
  "poll_too_far 65536 (tm_driver0\<lparr> tm_lists := (\<lambda>_. [])(Too_far := [4, 7]),
     timers := (\<lambda>_. tm_timer0\<lparr> tm_linker := Some Too_far, time_out_ms := 131071 + 65536 \<rparr>) \<rparr>) = None"
  by (rule poll_too_far_never_ends) (simp_all add: tm_driver0_def tm_timer0_def)

lemmas tm_eval = yf_register_tm_evt_def yf_unregister_tm_evt_def yf_del_timer_def yf_set_timer_val_def
  yf_add_timer_def tm_driver0_def tm_timer0_def align_up_def tm_sizes yf_add_near_timer_def near_set_flag_def
  near_reset_flag_def LIST_ADD_TIMER_def tm_link_def tm_unlink_def yf_near_timer_inc_def yf_set_bit_def
  yf_reset_bit_def Let_def



end
