(* ===== verification/Bridge.thy ===== *)
theory Bridge
  imports Task_Queue Node_Pool Tm_Event
begin

section \<open>The bridge\<close>

text \<open>
  Models \<^verbatim>\<open>bridge/bridge_in/yf_bridge_in.h\<close> and \<^verbatim>\<open>yf_bridge_in.c\<close>, with the functions that choose a
  queue in \<^verbatim>\<open>yf_bridge_proc.c\<close> and \<^verbatim>\<open>yf_bridge_thr.c\<close>. A parent sends tasks to its children through one
  queue per child (processes, threads) or one queue for all (blocked threads that take any
  task), and gets the results back the same way. The context of a task is a node of a
  pool and its id the id of that node; a timer of the parent's event driver gives it up in time. Signals
  that wake the other side move no data and are left out; a queue is locked during a push
  or a pop, which is one step here. The handlers of tasks and results are parameters that act on the bridge
  and on \<^verbatim>\<open>client\<close>, the state of the code that uses it.
\<close>

datatype bridge_ins = Bridge_proc | Bridge_thr | Bridge_bt

record task_ctx =
  ctx_data :: nat
  ctx_tm_evt :: "nat option"
  ctx_child_no :: nat

record 'c bridge =
  bridge_ins :: bridge_ins
  hash_mod :: bool
  child_num :: nat
  max_task_size :: nat
  evt_driven :: bool
  cb_info_pool :: np_state
  task_ctxs :: "addr \<Rightarrow> task_ctx"
  tm_evts :: tm_driver
  tm_evt_data :: "nat \<Rightarrow> addr"
  tqs :: "nat \<Rightarrow> task_queue"
  rtqs :: "nat \<Rightarrow> task_queue"
  task_buf :: "nat \<Rightarrow> bool"
  task_execut :: "nat \<Rightarrow> u32"
  client :: 'c

text \<open>The clocks: of the id seeds, of the event driver in seconds and ms, and the wall clock.\<close>

record bridge_time =
  seed_clock :: u64
  clock_sec :: u32
  clock_ms :: nat
  wall_sec :: u32
  wall_msec :: u32

definition YF_ANY_CHILD_NO :: nat where "YF_ANY_CHILD_NO = 0xfffe"
definition YF_BRIDGE_MAX_CHILD_NUM :: nat where "YF_BRIDGE_MAX_CHILD_NUM = 32"
definition YF_TASK_SUCESS :: int where "YF_TASK_SUCESS = 0"
definition YF_TASK_TIMEOUT :: int where "YF_TASK_TIMEOUT = 1"
definition YF_TASK_ERROR :: int where "YF_TASK_ERROR = 2"

subsection \<open>Creating a bridge\<close>

record bridge_cxt =
  parent_ins_type :: nat
  child_ins_type :: nat
  parent_poll_type :: nat
  child_poll_type :: nat
  task_dispatch_type :: nat
  exec_func :: bool
  cx_child_num :: nat
  cx_max_task_size :: nat
  cx_max_task_num :: nat
  cx_queue_capacity :: nat

definition YF_TASK_DISTPATCH_HASH_MOD :: nat where "YF_TASK_DISTPATCH_HASH_MOD = 1"
definition YF_TASK_DISTPATCH_IDLE :: nat where "YF_TASK_DISTPATCH_IDLE = 2"

definition yf_bridge_creator_index :: "bridge_cxt \<Rightarrow> nat" where
  "yf_bridge_creator_index cx = child_ins_type cx + 2 * parent_ins_type cx + 4 * child_poll_type cx +
     8 * parent_poll_type cx"

definition yf_bridge_ci :: "bridge_ins option list" where
  "yf_bridge_ci = [Some Bridge_proc, Some Bridge_thr, None, Some Bridge_thr, Some Bridge_proc, Some Bridge_bt, None,
     Some Bridge_bt, None, None, None, None, None, None, None, None]"

text \<open>
  The three creators: which kind of bridge it is, none where they fail, and the size of its queues.
  \<open>mem i\<close> is what the memory of queue \<open>i\<close> holds.
\<close>

definition creator :: "bridge_ins \<Rightarrow> bridge_cxt \<Rightarrow> (bridge_ins \<times> nat) option" where
  "creator b cx = (case b of
     Bridge_proc \<Rightarrow> if exec_func cx then Some (Bridge_proc, cx_queue_capacity cx) else None
   | Bridge_thr \<Rightarrow> Some (Bridge_thr, cx_queue_capacity cx)
   | Bridge_bt \<Rightarrow> if task_dispatch_type cx \<noteq> YF_TASK_DISTPATCH_IDLE then Some (Bridge_thr, cx_queue_capacity cx)
       else Some (Bridge_bt, cx_child_num cx * cx_queue_capacity cx))"

definition fix_sizes :: "bridge_cxt \<Rightarrow> bridge_cxt" where
  "fix_sizes cx =
     (let cap = align_up (cx_queue_capacity cx) 8 in
      cx\<lparr> cx_queue_capacity := cap,
          cx_max_task_size := (if cx_max_task_size cx \<ge> cap div 4 then cap div 4 else cx_max_task_size cx) \<rparr>)"

definition task_ctx0 :: task_ctx where
  "task_ctx0 = \<lparr> ctx_data = 0, ctx_tm_evt = None, ctx_child_no = 0 \<rparr>"

definition cb_pool0 :: "addr \<Rightarrow> addr \<Rightarrow> bridge_cxt \<Rightarrow> node_pool" where
  "cb_pool0 nodes fl cx = \<lparr> nodes_array = nodes, total_num = of_nat (cx_max_task_num cx), pool_index = 0,
     each_taken_size = yf_node_taken_size 32, free_list = fl, free_size = 0, np_seed = id_seed_group0 \<rparr>"

text \<open>
  \<^verbatim>\<open>yf_bridge_create\<close>: \<open>alloc_ok\<close> tells whether the memory is had, \<open>nodes\<close> and \<open>fl\<close> are the
  addresses of the nodes and of the free list in it. The bridge keeps the context as it was
  before the sizes are corrected; the caller's context is corrected.
\<close>

definition yf_bridge_create ::
  "bool \<Rightarrow> u64 \<Rightarrow> id_seed_glob \<Rightarrow> np_mem \<Rightarrow> addr \<Rightarrow> addr \<Rightarrow> (nat \<Rightarrow> task_queue) \<Rightarrow> tm_driver \<Rightarrow> 'c \<Rightarrow> bridge_cxt \<Rightarrow>
   ('c bridge option \<times> bridge_cxt) run" where
  "yf_bridge_create alloc_ok now G M nodes fl mem d cl cx =
     (if cx_child_num cx > YF_BRIDGE_MAX_CHILD_NUM \<or> cx_child_num cx = 0 \<or> \<not> alloc_ok then Inr (None, cx)
      else
        let ctx = cx; cx = fix_sizes cx in
        run_bind (yf_init_node_pool now G M (cb_pool0 nodes fl cx)) (\<lambda>pool.
        require Out_of_bounds (yf_bridge_creator_index cx < length yf_bridge_ci)
          (case Option.bind (yf_bridge_ci ! yf_bridge_creator_index cx) (\<lambda>b. creator b ctx) of
             None \<Rightarrow> Inr (None, cx)
           | Some (ins, tq_size) \<Rightarrow>
               Inr (Some \<lparr> bridge_ins = ins, hash_mod = (task_dispatch_type ctx = YF_TASK_DISTPATCH_HASH_MOD),
                 child_num = cx_child_num ctx, max_task_size = cx_max_task_size ctx, evt_driven = False,
                 cb_info_pool = pool, task_ctxs = (\<lambda>_. task_ctx0), tm_evts = d, tm_evt_data = (\<lambda>_. 0),
                 tqs = (\<lambda>c. yf_init_task_queue (mem (2 * c)) tq_size),
                 rtqs = (\<lambda>c. yf_init_task_queue (mem (2 * c + 1)) tq_size), task_buf = (\<lambda>_. False),
                 task_execut = (\<lambda>_. 0), client = cl \<rparr>, cx))))"

definition yf_attach_res_bridge :: "bool \<Rightarrow> 'c bridge \<Rightarrow> 'c bridge" where
  "yf_attach_res_bridge has_driver B = B\<lparr> evt_driven := has_driver \<rparr>"

subsection \<open>Choosing a queue\<close>

fun idle_scan :: "(nat \<Rightarrow> u32) \<Rightarrow> nat list \<Rightarrow> u32 \<Rightarrow> nat \<Rightarrow> nat" where
  "idle_scan execut [] tq_cnt tq_no = tq_no"
| "idle_scan execut (i # is) tq_cnt tq_no =
     (if execut i < tq_cnt then idle_scan execut is (execut i) i
      else idle_scan execut is tq_cnt tq_no)"

definition yf_bridge_get_idle_tq :: "'c bridge \<Rightarrow> nat" where
  "yf_bridge_get_idle_tq B = idle_scan (task_execut B) [0..<child_num B] 0xfffffffe 0"

text \<open>The number of the queue the functions lock; none of them fails.\<close>

definition lock_tq :: "'c bridge \<Rightarrow> nat \<Rightarrow> nat" where
  "lock_tq B child_no = (case bridge_ins B of
     Bridge_bt \<Rightarrow> 0
   | _ \<Rightarrow> if child_no = YF_ANY_CHILD_NO then yf_bridge_get_idle_tq B else child_no)"

definition lock_res_tq :: "'c bridge \<Rightarrow> nat \<Rightarrow> nat" where
  "lock_res_tq B child_no = (case bridge_ins B of Bridge_bt \<Rightarrow> 0 | _ \<Rightarrow> child_no)"

subsection \<open>The parent\<close>

definition upd_ctx :: "addr \<Rightarrow> (task_ctx \<Rightarrow> task_ctx) \<Rightarrow> 'c bridge \<Rightarrow> 'c bridge" where
  "upd_ctx node f B = B\<lparr> task_ctxs := (task_ctxs B)(node := f (task_ctxs B node)) \<rparr>"

definition free_ctx :: "addr \<Rightarrow> 'c bridge \<Rightarrow> 'c bridge run" where
  "free_ctx node B = (case cb_info_pool B of (G, M, P) \<Rightarrow>
     run_bind (yf_free_node_to_pool M P node) (\<lambda>(M, P). Inr (B\<lparr> cb_info_pool := (G, M, P) \<rparr>)))"

definition free_ctx_tm_evt :: "addr \<Rightarrow> 'c bridge \<Rightarrow> 'c bridge run" where
  "free_ctx_tm_evt node B = (case ctx_tm_evt (task_ctxs B node) of
     None \<Rightarrow> Inr B
   | Some t \<Rightarrow> run_bind (yf_free_tm_evt t (tm_evts B)) (\<lambda>(_, d). Inr (B\<lparr> tm_evts := d \<rparr>)))"

text \<open>\<^verbatim>\<open>yf_send_task\<close> from the label \<^verbatim>\<open>failed\<close>; \<open>-1\<close> is returned as an unsigned number.\<close>

definition send_failed :: "addr \<Rightarrow> 'c bridge \<Rightarrow> (u64 \<times> 'c bridge) run" where
  "send_failed node B =
     run_bind (free_ctx_tm_evt node B) (\<lambda>B. run_bind (free_ctx node B) (\<lambda>B. Inr (- 1, B)))"

definition set_ctx_tm_evt :: "bridge_time \<Rightarrow> addr \<Rightarrow> u32 \<Rightarrow> 'c bridge \<Rightarrow> (bool \<times> 'c bridge) run" where
  "set_ctx_tm_evt T node timeout_ms B = (case yf_alloc_tm_evt (tm_evts B) of
     ((ret, None), d) \<Rightarrow> Inr (False, B\<lparr> tm_evts := d \<rparr>)
   | ((ret, Some t), d) \<Rightarrow>
       run_bind (yf_register_tm_evt t (clock_ms T) (unat (timeout_ms + 1000)) d) (\<lambda>d.
       Inr (True, upd_ctx node (\<lambda>x. x\<lparr> ctx_tm_evt := Some t \<rparr>)
              (B\<lparr> tm_evts := d, tm_evt_data := (tm_evt_data B)(t := node) \<rparr>))))"

definition new_task_info :: "bridge_time \<Rightarrow> u64 \<Rightarrow> u32 \<Rightarrow> task_info" where
  "new_task_info T task_id timeout_ms =
     \<lparr> ti_id = task_id, ti_sec = wall_sec T, ti_msec = wall_msec T, ti_status = 0,
       ti_timeout_ms = take_bit 20 (min (push_bit 20 1) timeout_ms), ti_timeout = False, ti_error = False \<rparr>"

definition yf_send_task ::
  "bridge_time \<Rightarrow> 'c bridge \<Rightarrow> u8 list \<Rightarrow> u32 \<Rightarrow> nat \<Rightarrow> u32 \<Rightarrow> (u64 \<times> 'c bridge) run" where
  "yf_send_task T B task hash data timeout_ms =
     (if length task > max_task_size B then Inr (- 1, B)
      else
        let child_no = (if hash_mod B then unat hash mod child_num B else YF_ANY_CHILD_NO) in
        case cb_info_pool B of (G, M, P) \<Rightarrow>
        run_bind (yf_alloc_node_from_pool (seed_clock T) G M P) (\<lambda>(node, G, M, P).
        let B = B\<lparr> cb_info_pool := (G, M, P) \<rparr> in
        if node = NULL then Inr (- 1, B)
        else
          let B = upd_ctx node (\<lambda>_. \<lparr> ctx_data = data, ctx_tm_evt = None, ctx_child_no = 0 \<rparr>) B in
          run_bind (yf_get_id_by_node M P node) (\<lambda>task_id.
          let child_no = lock_tq B child_no in
          c_assert (child_no < child_num B)
            (let B = upd_ctx node (\<lambda>x. x\<lparr> ctx_child_no := child_no \<rparr>) B;
                 timeout_ms = (if timeout_ms = 0 \<and> bridge_ins B = Bridge_proc then 7200 * 1000
                               else timeout_ms) in
             run_bind (if timeout_ms \<noteq> 0 \<and> evt_driven B then set_ctx_tm_evt T node timeout_ms B
                       else Inr (True, B)) (\<lambda>(ok, B).
             if \<not> ok then send_failed node B
             else
               run_bind (yf_task_push (clock_sec T) (tqs B child_no)
                   (new_task_info T task_id timeout_ms) task) (\<lambda>(ret, q).
               let B = B\<lparr> tqs := (tqs B)(child_no := q) \<rparr> in
               if ret \<noteq> YF_OK then send_failed node B
               else Inr (task_id,
                 B\<lparr> task_execut := (task_execut B)(child_no := task_execut B child_no + 1) \<rparr>)))))))"

type_synonym 'c res_handler = "u8 list \<Rightarrow> u64 \<Rightarrow> int \<Rightarrow> nat \<Rightarrow> 'c bridge \<Rightarrow> 'c bridge run"
type_synonym 'c task_handler = "nat \<Rightarrow> u8 list \<Rightarrow> u64 \<Rightarrow> 'c bridge \<Rightarrow> 'c bridge run"

definition bridge_task_timeout_handler :: "'c res_handler \<Rightarrow> nat \<Rightarrow> 'c bridge \<Rightarrow> 'c bridge run" where
  "bridge_task_timeout_handler rh t B =
     (let node = tm_evt_data B t; ctx = task_ctxs B node in
      c_assert (ctx_tm_evt ctx = Some t)
        (case cb_info_pool B of (G, M, P) \<Rightarrow>
         run_bind (yf_get_id_by_node M P node) (\<lambda>task_id.
         let B = B\<lparr> task_execut := (task_execut B)(ctx_child_no ctx := task_execut B (ctx_child_no ctx) - 1) \<rparr> in
         run_bind (rh [] task_id YF_TASK_TIMEOUT (ctx_data ctx) B) (\<lambda>B.
         run_bind (free_ctx node B) (\<lambda>B.
         run_bind (yf_free_tm_evt t (tm_evts B)) (\<lambda>(_, d). Inr (B\<lparr> tm_evts := d \<rparr>)))))))"

definition res_status :: "task_info \<Rightarrow> int" where
  "res_status i = (if ti_timeout i then YF_TASK_TIMEOUT else if ti_error i then YF_TASK_ERROR
     else sint (ti_status i))"

text \<open>One turn of the loop with the result that was popped.\<close>

definition on_task_res :: "'c res_handler \<Rightarrow> nat \<Rightarrow> task_info \<times> u8 list \<Rightarrow> 'c bridge \<Rightarrow> 'c bridge run" where
  "on_task_res rh child_no r B = (case r of (info, res) \<Rightarrow> (case cb_info_pool B of (G, M, P) \<Rightarrow>
     run_bind (yf_get_node_by_id M P (ti_id info)) (\<lambda>node.
     if node = NULL then Inr B
     else
       c_assert (child_no = ctx_child_no (task_ctxs B node))
         (let B = B\<lparr> task_execut := (task_execut B)(child_no := task_execut B child_no - 1) \<rparr> in
          run_bind (free_ctx_tm_evt node B) (\<lambda>B.
          run_bind (rh res (ti_id info) (res_status info) (ctx_data (task_ctxs B node)) B)
            (free_ctx node))))))"

partial_function (option) yf_bridge_on_task_res_valiable ::
  "'c res_handler \<Rightarrow> nat \<Rightarrow> 'c bridge \<Rightarrow> 'c bridge run option" where
  "yf_bridge_on_task_res_valiable rh child_no B =
     (let child_no = lock_res_tq B child_no in
      case yf_task_pop (rtqs B child_no) (Some (max_task_size B)) of
        Inl e \<Rightarrow> Some (Inl e)
      | Inr (ret, r, q) \<Rightarrow>
          (let B = B\<lparr> rtqs := (rtqs B)(child_no := q) \<rparr> in
           case r of
             None \<Rightarrow> Some (Inr B)
           | Some r \<Rightarrow>
               (case on_task_res rh child_no r B of
                  Inl e \<Rightarrow> Some (Inl e)
                | Inr B \<Rightarrow> yf_bridge_on_task_res_valiable rh child_no B)))"

subsection \<open>The children\<close>

text \<open>
  \<^verbatim>\<open>yf_attach_bridge\<close>: \<open>no\<close> is what \<^verbatim>\<open>child_no\<close> returns, \<open>ins\<close> the number \<^verbatim>\<open>attach_child_ins\<close>
  gives, none where the pointer is null.
\<close>

definition yf_attach_bridge :: "int \<Rightarrow> int option \<Rightarrow> bool \<Rightarrow> 'c bridge \<Rightarrow> int \<times> 'c bridge" where
  "yf_attach_bridge no ins alloc_ok B =
     (case (if no < 0 then case ins of None \<Rightarrow> None | Some i \<Rightarrow> if i < 0 then None else Some i else Some no) of
        None \<Rightarrow> (YF_ERROR, B)
      | Some i \<Rightarrow>
          let have_buf = (if bridge_ins B = Bridge_proc then True else alloc_ok);
              B = B\<lparr> task_buf := (task_buf B)(nat i := have_buf) \<rparr> in
          (if have_buf then YF_OK else YF_ERROR, B))"

definition yf_send_task_res_in ::
  "bridge_time \<Rightarrow> nat \<Rightarrow> u8 list \<Rightarrow> task_info \<Rightarrow> 'c bridge \<Rightarrow> (int \<times> 'c bridge) run" where
  "yf_send_task_res_in T child_no res info B =
     (let child_no = lock_res_tq B child_no;
          (info, res) = (if length res > max_task_size B then (info\<lparr> ti_error := True \<rparr>, []) else (info, res)) in
      run_bind (yf_task_push (clock_sec T) (rtqs B child_no) info res) (\<lambda>(ret, q).
      Inr (ret, B\<lparr> rtqs := (rtqs B)(child_no := q) \<rparr>)))"

text \<open>
  The initialiser \<^verbatim>\<open>{id, status, 0, 0, 0}\<close> of \<^verbatim>\<open>yf_send_task_res\<close>: the second member of
  \<^verbatim>\<open>task_info_t\<close> is a structure of two numbers, and the values go to them first.
\<close>

definition yf_send_task_res ::
  "bridge_time \<Rightarrow> nat \<Rightarrow> u8 list \<Rightarrow> u64 \<Rightarrow> int \<Rightarrow> 'c bridge \<Rightarrow> (int \<times> 'c bridge) run" where
  "yf_send_task_res T child_no res i status B =
     yf_send_task_res_in T child_no res
       \<lparr> ti_id = i, ti_sec = word_of_int status, ti_msec = 0, ti_status = 0, ti_timeout_ms = 0,
         ti_timeout = False, ti_error = False \<rparr> B"

definition yf_time_diff_ms :: "u32 \<times> u32 \<Rightarrow> u32 \<times> u32 \<Rightarrow> int" where
  "yf_time_diff_ms tm1 tm2 = sint (fst tm1 - fst tm2) * 1000 + sint (snd tm1) - sint (snd tm2)"

definition on_task ::
  "'c task_handler \<Rightarrow> bridge_time \<Rightarrow> nat \<Rightarrow> task_info \<times> u8 list \<Rightarrow> 'c bridge \<Rightarrow> 'c bridge run" where
  "on_task th T child_no r B = (case r of (info, task) \<Rightarrow>
     let diff_ms = yf_time_diff_ms (wall_sec T, wall_msec T) (ti_sec info, ti_msec info) in
     if ti_timeout_ms info \<noteq> 0 \<and> diff_ms > uint (ti_timeout_ms info)
     then run_bind (yf_send_task_res_in T child_no [] (info\<lparr> ti_timeout := True \<rparr>) B) (\<lambda>(_, B). Inr B)
     else th child_no task (ti_id info) B)"

text \<open>
  The clocks are read in each turn. The child is the thread or the process that runs, \<open>self\<close>;
  \<open>child_no\<close> is the number its queue has.
\<close>

partial_function (option) on_task_loop ::
  "'c task_handler \<Rightarrow> (nat \<Rightarrow> bridge_time) \<Rightarrow> nat \<Rightarrow> nat \<Rightarrow> nat \<Rightarrow> 'c bridge \<Rightarrow> 'c bridge run option" where
  "on_task_loop th T n self child_no B =
     (let child_no = lock_tq B child_no in
      case yf_task_pop (tqs B child_no) (Some (max_task_size B)) of
        Inl e \<Rightarrow> Some (Inl e)
      | Inr (ret, r, q) \<Rightarrow>
          (let B = B\<lparr> tqs := (tqs B)(child_no := q) \<rparr> in
           case r of
             None \<Rightarrow> Some (Inr B)
           | Some r \<Rightarrow>
               (case on_task th (T n) self r B of
                  Inl e \<Rightarrow> Some (Inl e)
                | Inr B \<Rightarrow> on_task_loop th T (n + 1) self child_no B)))"

definition yf_bridge_on_task_valiable ::
  "'c task_handler \<Rightarrow> (nat \<Rightarrow> bridge_time) \<Rightarrow> nat \<Rightarrow> 'c bridge \<Rightarrow> 'c bridge run option" where
  "yf_bridge_on_task_valiable th T child_no B =
     (if task_buf B child_no then on_task_loop th T 0 child_no child_no B else Some (Inl Assert_failed))"

text \<open>\<^verbatim>\<open>yf_poll_task\<close>: \<open>wait\<close> is what happens to the bridge while the child waits.\<close>

definition yf_poll_task ::
  "'c task_handler \<Rightarrow> (nat \<Rightarrow> bridge_time) \<Rightarrow> ('c bridge \<Rightarrow> 'c bridge run option) \<Rightarrow>
   (nat \<Rightarrow> bridge_time) \<Rightarrow> nat \<Rightarrow> 'c bridge \<Rightarrow> 'c bridge run option" where
  "yf_poll_task th T wait T' child_no B =
     Option.bind (yf_bridge_on_task_valiable th T child_no B) (\<lambda>r. case r of
       Inl e \<Rightarrow> Some (Inl e)
     | Inr B \<Rightarrow> Option.bind (wait B) (\<lambda>r. case r of
         Inl e \<Rightarrow> Some (Inl e)
       | Inr B \<Rightarrow> yf_bridge_on_task_valiable th T' child_no B))"

end
