(* ===== verification/Bridge_Run.thy ===== *)
theory Bridge_Run
  imports Bridge Tm_Poll
begin

section \<open>The protocol of the bridge\<close>

text \<open>
  Runs of a parent and its children over a bridge: sends, expiring timers, polls of both sides
  and replies, in any order. The invariant ties the pool of task contexts, the timers, the
  queues and the counters together.
\<close>

subsection \<open>Timers the bridge uses\<close>

definition tm_frame :: "nat \<Rightarrow> tm_driver \<Rightarrow> tm_driver \<Rightarrow> bool" where
  "tm_frame t d d' \<longleftrightarrow> tm_free_list d' = tm_free_list d \<and> timeout_list d' = timeout_list d \<and>
     (\<forall>u. u \<noteq> t \<longrightarrow> timers d' u = timers d u)"

lemma tm_frame_refl: "tm_frame t d d"
  by (simp add: tm_frame_def)

lemma tm_frame_trans: "tm_frame t d e \<Longrightarrow> tm_frame t e f \<Longrightarrow> tm_frame t d f"
  by (simp add: tm_frame_def)

lemma tm_frame_link: "tm_frame t d (tm_link t l d)" "tm_frame t d (LIST_ADD_TIMER t l d)"
    "tm_frame t d (tm_unlink t d)" "tm_frame t d (near_set_flag i d)" "tm_frame t d (near_reset_flag i d)"
    "tm_frame t d (yf_set_timer_val t now ms fd d)"
  by (auto simp: tm_frame_def tm_link_def LIST_ADD_TIMER_def tm_unlink_def near_set_flag_def near_reset_flag_def
      yf_set_timer_val_def Let_def split: option.splits)

lemma tm_frame_field:
  "tm_frame t d (d'\<lparr> fdtm_evts_num := x \<rparr>) = tm_frame t d d'"
  "tm_frame t d (d'\<lparr> stm_evts_num := x \<rparr>) = tm_frame t d d'"
  "tm_frame t d (d'\<lparr> near_evts_num := x \<rparr>) = tm_frame t d d'"
  "tm_frame t d (d'\<lparr> nearest_timeout_ms := y \<rparr>) = tm_frame t d d'"
  by (simp_all add: tm_frame_def)

lemma tm_frame_add_near:
  assumes "2 \<le> ms" "ms \<le> 256" shows "\<exists>d'. yf_add_near_timer t ms d = Inr d' \<and> tm_frame t d d'"
proof -
  have "tm_frame t d (LIST_ADD_TIMER t l (near_set_flag i d))" for i l
    by (rule tm_frame_trans [OF tm_frame_link(4) tm_frame_link(2)])
  then show ?thesis using assms
    by (simp add: yf_add_near_timer_def tm_sizes Let_def tm_frame_field)
qed

lemma tm_frame_add:
  assumes "t \<notin> set (timeout_list d)" shows "\<exists>d'. yf_add_timer t ms d = Inr d' \<and> tm_frame t d d'"
proof -
  define e where "e = (if tm_linker (timers d t) \<noteq> None then tm_unlink t d
                 else if is_fd_evt (timers d t) then d\<lparr> fdtm_evts_num := fdtm_evts_num d + 1 \<rparr>
                 else d\<lparr> stm_evts_num := stm_evts_num d + 1 \<rparr>)"
  define m where "m = align_up (max YF_TIMER_PRCS_MS ms) YF_TIMER_PRCS_MS"
  have e: "tm_frame t d e" by (simp add: e_def tm_frame_link tm_frame_field tm_frame_refl)
  have "2 \<le> m" using align_up_ge [of 2 "max 2 ms"] by (simp add: m_def tm_sizes)
  then have near: "m < 256 \<Longrightarrow> \<exists>n. yf_add_near_timer t m e = Inr n \<and> tm_frame t e n"
    by (intro tm_frame_add_near) simp_all
  have run: "yf_add_timer t ms d =
      (if m \<ge> YF_FAR_TIMER_MS_DIST then Inr (tm_link t Too_far e)
        else if m \<ge> YF_NEAR_TIMER_MS_DIST then
          (let pass_mod_ms = (tm_period_cnt e * 2) mod YF_FAR_TIMER_PRCS_MS;
               diff_ms = m - (YF_FAR_TIMER_PRCS_MS - pass_mod_ms);
               index = yf_far_timer_inc e (diff_ms div YF_FAR_TIMER_PRCS_MS) in
           Inr (LIST_ADD_TIMER t (Far index) e))
        else yf_add_near_timer t m e)"
    unfolding yf_add_timer_def Let_def e_def [symmetric] m_def [symmetric] using assms by simp
  show ?thesis
  proof (cases "m < 256")
    case True
    then have "yf_add_timer t ms d = yf_add_near_timer t m e" using run by (simp add: tm_sizes)
    then show ?thesis using near [OF True] tm_frame_trans [OF e] by auto
  next
    case False
    then show ?thesis unfolding run
      using tm_frame_trans [OF e tm_frame_link(1)] tm_frame_trans [OF e tm_frame_link(2)]
      by (simp add: tm_sizes Let_def)
  qed
qed

lemma tm_frame_register:
  assumes "t \<notin> set (timeout_list d)"
  shows "\<exists>d'. yf_register_tm_evt t now ms d = Inr d' \<and> tm_frame t d d'"
proof -
  let ?e = "yf_set_timer_val t now ms False d"
  have e: "tm_frame t d ?e" by (rule tm_frame_link)
  then have "t \<notin> set (timeout_list ?e)" using assms by (simp add: tm_frame_def)
  from tm_frame_add [OF this] obtain d' where "yf_add_timer t (time_out_ms (timers ?e t)) ?e = Inr d'" "tm_frame t ?e d'"
    by blast
  then show ?thesis using tm_frame_trans [OF e] by (auto simp: yf_register_tm_evt_def Let_def)
qed

lemma tm_frame_del: "tm_frame t d (snd (yf_del_timer t d))" "tm_linker (timers (snd (yf_del_timer t d)) t) = None"
proof -
  define e where "e = tm_unlink t (if is_fd_evt (timers d t) then d\<lparr> fdtm_evts_num := fdtm_evts_num d - 1 \<rparr>
                 else d\<lparr> stm_evts_num := stm_evts_num d - 1 \<rparr>)"
  define d' where "d' = snd (yf_del_timer t d)"
  have eq: "tm_free_list e = tm_free_list d" "timeout_list e = timeout_list d"
    "u \<noteq> t \<Longrightarrow> timers e u = timers d u" "tm_linker (timers e t) = None" for u
    by (simp_all add: e_def tm_unlink_def split: option.split)
  have near: "tm_free_list (near_reset_flag i e) = tm_free_list e" "timeout_list (near_reset_flag i e) = timeout_list e"
    "timers (near_reset_flag i e) = timers e" for i
    by (simp_all add: near_reset_flag_def)
  have "d' = (if tm_linker (timers d t) = None then d else
     case tm_head (timers e t) of
          Some (Near i) \<Rightarrow>
            (let f = (if tm_lists e (Near i) = []
                      then near_reset_flag ((i + YF_NEAREST_TIMER_ROLL_SIZE - near_tm_roll_index e)
                             mod YF_NEAREST_TIMER_ROLL_SIZE) e
                      else e) in f\<lparr> near_evts_num := near_evts_num f - 1 \<rparr>)
        | _ \<Rightarrow> e)"
    unfolding d'_def yf_del_timer_def Let_def e_def [symmetric]
    by (cases "tm_head (timers e t)") (auto split: tm_list.split)
  then have "tm_frame t d d' \<and> tm_linker (timers d' t) = None"
    by (auto simp: tm_frame_def eq near Let_def split: option.split tm_list.split)
  then show "tm_frame t d (snd (yf_del_timer t d))" "tm_linker (timers (snd (yf_del_timer t d)) t) = None"
    by (simp_all add: d'_def)
qed

lemma tm_free_ok:
  assumes "t \<notin> set (timeout_list d)"
  shows "\<exists>r d'. yf_free_tm_evt t d = Inr (r, d') \<and> set (tm_free_list d') \<subseteq> insert t (set (tm_free_list d)) \<and>
    (t \<notin> set (tm_free_list d) \<longrightarrow> distinct (tm_free_list d) \<longrightarrow> distinct (tm_free_list d')) \<and>
    timeout_list d' = timeout_list d \<and>
    (\<forall>u. tm_linker (timers d' u) = (if u = t then None else tm_linker (timers d u)))"
proof -
  note del = tm_frame_del [of t d]
  show ?thesis using assms del unfolding yf_free_tm_evt_def tm_frame_def Let_def
    by (auto simp: require_def)
qed

subsection \<open>The invariant\<close>

definition queue_inv :: "task_queue \<Rightarrow> nat \<Rightarrow> u64 set \<Rightarrow> (u64 \<Rightarrow> nat) \<Rightarrow> bool" where
  "queue_inv q c U A \<longleftrightarrow> (\<exists>ts. tq_rep q ts \<and> (\<forall>x \<in> set ts. ti_id (fst (snd x)) \<in> U \<and> A (ti_id (fst (snd x))) = c))"

definition timers_inv :: "'c bridge \<Rightarrow> (u64 \<times> addr) list \<Rightarrow> bool" where
  "timers_inv B L \<longleftrightarrow> distinct (tm_free_list (tm_evts B)) \<and> timeout_list (tm_evts B) = [] \<and>
     (\<forall>i n t. (i, n) \<in> set L \<longrightarrow> ctx_tm_evt (task_ctxs B n) = Some t \<longrightarrow>
        t \<notin> set (tm_free_list (tm_evts B)) \<and> tm_evt_data B t = n) \<and>
     (\<forall>t. tm_linker (timers (tm_evts B) t) \<noteq> None \<longrightarrow>
        (\<exists>i n. (i, n) \<in> set L \<and> ctx_tm_evt (task_ctxs B n) = Some t))"

definition core :: "'c bridge \<Rightarrow> (u64 \<times> addr) list \<Rightarrow> u64 set \<Rightarrow> (u64 \<Rightarrow> nat) \<Rightarrow> bool" where
  "core B L U A \<longleftrightarrow> 0 < child_num B \<and> child_num B \<le> YF_BRIDGE_MAX_CHILD_NUM \<and> max_task_size B < 2 ^ 32 \<and>
     (\<forall>c < child_num B. task_buf B c \<and> queue_inv (tqs B c) c U A \<and> queue_inv (rtqs B c) c U A) \<and>
     np_rep (cb_info_pool B) L U \<and>
     (\<forall>i n. (i, n) \<in> set L \<longrightarrow> ctx_child_no (task_ctxs B n) = A i \<and> A i < child_num B) \<and>
     timers_inv B L"

definition counts :: "'c bridge \<Rightarrow> (u64 \<times> addr) list \<Rightarrow> (u64 \<Rightarrow> nat) \<Rightarrow> bool" where
  "counts B L A \<longleftrightarrow> (\<forall>c < child_num B. task_execut B c = of_nat (length (filter (\<lambda>x. A (fst x) = c) L)))"

lemma core_cong [simp]:
  "core (B\<lparr> client := x \<rparr>) L U A = core B L U A" "core (B\<lparr> task_execut := y \<rparr>) L U A = core B L U A"
  by (simp_all add: core_def timers_inv_def)

lemma counts_cong [simp]:
  "counts (B\<lparr> client := x \<rparr>) L A = counts B L A" "counts (B\<lparr> cb_info_pool := s \<rparr>) L A = counts B L A"
  "counts (B\<lparr> tm_evts := d \<rparr>) L A = counts B L A" "counts (B\<lparr> tqs := q \<rparr>) L A = counts B L A"
  "counts (B\<lparr> rtqs := q \<rparr>) L A = counts B L A"
  by (simp_all add: counts_def)

lemma queue_inv_fresh:
  assumes "queue_inv q c U A" "i \<notin> U" shows "queue_inv q c (insert i U) (A(i := x))"
proof -
  obtain ts where ts: "tq_rep q ts" "\<And>x. x \<in> set ts \<Longrightarrow> ti_id (fst (snd x)) \<in> U \<and> A (ti_id (fst (snd x))) = c"
    using assms(1) by (auto simp: queue_inv_def)
  then have "\<forall>y \<in> set ts. ti_id (fst (snd y)) \<in> insert i U \<and> (A(i := x)) (ti_id (fst (snd y))) = c"
    using assms(2) by (metis fun_upd_apply insertCI)
  with ts(1) show ?thesis unfolding queue_inv_def by blast
qed

lemma coreD:
  assumes "core B L U A"
  shows "0 < child_num B" "child_num B \<le> 32" "max_task_size B < 2 ^ 32" "c < child_num B \<Longrightarrow> task_buf B c"
    "c < child_num B \<Longrightarrow> queue_inv (tqs B c) c U A" "c < child_num B \<Longrightarrow> queue_inv (rtqs B c) c U A"
    "np_rep (cb_info_pool B) L U" "(i, n) \<in> set L \<Longrightarrow> ctx_child_no (task_ctxs B n) = A i"
    "(i, n) \<in> set L \<Longrightarrow> A i < child_num B" "timers_inv B L"
  using assms by (auto simp: core_def YF_BRIDGE_MAX_CHILD_NUM_def)

lemma core_queue:
  assumes "core B L U A" "c < child_num B" "queue_inv q c U A"
  shows "core (B\<lparr> tqs := (tqs B)(c := q) \<rparr>) L U A" "core (B\<lparr> rtqs := (rtqs B)(c := q) \<rparr>) L U A"
  using assms by (auto simp: core_def timers_inv_def)

lemma push_ok:
  assumes q: "queue_inv q c U A" and i: "ti_id info \<in> U" "A (ti_id info) = c" "info_ok info" and l: "length task < 2 ^ 32"
  shows "\<exists>q'. queue_inv q' c U A \<and>
    (yf_task_push now q info task = Inr (YF_OK, q') \<or> yf_task_push now q info task = Inr (YF_ERROR, q'))"
proof -
  obtain ts where ts: "tq_rep q ts" "\<forall>x \<in> set ts. ti_id (fst (snd x)) \<in> U \<and> A (ti_id (fst (snd x))) = c"
    using q by (auto simp: queue_inv_def)
  show ?thesis
  proof (cases "length task + 40 < yf_tq_free_capacity q")
    case True
    then obtain q' where "yf_task_push now q info task = Inr (YF_OK, q')" "tq_rep q' (ts @ [(now, info, task)])"
      using tq_push_spec [OF ts(1) i(3) l, of now] by auto
    moreover from this(2) have "queue_inv q' c U A" unfolding queue_inv_def using ts(2) i
      by (intro exI [of _ "ts @ [(now, info, task)]"]) auto
    ultimately show ?thesis by blast
  next
    case False
    then show ?thesis using tq_push_spec [OF ts(1) i(3) l, of now] q by auto
  qed
qed

lemma others_used_0 [simp]: "others_used 0 G = G"
  by (simp add: others_used_def)

lemma alloc_ctx_ok:
  assumes rep: "np_rep (G, M, P) L U" and room: "1 \<le> slices_left G"
  shows "\<exists>n G' M' P'. yf_alloc_node_from_pool now G M P = Inr (n, G', M', P') \<and> slices_left G \<le> slices_left G' + 1 \<and>
    (if n = NULL then np_rep (G', M', P') L U
     else \<exists>i. yf_get_id_by_node M' P' n = Inr i \<and> i \<notin> U \<and> n \<notin> snd ` set L \<and>
            np_rep (G', M', P') ((i, n) # L) (insert i U))"
proof -
  have "seed_cost (now, 0) \<le> slices_left (fst (G, M, P))" using room by (simp add: seed_cost_def)
  from np.take_law [OF rep this] obtain r s' where
    r: "np_take (now, 0) (G, M, P) = Inr (r, s')" "slices_left G \<le> slices_left (fst s') + 1"
      "case r of None \<Rightarrow> np_rep s' L U
         | Some (i, n) \<Rightarrow> i \<notin> U \<and> n \<notin> snd ` set L \<and> np_rep s' ((i, n) # L) (insert i U)"
    by (auto simp: seed_cost_def)
  from r(1) obtain n G' M' P' where a: "yf_alloc_node_from_pool now G M P = Inr (n, G', M', P')"
    by (auto simp: run_simps)
  show ?thesis
  proof (cases "n = NULL")
    case True
    then have "r = None" "s' = (G', M', P')" using r(1) a by auto
    then show ?thesis using a r(2,3) True by auto
  next
    case False
    then obtain i where "yf_get_id_by_node M' P' n = Inr i" "r = Some (i, n)" "s' = (G', M', P')"
      using r(1) a by (auto simp: run_simps)
    then show ?thesis using a r(2,3) False by auto
  qed
qed

subsection \<open>Taking and releasing a context\<close>

lemma core_new:
  assumes c: "core B L U A" and i: "i \<notin> U" "n \<notin> snd ` set L" "np_rep s ((i, n) # L) (insert i U)"
    and x: "ctx_tm_evt x = None" "ctx_child_no x = k" "k < child_num B"
  shows "core (upd_ctx n (\<lambda>_. x) (B\<lparr> cb_info_pool := s \<rparr>)) ((i, n) # L) (insert i U) (A(i := k))"
proof -
  note d = coreD [OF c]
  have LU: "fst ` set L \<subseteq> U" using d(7) by (auto simp: np_rep_def)
  have old: "m \<noteq> n" "j \<noteq> i" if "(j, m) \<in> set L" for j m using that i(1,2) LU by force+
  have "timers_inv (upd_ctx n (\<lambda>_. x) (B\<lparr> cb_info_pool := s \<rparr>)) ((i, n) # L)"
    using d(10) x(1) old unfolding timers_inv_def upd_ctx_def by (simp, metis)
  then show ?thesis
    using d queue_inv_fresh [OF _ i(1)] i(3) x(2,3) old
    by (auto simp: core_def upd_ctx_def YF_BRIDGE_MAX_CHILD_NUM_def)
qed

lemma core_pool:
  assumes "core B L U A" "np_rep s L U" shows "core (B\<lparr> cb_info_pool := s \<rparr>) L U A"
  using assms by (simp add: core_def timers_inv_def)

definition same_work :: "'c bridge \<Rightarrow> 'c bridge \<Rightarrow> bool" where
  "same_work B B' \<longleftrightarrow> bridge_ins B' = bridge_ins B \<and> child_num B' = child_num B \<and>
     max_task_size B' = max_task_size B \<and> task_execut B' = task_execut B \<and> client B' = client B \<and>
     cb_info_pool B' = cb_info_pool B \<and> tqs B' = tqs B"

lemma core_timer:
  assumes c: "core B ((i, n) # L) U A" and n: "n \<notin> snd ` set L" "ctx_tm_evt (task_ctxs B n) = None"
  shows "\<exists>ok B'. set_ctx_tm_evt T n ms B = Inr (ok, B') \<and> core B' ((i, n) # L) U A \<and>
    same_work B B'"
proof -
  note tm = coreD(10) [OF c, unfolded timers_inv_def]
  show ?thesis
  proof (cases "tm_free_list (tm_evts B)")
    case Nil
    then have "set_ctx_tm_evt T n ms B = Inr (False, B)" by (simp add: set_ctx_tm_evt_def yf_alloc_tm_evt_def)
    moreover have "same_work B B" by (simp add: same_work_def)
    ultimately show ?thesis using c by blast
  next
    case (Cons t ts)
    define d where "d = (tm_evts B)\<lparr> tm_free_list := ts, timers := (timers (tm_evts B))(t := tm_timer0) \<rparr>"
    have "t \<notin> set (timeout_list d)" using tm by (simp add: d_def)
    from tm_frame_register [OF this] obtain d' where
      d': "yf_register_tm_evt t (clock_ms T) (unat (ms + 1000)) d = Inr d'" "tm_frame t d d'" by blast
    define B' where "B' = upd_ctx n (\<lambda>x. x\<lparr> ctx_tm_evt := Some t \<rparr>)
        (B\<lparr> tm_evts := d', tm_evt_data := (tm_evt_data B)(t := n) \<rparr>)"
    have run: "set_ctx_tm_evt T n ms B = Inr (True, B')"
      using Cons d'(1) by (simp add: set_ctx_tm_evt_def yf_alloc_tm_evt_def d_def B'_def)
    have fr: "tm_free_list d' = ts" "timeout_list d' = []"
      "\<And>u. u \<noteq> t \<Longrightarrow> timers d' u = timers (tm_evts B) u"
      using d'(2) tm by (simp_all add: tm_frame_def d_def)
    have ts: "distinct ts" "t \<notin> set ts" using tm Cons by simp_all
    have ctx: "ctx_tm_evt (task_ctxs B' m) = (if m = n then Some t else ctx_tm_evt (task_ctxs B m))" for m
      by (simp add: B'_def upd_ctx_def)
    have old: "m \<noteq> n" if "(j, m) \<in> set L" for j m using that n(1) by force
    have "t \<noteq> u" if "(j, m) \<in> set L" "ctx_tm_evt (task_ctxs B m) = Some u" for j m u
      using tm that Cons by (metis list.set_intros(1) list.set_intros(2))
    moreover have "u \<notin> set ts \<and> tm_evt_data B u = m" if "(j, m) \<in> set L" "ctx_tm_evt (task_ctxs B m) = Some u" for j m u
      using tm that Cons by (metis list.set_intros(2))
    ultimately have 1: "u \<notin> set (tm_free_list (tm_evts B')) \<and> tm_evt_data B' u = m"
      if "(j, m) \<in> set ((i, n) # L)" "ctx_tm_evt (task_ctxs B' m) = Some u" for j m u
      using that ts old by (fastforce simp: ctx B'_def upd_ctx_def fr split: if_splits)
    have 2: "\<exists>j m. (j, m) \<in> set ((i, n) # L) \<and> ctx_tm_evt (task_ctxs B' m) = Some u"
      if l: "tm_linker (timers (tm_evts B') u) \<noteq> None" for u
    proof (cases "u = t")
      case True
      then show ?thesis by (intro exI [of _ i] exI [of _ n]) (simp add: ctx)
    next
      case False
      then have "tm_linker (timers (tm_evts B) u) \<noteq> None" using l fr(3) by (simp add: B'_def upd_ctx_def)
      then obtain j m where "(j, m) \<in> set ((i, n) # L)" "ctx_tm_evt (task_ctxs B m) = Some u" using tm by blast
      moreover from this n(2) have "m \<noteq> n" by auto
      ultimately show ?thesis by (intro exI [of _ j] exI [of _ m]) (simp add: ctx)
    qed
    have "timers_inv B' ((i, n) # L)"
      unfolding timers_inv_def using 1 2 ts fr by (auto simp: B'_def upd_ctx_def)
    moreover have "tqs B' = tqs B" "rtqs B' = rtqs B" "cb_info_pool B' = cb_info_pool B" "child_num B' = child_num B"
        "max_task_size B' = max_task_size B" "task_buf B' = task_buf B"
        "ctx_child_no (task_ctxs B' m) = ctx_child_no (task_ctxs B m)" for m
      by (simp_all add: B'_def upd_ctx_def)
    ultimately have "core B' ((i, n) # L) U A" using c by (simp add: core_def)
    moreover have "same_work B B'" by (simp add: same_work_def B'_def upd_ctx_def)
    ultimately show ?thesis using run by blast
  qed
qed

definition released :: "addr \<Rightarrow> 'c bridge \<Rightarrow> tm_driver \<Rightarrow> bool" where
  "released n B d \<longleftrightarrow> (case ctx_tm_evt (task_ctxs B n) of
     None \<Rightarrow> d = tm_evts B
   | Some t \<Rightarrow> set (tm_free_list d) \<subseteq> insert t (set (tm_free_list (tm_evts B))) \<and> distinct (tm_free_list d) \<and>
       timeout_list d = [] \<and>
       (\<forall>u. tm_linker (timers d u) = (if u = t then None else tm_linker (timers (tm_evts B) u))))"

lemma np_rep_node_inj:
  assumes "np_rep s L U" "(i, n) \<in> set L" "(j, n) \<in> set L" shows "i = j"
proof -
  obtain G M P where s: "s = (G, M, P)" by (cases s) auto
  obtain fs where P: "np_geom P" "np_nodes M P L fs" using assms(1) by (auto simp: np_rep_def s)
  have at: "n = node_at P (id_idx k)" if "(k, n) \<in> set L" for k
    using P(2) that by (fastforce simp: np_nodes_def live_ok_def)
  have "id_idx i = id_idx j" using at [OF assms(2)] at [OF assms(3)] node_at_inj [OF P(1)] by metis
  moreover have "inj_on (id_idx \<circ> fst) (set L)" using P(2) by (auto simp: np_nodes_def distinct_map)
  ultimately show ?thesis using inj_onD [of "id_idx \<circ> fst" "set L" "(i, n)" "(j, n)"] assms(2,3) by simp
qed

lemma released_cong [simp]: "released n (B\<lparr> task_execut := x \<rparr>) d = released n B d"
  by (cases "ctx_tm_evt (task_ctxs B n)") (simp_all add: released_def)

lemma core_released:
  assumes c: "core B L U A" and L: "(i, n) \<in> set L" and d: "released n B d" and s: "np_rep s (removeAll (i, n) L) U"
  shows "core (B\<lparr> tm_evts := d, cb_info_pool := s \<rparr>) (removeAll (i, n) L) U A"
proof -
  note tm = coreD(10) [OF c, unfolded timers_inv_def]
  have other: "m \<noteq> n" if "(j, m) \<in> set L" "(j, m) \<noteq> (i, n)" for j m
    using np_rep_node_inj [OF coreD(7) [OF c]] that L by blast
  have "timers_inv (B\<lparr> tm_evts := d, cb_info_pool := s \<rparr>) (removeAll (i, n) L)"
  proof (cases "ctx_tm_evt (task_ctxs B n)")
    case None
    then have "d = tm_evts B" using d by (simp add: released_def)
    then show ?thesis using tm None unfolding timers_inv_def by (simp, metis option.discI)
  next
    case (Some t)
    then have d: "set (tm_free_list d) \<subseteq> insert t (set (tm_free_list (tm_evts B)))" "distinct (tm_free_list d)"
       "timeout_list d = []"
       "\<And>u. tm_linker (timers d u) = (if u = t then None else tm_linker (timers (tm_evts B) u))"
      using d by (simp_all add: released_def)
    have t: "tm_evt_data B t = n" using tm L Some by blast
    have 1: "u \<notin> set (tm_free_list d) \<and> tm_evt_data B u = m"
      if "(j, m) \<in> set (removeAll (i, n) L)" "ctx_tm_evt (task_ctxs B m) = Some u" for j m u
    proof -
      have j: "(j, m) \<in> set L" "m \<noteq> n" using that(1) other by auto
      then have u: "tm_evt_data B u = m" "u \<notin> set (tm_free_list (tm_evts B))" using tm that(2) by blast+
      then show ?thesis using d(1) t j(2) by blast
    qed
    have 2: "\<exists>j m. (j, m) \<in> set (removeAll (i, n) L) \<and> ctx_tm_evt (task_ctxs B m) = Some u"
      if "tm_linker (timers d u) \<noteq> None" for u
    proof -
      have u: "u \<noteq> t" "tm_linker (timers (tm_evts B) u) \<noteq> None" using that d(4) by (auto split: if_splits)
      then obtain j m where "(j, m) \<in> set L" "ctx_tm_evt (task_ctxs B m) = Some u" using tm by blast
      moreover from this Some u(1) have "m \<noteq> n" by auto
      ultimately show ?thesis by auto
    qed
    show ?thesis unfolding timers_inv_def using 1 2 d(2,3) by simp
  qed
  then show ?thesis using c s by (auto simp: core_def)
qed

lemma release_tm_ok:
  assumes c: "core B L U A" and L: "(i, n) \<in> set L"
  shows "\<exists>d. released n B d \<and> free_ctx_tm_evt n B = Inr (B\<lparr> tm_evts := d \<rparr>)"
    "ctx_tm_evt (task_ctxs B n) = Some t \<Longrightarrow> \<exists>r d. released n B d \<and> yf_free_tm_evt t (tm_evts B) = Inr (r, d)"
proof -
  note tm = coreD(10) [OF c, unfolded timers_inv_def]
  have some: "\<exists>r d. released n B d \<and> yf_free_tm_evt t (tm_evts B) = Inr (r, d)"
    if "ctx_tm_evt (task_ctxs B n) = Some t" for t
  proof -
    have "t \<notin> set (tm_free_list (tm_evts B))" "timeout_list (tm_evts B) = []" using tm L that by blast+
    then show ?thesis using tm_free_ok [of t "tm_evts B"] tm that by (auto simp: released_def)
  qed
  then show "ctx_tm_evt (task_ctxs B n) = Some t \<Longrightarrow> \<exists>r d. released n B d \<and> yf_free_tm_evt t (tm_evts B) = Inr (r, d)" .
  show "\<exists>d. released n B d \<and> free_ctx_tm_evt n B = Inr (B\<lparr> tm_evts := d \<rparr>)"
  proof (cases "ctx_tm_evt (task_ctxs B n)")
    case None
    then show ?thesis by (intro exI [of _ "tm_evts B"]) (simp add: released_def free_ctx_tm_evt_def)
  next
    case (Some t)
    then show ?thesis using some [OF Some] by (auto simp: free_ctx_tm_evt_def)
  qed
qed

lemma free_ctx_ok:
  assumes "np_rep (cb_info_pool B) L U" "(i, n) \<in> set L"
  shows "\<exists>s. free_ctx n B = Inr (B\<lparr> cb_info_pool := s \<rparr>) \<and> np_rep s (removeAll (i, n) L) U \<and>
    fst s = fst (cb_info_pool B)"
proof -
  obtain G M P where s: "cb_info_pool B = (G, M, P)" by (cases "cb_info_pool B") auto
  from np_free_ok [OF assms(1) [unfolded s] assms(2)] obtain M' P' where
    "yf_free_node_to_pool M P n = Inr (M', P')" "np_rep (G, M', P') (removeAll (i, n) L) U"
    unfolding Let_def by blast
  then show ?thesis by (intro exI [of _ "(G, M', P')"]) (simp add: free_ctx_def s)
qed

subsection \<open>Sending\<close>

type_synonym calls = "(u64 \<times> int \<times> nat \<times> u8 list) list \<times> (nat \<times> u64 \<times> u8 list) list"

text \<open>Client code that records the results it is called with and the tasks its children get.\<close>

definition rec_res :: "calls res_handler" where
  "rec_res res i status data B = Inr (B\<lparr> client := (fst (client B) @ [(i, status, data, res)], snd (client B)) \<rparr>)"

definition rec_task :: "calls task_handler" where
  "rec_task self task i B = Inr (B\<lparr> client := (fst (client B), snd (client B) @ [(self, i, task)]) \<rparr>)"

definition client_inv :: "calls bridge \<Rightarrow> (u64 \<times> addr) list \<Rightarrow> u64 set \<Rightarrow> (u64 \<Rightarrow> nat) \<Rightarrow> u64 set \<Rightarrow> bool" where
  "client_inv B L U A S \<longleftrightarrow> S \<subseteq> U \<and> distinct (map fst (fst (client B))) \<and>
     fst ` set (fst (client B)) \<inter> fst ` set L = {} \<and> fst ` set (fst (client B)) \<union> fst ` set L = S \<and>
     (\<forall>s i task. (s, i, task) \<in> set (snd (client B)) \<longrightarrow> i \<in> U \<and> s < child_num B \<and> lock_res_tq B s = A i)"

definition bridge_inv :: "calls bridge \<Rightarrow> (u64 \<times> addr) list \<Rightarrow> u64 set \<Rightarrow> (u64 \<Rightarrow> nat) \<Rightarrow> u64 set \<Rightarrow> bool" where
  "bridge_inv B L U A S \<longleftrightarrow> core B L U A \<and> counts B L A \<and> client_inv B L U A S"

lemma np_rep_ids: "np_rep s L U \<Longrightarrow> fst ` set L \<subseteq> U" "np_rep s L U \<Longrightarrow> distinct (map fst L)"
  using np.ids_law by (auto simp: np_rep_def)

lemma np_rep_not_minus_1:
  assumes "np_rep s L U" "i \<in> U" shows "i \<noteq> - 1"
proof -
  obtain G M P where s: "s = (G, M, P)" by (cases s) auto
  have "id_low ` U \<subseteq> {..<unat (group_used G)}" "unat (group_used G) < 2 ^ 31"
    using assms(1) by (auto simp: np_rep_def s seed_ok_def seeds_ok_def)
  then have "id_low i < 2 ^ 31" using assms(2) by force
  moreover have "id_low (- 1) = 2 ^ 32 - 1" by (simp add: id_low_def getl_take mask_eq_exp_minus_1)
  ultimately show ?thesis by auto
qed

lemma idle_scan_in: "idle_scan ex is cnt no \<in> insert no (set is)"
proof (induction "is" arbitrary: cnt no)
  case (Cons i "is")
  then show ?case using Cons.IH [of "ex i" i] Cons.IH [of cnt no] by (cases "ex i < cnt") auto
qed simp

lemma lock_tq_bound:
  assumes "0 < child_num B" "child_num B \<le> 32"
  shows "lock_tq B (if hash_mod B then h mod child_num B else YF_ANY_CHILD_NO) < child_num B"
proof -
  have "yf_bridge_get_idle_tq B < child_num B"
    using idle_scan_in [of "task_execut B" "[0..<child_num B]" "0xfffffffe" 0] assms(1)
    by (auto simp: yf_bridge_get_idle_tq_def)
  moreover have "h mod child_num B < child_num B" using assms(1) by simp
  ultimately show ?thesis using assms
    by (auto simp: lock_tq_def YF_ANY_CHILD_NO_def split: bridge_ins.split)
qed

lemma new_info_ok: "info_ok (new_task_info T i ms)" "ti_id (new_task_info T i ms) = i"
proof -
  have "unat (take_bit 20 (x :: u32)) < 2 ^ 20" for x
    using take_bit_nat_less_exp [of 20 "unat x"] by (simp add: unsigned_take_bit_eq)
  then show "info_ok (new_task_info T i ms)" by (simp add: info_ok_def new_task_info_def)
qed (simp add: new_task_info_def)

lemma send_failed_ok:
  assumes c: "core B ((i, n) # L) U A" and i: "(i, n) \<notin> set L"
  shows "\<exists>B'. send_failed n B = Inr (- 1, B') \<and> core B' L U A \<and> fst (cb_info_pool B') = fst (cb_info_pool B) \<and>
    client B' = client B \<and> task_execut B' = task_execut B \<and> child_num B' = child_num B \<and>
    bridge_ins B' = bridge_ins B"
proof -
  have L: "(i, n) \<in> set ((i, n) # L)" "removeAll (i, n) ((i, n) # L) = L" using i by simp_all
  obtain d where d: "released n B d" "free_ctx_tm_evt n B = Inr (B\<lparr> tm_evts := d \<rparr>)"
    using release_tm_ok(1) [OF c L(1)] by blast
  have "np_rep (cb_info_pool (B\<lparr> tm_evts := d \<rparr>)) ((i, n) # L) U" using coreD(7) [OF c] by simp
  from free_ctx_ok [OF this L(1)] obtain s where
    s: "free_ctx n (B\<lparr> tm_evts := d \<rparr>) = Inr (B\<lparr> tm_evts := d, cb_info_pool := s \<rparr>)"
       "np_rep s (removeAll (i, n) ((i, n) # L)) U" "fst s = fst (cb_info_pool B)" by auto
  have "core (B\<lparr> tm_evts := d, cb_info_pool := s \<rparr>) L U A"
    using core_released [OF c L(1) d(1) s(2)] L(2) by simp
  then show ?thesis using d(2) s(1,3) by (simp add: send_failed_def)
qed

lemma send_ok:
  assumes inv: "bridge_inv B L U A S" and room: "1 \<le> slices_left (fst (cb_info_pool B))"
  shows "\<exists>r B' L' U' A'. yf_send_task T B task hash data ms = Inr (r, B') \<and>
    bridge_inv B' L' U' A' (if r = - 1 then S else insert r S) \<and> (r \<noteq> - 1 \<longrightarrow> r \<notin> S) \<and>
    slices_left (fst (cb_info_pool B)) \<le> slices_left (fst (cb_info_pool B')) + 1"
proof (cases "length task > max_task_size B")
  case True
  then show ?thesis using inv by (auto simp: yf_send_task_def intro!: exI)
next
  case small: False
  have c: "core B L U A" and cnt: "counts B L A" and cl: "client_inv B L U A S"
    using inv by (simp_all add: bridge_inv_def)
  note d = coreD [OF c]
  obtain G M P where pool: "cb_info_pool B = (G, M, P)" by (cases "cb_info_pool B") auto
  obtain n G' M' P' where al: "yf_alloc_node_from_pool (seed_clock T) G M P = Inr (n, G', M', P')"
      "slices_left G \<le> slices_left G' + 1"
      "if n = NULL then np_rep (G', M', P') L U
       else \<exists>i. yf_get_id_by_node M' P' n = Inr i \<and> i \<notin> U \<and> n \<notin> snd ` set L \<and>
            np_rep (G', M', P') ((i, n) # L) (insert i U)"
  proof -
    have "1 \<le> slices_left G" using room pool by simp
    from alloc_ctx_ok [OF d(7) [unfolded pool] this, of "seed_clock T"] that show thesis by blast
  qed
  let ?B1 = "B\<lparr> cb_info_pool := (G', M', P') \<rparr>"
  show ?thesis
  proof (cases "n = NULL")
    case True
    have "yf_send_task T B task hash data ms = Inr (- 1, ?B1)"
      using small pool al(1) True by (simp add: yf_send_task_def Let_def)
    moreover have "core ?B1 L U A" using core_pool [OF c] al(3) True by simp
    then have "bridge_inv ?B1 L U A S"
      using cnt cl by (simp add: bridge_inv_def client_inv_def lock_res_tq_def)
    ultimately show ?thesis using al(2) pool
      by (intro exI [of _ "- 1"] exI [of _ ?B1] exI [of _ L] exI [of _ U] exI [of _ A]) simp
  next
    case nz: False
    then obtain i where i: "yf_get_id_by_node M' P' n = Inr i" "i \<notin> U" "n \<notin> snd ` set L"
        "np_rep (G', M', P') ((i, n) # L) (insert i U)"
      using al(3) by auto
    define k where "k = lock_tq B (if hash_mod B then unat hash mod child_num B else YF_ANY_CHILD_NO)"
    have k: "k < child_num B" unfolding k_def by (rule lock_tq_bound [OF d(1,2)])
    define x where "x = \<lparr> ctx_data = data, ctx_tm_evt = None, ctx_child_no = k \<rparr>"
    define B2 where "B2 = upd_ctx n (\<lambda>_. x) ?B1"
    have B2: "bridge_ins B2 = bridge_ins B" "evt_driven B2 = evt_driven B" by (simp_all add: B2_def upd_ctx_def)
    define m where "m = (if ms = 0 \<and> bridge_ins B = Bridge_proc then 7200000 else ms)"
    let ?A = "A(i := k)" and ?L = "(i, n) # L" and ?U = "insert i U"
    have c2: "core B2 ?L ?U ?A" unfolding B2_def
      by (rule core_new [OF c i(2,3,4)]) (simp_all add: x_def k)
    have "ctx_tm_evt (task_ctxs B2 n) = None" by (simp add: B2_def upd_ctx_def x_def)
    from core_timer [OF c2 i(3) this, of T m] obtain ok B3 where
      tm: "(if m \<noteq> 0 \<and> evt_driven B then set_ctx_tm_evt T n m B2 else Inr (True, B2)) = Inr (ok, B3)"
      and c3: "core B3 ?L ?U ?A" and same: "same_work B2 B3"
      using c2 by (cases "m \<noteq> 0 \<and> evt_driven B") (auto simp: same_work_def)
    have eq: "client B3 = client B" "task_execut B3 = task_execut B" "child_num B3 = child_num B"
      "bridge_ins B3 = bridge_ins B" "cb_info_pool B3 = (G', M', P')"
      using same by (simp_all add: same_work_def B2_def upd_ctx_def)
    have in_L: "fst ` set L \<subseteq> U" by (rule np_rep_ids(1) [OF d(7)])
    have cnt': "counts B' L ?A" if "task_execut B' = task_execut B" "child_num B' = child_num B" for B' :: "calls bridge"
    proof -
      have "filter (\<lambda>x. ?A (fst x) = q) L = filter (\<lambda>x. A (fst x) = q) L" for q
        by (rule filter_cong) (use in_L i(2) in auto)
      then show ?thesis using cnt that by (simp add: counts_def)
    qed
    have cl': "client_inv B' L ?U ?A S"
      if "client B' = client B" "child_num B' = child_num B" "bridge_ins B' = bridge_ins B" for B'
    proof -
      have "lock_res_tq B' s = lock_res_tq B s" for s using that(3) by (simp add: lock_res_tq_def)
      moreover have "j \<noteq> i" if "j \<in> U" for j using that i(2) by blast
      ultimately show ?thesis using cl that unfolding client_inv_def by auto
    qed
    have run: "yf_send_task T B task hash data ms =
        (if \<not> ok then send_failed n B3
         else run_bind (yf_task_push (clock_sec T) (tqs B3 k) (new_task_info T i m) task) (\<lambda>(ret, q).
               let B = B3\<lparr> tqs := (tqs B3)(k := q) \<rparr> in
               if ret \<noteq> YF_OK then send_failed n B
               else Inr (i, B\<lparr> task_execut := (task_execut B)(k := task_execut B k + 1) \<rparr>)))"
    proof -
      have l: "lock_tq (upd_ctx n f (B\<lparr> cb_info_pool := s \<rparr>)) j = lock_tq B j" for f s j
        by (cases "bridge_ins B") (simp_all add: lock_tq_def upd_ctx_def yf_bridge_get_idle_tq_def)
      have u: "upd_ctx n f (upd_ctx n g D) = upd_ctx n (\<lambda>x. f (g x)) D" for f g and D :: "calls bridge"
        by (simp add: upd_ctx_def)
      have p: "bridge_ins (upd_ctx n f D) = bridge_ins D" "evt_driven (upd_ctx n f D) = evt_driven D"
         "child_num (upd_ctx n f D) = child_num D" "hash_mod (upd_ctx n f D) = hash_mod D"
         for f and D :: "calls bridge"
        by (simp_all add: upd_ctx_def)
      show ?thesis
        using small nz k
        by (simp add: yf_send_task_def Let_def pool al(1) i(1) l p u B2 k_def [symmetric] m_def [symmetric]
            x_def [symmetric] B2_def [symmetric] tm split del: if_split cong: if_cong)
    qed
    have failed: ?thesis if f: "yf_send_task T B task hash data ms = send_failed n D" and cD: "core D ?L ?U ?A"
        and eqD: "client D = client B" "task_execut D = task_execut B" "child_num D = child_num B"
          "bridge_ins D = bridge_ins B" "fst (cb_info_pool D) = G'" for D
    proof -
      have "(i, n) \<notin> set L" using i(3) by force
      from send_failed_ok [OF cD this] obtain B' where
        B': "send_failed n D = Inr (- 1, B')" "core B' L ?U ?A" "fst (cb_info_pool B') = fst (cb_info_pool D)"
          "client B' = client D" "task_execut B' = task_execut D" "child_num B' = child_num D"
          "bridge_ins B' = bridge_ins D" by blast
      have "bridge_inv B' L ?U ?A S"
        unfolding bridge_inv_def using B' cnt' [of B'] cl' [of B'] eqD by simp
      then show ?thesis using f B'(1,3) eqD(5) al(2) pool
        by (intro exI [of _ "- 1"] exI [of _ B'] exI [of _ L] exI [of _ ?U] exI [of _ ?A]) simp
    qed
    show ?thesis
    proof (cases ok)
      case False
      then show ?thesis by (intro failed [OF _ c3]) (simp_all add: run eq)
    next
      case ok: True
      have "length task < 2 ^ 32" using small d(3) by simp
      moreover have "queue_inv (tqs B3 k) k ?U ?A" using coreD(5) [OF c3] k eq(3) by simp
      ultimately obtain q where q: "queue_inv q k ?U ?A"
        "yf_task_push (clock_sec T) (tqs B3 k) (new_task_info T i m) task = Inr (YF_OK, q) \<or>
         yf_task_push (clock_sec T) (tqs B3 k) (new_task_info T i m) task = Inr (YF_ERROR, q)"
        using push_ok [of "tqs B3 k" k ?U ?A "new_task_info T i m" task "clock_sec T"] new_info_ok [of T i m] by auto
      let ?D = "B3\<lparr> tqs := (tqs B3)(k := q) \<rparr>"
      have cD: "core ?D ?L ?U ?A" by (rule core_queue(1) [OF c3 _ q(1)]) (simp add: k eq)
      from q(2) show ?thesis
      proof
        assume "yf_task_push (clock_sec T) (tqs B3 k) (new_task_info T i m) task = Inr (YF_ERROR, q)"
        then show ?thesis using ok
          by (intro failed [OF _ cD]) (simp_all add: run eq)
      next
        assume push: "yf_task_push (clock_sec T) (tqs B3 k) (new_task_info T i m) task = Inr (YF_OK, q)"
        let ?B = "?D\<lparr> task_execut := (task_execut ?D)(k := task_execut ?D k + 1) \<rparr>"
        have res: "yf_send_task T B task hash data ms = Inr (i, ?B)" using ok push by (simp add: run Let_def)
        have "core ?B ?L ?U ?A" using cD by simp
        moreover have "counts ?B ?L ?A" using cnt' [of B3] eq k by (auto simp: counts_def)
        moreover have "client_inv ?B ?L ?U ?A (insert i S)"
          using cl' [of ?B] eq i(2) cl by (auto simp: client_inv_def)
        ultimately have "bridge_inv ?B ?L ?U ?A (insert i S)" by (simp add: bridge_inv_def)
        moreover have "i \<noteq> - 1" by (rule np_rep_not_minus_1 [OF i(4)]) simp
        moreover have "i \<notin> S" using i(2) cl by (auto simp: client_inv_def)
        ultimately show ?thesis using res al(2) pool eq
          by (intro exI [of _ i] exI [of _ ?B] exI [of _ ?L] exI [of _ ?U] exI [of _ ?A]) simp
      qed
    qed
  qed
qed

subsection \<open>Results and timeouts\<close>

lemma id_parts_inj:
  assumes "id_idx i = id_idx j" "id_low i = id_low j" "id_chunk i = id_chunk j" shows "i = j"
proof (rule bit_eqI)
  fix b :: nat
  have "unat (take_bit 32 i) = unat (take_bit 32 j)" using assms(2) by (simp add: id_low_def getl_take)
  then have lo: "take_bit 32 i = take_bit 32 j" by (simp only: word_unat_eq_iff)
  have mid: "drop_bit 32 i AND mask 24 = drop_bit 32 j AND mask 24" 
    using assms(1) unfolding id_idx_def by (simp only: word_unat_eq_iff)
  have hi: "drop_bit 56 i = drop_bit 56 j" using assms(3) unfolding id_chunk_def by (simp only: word_unat_eq_iff)
  consider "b < 32" | "32 \<le> b" "b < 56" | "56 \<le> b" by linarith
  then show "bit i b \<longleftrightarrow> bit j b"
  proof cases
    case 1
    then show ?thesis using lo by (metis bit_take_bit_iff)
  next
    case 2
    have "bit (drop_bit 32 i AND mask 24) (b - 32) = bit (drop_bit 32 j AND mask 24) (b - 32)" by (simp only: mid)
    moreover have "b - 32 < 24" "b - 32 < 64" using 2 by simp_all
    ultimately show ?thesis using 2(1) by (simp add: bit_simps)
  next
    case 3
    have "bit (drop_bit 56 i) (b - 56) = bit (drop_bit 56 j) (b - 56)" by (simp only: hi)
    then show ?thesis using 3 by (simp add: bit_simps)
  qed
qed

lemma get_id_live:
  assumes rep: "np_rep (G, M, P) L U" and L: "(i, n) \<in> set L"
  shows "yf_get_id_by_node M P n = Inr i"
proof -
  obtain fs where geom: "np_geom P" and ids: "np_ids P U" and nodes: "np_nodes M P L fs"
    using rep by (auto simp: np_rep_def)
  have live: "live_ok M P i n" using nodes L by (auto simp: np_nodes_def)
  define k where "k = id_idx i"
  have i: "i \<in> U" using np_rep_ids(1) [OF rep] L by force
  have k: "k < unat (total_num P)" "id_chunk i = unat (pool_index P)" using ids i by (simp_all add: np_ids_def k_def)
  have small: "k < 2 ^ 24" "unat (pool_index P) < 256" using geom k(1) by (simp_all add: np_geom_def)
  define v where "v = nh_id_pre (np_heads M (head_at P k))"
  have "np_heads M (head_at P k) = \<lparr> nh_magic = YF_MAGIC_VAL, nh_id_pre = v, nh_used = True \<rparr>"
    using live by (intro np_head.equality) (simp_all add: live_ok_def k_def v_def)
  from get_id_at [OF geom k(1) this] have "yf_get_id_by_node M P n = Inr (mk_id (pool_index P) k v)"
    using live by (simp add: live_ok_def k_def)
  moreover have "mk_id (pool_index P) k v = i"
    by (rule id_parts_inj)
       (use live k(2) small in \<open>simp_all add: id_idx_mk id_low_mk id_chunk_mk live_ok_def k_def v_def\<close>)
  ultimately show ?thesis by simp
qed

lemma counts_remove:
  assumes c: "counts B L A" and L: "(i, n) \<in> set L" "distinct (map fst L)"
  shows "counts (B\<lparr> task_execut := (task_execut B)(A i := task_execut B (A i) - 1) \<rparr>) (removeAll (i, n) L) A"
proof -
  have d: "distinct L" using L(2) by (simp add: distinct_map)
  have "length (filter (\<lambda>x. A (fst x) = q) L) =
      length (filter (\<lambda>x. A (fst x) = q) (removeAll (i, n) L)) + (if A i = q then 1 else 0)" for q
  proof -
    have "filter (\<lambda>x. A (fst x) = q) (removeAll (i, n) L) = remove1 (i, n) (filter (\<lambda>x. A (fst x) = q) L)"
      using d by (simp add: filter_remove1 flip: distinct_remove1_removeAll)
    moreover have "(i, n) \<in> set (filter (\<lambda>x. A (fst x) = q) L) \<longleftrightarrow> A i = q" using L(1) by simp
    ultimately show ?thesis using length_pos_if_in_set [of "(i, n)" "filter (\<lambda>x. A (fst x) = q) L"]
      by (auto simp: length_remove1 remove1_idem)
  qed
  then show ?thesis using c by (auto simp: counts_def)
qed

definition same_conf :: "calls bridge \<Rightarrow> calls bridge \<Rightarrow> bool" where
  "same_conf B B' \<longleftrightarrow> bridge_ins B' = bridge_ins B \<and> child_num B' = child_num B \<and>
     max_task_size B' = max_task_size B \<and> fst (cb_info_pool B') = fst (cb_info_pool B)"

lemma same_conf_refl [simp]: "same_conf B B"
  by (simp add: same_conf_def)

lemma same_conf_trans: "same_conf B C \<Longrightarrow> same_conf C D \<Longrightarrow> same_conf B D"
  by (simp add: same_conf_def)

lemma client_inv_done:
  assumes cl: "client_inv B L U A S" and L: "(i, n) \<in> set L" "distinct (map fst L)"
    and B': "client B' = (fst (client B) @ [(i, status, data, res)], snd (client B))" "child_num B' = child_num B"
      "bridge_ins B' = bridge_ins B"
  shows "client_inv B' (removeAll (i, n) L) U A S"
proof -
  note k = cl [unfolded client_inv_def]
  have "inj_on fst (set L)" using L(2) by (simp add: distinct_map)
  from inj_on_image_set_diff [OF this, of "set L" "{(i, n)}"]
  have rest: "fst ` set (removeAll (i, n) L) = fst ` set L - {i}" using L(1) by auto
  have i: "i \<in> fst ` set L" using L by force
  then have new: "i \<notin> fst ` set (fst (client B))" using k by blast
  have img: "fst ` set (fst (client B')) = insert i (fst ` set (fst (client B)))" by (simp add: B'(1))
  have lock: "lock_res_tq B' s = lock_res_tq B s" for s by (simp add: lock_res_tq_def B'(3))
  show ?thesis
    unfolding client_inv_def img rest lock B'(2)
  proof (intro conjI)
    show "S \<subseteq> U" using k by blast
    show "distinct (map fst (fst (client B')))" using k new by (simp add: B'(1))
    show "insert i (fst ` set (fst (client B))) \<inter> (fst ` set L - {i}) = {}" using k by blast
    show "insert i (fst ` set (fst (client B))) \<union> (fst ` set L - {i}) = S" using k i by blast
    show "\<forall>s j task. (s, j, task) \<in> set (snd (client B')) \<longrightarrow> j \<in> U \<and> s < child_num B \<and> lock_res_tq B s = A j"
      using k by (simp add: B'(1))
  qed
qed

text \<open>What a task that is over leaves: its context and timer released, one call recorded.\<close>

lemma done_ok:
  assumes inv: "bridge_inv B L U A S" and L: "(i, n) \<in> set L" and d: "released n B d"
    and s: "np_rep s (removeAll (i, n) L) U" "fst s = fst (cb_info_pool B)"
  shows "\<exists>B'. B' = B\<lparr> cb_info_pool := s, tm_evts := d,
      task_execut := (task_execut B)(A i := task_execut B (A i) - 1),
      client := (fst (client B) @ [(i, status, data, res)], snd (client B)) \<rparr> \<and>
    bridge_inv B' (removeAll (i, n) L) U A S \<and> same_conf B B'"
proof -
  have c: "core B L U A" and cnt: "counts B L A" and cl: "client_inv B L U A S"
    using inv by (simp_all add: bridge_inv_def)
  let ?B = "B\<lparr> cb_info_pool := s, tm_evts := d,
      task_execut := (task_execut B)(A i := task_execut B (A i) - 1),
      client := (fst (client B) @ [(i, status, data, res)], snd (client B)) \<rparr>"
  note ids = np_rep_ids [OF coreD(7) [OF c]]
  have "core (B\<lparr> tm_evts := d, cb_info_pool := s \<rparr>) (removeAll (i, n) L) U A"
    by (rule core_released [OF c L d s(1)])
  then have "core ?B (removeAll (i, n) L) U A" by (simp add: core_def timers_inv_def)
  moreover have "counts ?B (removeAll (i, n) L) A"
    using counts_remove [OF cnt L ids(2)] by (simp add: counts_def)
  moreover have "client_inv ?B (removeAll (i, n) L) U A S"
    by (rule client_inv_done [OF cl L ids(2), of _ status data res]) simp_all
  ultimately have "bridge_inv ?B (removeAll (i, n) L) U A S" by (simp add: bridge_inv_def)
  moreover have "same_conf B ?B" using s(2) by (simp add: same_conf_def)
  ultimately show ?thesis by blast
qed

lemma on_task_res_ok:
  assumes inv: "bridge_inv B L U A S" and i: "ti_id info \<in> U" "A (ti_id info) = c"
  shows "\<exists>B' L'. on_task_res rec_res c (info, res) B = Inr B' \<and> bridge_inv B' L' U A S \<and> same_conf B B' \<and>
    rtqs B' = rtqs B"
proof -
  have c: "core B L U A" using inv by (simp add: bridge_inv_def)
  note d = coreD [OF c]
  let ?i = "ti_id info"
  obtain G M P where pool: "cb_info_pool B = (G, M, P)" by (cases "cb_info_pool B") auto
  note rep = d(7) [unfolded pool]
  show ?thesis
  proof (cases "map_of L ?i")
    case None
    then have "on_task_res rec_res c (info, res) B = Inr B"
      using np_lookup_ok [OF rep i(1)] pool by (simp add: on_task_res_def)
    then show ?thesis using inv by (intro exI [of _ B] exI [of _ L]) simp
  next
    case (Some n)
    then have L: "(?i, n) \<in> set L" by (rule map_of_SomeD)
    let ?B1 = "B\<lparr> task_execut := (task_execut B)(c := task_execut B c - 1) \<rparr>"
    have "core ?B1 L U A" using c by simp
    from release_tm_ok(1) [OF this L] obtain e where
      e: "released n B e" "free_ctx_tm_evt n ?B1 = Inr (?B1\<lparr> tm_evts := e \<rparr>)" by auto
    let ?B2 = "?B1\<lparr> tm_evts := e, client := (fst (client B) @ [(?i, res_status info, ctx_data (task_ctxs B n), res)], snd (client B)) \<rparr>"
    have "np_rep (cb_info_pool ?B2) L U" using d(7) by simp
    from free_ctx_ok [OF this L] obtain s where s: "free_ctx n ?B2 = Inr (?B2\<lparr> cb_info_pool := s \<rparr>)"
      "np_rep s (removeAll (?i, n) L) U" "fst s = fst (cb_info_pool B)" by auto
    have run: "on_task_res rec_res c (info, res) B = Inr (?B2\<lparr> cb_info_pool := s \<rparr>)"
      using np_lookup_ok [OF rep i(1)] Some pool np_live_nonzero [OF rep L] e(2) s(1) d(8) [OF L] i(2)
      by (simp add: on_task_res_def rec_res_def)
    have "?B2\<lparr> cb_info_pool := s \<rparr> = B\<lparr> cb_info_pool := s, tm_evts := e,
      task_execut := (task_execut B)(A ?i := task_execut B (A ?i) - 1),
      client := (fst (client B) @ [(?i, res_status info, ctx_data (task_ctxs B n), res)], snd (client B)) \<rparr>"
      by (rule bridge.equality) (simp_all add: i(2))
    with done_ok [OF inv L _ s(2,3), of e "res_status info" "ctx_data (task_ctxs B n)" res] e(1)
    have "bridge_inv (?B2\<lparr> cb_info_pool := s \<rparr>) (removeAll (?i, n) L) U A S" "same_conf B (?B2\<lparr> cb_info_pool := s \<rparr>)"
      by simp_all
    then show ?thesis using run
      by (intro exI [of _ "?B2\<lparr> cb_info_pool := s \<rparr>"] exI [of _ "removeAll (?i, n) L"]) simp
  qed
qed

definition expired_timer :: "nat \<Rightarrow> tm_driver \<Rightarrow> tm_driver" where
  "expired_timer t d = (let e = yf_timeout_handler t False (tm_unlink t d) in
     e\<lparr> timeout_list := timeout_list d, stm_evts_num := stm_evts_num e - 1 \<rparr>)"

lemma expired_frame:
  "tm_free_list (expired_timer t d) = tm_free_list d" "timeout_list (expired_timer t d) = timeout_list d"
  "tm_linker (timers (expired_timer t d) u) = (if u = t then None else tm_linker (timers d u))"
  by (simp_all add: expired_timer_def Let_def yf_timeout_handler_def tm_unlink_def split: option.split)

lemma core_expired:
  assumes "core B L U A" shows "core (B\<lparr> tm_evts := expired_timer t (tm_evts B) \<rparr>) L U A"
proof -
  note tm = coreD(10) [OF assms, unfolded timers_inv_def]
  have "timers_inv (B\<lparr> tm_evts := expired_timer t (tm_evts B) \<rparr>) L"
    unfolding timers_inv_def using tm by (simp add: expired_frame)
  then show ?thesis using assms by (simp add: core_def)
qed

lemma timeout_ok:
  assumes inv: "bridge_inv B L U A S" and t: "tm_linker (timers (tm_evts B) t) \<noteq> None"
  shows "\<exists>B' L'. bridge_task_timeout_handler rec_res t (B\<lparr> tm_evts := expired_timer t (tm_evts B) \<rparr>) = Inr B' \<and>
    bridge_inv B' L' U A S \<and> same_conf B B'"
proof -
  let ?B = "B\<lparr> tm_evts := expired_timer t (tm_evts B) \<rparr>"
  have c: "core ?B L U A" using inv by (simp add: bridge_inv_def core_expired)
  have inv': "bridge_inv ?B L U A S" using inv c by (simp add: bridge_inv_def client_inv_def lock_res_tq_def)
  note d = coreD [OF c]
  obtain i n where L: "(i, n) \<in> set L" "ctx_tm_evt (task_ctxs B n) = Some t"
    using inv t by (auto simp: bridge_inv_def core_def timers_inv_def)
  have n: "tm_evt_data ?B t = n" using d(10) L by (auto simp: timers_inv_def)
  obtain G M P where pool: "cb_info_pool ?B = (G, M, P)" by (cases "cb_info_pool ?B") auto
  let ?x = "task_ctxs B n"
  have k: "ctx_child_no ?x = A i" using d(8) [OF L(1)] by simp
  let ?B2 = "?B\<lparr> task_execut := (task_execut B)(A i := task_execut B (A i) - 1),
      client := (fst (client B) @ [(i, YF_TASK_TIMEOUT, ctx_data ?x, [])], snd (client B)) \<rparr>"
  have "np_rep (cb_info_pool ?B2) L U" using d(7) by simp
  from free_ctx_ok [OF this L(1)] obtain s where s: "free_ctx n ?B2 = Inr (?B2\<lparr> cb_info_pool := s \<rparr>)"
    "np_rep s (removeAll (i, n) L) U" "fst s = fst (cb_info_pool ?B)" by auto
  obtain r e where e: "released n ?B e" "yf_free_tm_evt t (tm_evts ?B) = Inr (r, e)"
    using release_tm_ok(2) [OF c L(1), of t] L(2) by auto
  let ?B3 = "?B2\<lparr> cb_info_pool := s, tm_evts := e \<rparr>"
  have run: "bridge_task_timeout_handler rec_res t ?B = Inr ?B3"
    using n L(2) k get_id_live [OF d(7) [unfolded pool] L(1)] pool s(1) e(2)
    by (simp add: bridge_task_timeout_handler_def Let_def rec_res_def)
  let ?R = "?B\<lparr> cb_info_pool := s, tm_evts := e,
      task_execut := (task_execut ?B)(A i := task_execut ?B (A i) - 1),
      client := (fst (client ?B) @ [(i, YF_TASK_TIMEOUT, ctx_data ?x, [])], snd (client ?B)) \<rparr>"
  have eq: "?B3 = ?R" by (rule bridge.equality) simp_all
  have "bridge_inv ?R (removeAll (i, n) L) U A S \<and> same_conf ?B ?R"
    using done_ok [OF inv' L(1) e(1) s(2,3), of YF_TASK_TIMEOUT "ctx_data ?x" "[]"] by blast
  then have "bridge_inv ?B3 (removeAll (i, n) L) U A S" "same_conf ?B ?B3"
    unfolding eq by blast+
  moreover have "same_conf B ?B" by (simp add: same_conf_def)
  ultimately show ?thesis using run same_conf_trans by blast
qed

subsection \<open>The loops\<close>

lemma inv_queue:
  assumes inv: "bridge_inv B L U A S" and q: "c < child_num B" "queue_inv q c U A"
  shows "bridge_inv (B\<lparr> tqs := (tqs B)(c := q) \<rparr>) L U A S" "bridge_inv (B\<lparr> rtqs := (rtqs B)(c := q) \<rparr>) L U A S"
  using inv core_queue [OF _ q] by (auto simp: bridge_inv_def client_inv_def lock_res_tq_def)

lemma pop_ok:
  assumes q: "queue_inv q c U A"
  shows "\<exists>ret r q'. yf_task_pop q room = Inr (ret, r, q') \<and> queue_inv q' c U A \<and>
    (case r of None \<Rightarrow> True | Some (info, task) \<Rightarrow>
       ti_id info \<in> U \<and> A (ti_id info) = c \<and> info_ok info \<and> tq_used q' < tq_used q)"
proof -
  obtain ts where ts: "tq_rep q ts" "\<forall>x \<in> set ts. ti_id (fst (snd x)) \<in> U \<and> A (ti_id (fst (snd x))) = c"
    using q by (auto simp: queue_inv_def)
  show ?thesis
  proof (cases ts)
    case Nil
    then show ?thesis using tq_pop_empty [of q room] ts q by simp
  next
    case (Cons x xs)
    obtain now info task where x: "x = (now, info, task)" by (cases x) auto
    have rep: "tq_rep q ((now, info, task) # xs)" using ts(1) Cons x by simp
    show ?thesis
    proof (cases "fits room task")
      case True
      then obtain q' where q': "yf_task_pop q room = Inr (YF_OK, Some (info, task), q')" "tq_rep q' xs"
        using tq_pop_spec [OF rep, of room] by auto
      have "queue_inv q' c U A" using ts(2) Cons q'(2) unfolding queue_inv_def by auto
      moreover have "tq_used q' < tq_used q" using tq_rep_used [OF rep] tq_rep_used [OF q'(2)] by simp
      moreover have "info_ok info" using rep by (simp add: tq_rep_def)
      ultimately show ?thesis using q'(1) ts(2) Cons x by simp
    next
      case False
      then show ?thesis using tq_pop_spec [OF rep, of room] q by simp
    qed
  qed
qed

lemma res_loop_ok:
  assumes "bridge_inv B L U A S" "c < child_num B" "lock_res_tq B c = c"
  shows "\<exists>B' L'. yf_bridge_on_task_res_valiable rec_res c B = Some (Inr B') \<and> bridge_inv B' L' U A S \<and> same_conf B B'"
  using assms
proof (induction "tq_used (rtqs B c)" arbitrary: B L rule: less_induct)
  case less
  have core: "core B L U A" using less.prems(1) by (simp add: bridge_inv_def)
  have "queue_inv (rtqs B c) c U A" by (rule coreD(6) [OF core less.prems(2)])
  from pop_ok [OF this, of "Some (max_task_size B)"] obtain ret r q where
    pop: "yf_task_pop (rtqs B c) (Some (max_task_size B)) = Inr (ret, r, q)" "queue_inv q c U A"
    and r: "case r of None \<Rightarrow> True | Some (info, task) \<Rightarrow>
       ti_id info \<in> U \<and> A (ti_id info) = c \<and> info_ok info \<and> tq_used q < tq_used (rtqs B c)" by blast
  let ?B = "B\<lparr> rtqs := (rtqs B)(c := q) \<rparr>"
  have inv: "bridge_inv ?B L U A S" by (rule inv_queue(2) [OF less.prems(1,2) pop(2)])
  have conf: "same_conf B ?B" by (simp add: same_conf_def)
  show ?case
  proof (cases r)
    case None
    then have "yf_bridge_on_task_res_valiable rec_res c B = Some (Inr ?B)"
      using less.prems(3) pop(1) by (subst yf_bridge_on_task_res_valiable.simps) (simp add: Let_def)
    then show ?thesis using inv conf by blast
  next
    case (Some x)
    obtain info res where x: "x = (info, res)" by (cases x)
    obtain B1 L1 where B1: "on_task_res rec_res c (info, res) ?B = Inr B1" "bridge_inv B1 L1 U A S"
        "same_conf ?B B1" "rtqs B1 = rtqs ?B"
      using on_task_res_ok [OF inv, of info c res] r Some x by auto
    have run: "yf_bridge_on_task_res_valiable rec_res c B = yf_bridge_on_task_res_valiable rec_res c B1"
      using less.prems(3) pop(1) Some x B1(1)
      by (subst yf_bridge_on_task_res_valiable.simps) (simp add: Let_def)
    have conf1: "same_conf B B1" by (rule same_conf_trans [OF conf B1(3)])
    have "tq_used (rtqs B1 c) < tq_used (rtqs B c)" using B1(4) r Some x by simp
    moreover have "c < child_num B1" "lock_res_tq B1 c = c"
      using conf1 less.prems(2,3) by (simp_all add: same_conf_def lock_res_tq_def)
    ultimately obtain B' L' where "yf_bridge_on_task_res_valiable rec_res c B1 = Some (Inr B')"
        "bridge_inv B' L' U A S" "same_conf B1 B'"
      using less.hyps [OF _ B1(2)] by blast
    then show ?thesis using run same_conf_trans [OF conf1] by auto
  qed
qed

lemma send_res_ok:
  assumes inv: "bridge_inv B L U A S" and s: "self < child_num B" "lock_res_tq B self = A i"
    and i: "ti_id info = i" "i \<in> U" "info_ok info"
  shows "\<exists>ret B'. yf_send_task_res_in T self res info B = Inr (ret, B') \<and> bridge_inv B' L U A S \<and> same_conf B B' \<and>
    tqs B' = tqs B"
proof -
  have c: "core B L U A" using inv by (simp add: bridge_inv_def)
  note d = coreD [OF c]
  let ?k = "A i"
  have k: "?k < child_num B" using s d(1) by (auto simp: lock_res_tq_def split: bridge_ins.splits)
  define x where "x = (if length res > max_task_size B then (info\<lparr> ti_error := True \<rparr>, []) else (info, res))"
  have x: "ti_id (fst x) = i" "info_ok (fst x)" "length (snd x) < 2 ^ 32"
    using i d(3) by (auto simp: x_def info_ok_def)
  obtain ret q where q: "queue_inv q ?k U A" "yf_task_push (clock_sec T) (rtqs B ?k) (fst x) (snd x) = Inr (ret, q)"
    using push_ok [OF d(6) [OF k], of "fst x" "snd x" "clock_sec T"] x i(2) by auto
  have "yf_send_task_res_in T self res info B = Inr (ret, B\<lparr> rtqs := (rtqs B)(?k := q) \<rparr>)"
    using q(2) s(2) unfolding yf_send_task_res_in_def x_def [symmetric] Let_def by (cases x) simp
  then show ?thesis using inv_queue(2) [OF inv k q(1)] by (simp add: same_conf_def)
qed

lemma client_inv_handed:
  assumes "client_inv B L U A S" "self < child_num B" "lock_res_tq B self = A i" "i \<in> U"
  shows "client_inv (B\<lparr> client := (fst (client B), snd (client B) @ [(self, i, task)]) \<rparr>) L U A S"
proof -
  note k = assms(1) [unfolded client_inv_def]
  let ?B = "B\<lparr> client := (fst (client B), snd (client B) @ [(self, i, task)]) \<rparr>"
  have lock: "lock_res_tq ?B s = lock_res_tq B s" for s by (simp add: lock_res_tq_def)
  have eq: "fst (client ?B) = fst (client B)" "child_num ?B = child_num B"
    "set (snd (client ?B)) = insert (self, i, task) (set (snd (client B)))" by simp_all
  show ?thesis unfolding client_inv_def eq lock using k assms(2-4) by blast
qed

lemma on_task_ok:
  assumes inv: "bridge_inv B L U A S" and s: "self < child_num B" "lock_res_tq B self = A (ti_id info)"
    and i: "ti_id info \<in> U" "info_ok info"
  shows "\<exists>B'. on_task rec_task T self (info, task) B = Inr B' \<and> bridge_inv B' L U A S \<and> same_conf B B' \<and> tqs B' = tqs B"
proof (cases "ti_timeout_ms info \<noteq> 0 \<and>
    yf_time_diff_ms (wall_sec T, wall_msec T) (ti_sec info, ti_msec info) > uint (ti_timeout_ms info)")
  case True
  have "info_ok (info\<lparr> ti_timeout := True \<rparr>)" using i(2) by (simp add: info_ok_def)
  from send_res_ok [OF inv s _ i(1) this, of T "[]"] obtain ret B' where
    "yf_send_task_res_in T self [] (info\<lparr> ti_timeout := True \<rparr>) B = Inr (ret, B')" "bridge_inv B' L U A S"
    "same_conf B B'" "tqs B' = tqs B" by auto
  then show ?thesis using True by (simp add: on_task_def Let_def)
next
  case False
  let ?B = "B\<lparr> client := (fst (client B), snd (client B) @ [(self, ti_id info, task)]) \<rparr>"
  have "on_task rec_task T self (info, task) B = Inr ?B"
    using False by (auto simp: on_task_def Let_def rec_task_def)
  moreover have "client_inv ?B L U A S"
    by (rule client_inv_handed [where i = "ti_id info" and A = A])
       (use inv s i(1) in \<open>simp_all add: bridge_inv_def\<close>)
  then have "bridge_inv ?B L U A S" using inv by (simp add: bridge_inv_def)
  ultimately show ?thesis by (simp add: same_conf_def)
qed

lemma task_loop_ok:
  assumes "bridge_inv B L U A S" "self < child_num B" "c < child_num B" "lock_tq B c = c" "lock_res_tq B self = c"
  shows "\<exists>B'. on_task_loop rec_task T n self c B = Some (Inr B') \<and> bridge_inv B' L U A S \<and> same_conf B B'"
  using assms
proof (induction "tq_used (tqs B c)" arbitrary: B n rule: less_induct)
  case less
  have core: "core B L U A" using less.prems(1) by (simp add: bridge_inv_def)
  have "queue_inv (tqs B c) c U A" by (rule coreD(5) [OF core less.prems(3)])
  from pop_ok [OF this, of "Some (max_task_size B)"] obtain ret r q where
    pop: "yf_task_pop (tqs B c) (Some (max_task_size B)) = Inr (ret, r, q)" "queue_inv q c U A"
    and r: "case r of None \<Rightarrow> True | Some (info, task) \<Rightarrow>
       ti_id info \<in> U \<and> A (ti_id info) = c \<and> info_ok info \<and> tq_used q < tq_used (tqs B c)" by blast
  let ?B = "B\<lparr> tqs := (tqs B)(c := q) \<rparr>"
  have inv: "bridge_inv ?B L U A S" by (rule inv_queue(1) [OF less.prems(1,3) pop(2)])
  have conf: "same_conf B ?B" by (simp add: same_conf_def)
  show ?case
  proof (cases r)
    case None
    then have "on_task_loop rec_task T n self c B = Some (Inr ?B)"
      using less.prems(4) pop(1) by (subst on_task_loop.simps) (simp add: Let_def)
    then show ?thesis using inv conf by blast
  next
    case (Some x)
    obtain info task where x: "x = (info, task)" by (cases x)
    have i: "ti_id info \<in> U" "A (ti_id info) = c" "info_ok info" "tq_used q < tq_used (tqs B c)"
      using r Some x by auto
    have "self < child_num ?B" "lock_res_tq ?B self = A (ti_id info)"
      using less.prems(2,5) i(2) by (simp_all add: lock_res_tq_def)
    from on_task_ok [OF inv this i(1,3)] obtain B1 where B1: "on_task rec_task (T n) self (info, task) ?B = Inr B1"
        "bridge_inv B1 L U A S" "same_conf ?B B1" "tqs B1 = tqs ?B" by blast
    have run: "on_task_loop rec_task T n self c B = on_task_loop rec_task T (n + 1) self c B1"
      using less.prems(4) pop(1) Some x B1(1) by (subst on_task_loop.simps) (simp add: Let_def)
    have conf1: "same_conf B B1" by (rule same_conf_trans [OF conf B1(3)])
    have "tq_used (tqs B1 c) < tq_used (tqs B c)" using B1(4) i(4) by simp
    moreover have "self < child_num B1" "c < child_num B1" "lock_tq B1 c = c" "lock_res_tq B1 self = c"
    proof -
      have eq: "child_num B1 = child_num B" "bridge_ins B1 = bridge_ins B" using conf1 by (simp_all add: same_conf_def)
      have "child_num B \<le> 32" using less.prems(1) coreD(2) by (auto simp: bridge_inv_def)
      then show "self < child_num B1" "c < child_num B1" "lock_tq B1 c = c" "lock_res_tq B1 self = c"
        using less.prems(2-5) eq
        by (auto simp: lock_tq_def lock_res_tq_def YF_ANY_CHILD_NO_def split: bridge_ins.splits)
    qed
    ultimately obtain B' where "on_task_loop rec_task T (n + 1) self c B1 = Some (Inr B')"
        "bridge_inv B' L U A S" "same_conf B1 B'"
      using less.hyps [OF _ B1(2)] by blast
    then show ?thesis using run same_conf_trans [OF conf1] by auto
  qed
qed

subsection \<open>Runs\<close>

datatype bridge_op =
    Send bridge_time "u8 list" u32 nat u32
  | Expire nat
  | Child_poll "nat \<Rightarrow> bridge_time" nat
  | Reply bridge_time nat u64 "u8 list" int
  | Parent_poll nat

text \<open>
  One step of the parent or a child, with the ids of the tasks it accepted. A timer expires only
  while it is linked, a child replies only to tasks it was handed, as often as it likes.
\<close>

fun bridge_step :: "bridge_op \<Rightarrow> calls bridge \<Rightarrow> (u64 list \<times> calls bridge) run option" where
  "bridge_step (Send T task hash data ms) B =
     Some (run_bind (yf_send_task T B task hash data ms) (\<lambda>(r, B). Inr (if r = - 1 then [] else [r], B)))"
| "bridge_step (Expire t) B =
     (if tm_linker (timers (tm_evts B) t) = None then Some (Inr ([], B))
      else Some (run_bind (bridge_task_timeout_handler rec_res t
             (B\<lparr> tm_evts := expired_timer t (tm_evts B) \<rparr>)) (\<lambda>B. Inr ([], B))))"
| "bridge_step (Child_poll T c) B =
     (if c < child_num B
      then map_option (\<lambda>r. run_bind r (\<lambda>B. Inr ([], B))) (yf_bridge_on_task_valiable rec_task T c B)
      else Some (Inr ([], B)))"
| "bridge_step (Reply T c i res status) B =
     (if (c, i) \<in> (\<lambda>(s, i, _). (s, i)) ` set (snd (client B))
      then Some (run_bind (yf_send_task_res T c res i status B) (\<lambda>(_, B). Inr ([], B)))
      else Some (Inr ([], B)))"
| "bridge_step (Parent_poll c) B =
     (if c < child_num B
      then map_option (\<lambda>r. run_bind r (\<lambda>B. Inr ([], B)))
             (yf_bridge_on_task_res_valiable rec_res (lock_res_tq B c) B)
      else Some (Inr ([], B)))"

fun bridge_run :: "bridge_op list \<Rightarrow> calls bridge \<Rightarrow> (u64 list \<times> calls bridge) run option" where
  "bridge_run [] B = Some (Inr ([], B))"
| "bridge_run (x # ops) B = Option.bind (bridge_step x B) (\<lambda>r. case r of
     Inl e \<Rightarrow> Some (Inl e)
   | Inr (a, B) \<Rightarrow> map_option (\<lambda>r. run_bind r (\<lambda>(b, B). Inr (a @ b, B))) (bridge_run ops B))"

fun sends :: "bridge_op list \<Rightarrow> nat" where
  "sends [] = 0"
| "sends (Send T task hash data ms # ops) = Suc (sends ops)"
| "sends (_ # ops) = sends ops"

definition bridge_start :: "calls bridge \<Rightarrow> bool" where
  "bridge_start B \<longleftrightarrow> 0 < child_num B \<and> child_num B \<le> YF_BRIDGE_MAX_CHILD_NUM \<and> max_task_size B < 2 ^ 32 \<and>
     (\<forall>c < child_num B. task_buf B c \<and> tq_rep (tqs B c) [] \<and> tq_rep (rtqs B c) [] \<and> task_execut B c = 0) \<and>
     np_rep (cb_info_pool B) [] {} \<and> distinct (tm_free_list (tm_evts B)) \<and> timeout_list (tm_evts B) = [] \<and>
     (\<forall>t. tm_linker (timers (tm_evts B) t) = None) \<and> client B = ([], [])"

lemma bridge_start_inv: "bridge_start B \<Longrightarrow> bridge_inv B [] {} A {}"
  by (auto simp: bridge_start_def bridge_inv_def core_def counts_def client_inv_def timers_inv_def queue_inv_def
      intro!: exI [of _ "[]"])

lemma quiet_step:
  assumes "bridge_step x B = Some (Inr ([], B'))" "bridge_inv B' L' U A S" "same_conf B B'"
  shows "\<exists>a B' L' U' A'. bridge_step x B = Some (Inr (a, B')) \<and> bridge_inv B' L' U' A' (set a \<union> S) \<and>
    distinct a \<and> set a \<inter> S = {} \<and>
    slices_left (fst (cb_info_pool B)) \<le> slices_left (fst (cb_info_pool B')) + sends [x]"
  using assms by (intro exI [of _ "[]"] exI [of _ B'] exI [of _ L'] exI [of _ U] exI [of _ A]) (simp add: same_conf_def)

lemma step_ok:
  assumes inv: "bridge_inv B L U A S" and room: "sends [x] \<le> slices_left (fst (cb_info_pool B))"
  shows "\<exists>a B' L' U' A'. bridge_step x B = Some (Inr (a, B')) \<and> bridge_inv B' L' U' A' (set a \<union> S) \<and>
    distinct a \<and> set a \<inter> S = {} \<and>
    slices_left (fst (cb_info_pool B)) \<le> slices_left (fst (cb_info_pool B')) + sends [x]"
proof (cases x)
  case (Send T task hash data ms)
  then have "1 \<le> slices_left (fst (cb_info_pool B))" using room by simp
  from send_ok [OF inv this, of T task hash data ms] obtain r B' L' U' A' where
    s: "yf_send_task T B task hash data ms = Inr (r, B')" "bridge_inv B' L' U' A' (if r = - 1 then S else insert r S)"
      "r \<noteq> - 1 \<longrightarrow> r \<notin> S" "slices_left (fst (cb_info_pool B)) \<le> slices_left (fst (cb_info_pool B')) + 1"
    by blast
  show ?thesis
    by (rule exI [of _ "if r = - 1 then [] else [r]"], intro exI [of _ B'] exI [of _ L'] exI [of _ U'] exI [of _ A'])
       (use s Send in auto)
next
  case (Expire t)
  show ?thesis
  proof (cases "tm_linker (timers (tm_evts B) t) = None")
    case True
    then show ?thesis using Expire inv by (intro quiet_step [OF _ inv]) simp_all
  next
    case False
    from timeout_ok [OF inv False] obtain B' L' where
      B': "bridge_task_timeout_handler rec_res t (B\<lparr> tm_evts := expired_timer t (tm_evts B) \<rparr>) = Inr B'"
        "bridge_inv B' L' U A S" "same_conf B B'" by blast
    show ?thesis by (rule quiet_step [OF _ B'(2,3)]) (use Expire False B'(1) in \<open>auto simp del: not_None_eq\<close>)
  qed
next
  case (Child_poll T c)
  show ?thesis
  proof (cases "c < child_num B")
    case False
    then show ?thesis using Child_poll by (intro quiet_step [OF _ inv]) simp_all
  next
    case True
    have core: "core B L U A" using inv by (simp add: bridge_inv_def)
    have n: "0 < child_num B" "child_num B \<le> 32" "task_buf B c" using coreD [OF core] True by simp_all
    define k where "k = lock_tq B c"
    have k: "k < child_num B" "lock_tq B k = k" "lock_res_tq B c = k"
      using True n(1,2) by (auto simp: k_def lock_tq_def lock_res_tq_def YF_ANY_CHILD_NO_def split: bridge_ins.splits)
    have "on_task_loop rec_task T 0 c c B = on_task_loop rec_task T 0 c k B"
      by (subst (1 2) on_task_loop.simps) (simp add: k(2) flip: k_def)
    moreover obtain B' where B': "on_task_loop rec_task T 0 c k B = Some (Inr B')" "bridge_inv B' L U A S" "same_conf B B'"
      using task_loop_ok [OF inv True k] by blast
    ultimately have "bridge_step x B = Some (Inr ([], B'))" using Child_poll True n(3)
      by (simp add: yf_bridge_on_task_valiable_def)
    then show ?thesis by (rule quiet_step [OF _ B'(2,3)])
  qed
next
  case (Reply T c i res status)
  show ?thesis
  proof (cases "(c, i) \<in> (\<lambda>(s, i, _). (s, i)) ` set (snd (client B))")
    case False
    then show ?thesis using Reply by (intro quiet_step [OF _ inv]) simp_all
  next
    case True
    then obtain task where "(c, i, task) \<in> set (snd (client B))" by auto
    moreover have "client_inv B L U A S" using inv by (simp add: bridge_inv_def)
    ultimately have h: "c < child_num B" "lock_res_tq B c = A i" "i \<in> U"
      unfolding client_inv_def by blast+
    let ?info = "\<lparr> ti_id = i, ti_sec = word_of_int status, ti_msec = 0, ti_status = 0, ti_timeout_ms = 0,
         ti_timeout = False, ti_error = False \<rparr>"
    have "info_ok ?info" by (simp add: info_ok_def)
    from send_res_ok [OF inv h(1,2) _ h(3) this, of T res] obtain ret B' where
      B': "yf_send_task_res T c res i status B = Inr (ret, B')" "bridge_inv B' L U A S" "same_conf B B'"
      by (auto simp: yf_send_task_res_def)
    show ?thesis by (rule quiet_step [OF _ B'(2,3)]) (use Reply True B'(1) in \<open>simp del: image_eqI\<close>)
  qed
next
  case (Parent_poll c)
  show ?thesis
  proof (cases "c < child_num B")
    case False
    then show ?thesis using Parent_poll by (intro quiet_step [OF _ inv]) simp_all
  next
    case True
    have "0 < child_num B" using inv by (auto simp: bridge_inv_def core_def)
    then have "lock_res_tq B c < child_num B" "lock_res_tq B (lock_res_tq B c) = lock_res_tq B c"
      using True by (auto simp: lock_res_tq_def split: bridge_ins.splits)
    from res_loop_ok [OF inv this] obtain B' L' where
      B': "yf_bridge_on_task_res_valiable rec_res (lock_res_tq B c) B = Some (Inr B')" "bridge_inv B' L' U A S"
        "same_conf B B'" by blast
    show ?thesis by (rule quiet_step [OF _ B'(2,3)]) (use Parent_poll True B'(1) in simp)
  qed
qed

lemma bridge_op_ok:
  assumes "bridge_inv B L U A S" "sends ops \<le> slices_left (fst (cb_info_pool B))"
  shows "\<exists>a B' L' U' A'. bridge_run ops B = Some (Inr (a, B')) \<and> bridge_inv B' L' U' A' (set a \<union> S) \<and>
    distinct a \<and> set a \<inter> S = {}"
  using assms
proof (induction ops arbitrary: B L U A S)
  case Nil
  then show ?case by auto
next
  case (Cons x ops)
  have n: "sends (x # ops) = sends [x] + sends ops" by (cases x) simp_all
  then have "sends [x] \<le> slices_left (fst (cb_info_pool B))" using Cons.prems(2) by simp
  from step_ok [OF Cons.prems(1) this] obtain a B1 L1 U1 A1 where
    s: "bridge_step x B = Some (Inr (a, B1))" "bridge_inv B1 L1 U1 A1 (set a \<union> S)" "distinct a" "set a \<inter> S = {}"
      "slices_left (fst (cb_info_pool B)) \<le> slices_left (fst (cb_info_pool B1)) + sends [x]" by blast
  have "sends ops \<le> slices_left (fst (cb_info_pool B1))" using Cons.prems(2) s(5) n by simp
  from Cons.IH [OF s(2) this] obtain b B' L' U' A' where
    r: "bridge_run ops B1 = Some (Inr (b, B'))" "bridge_inv B' L' U' A' (set b \<union> (set a \<union> S))" "distinct b"
      "set b \<inter> (set a \<union> S) = {}" by blast
  have "bridge_run (x # ops) B = Some (Inr (a @ b, B'))" using s(1) r(1) by simp
  moreover have "set (a @ b) \<union> S = set b \<union> (set a \<union> S)" by auto
  ultimately show ?case using r(2-4) s(3,4)
    by (intro exI [of _ "a @ b"] exI [of _ B'] exI [of _ L'] exI [of _ U'] exI [of _ A']) auto
qed

subsection \<open>Properties\<close>

lemma sum_length_filter:
  fixes n :: nat
  shows "(\<And>x. x \<in> set L \<Longrightarrow> f x < n) \<Longrightarrow> (\<Sum>c<n. length (filter (\<lambda>x. f x = c) L)) = length L"
proof (induction L)
  case (Cons a L)
  have "(\<Sum>c<n. length (filter (\<lambda>x. f x = c) (a # L))) =
      (\<Sum>c<n. (if f a = c then 1 else 0) + length (filter (\<lambda>x. f x = c) L))"
    by (rule sum.cong) simp_all
  also have "\<dots> = (\<Sum>c<n. if f a = c then 1 else 0) + length L"
    using Cons.IH Cons.prems by (simp add: sum.distrib)
  also have "(\<Sum>c<n. if f a = c then 1 else 0) = (1 :: nat)"
    using sum.delta' [of "{..<n}" "f a" "\<lambda>_. 1 :: nat"] Cons.prems [of a] by simp
  finally show ?case by simp
qed simp

lemma np_rep_length: "np_rep s L U \<Longrightarrow> length L < 2 ^ 24"
proof -
  assume rep: "np_rep s L U"
  obtain G M P where s: "s = (G, M, P)" by (cases s) auto
  obtain fs where P: "np_geom P" "distinct (fs @ map (id_idx \<circ> fst) L)"
      "set (fs @ map (id_idx \<circ> fst) L) = {..<unat (total_num P)}"
    using rep by (auto simp: np_rep_def s np_nodes_def)
  then have "length (fs @ map (id_idx \<circ> fst) L) = unat (total_num P)"
    using distinct_card [OF P(2)] by simp
  then show ?thesis using P(1) by (simp add: np_geom_def)
qed

text \<open>
  C26: Whatever the order of sends, expiring timers, polls and replies, no step of a bridge fails
  an assertion or never returns; every accepted task has an id of its own and gets its result or its timeout at
  most once, although children may reply late or twice; and the counters of the children add
  up to the accepted tasks that have not had theirs yet.
\<close>

theorem yf_bridge_exactly_once:
  assumes start: "bridge_start B" and room: "sends ops \<le> slices_left (fst (cb_info_pool B))"
  shows "\<exists>acc B'. bridge_run ops B = Some (Inr (acc, B')) \<and> distinct acc \<and>
    distinct (map fst (fst (client B'))) \<and> fst ` set (fst (client B')) \<subseteq> set acc \<and>
    (\<Sum>c<child_num B'. unat (task_execut B' c)) + length (fst (client B')) = length acc"
proof -
  obtain acc B' L U A where run: "bridge_run ops B = Some (Inr (acc, B'))"
      and inv: "bridge_inv B' L U A (set acc \<union> {})" and acc: "distinct acc"
    using bridge_op_ok [OF bridge_start_inv [OF start] room] by blast
  have core: "core B' L U A" and cnt: "counts B' L A" and cl: "client_inv B' L U A (set acc)"
    using inv by (simp_all add: bridge_inv_def)
  note d = coreD [OF core] and k = cl [unfolded client_inv_def]
  let ?R = "fst (client B')"
  have small: "length (filter P L) < 2 ^ 32" for P
    by (rule le_less_trans [OF length_filter_le]) (use np_rep_length [OF d(7)] in simp)
  have "(\<Sum>c<child_num B'. unat (task_execut B' c)) = (\<Sum>c<child_num B'. length (filter (\<lambda>x. A (fst x) = c) L))"
    using cnt small by (intro sum.cong) (simp_all add: counts_def unat_of_nat)
  also have "\<dots> = length L" by (rule sum_length_filter) (use d(9) in auto)
  finally have sum: "(\<Sum>c<child_num B'. unat (task_execut B' c)) = length L" .
  have R: "length ?R = card (fst ` set ?R)" using k distinct_card [of "map fst ?R"] by simp
  have L: "length L = card (fst ` set L)" using np_rep_ids(2) [OF d(7)] distinct_card [of "map fst L"] by simp
  have "length acc = card (fst ` set ?R \<union> fst ` set L)" using k distinct_card [OF acc] by simp
  moreover have "fst ` set ?R \<inter> fst ` set L = {}" using k by blast
  ultimately have "length L + length ?R = length acc" using R L by (simp add: card_Un_disjoint)
  moreover have "distinct (map fst ?R)" "fst ` set ?R \<subseteq> set acc" using k by blast+
  ultimately show ?thesis using run acc sum by (intro exI [of _ acc] exI [of _ B']) simp
qed

definition some_bridge :: "np_state \<Rightarrow> calls bridge" where
  "some_bridge s = \<lparr> bridge_ins = Bridge_thr, hash_mod = False, child_num = 2, max_task_size = 100, evt_driven = True,
     cb_info_pool = s, task_ctxs = (\<lambda>_. \<lparr> ctx_data = 0, ctx_tm_evt = None, ctx_child_no = 0 \<rparr>),
     tm_evts = tm_driver0\<lparr> tm_free_list := [1, 2] \<rparr>, tm_evt_data = (\<lambda>_. 0),
     tqs = (\<lambda>_. yf_init_task_queue (blank_queue 500) 500), rtqs = (\<lambda>_. yf_init_task_queue (blank_queue 500) 500),
     task_buf = (\<lambda>_. True), task_execut = (\<lambda>_. 0), client = ([], []) \<rparr>"

definition some_time :: bridge_time where
  "some_time = \<lparr> seed_clock = 1000000, clock_sec = 5, clock_ms = 5000, wall_sec = 70, wall_msec = 3 \<rparr>"

lemma some_bridge_start:
  assumes "np_rep s [] {}" shows "bridge_start (some_bridge s)"
proof -
  have "tq_rep (yf_init_task_queue (blank_queue 500) 500) []"
    by (rule blank_queue_rep) (simp add: TQ_HEAD_LEN_def)
  then show ?thesis using assms
    by (simp add: bridge_start_def some_bridge_def YF_BRIDGE_MAX_CHILD_NUM_def tm_driver0_def tm_timer0_def)
qed

theorem yf_bridge_exactly_once_witness:
  "\<exists>s acc B'. bridge_run [Send some_time [1, 2] 0 7 50, Child_poll (\<lambda>_. some_time) 0, Expire 1, Parent_poll 0]
      (some_bridge s) = Some (Inr (acc, B')) \<and> distinct acc \<and>
    distinct (map fst (fst (client B'))) \<and> fst ` set (fst (client B')) \<subseteq> set acc \<and>
    (\<Sum>c<child_num B'. unat (task_execut B' c)) + length (fst (client B')) = length acc"
proof -
  have P: "np_geom some_pool" by (simp add: np_geom_def some_pool_def)
  have G: "unat (group_used some_glob) + 16384 < 2 ^ 31" by (simp add: some_glob_ok)
  from np_init_ok [OF P some_glob_ok(1) G, of 1000000 some_mem] obtain G' M' P' where
    rep: "np_rep (G', M', P') [] {}" and G': "unat (group_used G') \<le> 32768"
    unfolding Let_def by (auto simp: some_glob_ok)
  have "(2 ^ 31 - 1 - 32768) div 16384 \<le> slices_left G'"
    unfolding slices_left_def by (rule div_le_mono) (use G' in simp)
  then have "sends [Send some_time [1, 2] 0 7 50, Child_poll (\<lambda>_. some_time) 0, Expire 1, Parent_poll 0] \<le>
      slices_left (fst (cb_info_pool (some_bridge (G', M', P'))))" by (simp add: some_bridge_def)
  from yf_bridge_exactly_once [OF some_bridge_start [OF rep] this] show ?thesis by blast
qed

text \<open>
  C27: The status a child gives with a result never arrives: the initialiser in \<^verbatim>\<open>yf_send_task_res\<close> puts it
  into the time of the task, and the parent is told success.
\<close>

theorem yf_send_task_res_loses_status:
  assumes "tq_rep (rtqs B (lock_res_tq B c)) []" "length res \<le> max_task_size B" "max_task_size B < 2 ^ 32"
    and "yf_send_task_res T c res i status B = Inr (YF_OK, B')"
  shows "\<exists>info q. yf_task_pop (rtqs B' (lock_res_tq B c)) (Some (max_task_size B)) = Inr (YF_OK, Some (info, res), q) \<and>
    ti_id info = i \<and> res_status info = YF_TASK_SUCESS"
proof -
  let ?k = "lock_res_tq B c"
  let ?info = "\<lparr> ti_id = i, ti_sec = word_of_int status, ti_msec = 0, ti_status = 0, ti_timeout_ms = 0,
         ti_timeout = False, ti_error = False \<rparr>"
  have i: "info_ok ?info" "length res < 2 ^ 32" using assms(2,3) by (simp_all add: info_ok_def)
  note push = tq_push_spec [OF assms(1) i, of "clock_sec T"]
  have run: "yf_send_task_res T c res i status B = run_bind (yf_task_push (clock_sec T) (rtqs B ?k) ?info res)
      (\<lambda>(ret, q). Inr (ret, B\<lparr> rtqs := (rtqs B)(?k := q) \<rparr>))"
    using assms(2) by (simp add: yf_send_task_res_def yf_send_task_res_in_def Let_def)
  obtain q' where q': "B' = B\<lparr> rtqs := (rtqs B)(?k := q') \<rparr>" "tq_rep q' [(clock_sec T, ?info, res)]"
    using push assms(4) run by (cases "length res + 40 < yf_tq_free_capacity (rtqs B ?k)") auto
  have "fits (Some (max_task_size B)) res" using assms(2) by (simp add: fits_def)
  then obtain q where "yf_task_pop q' (Some (max_task_size B)) = Inr (YF_OK, Some (?info, res), q)"
    using tq_pop_spec [OF q'(2), of "Some (max_task_size B)"] by auto
  then show ?thesis using q'(1) by (intro exI [of _ ?info] exI [of _ q]) (simp add: res_status_def YF_TASK_SUCESS_def)
qed

theorem yf_send_task_res_loses_status_witness:
  "\<exists>B' info q. yf_send_task_res some_time 0 [9] 77 YF_TASK_ERROR (some_bridge (some_glob, some_mem, some_pool)) = Inr (YF_OK, B') \<and>
    yf_task_pop (rtqs B' 0) (Some 100) = Inr (YF_OK, Some (info, [9]), q) \<and>
    ti_id info = 77 \<and> res_status info = YF_TASK_SUCESS"
proof -
  let ?B = "some_bridge (some_glob, some_mem, some_pool)"
  have q: "tq_rep (rtqs ?B (lock_res_tq ?B 0)) []"
    unfolding some_bridge_def by (simp, rule blank_queue_rep) (simp add: TQ_HEAD_LEN_def)
  have sz: "length [9 :: u8] \<le> max_task_size ?B" "max_task_size ?B < 2 ^ 32" "lock_res_tq ?B 0 = 0" "max_task_size ?B = 100"
    by (simp_all add: some_bridge_def lock_res_tq_def)
  let ?info = "\<lparr> ti_id = 77, ti_sec = word_of_int YF_TASK_ERROR, ti_msec = 0, ti_status = 0, ti_timeout_ms = 0,
         ti_timeout = False, ti_error = False \<rparr>"
  have "length [9 :: u8] + 40 < yf_tq_free_capacity (rtqs ?B 0)"
    by (simp add: some_bridge_def yf_tq_free_capacity_def yf_init_task_queue_def blank_queue_def TQ_HEAD_LEN_def YF_MAGIC_VAL_def)
  moreover have "info_ok ?info" "length [9 :: u8] < 2 ^ 32" by (simp_all add: info_ok_def)
  ultimately obtain q' where "yf_task_push (clock_sec some_time) (rtqs ?B 0) ?info [9] = Inr (YF_OK, q')"
    using tq_push_spec [of "rtqs ?B 0" "[]" ?info "[9]" "clock_sec some_time"] q sz(3) by auto
  then obtain B' where run: "yf_send_task_res some_time 0 [9] 77 YF_TASK_ERROR ?B = Inr (YF_OK, B')"
    using sz by (simp add: yf_send_task_res_def yf_send_task_res_in_def Let_def)
  from yf_send_task_res_loses_status [OF q sz(1,2) run] sz(3,4) run show ?thesis by auto
qed

text \<open>
  C28: The time limit of a task has a field of 20 bits, into which a limit of \<open>2 ^ 20\<close> ms, the largest the code
  means to allow, goes as 0: a child runs such a task however late it gets it.
\<close>

theorem yf_task_timeout_field:
  assumes "2 ^ 20 \<le> unat ms"
  shows "on_task th T' c (new_task_info T i ms, task) B = th c task i B"
proof -
  have "(2 ^ 20 :: u32) \<le> ms" using assms by (simp add: word_le_nat_alt)
  then have "min (push_bit 20 1) ms = push_bit 20 1" by (simp add: push_bit_eq_mult min_def)
  moreover have "take_bit 20 (push_bit 20 1 :: u32) = 0" by simp
  ultimately have "ti_timeout_ms (new_task_info T i ms) = 0" "ti_id (new_task_info T i ms) = i"
    by (simp_all add: new_task_info_def)
  then show ?thesis by (simp add: on_task_def Let_def)
qed

theorem yf_task_timeout_field_witness:
  "on_task rec_task some_time 1 (new_task_info some_time 5 2000000, [1]) (some_bridge (some_glob, some_mem, some_pool)) =
    rec_task 1 [1] 5 (some_bridge (some_glob, some_mem, some_pool))"
  by (rule yf_task_timeout_field) simp

text \<open>
  A bridge keeps the sizes its creator was given, only the caller's context is corrected: it goes
  on accepting tasks longer than a quarter of a queue, and never manages to send those that
  do not fit into an empty one.
\<close>

theorem yf_bridge_create_keeps_sizes:
  assumes "yf_bridge_create True now G M nodes fl mem d cl cx = Inr (Some B, cx')"
  shows "max_task_size B = cx_max_task_size cx \<and> cx_max_task_size cx' \<le> align_up (cx_queue_capacity cx) 8 div 4 \<and>
    child_num B = cx_child_num cx \<and> 0 < child_num B \<and> child_num B \<le> YF_BRIDGE_MAX_CHILD_NUM"
  using assms
  by (auto simp: yf_bridge_create_def Let_def run_simps fix_sizes_def split: if_splits option.splits)

lemma create_thr:
  assumes "np_geom (cb_pool0 nodes fl cx)" "seeds_ok G" "unat (group_used G) + 16384 < 2 ^ 31"
    and "cx_child_num cx = 1" "yf_bridge_creator_index cx = 1"
  shows "\<exists>B. yf_bridge_create True now G M nodes fl mem d cl cx = Inr (Some B, fix_sizes cx)"
proof -
  have P: "cb_pool0 nodes fl (fix_sizes cx) = cb_pool0 nodes fl cx" "yf_bridge_creator_index (fix_sizes cx) = 1"
    using assms(5) by (simp_all add: cb_pool0_def fix_sizes_def Let_def yf_bridge_creator_index_def)
  from np_init_ok [OF assms(1-3), of now M] obtain s where "yf_init_node_pool now G M (cb_pool0 nodes fl cx) = Inr s"
    unfolding Let_def by blast
  then show ?thesis using assms(4,5) P
    by (simp add: yf_bridge_create_def Let_def YF_BRIDGE_MAX_CHILD_NUM_def yf_bridge_ci_def creator_def)
qed

definition some_cxt :: bridge_cxt where
  "some_cxt = \<lparr> parent_ins_type = 0, child_ins_type = 1, parent_poll_type = 0, child_poll_type = 0,
     task_dispatch_type = 2, exec_func = False, cx_child_num = 1, cx_max_task_size = 4096, cx_max_task_num = 8,
     cx_queue_capacity = 1000 \<rparr>"

theorem yf_bridge_create_keeps_sizes_witness:
  "\<exists>B. yf_bridge_create True 1000000 some_glob some_mem 4096 64 (\<lambda>_. blank_queue 1000) tm_driver0 ([], []) some_cxt =
      Inr (Some B, some_cxt\<lparr> cx_max_task_size := 250 \<rparr>) \<and> max_task_size (B :: calls bridge) = 4096"
proof -
  have "yf_node_taken_size 32 = 40" by code_simp
  then have P: "np_geom (cb_pool0 4096 64 some_cxt)" by (simp add: np_geom_def cb_pool0_def some_cxt_def)
  have G: "unat (group_used some_glob) + 16384 < 2 ^ 31" by (simp add: some_glob_ok)
  have cx: "cx_child_num some_cxt = 1" "yf_bridge_creator_index some_cxt = 1"
    "fix_sizes some_cxt = some_cxt\<lparr> cx_max_task_size := 250 \<rparr>" "cx_max_task_size some_cxt = 4096"
    by (simp_all add: some_cxt_def yf_bridge_creator_index_def fix_sizes_def Let_def align_up_def)
  from create_thr [OF P some_glob_ok(1) G cx(1,2), of 1000000 some_mem "\<lambda>_. blank_queue 1000" tm_driver0 "([], [])"]
  obtain B :: "calls bridge" where B: "yf_bridge_create True 1000000 some_glob some_mem 4096 64 (\<lambda>_. blank_queue 1000) tm_driver0
      ([], []) some_cxt = Inr (Some B, some_cxt\<lparr> cx_max_task_size := 250 \<rparr>)" unfolding cx(3) by blast
  from yf_bridge_create_keeps_sizes [OF B] have "max_task_size B = 4096" unfolding cx(4) by blast
  with B show ?thesis by blast
qed

end
