(* ===== verification/Circular_Buf.thy ===== *)
theory Circular_Buf
  imports Bit_Op
begin

section \<open>Circular buffers\<close>

text \<open>
  Models \<^verbatim>\<open>base_struct/yf_circular_buf.h\<close> and \<^verbatim>\<open>yf_circular_buf.c\<close>: a file in memory, kept in up to
  256 blocks of one size that are used in a circle. The head, the cursor and the tail are a
  block number and an offset into that block, where the end of a block and the start of the next are two names of one place.
  \<open>bufs\<close> are the blocks in use (\<^verbatim>\<open>buf_used\<close> is their number), \<open>heap_room\<close> is the number of blocks that \<^verbatim>\<open>yf_alloc\<close> can still
  give, which come zeroed. The pool for temporary arrays is not modelled, its allocations are
  taken to succeed; sizes are numbers, 256 blocks being less than \<open>2 ^ 31\<close> bytes.
\<close>

record circular_buf =
  buf_size :: nat
  buf_size_pow :: nat
  shrink_cnt :: nat
  bufs :: "u8 list list"
  head_index :: nat
  head_offset :: nat
  cursor_index :: nat
  cursor_offset :: nat
  tail_index :: nat
  tail_offset :: nat
  heap_room :: nat

definition YF_CIRCULAR_BUF_MAX_NUM :: nat where "YF_CIRCULAR_BUF_MAX_NUM = 256"

abbreviation buf_used :: "circular_buf \<Rightarrow> nat" where "buf_used cb \<equiv> length (bufs cb)"

subsection \<open>Index arithmetic\<close>

text \<open>\<^verbatim>\<open>yf_cb_diff\<close> with its comparison for reading (\<open>\<ge>\<close>) and for writing (\<open>>\<close>).\<close>

definition yf_cb_diff_r :: "nat \<Rightarrow> nat \<Rightarrow> nat \<Rightarrow> nat" where
  "yf_cb_diff_r m n capacity = (if m \<ge> n then m - n else m + capacity - n)"

definition yf_cb_diff_w :: "nat \<Rightarrow> nat \<Rightarrow> nat \<Rightarrow> nat" where
  "yf_cb_diff_w m n capacity = (if m > n then m - n else m + capacity - n)"

definition yf_cb_add :: "nat \<Rightarrow> nat \<Rightarrow> nat \<Rightarrow> nat" where
  "yf_cb_add i n capacity = (if n < capacity - i then i + n else i + n - capacity)"

definition yf_cb_sub :: "nat \<Rightarrow> nat \<Rightarrow> nat \<Rightarrow> nat" where
  "yf_cb_sub i n capacity = (if n > i then i + capacity - n else i - n)"

definition yf_cb_increase :: "nat \<Rightarrow> nat \<Rightarrow> nat" where
  "yf_cb_increase i capacity = (if i + 1 = capacity then 0 else i + 1)"

definition yf_cb_rest_mod :: "nat \<Rightarrow> nat \<Rightarrow> nat" where
  "yf_cb_rest_mod i capacity = (let r = i mod capacity in if r = 0 then capacity else r)"

definition yf_circular_buf_bsize :: "circular_buf \<Rightarrow> nat \<Rightarrow> nat" where
  "yf_circular_buf_bsize cb bytes = align_up bytes (buf_size cb) div 2 ^ buf_size_pow cb"

definition yf_circular_buf_rest_rsize :: "circular_buf \<Rightarrow> int" where
  "yf_circular_buf_rest_rsize cb =
     int (yf_cb_diff_r (tail_index cb) (cursor_index cb) (buf_used cb) * 2 ^ buf_size_pow cb) +
     int (tail_offset cb) - int (cursor_offset cb)"

definition yf_circular_buf_free_wsize :: "circular_buf \<Rightarrow> int" where
  "yf_circular_buf_free_wsize cb =
     int (yf_cb_diff_w (head_index cb) (cursor_index cb) (buf_used cb) * 2 ^ buf_size_pow cb) -
     int (cursor_offset cb)"

definition yf_circular_buf_tailed_wsize :: "circular_buf \<Rightarrow> int" where
  "yf_circular_buf_tailed_wsize cb =
     int (yf_cb_diff_w (head_index cb) (tail_index cb) (buf_used cb) * 2 ^ buf_size_pow cb) -
     int (tail_offset cb)"

definition yf_cb_fsize :: "circular_buf \<Rightarrow> int" where
  "yf_cb_fsize cb =
     int (yf_cb_diff_r (tail_index cb) (head_index cb) (buf_used cb) * 2 ^ buf_size_pow cb) +
     int (tail_offset cb) - int (head_offset cb)"

definition yf_cb_ftell :: "circular_buf \<Rightarrow> int" where
  "yf_cb_ftell cb =
     int (yf_cb_diff_r (cursor_index cb) (head_index cb) (buf_used cb) * 2 ^ buf_size_pow cb) +
     int (cursor_offset cb) - int (head_offset cb)"

definition advance_back :: "circular_buf \<Rightarrow> nat \<times> nat \<Rightarrow> nat \<Rightarrow> nat \<times> nat" where
  "advance_back cb p diff = (case p of (i, off) \<Rightarrow>
     if diff \<le> off then (i, off - diff)
     else let restb = diff - off in
       (yf_cb_sub i (yf_circular_buf_bsize cb restb) (buf_used cb),
        buf_size cb - yf_cb_rest_mod restb (buf_size cb)))"

definition advance_front :: "circular_buf \<Rightarrow> nat \<times> nat \<Rightarrow> nat \<Rightarrow> nat \<times> nat" where
  "advance_front cb p diff = (case p of (i, off) \<Rightarrow>
     let wbytes = buf_size cb - off in
     if diff \<le> wbytes then (i, off + diff)
     else let wbytes = diff - wbytes in
       (yf_cb_add i (yf_circular_buf_bsize cb wbytes) (buf_used cb), yf_cb_rest_mod wbytes (buf_size cb)))"

definition preprocess_cursor :: "circular_buf \<Rightarrow> nat \<times> nat \<Rightarrow> nat \<times> nat" where
  "preprocess_cursor cb p = (case p of (i, off) \<Rightarrow>
     if off = buf_size cb then (yf_cb_increase i (buf_used cb), 0) else (i, off))"

abbreviation cb_cursor :: "circular_buf \<Rightarrow> nat \<times> nat" where
  "cb_cursor cb \<equiv> (cursor_index cb, cursor_offset cb)"

abbreviation cb_head :: "circular_buf \<Rightarrow> nat \<times> nat" where
  "cb_head cb \<equiv> (head_index cb, head_offset cb)"

abbreviation cb_tail :: "circular_buf \<Rightarrow> nat \<times> nat" where
  "cb_tail cb \<equiv> (tail_index cb, tail_offset cb)"

definition set_cursor :: "nat \<times> nat \<Rightarrow> circular_buf \<Rightarrow> circular_buf" where
  "set_cursor p cb = cb\<lparr> cursor_index := fst p, cursor_offset := snd p \<rparr>"

definition set_tail :: "nat \<times> nat \<Rightarrow> circular_buf \<Rightarrow> circular_buf" where
  "set_tail p cb = cb\<lparr> tail_index := fst p, tail_offset := snd p \<rparr>"

definition set_head :: "nat \<times> nat \<Rightarrow> circular_buf \<Rightarrow> circular_buf" where
  "set_head p cb = cb\<lparr> head_index := fst p, head_offset := snd p \<rparr>"

subsection \<open>Space\<close>

definition yf_circular_buf_init :: "u64 \<Rightarrow> bool \<Rightarrow> nat \<Rightarrow> (int \<times> circular_buf) run" where
  "yf_circular_buf_init size_arg pool_ok room = run_bind (yf_align_2pow size_arg) (\<lambda>bs.
     Inr (if pool_ok then YF_OK else YF_ERROR,
          \<lparr> buf_size = unat bs, buf_size_pow = unat (yf_bit_cnt bs - 1), shrink_cnt = 0, bufs = [],
            head_index = 0, head_offset = 0, cursor_index = 0, cursor_offset = 0,
            tail_index = 0, tail_offset = 0, heap_room = room \<rparr>))"

definition yf_circular_buf_destory :: "circular_buf \<Rightarrow> circular_buf" where
  "yf_circular_buf_destory cb = \<lparr> buf_size = 0, buf_size_pow = 0, shrink_cnt = 0, bufs = [],
     head_index = 0, head_offset = 0, cursor_index = 0, cursor_offset = 0,
     tail_index = 0, tail_offset = 0, heap_room = heap_room cb + buf_used cb \<rparr>"

definition yf_circular_buf_reset :: "circular_buf \<Rightarrow> circular_buf" where
  "yf_circular_buf_reset cb = set_head (0, 0) (set_cursor (0, 0) (set_tail (0, 0) cb))"

definition cb_space_reoder :: "circular_buf \<Rightarrow> circular_buf" where
  "cb_space_reoder cb =
     (let hindex = head_index cb in
      if hindex = 0 then cb
      else cb\<lparr> bufs := drop hindex (bufs cb) @ take hindex (bufs cb),
              cursor_index := yf_cb_sub (cursor_index cb) hindex (buf_used cb),
              tail_index := yf_cb_sub (tail_index cb) hindex (buf_used cb),
              head_index := 0 \<rparr>)"

fun alloc_bufs :: "nat \<Rightarrow> circular_buf \<Rightarrow> nat \<times> circular_buf" where
  "alloc_bufs 0 cb = (0, cb)"
| "alloc_bufs (Suc wbsize) cb =
     (if heap_room cb = 0 then (Suc wbsize, cb)
      else alloc_bufs wbsize
        (cb\<lparr> heap_room := heap_room cb - 1, bufs := bufs cb @ [replicate (buf_size cb) 0] \<rparr>))"

definition yf_cb_space_enlarge :: "int \<Rightarrow> circular_buf \<Rightarrow> int \<times> circular_buf" where
  "yf_cb_space_enlarge bytes cb =
     (let free_wsize = yf_circular_buf_free_wsize cb in
      if free_wsize < bytes \<and> buf_used cb < YF_CIRCULAR_BUF_MAX_NUM
      then
        let cb = (if head_index cb \<noteq> 0 then cb_space_reoder cb else cb);
            wbsize = yf_circular_buf_bsize cb (nat (bytes - free_wsize));
            wbsize = min wbsize (YF_CIRCULAR_BUF_MAX_NUM - buf_used cb);
            (rest, cb) = alloc_bufs wbsize cb in
        (free_wsize + int ((wbsize - rest) * 2 ^ buf_size_pow cb), cb)
      else (free_wsize, cb))"

definition cb_space_write_tail :: "int \<Rightarrow> int \<Rightarrow> circular_buf \<Rightarrow> circular_buf" where
  "cb_space_write_tail free_wsize bytes cb =
     (let new_wsize = bytes - (free_wsize - yf_circular_buf_tailed_wsize cb) in
      if new_wsize > 0 then set_tail (advance_front cb (cb_tail cb) (nat new_wsize)) cb else cb)"

definition yf_circular_buf_shrink :: "circular_buf \<Rightarrow> circular_buf run" where
  "yf_circular_buf_shrink cb =
     (let cb = cb\<lparr> shrink_cnt := (shrink_cnt cb + 1) mod 256 \<rparr> in
      if shrink_cnt cb < 32 then Inr cb
      else
        let cb = cb\<lparr> shrink_cnt := 0 \<rparr> in
        if buf_used cb \<le> 2 then Inr cb
        else
          let shrink_num = max 1 (buf_used cb div 8);
              tailed_wsize = yf_circular_buf_tailed_wsize cb - (int (buf_size cb) - int (tail_offset cb)) in
          c_assert (tailed_wsize mod int (buf_size cb) = 0)
            (let shrink_num = min (int shrink_num) (tailed_wsize div 2 ^ buf_size_pow cb) in
             if shrink_num = 0 then Inr cb
             else
               let cb = cb_space_reoder cb; n = nat (int (buf_used cb) - shrink_num) in
               Inr (cb\<lparr> bufs := take n (bufs cb), heap_room := heap_room cb + (buf_used cb - n) \<rparr>)))"

subsection \<open>The file\<close>

definition yf_cb_fhead_set :: "int \<Rightarrow> circular_buf \<Rightarrow> int \<times> circular_buf" where
  "yf_cb_fhead_set offset cb =
     (if offset < 0 then (YF_ERROR, cb)
      else if offset = 0 then (YF_OK, set_head (cb_cursor cb) cb)
      else if offset > yf_cb_fsize cb then (YF_ERROR, cb)
      else
        let cb = set_head (advance_front cb (cb_head cb) (nat offset)) cb; cpos = yf_cb_ftell cb in
        (YF_OK, if cpos < 0 \<or> cpos > yf_cb_fsize cb then set_cursor (cb_head cb) cb else cb))"

definition yf_cb_ftruncate :: "int \<Rightarrow> circular_buf \<Rightarrow> int \<times> circular_buf" where
  "yf_cb_ftruncate sz cb =
     (if sz < 0 then (YF_ERROR, cb)
      else
        let dsize = sz - yf_cb_fsize cb in
        if dsize = 0 then (YF_OK, cb)
        else if dsize > 0
        then
          let more_bytes = sz - yf_cb_ftell cb; (free_wsize, cb) = yf_cb_space_enlarge more_bytes cb in
          if free_wsize < more_bytes then (YF_ERROR, cb)
          else (YF_OK, cb_space_write_tail free_wsize more_bytes cb)
        else
          let cb = set_tail (advance_back cb (cb_tail cb) (nat (- dsize))) cb; cpos = yf_cb_ftell cb in
          (YF_OK, if cpos < 0 \<or> cpos > sz then set_cursor (cb_tail cb) cb else cb))"

datatype seek_from = SEEK_SET | SEEK_CUR | SEEK_END | SEEK_other

definition yf_cb_fseek :: "int \<Rightarrow> seek_from \<Rightarrow> circular_buf \<Rightarrow> int \<times> circular_buf" where
  "yf_cb_fseek offset fromwhere cb =
     (if offset = 0
      then (case fromwhere of
          SEEK_SET \<Rightarrow> (YF_OK, set_cursor (cb_head cb) cb)
        | SEEK_CUR \<Rightarrow> (YF_OK, cb)
        | SEEK_END \<Rightarrow> (YF_OK, set_cursor (cb_tail cb) cb)
        | SEEK_other \<Rightarrow> (YF_ERROR, cb))
      else
        let fsize = yf_cb_fsize cb in
        case (case fromwhere of
            SEEK_SET \<Rightarrow> Some offset
          | SEEK_CUR \<Rightarrow> Some (offset + yf_cb_ftell cb)
          | SEEK_END \<Rightarrow> Some (offset + fsize)
          | SEEK_other \<Rightarrow> None) of
          None \<Rightarrow> (YF_ERROR, cb)
        | Some offset_abs \<Rightarrow>
            if offset_abs < 0 \<or> offset_abs > fsize then (YF_ERROR, cb)
            else (YF_OK, set_cursor (advance_front cb (cb_head cb) (nat offset_abs)) cb))"

definition blk :: "circular_buf \<Rightarrow> nat \<Rightarrow> u8 list run" where
  "blk cb i = require Out_of_bounds (i < buf_used cb) (Inr (bufs cb ! i))"

definition put_blk :: "nat \<Rightarrow> nat \<Rightarrow> u8 list \<Rightarrow> circular_buf \<Rightarrow> circular_buf run" where
  "put_blk i off bs cb = run_bind (blk cb i) (\<lambda>b.
     require Out_of_bounds (off + length bs \<le> length b)
       (Inr (cb\<lparr> bufs := (bufs cb)[i := take off b @ bs @ drop (off + length bs) b] \<rparr>)))"

text \<open>The loops over whole blocks; the size of a block is never 0.\<close>

function read_blks :: "circular_buf \<Rightarrow> nat \<Rightarrow> nat \<Rightarrow> (u8 list \<times> nat \<times> nat) run" where
  "read_blks cb rindex rbytes = run_bind (blk cb rindex) (\<lambda>b.
     if rbytes \<le> buf_size cb \<or> buf_size cb = 0 then Inr (take rbytes b, rindex, rbytes)
     else run_bind (read_blks cb (yf_cb_increase rindex (buf_used cb)) (rbytes - buf_size cb))
            (\<lambda>(bs, p). Inr (take (buf_size cb) b @ bs, p)))"
  by pat_completeness auto

termination by (relation "measure (\<lambda>(_, _, n). n)") auto

function write_blks :: "circular_buf \<Rightarrow> nat \<Rightarrow> u8 list \<Rightarrow> (circular_buf \<times> nat \<times> nat) run" where
  "write_blks cb windex bs =
     (if length bs \<le> buf_size cb \<or> buf_size cb = 0
      then run_bind (put_blk windex 0 bs cb) (\<lambda>cb. Inr (cb, windex, length bs))
      else run_bind (put_blk windex 0 (take (buf_size cb) bs) cb) (\<lambda>cb'.
           write_blks cb' (yf_cb_increase windex (buf_used cb)) (drop (buf_size cb) bs)))"
  by pat_completeness auto

termination by (relation "measure (\<lambda>(_, _, bs). length bs)") auto

definition yf_cb_fread :: "int \<Rightarrow> bool \<Rightarrow> circular_buf \<Rightarrow> (int \<times> u8 list \<times> circular_buf) run" where
  "yf_cb_fread bytes peek cb =
     (let bytes = min (yf_circular_buf_rest_rsize cb) bytes in
      if bytes \<le> 0 then Inr (bytes, [], cb)
      else
        let (rindex, roffset) = preprocess_cursor cb (cb_cursor cb);
            n = nat bytes; rbytes = buf_size cb - roffset in
        run_bind (blk cb rindex) (\<lambda>b.
        if rbytes \<ge> n
        then Inr (bytes, take n (drop roffset b),
               if peek then cb else set_cursor (rindex, roffset + n) cb)
        else run_bind (read_blks cb (yf_cb_increase rindex (buf_used cb)) (n - rbytes)) (\<lambda>(bs, p).
             Inr (bytes, take rbytes (drop roffset b) @ bs, if peek then cb else set_cursor p cb))))"

definition yf_cb_fwrite :: "u8 list \<Rightarrow> circular_buf \<Rightarrow> (int \<times> circular_buf) run" where
  "yf_cb_fwrite buf cb =
     (let free_wsize = yf_circular_buf_free_wsize cb; woffset = cursor_offset cb; bytes = int (length buf) in
      if bytes \<le> 0 then Inr (bytes, cb)
      else
        let (free_wsize, cb) = (if free_wsize < bytes then yf_cb_space_enlarge bytes cb else (free_wsize, cb));
            bytes = min bytes free_wsize;
            cb = cb_space_write_tail free_wsize bytes cb;
            (windex, woffset) = preprocess_cursor cb (cursor_index cb, woffset);
            bs = take (nat bytes) buf; wbytes = buf_size cb - woffset in
        if wbytes \<ge> length bs
        then run_bind (if bs = [] then Inr cb else put_blk windex woffset bs cb) (\<lambda>cb.
             Inr (bytes, set_cursor (windex, woffset + length bs) cb))
        else run_bind (put_blk windex woffset (take wbytes bs) cb) (\<lambda>cb.
             run_bind (write_blks cb (yf_cb_increase windex (buf_used cb)) (drop wbytes bs)) (\<lambda>(cb, p).
             Inr (bytes, set_cursor p cb))))"

subsection \<open>Direct access to the blocks\<close>

text \<open>
  \<^verbatim>\<open>yf_cb_space_gread\<close> and \<^verbatim>\<open>yf_cb_space_gwrite\<close> copy the addresses of \<open>bsize\<close> blocks into an array; the
  model keeps their numbers. The array has \<open>cap\<close> entries of which \<open>k\<close> are already filled; a
  caller that brings no array (\<open>None\<close>) gets one with an entry more than the blocks \<open>bytes\<close> fill.
\<close>

definition cb_space_get :: "circular_buf \<Rightarrow> nat \<Rightarrow> nat \<Rightarrow> nat list \<Rightarrow> nat \<Rightarrow> nat list run" where
  "cb_space_get cb cap ifrom b bsize =
     (let bsize_tmp = min bsize (buf_used cb - ifrom) in
      require Out_of_bounds (length b + bsize \<le> cap)
        (Inr (b @ [ifrom..<ifrom + bsize_tmp] @ [0..<bsize - bsize_tmp])))"

definition cb_bufs_alloc :: "circular_buf \<Rightarrow> nat option \<Rightarrow> nat \<Rightarrow> nat" where
  "cb_bufs_alloc cb rbufs bytes =
     (case rbufs of None \<Rightarrow> yf_circular_buf_bsize cb bytes + 1 | Some cap \<Rightarrow> cap)"

definition yf_cb_space_read ::
    "int \<Rightarrow> nat option \<Rightarrow> bool \<Rightarrow> circular_buf \<Rightarrow> (int \<times> nat list \<times> nat \<times> circular_buf) run" where
  "yf_cb_space_read bytes rbufs peek cb =
     (let tindex = tail_index cb; rest_rsize = yf_circular_buf_rest_rsize cb in
      if bytes \<le> 0 then Inr (bytes, [], 0, cb)
      else
        let cap = cb_bufs_alloc cb rbufs (nat bytes);
            (rindex, roffset) = preprocess_cursor cb (cb_cursor cb) in
        if rest_rsize \<le> bytes
        then run_bind (cb_space_get cb cap rindex [] (yf_cb_diff_r tindex rindex (buf_used cb) + 1)) (\<lambda>b.
               Inr (rest_rsize, b, roffset, if peek then cb else set_cursor (tindex, tail_offset cb) cb))
        else
          let rbytes = buf_size cb - roffset; n = nat bytes in
          require Out_of_bounds (0 < cap)
          (if rbytes \<ge> n
           then Inr (bytes, [rindex], roffset, if peek then cb else set_cursor (rindex, roffset + n) cb)
           else c_assert (tindex \<noteq> rindex)
            (let rbytes = n - rbytes; rbsize = yf_circular_buf_bsize cb rbytes;
                 cb' = (if peek then cb
                        else set_cursor (yf_cb_add rindex rbsize (buf_used cb),
                                         yf_cb_rest_mod rbytes (buf_size cb)) cb) in
             run_bind (cb_space_get cb cap (yf_cb_increase rindex (buf_used cb)) [rindex] rbsize) (\<lambda>b.
             Inr (bytes, b, roffset, cb')))))"

definition yf_cb_space_write_alloc ::
    "int \<Rightarrow> nat option \<Rightarrow> circular_buf \<Rightarrow> (int \<times> nat list \<times> nat \<times> circular_buf) run" where
  "yf_cb_space_write_alloc bytes rbufs cb =
     (let free_wsize = yf_circular_buf_free_wsize cb in
      if bytes \<le> 0 then Inr (bytes, [], 0, cb)
      else
        let (free_wsize, cb) = (if free_wsize < bytes then yf_cb_space_enlarge bytes cb else (free_wsize, cb));
            bytes = min bytes free_wsize; n = nat bytes; cap = cb_bufs_alloc cb rbufs n;
            (windex, woffset) = preprocess_cursor cb (cb_cursor cb);
            wbytes = buf_size cb - woffset in
        require Out_of_bounds (0 < cap)
        (if wbytes \<ge> n then Inr (bytes, [windex], woffset, cb)
         else
           let wbsize = yf_circular_buf_bsize cb (n - wbytes) in
           run_bind (cb_space_get cb cap (yf_cb_increase windex (buf_used cb)) [windex] wbsize) (\<lambda>b.
           Inr (bytes, b, woffset, cb))))"

definition yf_cb_space_write_bytes :: "int \<Rightarrow> circular_buf \<Rightarrow> circular_buf run" where
  "yf_cb_space_write_bytes wreal_len cb =
     (let free_wsize = yf_circular_buf_free_wsize cb;
          cb = cb_space_write_tail free_wsize wreal_len cb;
          (ret, cb) = yf_cb_fseek wreal_len SEEK_CUR cb in
      c_assert (ret = YF_OK) (Inr cb))"

subsection \<open>Distances\<close>

text \<open>
  Blocks are counted from the head block (\<open>cb_rel\<close>); \<open>cb_lin\<close> is the distance of a place from the
  start of the head block and \<open>cb_data\<close> are the bytes of all blocks in that order.
\<close>

definition cb_rel :: "circular_buf \<Rightarrow> nat \<Rightarrow> nat" where
  "cb_rel cb i = yf_cb_diff_r i (head_index cb) (buf_used cb)"

definition cb_lin :: "circular_buf \<Rightarrow> nat \<times> nat \<Rightarrow> nat" where
  "cb_lin cb p = cb_rel cb (fst p) * buf_size cb + snd p"

definition cb_blocks :: "circular_buf \<Rightarrow> u8 list list" where
  "cb_blocks cb = drop (head_index cb) (bufs cb) @ take (head_index cb) (bufs cb)"

definition cb_data :: "circular_buf \<Rightarrow> u8 list" where
  "cb_data cb = concat (cb_blocks cb)"

definition cb_place :: "circular_buf \<Rightarrow> nat \<times> nat \<Rightarrow> bool" where
  "cb_place cb p \<longleftrightarrow> (if buf_used cb = 0 then p = (0, 0) else fst p < buf_used cb \<and> snd p \<le> buf_size cb)"

definition cb_shape :: "circular_buf \<Rightarrow> bool" where
  "cb_shape cb \<longleftrightarrow> buf_size cb = 2 ^ buf_size_pow cb \<and> buf_used cb \<le> YF_CIRCULAR_BUF_MAX_NUM \<and>
     (\<forall>x \<in> set (bufs cb). length x = buf_size cb) \<and> cb_place cb (cb_head cb)"

definition cb_inv :: "circular_buf \<Rightarrow> bool" where
  "cb_inv cb \<longleftrightarrow> cb_shape cb \<and> cb_place cb (cb_cursor cb) \<and> cb_place cb (cb_tail cb) \<and>
     head_offset cb \<le> cb_lin cb (cb_cursor cb) \<and> cb_lin cb (cb_cursor cb) \<le> cb_lin cb (cb_tail cb) \<and>
     cb_rel cb (cursor_index cb) \<le> cb_rel cb (tail_index cb)"

lemma set_cursor_simps [simp]:
  "buf_size (set_cursor p cb) = buf_size cb" "buf_size_pow (set_cursor p cb) = buf_size_pow cb"
  "bufs (set_cursor p cb) = bufs cb" "head_index (set_cursor p cb) = head_index cb"
  "head_offset (set_cursor p cb) = head_offset cb" "tail_index (set_cursor p cb) = tail_index cb"
  "tail_offset (set_cursor p cb) = tail_offset cb" "heap_room (set_cursor p cb) = heap_room cb"
  "cursor_index (set_cursor p cb) = fst p" "cursor_offset (set_cursor p cb) = snd p"
  by (simp_all add: set_cursor_def)

lemma set_tail_simps [simp]:
  "buf_size (set_tail p cb) = buf_size cb" "buf_size_pow (set_tail p cb) = buf_size_pow cb"
  "bufs (set_tail p cb) = bufs cb" "head_index (set_tail p cb) = head_index cb"
  "head_offset (set_tail p cb) = head_offset cb" "cursor_index (set_tail p cb) = cursor_index cb"
  "cursor_offset (set_tail p cb) = cursor_offset cb" "heap_room (set_tail p cb) = heap_room cb"
  "tail_index (set_tail p cb) = fst p" "tail_offset (set_tail p cb) = snd p"
  by (simp_all add: set_tail_def)

lemma set_head_simps [simp]:
  "buf_size (set_head p cb) = buf_size cb" "buf_size_pow (set_head p cb) = buf_size_pow cb"
  "bufs (set_head p cb) = bufs cb" "cursor_index (set_head p cb) = cursor_index cb"
  "cursor_offset (set_head p cb) = cursor_offset cb" "tail_index (set_head p cb) = tail_index cb"
  "tail_offset (set_head p cb) = tail_offset cb" "heap_room (set_head p cb) = heap_room cb"
  "head_index (set_head p cb) = fst p" "head_offset (set_head p cb) = snd p"
  by (simp_all add: set_head_def)

lemma cb_same [simp]:
  "cb_rel (set_cursor p cb) i = cb_rel cb i" "cb_rel (set_tail p cb) i = cb_rel cb i"
  "cb_lin (set_cursor p cb) q = cb_lin cb q" "cb_lin (set_tail p cb) q = cb_lin cb q"
  "cb_blocks (set_cursor p cb) = cb_blocks cb" "cb_blocks (set_tail p cb) = cb_blocks cb"
  "cb_data (set_cursor p cb) = cb_data cb" "cb_data (set_tail p cb) = cb_data cb"
  "cb_place (set_cursor p cb) q = cb_place cb q" "cb_place (set_tail p cb) q = cb_place cb q"
  "cb_place (set_head p cb) q = cb_place cb q"
  "cb_shape (set_cursor p cb) = cb_shape cb" "cb_shape (set_tail p cb) = cb_shape cb"
  by (simp_all add: cb_rel_def cb_lin_def cb_blocks_def cb_data_def cb_place_def cb_shape_def)

lemma cb_bsize: "cb_shape cb \<Longrightarrow> yf_circular_buf_bsize cb x = (x + (buf_size cb - 1)) div buf_size cb"
  by (simp add: yf_circular_buf_bsize_def cb_shape_def align_up_def)

lemma cb_shapeD:
  assumes "cb_shape cb"
  shows "0 < buf_size cb" "2 ^ buf_size_pow cb = buf_size cb" "buf_used cb = 0 \<Longrightarrow> head_index cb = 0"
    "0 < buf_used cb \<Longrightarrow> head_index cb < buf_used cb"
  using assms by (auto simp: cb_shape_def cb_place_def)

lemma cb_head_less: "cb_shape cb \<Longrightarrow> i < buf_used cb \<Longrightarrow> head_index cb < buf_used cb"
  using cb_shapeD(4) by fastforce

lemma cb_rel_less:
  assumes "cb_shape cb" "i < buf_used cb"
  shows "cb_rel cb i < buf_used cb"
  using cb_head_less [OF assms] assms(2) by (auto simp: cb_rel_def yf_cb_diff_r_def)

lemma cb_rel_head [simp]: "cb_rel cb (head_index cb) = 0"
  by (simp add: cb_rel_def yf_cb_diff_r_def)

lemma cb_rel_add:
  assumes "cb_shape cb" "i < buf_used cb" "cb_rel cb i + k < buf_used cb"
  shows "yf_cb_add i k (buf_used cb) < buf_used cb"
    and "cb_rel cb (yf_cb_add i k (buf_used cb)) = cb_rel cb i + k"
  using cb_head_less [OF assms(1,2)] assms(2,3)
  unfolding cb_rel_def yf_cb_diff_r_def yf_cb_add_def
  by (simp_all split: if_split_asm if_split, linarith+)

lemma cb_rel_sub:
  assumes "cb_shape cb" "i < buf_used cb" "k \<le> cb_rel cb i"
  shows "yf_cb_sub i k (buf_used cb) < buf_used cb"
    and "cb_rel cb (yf_cb_sub i k (buf_used cb)) = cb_rel cb i - k"
  using cb_head_less [OF assms(1,2)] assms(2,3)
  unfolding cb_rel_def yf_cb_diff_r_def yf_cb_sub_def
  by (simp_all split: if_split_asm if_split, linarith+)

lemma cb_increase_add: "i < n \<Longrightarrow> yf_cb_increase i n = yf_cb_add i 1 n"
  by (auto simp: yf_cb_increase_def yf_cb_add_def)

lemma cb_rel_increase:
  assumes "cb_shape cb" "i < buf_used cb" "cb_rel cb i + 1 < buf_used cb"
  shows "yf_cb_increase i (buf_used cb) < buf_used cb"
    and "cb_rel cb (yf_cb_increase i (buf_used cb)) = cb_rel cb i + 1"
  using cb_rel_add [OF assms] assms(2) by (simp_all add: cb_increase_add)

lemma blocks_split:
  fixes b x :: nat
  assumes "0 < b" "0 < x"
  obtains k r where "x = k * b + r" "0 < r" "r \<le> b" "(x + (b - 1)) div b = k + 1" "yf_cb_rest_mod x b = r"
proof
  let ?k = "(x - 1) div b" and ?r = "(x - 1) mod b + 1"
  show x: "x = ?k * b + ?r"
    using assms(2) div_mult_mod_eq [of "x - 1" b] by linarith
  show "0 < ?r" by simp
  show r: "?r \<le> b" using mod_less_divisor [OF assms(1), of "x - 1"] by linarith
  have "x + (b - 1) = (x - 1) + b" using assms by simp
  then show "(x + (b - 1)) div b = ?k + 1" using assms(1) by (metis div_add_self2 not_less_zero)
  have "x mod b = ?r mod b" by (metis x mod_mult_self3)
  then show "yf_cb_rest_mod x b = ?r"
    using r by (cases "?r = b") (simp_all add: yf_cb_rest_mod_def)
qed

lemma cb_placeD:
  assumes "cb_place cb p"
  shows "snd p \<le> buf_size cb" "0 < buf_used cb \<Longrightarrow> fst p < buf_used cb"
  using assms by (auto simp: cb_place_def split: if_splits)

lemma cb_lin_le:
  assumes "cb_shape cb" "cb_place cb p"
  shows "cb_lin cb p \<le> buf_used cb * buf_size cb"
proof (cases "buf_used cb = 0")
  case True
  with assms show ?thesis
    by (auto simp: cb_lin_def cb_place_def cb_rel_def yf_cb_diff_r_def cb_shape_def)
next
  case False
  then have "cb_rel cb (fst p) + 1 \<le> buf_used cb"
    using cb_rel_less [OF assms(1) cb_placeD(2) [OF assms(2)]] by simp
  then have "(cb_rel cb (fst p) + 1) * buf_size cb \<le> buf_used cb * buf_size cb" by (rule mult_le_mono1)
  with cb_placeD(1) [OF assms(2)] show ?thesis by (simp add: cb_lin_def)
qed

lemma cb_rel_mono:
  assumes "cb_lin cb p \<le> cb_lin cb q" "0 < snd p" "snd q \<le> buf_size cb"
  shows "cb_rel cb (fst p) \<le> cb_rel cb (fst q)"
proof (rule ccontr)
  assume "\<not> ?thesis"
  then have "(cb_rel cb (fst q) + 1) * buf_size cb \<le> cb_rel cb (fst p) * buf_size cb"
    by (intro mult_le_mono1) simp
  with assms show False by (simp add: cb_lin_def)
qed

lemma block_room:
  fixes b n r o' :: nat
  assumes "r * b + o' \<le> n * b" "0 < o'"
  shows "r < n"
proof (rule ccontr)
  assume "\<not> r < n"
  then have "n * b \<le> r * b" by (simp add: mult_le_mono1)
  with assms show False by simp
qed

lemma advance_front_spec:
  assumes "cb_shape cb" "cb_place cb p" "cb_lin cb p + d \<le> buf_used cb * buf_size cb"
  shows "cb_place cb (advance_front cb p d)" "cb_lin cb (advance_front cb p d) = cb_lin cb p + d"
    "0 < d \<Longrightarrow> 0 < snd (advance_front cb p d)" "cb_rel cb (fst p) \<le> cb_rel cb (fst (advance_front cb p d))"
proof -
  obtain i off where p: "p = (i, off)" by fastforce
  let ?b = "buf_size cb" and ?n = "buf_used cb"
  have "cb_place cb (advance_front cb p d) \<and> cb_lin cb (advance_front cb p d) = cb_lin cb p + d \<and>
    (0 < d \<longrightarrow> 0 < snd (advance_front cb p d)) \<and>
    cb_rel cb (fst p) \<le> cb_rel cb (fst (advance_front cb p d))"
  proof (cases "d \<le> ?b - off")
    case True
    with assms p show ?thesis
      by (auto simp: advance_front_def cb_place_def cb_lin_def cb_rel_def yf_cb_diff_r_def cb_shape_def split: if_splits)
  next
    case False
    have n: "0 < ?n" using assms(3) False cb_placeD(1) [OF assms(2)] p
      by (cases "?n = 0") (auto simp: cb_lin_def)
    have i: "i < ?n" "off \<le> ?b" using cb_placeD [OF assms(2)] n p by auto
    obtain k r where x: "d - (?b - off) = k * ?b + r" "0 < r" "r \<le> ?b"
        "(d - (?b - off) + (?b - 1)) div ?b = k + 1" "yf_cb_rest_mod (d - (?b - off)) ?b = r"
      using blocks_split [OF cb_shapeD(1) [OF assms(1)], of "d - (?b - off)"] False by auto
    have lin: "cb_lin cb p + d = (cb_rel cb i + (k + 1)) * ?b + r"
      using x(1) False i(2) p by (simp add: cb_lin_def algebra_simps)
    with assms(3) x(2) have "cb_rel cb i + (k + 1) < ?n"
      using block_room by metis
    note add = cb_rel_add [OF assms(1) i(1) this]
    have adv: "advance_front cb p d = (yf_cb_add i (k + 1) ?n, r)"
      using False x(4,5) p by (simp add: advance_front_def Let_def cb_bsize [OF assms(1)] not_le)
    show ?thesis
      using add x(2,3) lin p unfolding adv by (auto simp: cb_place_def cb_lin_def)
  qed
  then show "cb_place cb (advance_front cb p d)" "cb_lin cb (advance_front cb p d) = cb_lin cb p + d"
    "0 < d \<Longrightarrow> 0 < snd (advance_front cb p d)"
    "cb_rel cb (fst p) \<le> cb_rel cb (fst (advance_front cb p d))" by simp_all
qed

lemma advance_back_spec:
  assumes "cb_shape cb" "cb_place cb p" "d \<le> cb_lin cb p" "0 < d"
  shows "cb_place cb (advance_back cb p d)" "cb_lin cb (advance_back cb p d) = cb_lin cb p - d"
    "snd (advance_back cb p d) < buf_size cb"
proof -
  obtain i off where p: "p = (i, off)" by fastforce
  let ?b = "buf_size cb" and ?n = "buf_used cb"
  have n: "0 < ?n"
    using assms by (cases "?n = 0") (auto simp: cb_lin_def cb_place_def cb_rel_def yf_cb_diff_r_def cb_shape_def)
  have i: "i < ?n" "off \<le> ?b" using cb_placeD [OF assms(2)] n p by auto
  have "cb_place cb (advance_back cb p d) \<and> cb_lin cb (advance_back cb p d) = cb_lin cb p - d \<and>
    snd (advance_back cb p d) < ?b"
  proof (cases "d \<le> off")
    case True
    with assms p i n show ?thesis by (auto simp: advance_back_def cb_place_def cb_lin_def)
  next
    case False
    obtain k r where x: "d - off = k * ?b + r" "0 < r" "r \<le> ?b"
        "(d - off + (?b - 1)) div ?b = k + 1" "yf_cb_rest_mod (d - off) ?b = r"
      using blocks_split [OF cb_shapeD(1) [OF assms(1)], of "d - off"] False by auto
    have "k * ?b + r \<le> cb_rel cb i * ?b" using assms(3) x(1) p by (simp add: cb_lin_def)
    with x(2) have le: "k + 1 \<le> cb_rel cb i" using block_room by (metis Suc_eq_plus1 Suc_leI)
    note sub = cb_rel_sub [OF assms(1) i(1) this]
    have adv: "advance_back cb p d = (yf_cb_sub i (k + 1) ?n, ?b - r)"
      using False x(4,5) p by (simp add: advance_back_def Let_def cb_bsize [OF assms(1)] not_le)
    have "(cb_rel cb i - (k + 1)) * ?b = cb_rel cb i * ?b - (k + 1) * ?b" by (rule diff_mult_distrib)
    moreover have "(k + 1) * ?b \<le> cb_rel cb i * ?b" using le by (rule mult_le_mono1)
    ultimately have "(cb_rel cb i - (k + 1)) * ?b + (?b - r) = cb_rel cb i * ?b + off - d"
      using x(1,3) False by simp
    with sub x(2,3) n p show ?thesis unfolding adv by (auto simp: cb_place_def cb_lin_def)
  qed
  then show "cb_place cb (advance_back cb p d)" "cb_lin cb (advance_back cb p d) = cb_lin cb p - d"
    "snd (advance_back cb p d) < ?b" by simp_all
qed

subsection \<open>Sizes\<close>

lemma w_size:
  assumes "cb_shape cb" "cb_place cb p"
  shows "int (yf_cb_diff_w (head_index cb) (fst p) (buf_used cb) * 2 ^ buf_size_pow cb) - int (snd p) =
    int (buf_used cb * buf_size cb) - int (cb_lin cb p)"
proof (cases "buf_used cb = 0")
  case True
  with assms show ?thesis
    by (auto simp: yf_cb_diff_w_def cb_place_def cb_shape_def cb_lin_def cb_rel_def yf_cb_diff_r_def)
next
  case False
  then have i: "fst p < buf_used cb" using cb_placeD(2) [OF assms(2)] by simp
  have "yf_cb_diff_w (head_index cb) (fst p) (buf_used cb) + cb_rel cb (fst p) = buf_used cb"
    using cb_head_less [OF assms(1) i] i by (auto simp: yf_cb_diff_w_def cb_rel_def yf_cb_diff_r_def)
  then have "buf_used cb * buf_size cb =
      yf_cb_diff_w (head_index cb) (fst p) (buf_used cb) * buf_size cb + cb_rel cb (fst p) * buf_size cb"
    by (metis add_mult_distrib)
  then show ?thesis using assms(1) by (simp add: cb_lin_def cb_shape_def)
qed

lemma free_wsize:
  assumes "cb_shape cb" "cb_place cb (cb_cursor cb)"
  shows "yf_circular_buf_free_wsize cb = int (buf_used cb * buf_size cb) - int (cb_lin cb (cb_cursor cb))"
  using w_size [OF assms] by (simp add: yf_circular_buf_free_wsize_def)

lemma tailed_wsize:
  assumes "cb_shape cb" "cb_place cb (cb_tail cb)"
  shows "yf_circular_buf_tailed_wsize cb = int (buf_used cb * buf_size cb) - int (cb_lin cb (cb_tail cb))"
  using w_size [OF assms] by (simp add: yf_circular_buf_tailed_wsize_def)

lemma fsize_lin: "cb_shape cb \<Longrightarrow> yf_cb_fsize cb = int (cb_lin cb (cb_tail cb)) - int (head_offset cb)"
  by (simp add: yf_cb_fsize_def cb_lin_def cb_rel_def cb_shape_def)

lemma ftell_lin: "cb_shape cb \<Longrightarrow> yf_cb_ftell cb = int (cb_lin cb (cb_cursor cb)) - int (head_offset cb)"
  by (simp add: yf_cb_ftell_def cb_lin_def cb_rel_def cb_shape_def)

lemma rest_rsize:
  assumes "cb_inv cb"
  shows "yf_circular_buf_rest_rsize cb = int (cb_lin cb (cb_tail cb)) - int (cb_lin cb (cb_cursor cb))"
proof (cases "buf_used cb = 0")
  case True
  with assms show ?thesis
    by (auto simp: cb_inv_def cb_place_def yf_circular_buf_rest_rsize_def cb_lin_def yf_cb_diff_r_def)
next
  case False
  then have i: "cursor_index cb < buf_used cb" "tail_index cb < buf_used cb" "head_index cb < buf_used cb"
    and le: "cb_rel cb (cursor_index cb) \<le> cb_rel cb (tail_index cb)" and p: "2 ^ buf_size_pow cb = buf_size cb"
    using assms by (auto simp: cb_inv_def cb_shape_def cb_place_def split: if_splits)
  have "yf_cb_diff_r (tail_index cb) (cursor_index cb) (buf_used cb) + cb_rel cb (cursor_index cb) =
      cb_rel cb (tail_index cb)"
    using i le by (auto simp: cb_rel_def yf_cb_diff_r_def split: if_splits)
  then have "cb_rel cb (tail_index cb) * buf_size cb =
      yf_cb_diff_r (tail_index cb) (cursor_index cb) (buf_used cb) * buf_size cb + cb_rel cb (cursor_index cb) * buf_size cb"
    by (metis add_mult_distrib)
  with p show ?thesis by (simp add: yf_circular_buf_rest_rsize_def cb_lin_def)
qed

lemma length_cb_data:
  assumes "cb_shape cb"
  shows "length (cb_data cb) = buf_used cb * buf_size cb"
proof -
  have "\<forall>x \<in> set (cb_blocks cb). length x = buf_size cb"
    using assms by (auto simp: cb_blocks_def cb_shape_def dest: in_set_takeD in_set_dropD)
  moreover have "length (cb_blocks cb) = buf_used cb"
    using assms cb_shapeD(3,4) [OF assms] by (cases "buf_used cb = 0") (auto simp: cb_blocks_def)
  moreover have "length (concat xs) = length xs * b" if "\<forall>x \<in> set xs. length x = b" for xs :: "u8 list list" and b
    using that by (induction xs) auto
  ultimately show ?thesis unfolding cb_data_def by metis
qed

subsection \<open>The bytes of the file\<close>

text \<open>What the buffer stands for: the bytes between head and tail, and a position in them.\<close>

definition cb_file :: "circular_buf \<Rightarrow> u8 list" where
  "cb_file cb = take (cb_lin cb (cb_tail cb) - head_offset cb) (drop (head_offset cb) (cb_data cb))"

definition cb_pos :: "circular_buf \<Rightarrow> nat" where
  "cb_pos cb = cb_lin cb (cb_cursor cb) - head_offset cb"

definition overwrite :: "'a list \<Rightarrow> nat \<Rightarrow> 'a list \<Rightarrow> 'a list" where
  "overwrite xs p ys = take p xs @ ys @ drop (p + length ys) xs"

lemma overwrite_Nil [simp]: "overwrite xs p [] = xs"
  by (simp add: overwrite_def)

lemma cb_invD:
  assumes "cb_inv cb"
  shows "cb_shape cb" "cb_place cb (cb_cursor cb)" "cb_place cb (cb_tail cb)"
    "head_offset cb \<le> cb_lin cb (cb_cursor cb)" "cb_lin cb (cb_cursor cb) \<le> cb_lin cb (cb_tail cb)"
    "cb_rel cb (cursor_index cb) \<le> cb_rel cb (tail_index cb)"
    "cb_lin cb (cb_tail cb) \<le> buf_used cb * buf_size cb"
  using assms cb_lin_le [of cb "cb_tail cb"] by (auto simp: cb_inv_def)

lemma length_cb_file: "cb_inv cb \<Longrightarrow> length (cb_file cb) = cb_lin cb (cb_tail cb) - head_offset cb"
  using length_cb_data [OF cb_invD(1)] cb_invD(7) [of cb] by (auto simp: cb_file_def)

lemma cb_pos_le: "cb_inv cb \<Longrightarrow> cb_pos cb \<le> length (cb_file cb)"
  using cb_invD(5) by (simp add: length_cb_file cb_pos_def diff_le_mono)

lemma fsize_file: "cb_inv cb \<Longrightarrow> yf_cb_fsize cb = int (length (cb_file cb))"
  using cb_invD(1,4,5) [of cb] by (simp add: fsize_lin length_cb_file)

lemma ftell_pos: "cb_inv cb \<Longrightarrow> yf_cb_ftell cb = int (cb_pos cb)"
  using cb_invD(1,4) [of cb] by (simp add: ftell_lin cb_pos_def)

lemma cb_data_nth_block:
  assumes "cb_shape cb" "i < buf_used cb" "off + k \<le> buf_size cb"
  shows "take k (drop (cb_rel cb i * buf_size cb + off) (cb_data cb)) = take k (drop off (bufs cb ! i))"
proof -
  have blk: "take k (drop (r * b + off) (concat xs)) = take k (drop off (xs ! r))"
    if "\<forall>x \<in> set xs. length x = b" "r < length xs" "off + k \<le> b" for xs :: "u8 list list" and b r
    using that
  proof (induction xs arbitrary: r)
    case (Cons x xs)
    then show ?case by (cases r) (auto simp: add.assoc)
  qed simp
  have "cb_blocks cb ! cb_rel cb i = bufs cb ! i"
    using assms(2) cb_head_less [OF assms(1,2)]
    by (auto simp: cb_blocks_def cb_rel_def yf_cb_diff_r_def nth_append)
  moreover have "\<forall>x \<in> set (cb_blocks cb). length x = buf_size cb"
    using assms(1) by (auto simp: cb_blocks_def cb_shape_def dest: in_set_takeD in_set_dropD)
  moreover have "length (cb_blocks cb) = buf_used cb"
    using cb_head_less [OF assms(1,2)] by (simp add: cb_blocks_def)
  ultimately show ?thesis
    using blk [of "cb_blocks cb" "buf_size cb" "cb_rel cb i"] cb_rel_less [OF assms(1,2)] assms(3)
    by (simp add: cb_data_def)
qed

lemma overwrite_concat:
  assumes "\<forall>x \<in> set xs. length x = b" "r < length xs" "off + length ys \<le> b"
  shows "concat (xs[r := overwrite (xs ! r) off ys]) = overwrite (concat xs) (r * b + off) ys"
  using assms
proof (induction xs arbitrary: r)
  case (Cons x xs)
  then show ?case by (cases r) (auto simp: overwrite_def add.assoc)
qed simp

lemma put_blk_spec:
  assumes "cb_shape cb" "i < buf_used cb" "off + length bs \<le> buf_size cb"
  shows "\<exists>cb'. put_blk i off bs cb = Inr cb' \<and> cb' = cb\<lparr> bufs := bufs cb' \<rparr> \<and> buf_used cb' = buf_used cb \<and>
    cb_shape cb' \<and> cb_data cb' = overwrite (cb_data cb) (cb_rel cb i * buf_size cb + off) bs"
proof -
  have L: "length (bufs cb ! i) = buf_size cb" using assms(1,2) by (simp add: cb_shape_def)
  let ?x = "overwrite (bufs cb ! i) off bs"
  let ?cb = "cb\<lparr> bufs := (bufs cb)[i := ?x] \<rparr>"
  have "put_blk i off bs cb = Inr ?cb"
    using assms(2,3) L by (simp add: put_blk_def blk_def overwrite_def)
  moreover have "length ?x = buf_size cb" using assms(3) L by (simp add: overwrite_def)
  then have "cb_shape ?cb"
    using assms(1,2) set_update_subset_insert [of "bufs cb" i ?x] by (auto simp: cb_shape_def cb_place_def)
  moreover have "cb_data ?cb = overwrite (cb_data cb) (cb_rel cb i * buf_size cb + off) bs"
  proof -
    have h: "head_index cb < buf_used cb" by (rule cb_head_less [OF assms(1,2)])
    have "cb_blocks ?cb = (cb_blocks cb)[cb_rel cb i := ?x]"
      using assms(2) h
      by (auto simp: cb_blocks_def cb_rel_def yf_cb_diff_r_def list_update_append list_update_beyond drop_update_swap take_update_swap)
    moreover have "cb_blocks cb ! cb_rel cb i = bufs cb ! i"
      using assms(2) h by (auto simp: cb_blocks_def cb_rel_def yf_cb_diff_r_def nth_append)
    moreover have "\<forall>x \<in> set (cb_blocks cb). length x = buf_size cb"
      using assms(1) by (auto simp: cb_blocks_def cb_shape_def dest: in_set_takeD in_set_dropD)
    moreover have "length (cb_blocks cb) = buf_used cb" using h by (simp add: cb_blocks_def)
    ultimately show ?thesis
      using overwrite_concat [of "cb_blocks cb" "buf_size cb" "cb_rel cb i" off bs] cb_rel_less [OF assms(1,2)] assms(3)
      by (simp add: cb_data_def)
  qed
  ultimately show ?thesis by (intro exI [of _ ?cb]) simp
qed

subsection \<open>Whole blocks\<close>

declare read_blks.simps [simp del] write_blks.simps [simp del]

lemma overwrite_append:
  assumes "p + length (xs @ ys) \<le> length D"
  shows "overwrite (overwrite D p xs) (p + length xs) ys = overwrite D p (xs @ ys)"
  using assms by (cases xs) (auto simp: overwrite_def min_def add.commute add.left_commute)

lemma length_overwrite [simp]: "p + length ys \<le> length xs \<Longrightarrow> length (overwrite xs p ys) = length xs"
  by (simp add: overwrite_def)

lemma next_block:
  assumes "cb_shape cb" "i < buf_used cb" "(cb_rel cb i + 1) * buf_size cb < buf_used cb * buf_size cb"
  shows "yf_cb_increase i (buf_used cb) < buf_used cb"
    and "cb_rel cb (yf_cb_increase i (buf_used cb)) = cb_rel cb i + 1"
  using cb_rel_increase [OF assms(1,2)] assms(3) by (simp_all only: mult_less_cancel2)

lemma read_blks_spec:
  assumes "cb_shape cb" "i < buf_used cb" "0 < k" "cb_rel cb i * buf_size cb + k \<le> buf_used cb * buf_size cb"
  shows "\<exists>p. read_blks cb i k = Inr (take k (drop (cb_rel cb i * buf_size cb) (cb_data cb)), p) \<and>
    cb_place cb p \<and> 0 < snd p \<and> cb_lin cb p = cb_rel cb i * buf_size cb + k"
  using assms(2-4)
proof (induction k arbitrary: i rule: less_induct)
  case (less k)
  let ?b = "buf_size cb" and ?n = "buf_used cb"
  have b0: "0 < ?b" by (rule cb_shapeD(1) [OF assms(1)])
  have B: "take m (drop (cb_rel cb i * ?b) (cb_data cb)) = take m (bufs cb ! i)" if "m \<le> ?b" for m
    using cb_data_nth_block [OF assms(1) less.prems(1), of 0 m] that by simp
  show ?case
  proof (cases "k \<le> ?b")
    case True
    then have "read_blks cb i k = Inr (take k (bufs cb ! i), i, k)"
      using less.prems(1) by (simp add: read_blks.simps [of cb i k] blk_def)
    then show ?thesis
      using True less.prems B [OF True] by (intro exI [of _ "(i, k)"]) (auto simp: cb_place_def cb_lin_def)
  next
    case False
    let ?j = "yf_cb_increase i ?n"
    have j: "?j < ?n" "cb_rel cb ?j = cb_rel cb i + 1"
      using next_block [OF assms(1) less.prems(1)] False less.prems(3) by (simp_all add: add_mult_distrib add.commute add.left_commute)
    obtain p where p: "read_blks cb ?j (k - ?b) = Inr (take (k - ?b) (drop (cb_rel cb ?j * ?b) (cb_data cb)), p)"
        "cb_place cb p" "0 < snd p" "cb_lin cb p = cb_rel cb ?j * ?b + (k - ?b)"
      using less.IH [of "k - ?b" ?j] False b0 j less.prems(3) by (auto simp: add_mult_distrib add.commute add.left_commute)
    have "take k (drop (cb_rel cb i * ?b) (cb_data cb)) =
        take (?b + (k - ?b)) (drop (cb_rel cb i * ?b) (cb_data cb))" using False by simp
    also have "\<dots> = take ?b (bufs cb ! i) @ take (k - ?b) (drop (cb_rel cb ?j * ?b) (cb_data cb))"
      unfolding take_add by (simp add: B j(2) add_mult_distrib add.commute add.left_commute)
    finally have D: "take k (drop (cb_rel cb i * ?b) (cb_data cb)) =
      take ?b (bufs cb ! i) @ take (k - ?b) (drop (cb_rel cb ?j * ?b) (cb_data cb))" .
    have "read_blks cb i k = Inr (take k (drop (cb_rel cb i * ?b) (cb_data cb)), p)"
      using False b0 less.prems(1) p(1) unfolding D by (simp add: read_blks.simps [of cb i k] blk_def)
    with p False j(2) show ?thesis by (intro exI [of _ p]) (simp add: add_mult_distrib add.commute add.left_commute)
  qed
qed

lemma same_geom:
  assumes "cb' = cb\<lparr> bufs := bufs cb' \<rparr>" "buf_used cb' = buf_used cb"
  shows "cb_rel cb' i = cb_rel cb i" "cb_lin cb' p = cb_lin cb p" "cb_place cb' p = cb_place cb p"
    "buf_size cb' = buf_size cb" "head_offset cb' = head_offset cb" "tail_index cb' = tail_index cb"
    "tail_offset cb' = tail_offset cb" "cursor_index cb' = cursor_index cb" "cursor_offset cb' = cursor_offset cb"
  using assms(2) by (subst assms(1), simp add: cb_rel_def cb_lin_def cb_place_def)+

lemma write_blks_spec:
  assumes "cb_shape cb" "i < buf_used cb" "bs \<noteq> []"
    and "cb_rel cb i * buf_size cb + length bs \<le> buf_used cb * buf_size cb"
  shows "\<exists>cb' p. write_blks cb i bs = Inr (cb', p) \<and> cb' = cb\<lparr> bufs := bufs cb' \<rparr> \<and> buf_used cb' = buf_used cb \<and>
    cb_shape cb' \<and> cb_data cb' = overwrite (cb_data cb) (cb_rel cb i * buf_size cb) bs \<and>
    cb_place cb p \<and> 0 < snd p \<and> cb_lin cb p = cb_rel cb i * buf_size cb + length bs"
  using assms
proof (induction "length bs" arbitrary: cb i bs rule: less_induct)
  case less
  note S = less.prems(1) and i = less.prems(2)
  let ?b = "buf_size cb" and ?n = "buf_used cb"
  have b0: "0 < ?b" by (rule cb_shapeD(1) [OF S])
  show ?case
  proof (cases "length bs \<le> ?b")
    case True
    from put_blk_spec [OF S i, of 0 bs] True obtain cb' where P: "put_blk i 0 bs cb = Inr cb'"
      "cb' = cb\<lparr> bufs := bufs cb' \<rparr>" "buf_used cb' = ?n" "cb_shape cb'"
      "cb_data cb' = overwrite (cb_data cb) (cb_rel cb i * ?b) bs" by auto
    have "write_blks cb i bs = Inr (cb', i, length bs)"
      using True P(1) by (simp add: write_blks.simps [of cb i bs])
    then show ?thesis
      using True less.prems(2,3) P by (intro exI [of _ cb'] exI [of _ "(i, length bs)"]) (auto simp: cb_place_def cb_lin_def)
  next
    case False
    let ?j = "yf_cb_increase i ?n"
    have j: "?j < ?n" "cb_rel cb ?j = cb_rel cb i + 1"
      using next_block [OF S i] False less.prems(4) by (simp_all add: add_mult_distrib add.commute add.left_commute)
    from put_blk_spec [OF S i, of 0 "take ?b bs"] obtain c where P: "put_blk i 0 (take ?b bs) cb = Inr c"
      "c = cb\<lparr> bufs := bufs c \<rparr>" "buf_used c = ?n" "cb_shape c"
      "cb_data c = overwrite (cb_data cb) (cb_rel cb i * ?b) (take ?b bs)" by auto
    note G = same_geom [OF P(2,3)]
    have lt: "length (drop ?b bs) < length bs" using False b0 by simp
    have ne: "drop ?b bs \<noteq> []" using False by simp
    have le: "cb_rel c ?j * buf_size c + length (drop ?b bs) \<le> buf_used c * buf_size c"
      using less.prems(4) False j(2) P(3) G by (simp add: add_mult_distrib)
    obtain cb' p where R: "write_blks c ?j (drop ?b bs) = Inr (cb', p)" "cb' = c\<lparr> bufs := bufs cb' \<rparr>"
        "buf_used cb' = buf_used c" "cb_shape cb'"
        "cb_data cb' = overwrite (cb_data c) (cb_rel c ?j * ?b) (drop ?b bs)"
        "cb_place c p" "0 < snd p" "cb_lin c p = cb_rel c ?j * ?b + length (drop ?b bs)"
      using less.hyps [OF lt P(4) _ ne le] j(1) P(3) G by auto
    have len: "length (take ?b bs) = ?b" using False by simp
    have "cb_rel cb i * ?b + length (take ?b bs @ drop ?b bs) \<le> length (cb_data cb)"
      using less.prems(4) by (simp add: length_cb_data [OF S])
    from overwrite_append [OF this] have "cb_data cb' = overwrite (cb_data cb) (cb_rel cb i * ?b) bs"
      unfolding R(5) P(5) len using j(2) G(1) by (simp add: add_mult_distrib add.commute add.left_commute)
    moreover have "write_blks cb i bs = Inr (cb', p)"
      using False b0 P(1) R(1) by (simp add: write_blks.simps [of cb i bs])
    moreover have "cb' = cb\<lparr> bufs := bufs cb' \<rparr>" by (subst R(2), subst P(2)) simp
    ultimately show ?thesis
      using R(3,4,6-8) P(3) G j(2) False by (intro exI [of _ cb'] exI [of _ p]) (simp add: add_mult_distrib add.commute add.left_commute)
  qed
qed

subsection \<open>More room\<close>

text \<open>\<open>cb_grown m cb cb'\<close>: the same file with \<open>m\<close> more zeroed blocks after it.\<close>

definition cb_grown :: "nat \<Rightarrow> circular_buf \<Rightarrow> circular_buf \<Rightarrow> bool" where
  "cb_grown m cb cb' \<longleftrightarrow> cb_shape cb' \<and> buf_size cb' = buf_size cb \<and> buf_used cb' = buf_used cb + m \<and>
     head_offset cb' = head_offset cb \<and> cursor_offset cb' = cursor_offset cb \<and> tail_offset cb' = tail_offset cb \<and>
     cb_data cb' = cb_data cb @ replicate (m * buf_size cb) 0 \<and>
     cb_place cb' (cb_cursor cb') \<and> cb_place cb' (cb_tail cb') \<and>
     cb_rel cb' (cursor_index cb') = cb_rel cb (cursor_index cb) \<and>
     cb_rel cb' (tail_index cb') = cb_rel cb (tail_index cb)"

lemma cb_grown_trans: "cb_grown m a b \<Longrightarrow> cb_grown k b c \<Longrightarrow> cb_grown (m + k) a c"
  by (auto simp: cb_grown_def replicate_add add_mult_distrib)

lemma cb_grown_lin:
  assumes "cb_grown m cb cb'"
  shows "cb_lin cb' (cb_cursor cb') = cb_lin cb (cb_cursor cb)" "cb_lin cb' (cb_tail cb') = cb_lin cb (cb_tail cb)"
  using assms by (simp_all add: cb_grown_def cb_lin_def)

lemma cb_grown_inv:
  assumes "cb_inv cb" "cb_grown m cb cb'"
  shows "cb_inv cb'" "cb_file cb' = cb_file cb" "cb_pos cb' = cb_pos cb"
proof -
  note G = cb_grown_lin [OF assms(2)] and I = cb_invD [OF assms(1)]
  have h: "head_offset cb' = head_offset cb" using assms(2) by (simp add: cb_grown_def)
  show "cb_inv cb'" "cb_pos cb' = cb_pos cb"
    using assms G I by (auto simp: cb_inv_def cb_grown_def cb_pos_def)
  have "cb_lin cb (cb_tail cb) \<le> length (cb_data cb)" using I(7) by (simp add: length_cb_data [OF I(1)])
  then show "cb_file cb' = cb_file cb"
    using assms(2) I(4,5) unfolding cb_file_def h G(2) by (auto simp: cb_grown_def)
qed

lemma reoder_grown:
  assumes "cb_inv cb"
  shows "cb_grown 0 cb (cb_space_reoder cb)" "head_index (cb_space_reoder cb) = 0"
proof -
  note I = cb_invD [OF assms]
  show "head_index (cb_space_reoder cb) = 0" by (simp add: cb_space_reoder_def Let_def)
  show "cb_grown 0 cb (cb_space_reoder cb)"
  proof (cases "head_index cb = 0")
    case True
    then show ?thesis using I by (simp add: cb_grown_def cb_space_reoder_def)
  next
    case False
    then have h: "0 < buf_used cb" "head_index cb < buf_used cb" using cb_shapeD(3,4) [OF I(1)] by auto
    have rel: "yf_cb_sub i (head_index cb) (buf_used cb) = cb_rel cb i" for i
      using h(2) by (auto simp: yf_cb_sub_def cb_rel_def yf_cb_diff_r_def)
    have "cb_rel cb (cursor_index cb) < buf_used cb" "cb_rel cb (tail_index cb) < buf_used cb"
      using cb_rel_less [OF I(1)] cb_placeD(2) [OF I(2) h(1)] cb_placeD(2) [OF I(3) h(1)] by auto
    moreover have "set (drop (head_index cb) (bufs cb) @ take (head_index cb) (bufs cb)) \<subseteq> set (bufs cb)"
      using set_take_subset set_drop_subset by fastforce
    ultimately show ?thesis
      using False h I(1-3)
      by (auto simp: cb_grown_def cb_space_reoder_def Let_def rel cb_data_def cb_blocks_def cb_place_def
          cb_shape_def cb_rel_def yf_cb_diff_r_def)
  qed
qed

lemma alloc_bufs_eq:
  "alloc_bufs k cb = (k - min k (heap_room cb), cb\<lparr> heap_room := heap_room cb - min k (heap_room cb),
     bufs := bufs cb @ replicate (min k (heap_room cb)) (replicate (buf_size cb) 0) \<rparr>)"
proof (induction k arbitrary: cb)
  case (Suc k)
  show ?case
  proof (cases "heap_room cb")
    case 0
    then show ?thesis by simp
  next
    case (Suc r)
    then show ?thesis by (simp add: Suc.IH)
  qed
qed simp

lemma alloc_grown:
  assumes "cb_inv cb" "head_index cb = 0" "buf_used cb + m \<le> YF_CIRCULAR_BUF_MAX_NUM"
  shows "cb_grown m cb (cb\<lparr> heap_room := r, bufs := bufs cb @ replicate m (replicate (buf_size cb) 0) \<rparr>)"
proof -
  note I = cb_invD [OF assms(1)]
  have "concat (replicate m (replicate (buf_size cb) (0 :: u8))) = replicate (m * buf_size cb) 0"
    by (induction m) (auto simp: replicate_add)
  then show ?thesis
    using I(1-3) assms(2,3)
    by (auto simp: cb_grown_def cb_shape_def cb_place_def cb_data_def cb_blocks_def cb_rel_def yf_cb_diff_r_def
        split: if_splits)
qed

text \<open>The bytes that can still be written from the cursor on: the blocks there are and those that can be got.\<close>

definition cb_cap :: "circular_buf \<Rightarrow> nat" where
  "cb_cap cb = min YF_CIRCULAR_BUF_MAX_NUM (buf_used cb + heap_room cb) * buf_size cb"

definition cb_avail :: "circular_buf \<Rightarrow> nat" where
  "cb_avail cb = cb_cap cb - cb_lin cb (cb_cursor cb)"

lemma cb_cap_set [simp]:
  "cb_cap (set_cursor p cb) = cb_cap cb" "cb_cap (set_tail p cb) = cb_cap cb" "cb_cap (set_head p cb) = cb_cap cb"
  by (simp_all add: cb_cap_def)

lemma cb_used_cap: "cb_shape cb \<Longrightarrow> buf_used cb * buf_size cb \<le> cb_cap cb"
  unfolding cb_cap_def by (intro mult_le_mono1) (simp add: cb_shape_def)

lemma cb_grown_avail:
  assumes "cb_grown m cb cb'" "buf_used cb' + heap_room cb' = buf_used cb + heap_room cb"
  shows "cb_avail cb' = cb_avail cb"
proof -
  have "buf_size cb' = buf_size cb" using assms(1) by (simp add: cb_grown_def)
  then show ?thesis unfolding cb_avail_def cb_cap_def assms(2) cb_grown_lin(1) [OF assms(1)] by simp
qed

lemma reoder_same [simp]:
  "heap_room (cb_space_reoder cb) = heap_room cb" "buf_size_pow (cb_space_reoder cb) = buf_size_pow cb"
  by (simp_all add: cb_space_reoder_def Let_def)

lemma reoder_if: "(if head_index cb \<noteq> 0 then cb_space_reoder cb else cb) = cb_space_reoder cb"
  by (simp add: cb_space_reoder_def Let_def)

lemma enlarge_spec:
  assumes "cb_inv cb" "yf_cb_space_enlarge (int k) cb = (f, cb')"
  shows "\<exists>m. cb_grown m cb cb' \<and> buf_used cb' + heap_room cb' = buf_used cb + heap_room cb" (is ?A)
    and "f = yf_circular_buf_free_wsize cb'" (is ?B)
    and "min (int k) f = int (min k (cb_avail cb))" (is ?C)
proof -
  note I = cb_invD [OF assms(1)] and free = free_wsize [OF cb_invD(1,2) [OF assms(1)]]
  let ?n = "buf_used cb" and ?b = "buf_size cb" and ?c = "cb_lin cb (cb_cursor cb)"
  have n: "?n \<le> YF_CIRCULAR_BUF_MAX_NUM" and c: "?c \<le> ?n * ?b"
    using I cb_lin_le [OF I(1,2)] by (auto simp: cb_shape_def)
  have fr: "yf_circular_buf_free_wsize cb = int (?n * ?b - ?c)" using free c by (simp add: of_nat_diff)
  note mono = cb_used_cap [OF I(1)]
  have "?A \<and> ?B \<and> ?C"
  proof (cases "?n * ?b - ?c < k \<and> ?n < YF_CIRCULAR_BUF_MAX_NUM")
    case False
    then have e: "f = int (?n * ?b - ?c)" "cb' = cb" using assms(2) fr by (auto simp: yf_cb_space_enlarge_def Let_def)
    have "cb_grown 0 cb cb" using I by (simp add: cb_grown_def)
    moreover have "min k (?n * ?b - ?c) = min k (cb_avail cb)"
    proof (cases "?n < YF_CIRCULAR_BUF_MAX_NUM")
      case True
      with False have "k \<le> ?n * ?b - ?c" by simp
      moreover have "?n * ?b - ?c \<le> cb_avail cb" unfolding cb_avail_def by (rule diff_le_mono [OF mono])
      ultimately show ?thesis by simp
    next
      case False
      with n have "?n = YF_CIRCULAR_BUF_MAX_NUM" by simp
      then show ?thesis by (simp add: cb_avail_def cb_cap_def)
    qed
    ultimately show ?thesis using e fr by (metis of_nat_min)
  next
    case True
    let ?x = "k - (?n * ?b - ?c)" and ?M = "min (YF_CIRCULAR_BUF_MAX_NUM - ?n) (heap_room cb)"
    define wb where "wb = (?x + (?b - 1)) div ?b"
    define m where "m = min (min wb (YF_CIRCULAR_BUF_MAX_NUM - ?n)) (heap_room cb)"
    let ?r = "cb_space_reoder cb"
    note R = reoder_grown [OF assms(1)]
    have used: "buf_used ?r = ?n" "buf_size ?r = ?b" and Rs: "cb_shape ?r" using R(1) by (simp_all add: cb_grown_def)
    have nx: "nat (int k - int (?n * ?b - ?c)) = ?x" by (simp flip: of_nat_diff)
    have e: "f = int (?n * ?b - ?c) + int (m * ?b)"
      "cb' = ?r\<lparr> heap_room := heap_room cb - m, bufs := bufs ?r @ replicate m (replicate (buf_size ?r) 0) \<rparr>"
    proof -
      let ?w = "min wb (YF_CIRCULAR_BUF_MAX_NUM - ?n)"
      have cond: "int (?n * ?b - ?c) < int k \<and> ?n < YF_CIRCULAR_BUF_MAX_NUM" using True by simp
      let ?c' = "?r\<lparr> heap_room := heap_room cb - m, bufs := bufs ?r @ replicate m (replicate (buf_size ?r) 0) \<rparr>"
      have A: "alloc_bufs ?w ?r = (?w - m, ?c')" by (simp only: alloc_bufs_eq reoder_same m_def)
      have p: "2 ^ buf_size_pow (?r\<lparr> heap_room := r, bufs := bs \<rparr>) = ?b" for r bs using cb_shapeD(2) [OF I(1)] by simp
      have m: "?w - (?w - m) = m" unfolding m_def by (rule diff_diff_cancel) (rule min.cobounded1)
      have "yf_cb_space_enlarge (int k) cb = (int (?n * ?b - ?c) + int (m * ?b), ?c')"
        by (simp only: yf_cb_space_enlarge_def Let_def reoder_if fr cond if_True simp_thms cb_bsize [OF Rs] used nx
            wb_def [symmetric] A prod.case p m)
      with assms(2) show "f = int (?n * ?b - ?c) + int (m * ?b)" "cb' = ?c'" by (simp_all only: prod.inject)
    qed
    have grown: "cb_grown (0 + m) cb cb'"
      unfolding e(2)
      by (rule cb_grown_trans [OF R(1)], rule alloc_grown [OF cb_grown_inv(1) [OF assms(1) R(1)] R(2)])
        (use True in \<open>auto simp: used m_def\<close>)
    have inv: "cb_inv cb'" by (rule cb_grown_inv(1) [OF assms(1) grown])
    have used': "buf_used cb' = ?n + m" "buf_size cb' = ?b" using grown by (auto simp: cb_grown_def)
    have B: ?B
      using free_wsize [OF cb_invD(1,2) [OF inv]] e(1) c cb_grown_lin(1) [OF grown] used'
      by (simp add: of_nat_diff algebra_simps)
    have av: "cb_avail cb = ?n * ?b - ?c + ?M * ?b"
    proof -
      have "min YF_CIRCULAR_BUF_MAX_NUM (?n + heap_room cb) = ?n + ?M" using n by simp
      then show ?thesis using c by (simp add: cb_avail_def cb_cap_def add_mult_distrib)
    qed
    have wb: "?x \<le> wb * ?b"
      using align_up_ge [OF cb_shapeD(1) [OF I(1)], of ?x] by (simp only: align_up_def wb_def)
    have "min k (?n * ?b - ?c + m * ?b) = min k (cb_avail cb)"
    proof (cases "wb \<le> ?M")
      case True
      then have "m = wb" "wb * ?b \<le> ?M * ?b" by (simp_all add: m_def)
      then have "k \<le> ?n * ?b - ?c + m * ?b" and le: "m * ?b \<le> ?M * ?b" using wb by simp_all
      moreover have "?n * ?b - ?c + m * ?b \<le> cb_avail cb" unfolding av by (rule add_left_mono [OF le])
      ultimately show ?thesis by simp
    next
      case False
      then have "m = ?M" by (auto simp: m_def)
      then show ?thesis by (simp only: av)
    qed
    then have C: ?C unfolding e(1) by (metis of_nat_add of_nat_min)
    have "buf_used cb' + heap_room cb' = ?n + heap_room cb"
      using used'(1) by (simp add: e(2) m_def)
    with grown B C show ?thesis by auto
  qed
  then show ?A ?B ?C by blast+
qed

lemma write_tail_spec:
  assumes "cb_inv cb" "cb_lin cb (cb_cursor cb) + k \<le> buf_used cb * buf_size cb"
  defines "cb' \<equiv> cb_space_write_tail (yf_circular_buf_free_wsize cb) (int k) cb"
  shows "\<exists>q. cb' = set_tail q cb" "cb_inv cb'"
    "cb_lin cb' (cb_tail cb') = max (cb_lin cb (cb_tail cb)) (cb_lin cb (cb_cursor cb) + k)"
proof -
  note I = cb_invD [OF assms(1)]
  let ?c = "cb_lin cb (cb_cursor cb)" and ?t = "cb_lin cb (cb_tail cb)"
  have w: "int k - (yf_circular_buf_free_wsize cb - yf_circular_buf_tailed_wsize cb) = int (?c + k) - int ?t"
    by (simp add: free_wsize [OF I(1,2)] tailed_wsize [OF I(1,3)])
  have "(\<exists>q. cb' = set_tail q cb) \<and> cb_inv cb' \<and> cb_lin cb' (cb_tail cb') = max ?t (?c + k)"
  proof (cases "?t < ?c + k")
    case True
    then have "?t + (?c + k - ?t) \<le> buf_used cb * buf_size cb" using assms(2) by simp
    note A = advance_front_spec [OF I(1,3) this]
    have d: "0 < int (?c + k) - int ?t" "nat (int (?c + k) - int ?t) = ?c + k - ?t" using True by linarith+
    have cb': "cb' = set_tail (advance_front cb (cb_tail cb) (?c + k - ?t)) cb"
      unfolding cb'_def cb_space_write_tail_def w Let_def by (simp only: d if_True)
    have "cb_inv cb'" unfolding cb' using A True I by (simp add: cb_inv_def)
    moreover have "cb_lin cb' (cb_tail cb') = max ?t (?c + k)" unfolding cb' using A(2) True by simp
    ultimately show ?thesis using cb' by blast
  next
    case False
    then have "cb' = cb" unfolding cb'_def cb_space_write_tail_def w Let_def by simp
    moreover have "cb = set_tail (cb_tail cb) cb" by (simp add: set_tail_def)
    ultimately show ?thesis using False assms(1) by (metis max.absorb1 not_less)
  qed
  then show "\<exists>q. cb' = set_tail q cb" "cb_inv cb'" "cb_lin cb' (cb_tail cb') = max ?t (?c + k)" by simp_all
qed

lemma preprocess_spec:
  assumes "cb_shape cb" "cb_place cb p" "cb_lin cb p < buf_used cb * buf_size cb"
  obtains i off where "preprocess_cursor cb p = (i, off)" "i < buf_used cb" "off < buf_size cb"
    "cb_lin cb p = cb_rel cb i * buf_size cb + off" "cb_rel cb (fst p) \<le> cb_rel cb i"
proof -
  obtain i off where p: "p = (i, off)" by fastforce
  have n: "0 < buf_used cb" using assms(3) by (cases "buf_used cb = 0") auto
  have i: "i < buf_used cb" "off \<le> buf_size cb" using cb_placeD [OF assms(2)] n p by auto
  show thesis
  proof (cases "off = buf_size cb")
    case True
    have "(cb_rel cb i + 1) * buf_size cb < buf_used cb * buf_size cb"
      using assms(3) True p by (simp add: cb_lin_def add.commute)
    from next_block [OF assms(1) i(1) this] True p cb_shapeD(1) [OF assms(1)] show thesis
      by (intro that [of "yf_cb_increase i (buf_used cb)" 0]) (simp_all add: preprocess_cursor_def cb_lin_def add.commute)
  next
    case False
    with i p show thesis by (intro that [of i off]) (auto simp: preprocess_cursor_def cb_lin_def)
  qed
qed

subsection \<open>The operations of the file\<close>

lemma take_drop_file:
  assumes "cb_inv cb" "cb_pos cb + k \<le> length (cb_file cb)"
  shows "take k (drop (cb_pos cb) (cb_file cb)) = take k (drop (cb_lin cb (cb_cursor cb)) (cb_data cb))"
proof -
  note I = cb_invD [OF assms(1)]
  have "k \<le> cb_lin cb (cb_tail cb) - cb_lin cb (cb_cursor cb)"
    using assms(2) I(4,5) by (simp add: length_cb_file [OF assms(1)] cb_pos_def)
  with I(4,5) show ?thesis by (simp add: cb_file_def cb_pos_def drop_take min_def)
qed

lemma fread_spec:
  assumes "cb_inv cb" "0 < bytes"
  defines "k \<equiv> min (length (cb_file cb) - cb_pos cb) (nat bytes)"
  shows "\<exists>cb'. yf_cb_fread bytes peek cb = Inr (int k, take k (drop (cb_pos cb) (cb_file cb)), cb') \<and>
    cb_inv cb' \<and> cb_file cb' = cb_file cb \<and> cb_avail cb' + cb_pos cb' = cb_avail cb + cb_pos cb \<and>
    cb_pos cb' = (if peek then cb_pos cb else cb_pos cb + k)"
proof -
  note I = cb_invD [OF assms(1)]
  let ?c = "cb_lin cb (cb_cursor cb)" and ?t = "cb_lin cb (cb_tail cb)" and ?b = "buf_size cb" and ?n = "buf_used cb"
  have min: "min (yf_circular_buf_rest_rsize cb) bytes = int k"
    unfolding rest_rsize [OF assms(1)] k_def
    using assms(2) I(4,5) by (simp add: length_cb_file [OF assms(1)] cb_pos_def)
  have moved: ?thesis if e: "yf_cb_fread bytes peek cb = Inr (int k, take k (drop ?c (cb_data cb)),
      if peek then cb else set_cursor p cb)"
    and p: "cb_place cb p" "cb_lin cb p = ?c + k" "0 < snd p" and k: "?c + k \<le> ?t" for p
  proof -
    have "cb_pos cb + k \<le> length (cb_file cb)"
      using k I(4) by (simp add: length_cb_file [OF assms(1)] cb_pos_def)
    note D = take_drop_file [OF assms(1) this]
    have "cb_rel cb (fst p) \<le> cb_rel cb (tail_index cb)"
      using cb_rel_mono [of cb p "cb_tail cb"] k p(2,3) cb_placeD(1) [OF I(3)] by simp
    then show ?thesis using assms(1) I k p cb_used_cap [OF I(1)] unfolding e D
      by (auto simp: cb_inv_def cb_pos_def cb_file_def cb_avail_def)
  qed
  show ?thesis
  proof (cases "k = 0")
    case True
    then have "yf_cb_fread bytes peek cb = Inr (0, [], cb)" by (simp add: yf_cb_fread_def min)
    with True assms(1) show ?thesis by (intro exI [of _ cb]) simp
  next
    case False
    have k: "?c + k \<le> ?t"
      using False I(4,5) by (simp add: k_def length_cb_file [OF assms(1)] cb_pos_def min_def split: if_splits)
    with False I(7) have "?c < ?n * ?b" by linarith
    from preprocess_spec [OF I(1,2) this] obtain i off where P: "preprocess_cursor cb (cb_cursor cb) = (i, off)" "i < ?n" "off < ?b"
      "?c = cb_rel cb i * ?b + off" by metis
    have blk: "blk cb i = Inr (bufs cb ! i)" using P(2) by (simp add: blk_def)
    have D: "take m (drop ?c (cb_data cb)) = take m (drop off (bufs cb ! i))" if "off + m \<le> ?b" for m
      unfolding P(4) by (rule cb_data_nth_block [OF I(1) P(2) that])
    show ?thesis
    proof (cases "k \<le> ?b - off")
      case True
      have e: "yf_cb_fread bytes peek cb = Inr (int k, take k (drop ?c (cb_data cb)), if peek then cb else set_cursor (i, off + k) cb)"
        using False True P(3) D [of k] by (simp add: yf_cb_fread_def min P(1) blk)
      show ?thesis
        by (rule moved [OF e _ _ _ k]) (use True False P in \<open>auto simp: cb_place_def cb_lin_def\<close>)
    next
      case nf: False
      let ?j = "yf_cb_increase i ?n" and ?m = "k - (?b - off)"
      have "(cb_rel cb i + 1) * ?b < ?n * ?b"
        using nf k I(7) P(3,4) by (simp add: add_mult_distrib)
      note j = next_block [OF I(1) P(2) this]
      have "0 < ?m" "cb_rel cb ?j * ?b + ?m \<le> ?n * ?b"
        using nf k I(7) P(3,4) j(2) by (simp_all add: add_mult_distrib)
      from read_blks_spec [OF I(1) j(1) this] obtain p where
        R: "read_blks cb ?j ?m = Inr (take ?m (drop (cb_rel cb ?j * ?b) (cb_data cb)), p)"
          "cb_place cb p" "0 < snd p" "cb_lin cb p = cb_rel cb ?j * ?b + ?m" by blast
      have "take k (drop ?c (cb_data cb)) = take ((?b - off) + ?m) (drop ?c (cb_data cb))" using nf by simp
      also have "\<dots> = take (?b - off) (drop off (bufs cb ! i)) @ take ?m (drop (cb_rel cb ?j * ?b) (cb_data cb))"
        unfolding take_add using P(3,4) j(2) D [of "?b - off"] by (simp add: add_mult_distrib add.commute)
      finally have e: "yf_cb_fread bytes peek cb = Inr (int k, take k (drop ?c (cb_data cb)), if peek then cb else set_cursor p cb)"
        using False nf R(1) by (simp add: yf_cb_fread_def min P(1) blk Let_def)
      show ?thesis
        by (rule moved [OF e R(2) _ R(3) k]) (use R(4) j(2) nf P(3,4) in \<open>simp add: add_mult_distrib\<close>)
    qed
  qed
qed

lemma take_mid: "length A + length B \<le> n \<Longrightarrow> take n (A @ B @ R) = A @ B @ take (n - (length A + length B)) R"
  by simp

lemma overwrite_part:
  assumes "h \<le> c" "c \<le> t" "t \<le> length D" "c + length bs \<le> length D"
  shows "take (max t (c + length bs) - h) (drop h (overwrite D c bs)) = overwrite (take (t - h) (drop h D)) (c - h) bs"
proof -
  let ?A = "take (c - h) (drop h D)" and ?l = "length bs"
  have D: "drop h (overwrite D c bs) = ?A @ bs @ drop (c + ?l) D"
    using assms by (simp add: overwrite_def drop_take)
  have A: "length ?A = c - h" using assms by simp
  have n: "length ?A + ?l \<le> max t (c + ?l) - h" "max t (c + ?l) - h - (length ?A + ?l) = t - (c + ?l)"
    unfolding A using assms(1) by linarith+
  have "take (c - h) (take (t - h) (drop h D)) = ?A" using assms by simp
  moreover have "drop (c - h + ?l) (take (t - h) (drop h D)) = take (t - (c + ?l)) (drop (c + ?l) D)"
    using assms by (simp add: drop_take)
  ultimately show ?thesis unfolding D take_mid [OF n(1)] n(2) by (simp only: overwrite_def)
qed

lemma file_overwrite:
  assumes "cb_inv cb" "cb_inv cb'" "head_offset cb' = head_offset cb"
    and "cb_lin cb' (cb_tail cb') = max (cb_lin cb (cb_tail cb)) (cb_lin cb (cb_cursor cb) + length bs)"
    and "cb_data cb' = overwrite (cb_data cb) (cb_lin cb (cb_cursor cb)) bs"
    and "cb_lin cb (cb_cursor cb) + length bs \<le> length (cb_data cb)"
  shows "cb_file cb' = overwrite (cb_file cb) (cb_pos cb) bs"
proof -
  note I = cb_invD [OF assms(1)]
  obtain h c t where hct: "h = head_offset cb" "c = cb_lin cb (cb_cursor cb)" "t = cb_lin cb (cb_tail cb)" by simp
  have le: "h \<le> c" "c \<le> t" "t \<le> length (cb_data cb)" "c + length bs \<le> length (cb_data cb)"
    using I assms(6) by (simp_all add: hct length_cb_data [OF I(1)])
  from overwrite_part [OF le] show ?thesis
    by (simp only: cb_file_def cb_pos_def assms(3-5) hct)
qed

lemma write_at:
  assumes "cb_inv cb" "bs \<noteq> []" "cb_lin cb (cb_cursor cb) + length bs \<le> buf_used cb * buf_size cb"
    and "cb1 = cb_space_write_tail (yf_circular_buf_free_wsize cb) (int (length bs)) cb"
    and "preprocess_cursor cb1 (cb_cursor cb) = (i, off)"
  shows "\<exists>cb'. (if length bs \<le> buf_size cb1 - off
      then run_bind (put_blk i off bs cb1) (\<lambda>cb. Inr (set_cursor (i, off + length bs) cb))
      else run_bind (put_blk i off (take (buf_size cb1 - off) bs) cb1) (\<lambda>cb.
           run_bind (write_blks cb (yf_cb_increase i (buf_used cb)) (drop (buf_size cb1 - off) bs)) (\<lambda>(cb, p).
           Inr (set_cursor p cb)))) = Inr cb' \<and>
    cb_inv cb' \<and> cb_file cb' = overwrite (cb_file cb) (cb_pos cb) bs \<and> cb_pos cb' = cb_pos cb + length bs \<and>
    cb_avail cb' = cb_avail cb - length bs"
proof -
  note I = cb_invD [OF assms(1)] and W = write_tail_spec [OF assms(1,3), folded assms(4)]
  let ?c = "cb_lin cb (cb_cursor cb)" and ?b = "buf_size cb" and ?n = "buf_used cb" and ?l = "length bs"
  obtain q where q: "cb1 = set_tail q cb" using W(1) by blast
  note I1 = cb_invD [OF W(2)]
  have l: "0 < ?l" using assms(2) by simp
  have c1: "cb_lin cb1 (cb_cursor cb1) = ?c" "cb_cursor cb1 = cb_cursor cb" "cb_data cb1 = cb_data cb"
    "buf_size cb1 = ?b" "buf_used cb1 = ?n" "head_offset cb1 = head_offset cb" by (simp_all add: q)
  have "?c < ?n * ?b" using assms(3) l by linarith
  then have "cb_lin cb1 (cb_cursor cb) < buf_used cb1 * buf_size cb1" by (simp add: q)
  from preprocess_spec [OF I1(1) _ this] I1(2) c1(2) assms(5) have P: "i < ?n" "off < ?b" "?c = cb_rel cb i * ?b + off"
    by (auto simp: q)
  have D: "?c + ?l \<le> length (cb_data cb)" using assms(3) by (simp add: length_cb_data [OF I(1)])
  have fin: "cb_inv (set_cursor p c) \<and> cb_file (set_cursor p c) = overwrite (cb_file cb) (cb_pos cb) bs \<and>
      cb_pos (set_cursor p c) = cb_pos cb + ?l \<and> cb_avail (set_cursor p c) = cb_avail cb - ?l"
    if c: "c = cb1\<lparr> bufs := bufs c \<rparr>" "buf_used c = ?n" "cb_shape c" "cb_data c = overwrite (cb_data cb) ?c bs"
      and p: "cb_place cb p" "cb_lin cb p = ?c + ?l" "0 < snd p" for c p
  proof -
    note G = same_geom [OF c(1), unfolded c1(5), OF c(2)]
    have hr: "heap_room c = heap_room cb" by (subst c(1)) (simp add: q)
    have lin: "cb_lin c x = cb_lin cb x" "cb_place c x = cb_place cb x" "cb_rel c (fst x) = cb_rel cb (fst x)" for x
      by (simp_all add: G q)
    have t: "cb_lin cb (cb_tail cb1) = max (cb_lin cb (cb_tail cb)) (?c + ?l)" using W(3) by (simp add: q)
    have tp: "cb_place cb (cb_tail cb1)" using I1(3) by (simp add: q)
    have "cb_rel cb (fst p) \<le> cb_rel cb (tail_index cb1)"
      using cb_rel_mono [of cb p "cb_tail cb1"] p(2,3) t cb_placeD(1) [OF tp] by simp
    then have inv: "cb_inv (set_cursor p c)"
      using c(3) p(1,2) tp t I(4) lin(3) [of p] lin(3) [of "cb_tail cb1"] by (auto simp: cb_inv_def G(5-7) c1(6) lin)
    moreover have "cb_file (set_cursor p c) = overwrite (cb_file cb) (cb_pos cb) bs"
      by (rule file_overwrite [OF assms(1) inv _ _ _ D]) (simp_all add: G(5-7) c1(6) lin t c(4))
    moreover have "cb_pos (set_cursor p c) = cb_pos cb + ?l"
      using p(2) I(4) by (simp add: cb_pos_def G(5) c1(6) lin)
    moreover have "cb_avail (set_cursor p c) = cb_avail cb - ?l"
      using p(2) by (simp add: cb_avail_def cb_cap_def c(2) G(4) c1(4) hr lin)
    ultimately show ?thesis by blast
  qed
  show ?thesis
  proof (cases "?l \<le> ?b - off")
    case True
    with P c1 have le: "i < buf_used cb1" "off + ?l \<le> buf_size cb1" by simp_all
    from put_blk_spec [OF I1(1) this] obtain c where B: "put_blk i off bs cb1 = Inr c" "c = cb1\<lparr> bufs := bufs c \<rparr>"
      "buf_used c = buf_used cb1" "cb_shape c" "cb_data c = overwrite (cb_data cb1) (cb_rel cb1 i * buf_size cb1 + off) bs" by blast
    have "cb_place cb (i, off + ?l)" "cb_lin cb (i, off + ?l) = ?c + ?l"
      using P True by (auto simp: cb_place_def cb_lin_def)
    with fin [OF B(2) _ B(4), of "(i, off + ?l)"] B(1,3,5) True l P(3) show ?thesis by (auto simp: c1 q)
  next
    case False
    let ?m = "?b - off"
    have len: "length (take ?m bs) = ?m" using False by simp
    have le: "i < buf_used cb1" "off + length (take ?m bs) \<le> buf_size cb1" using P False c1 by simp_all
    from put_blk_spec [OF I1(1) this] obtain c where B: "put_blk i off (take ?m bs) cb1 = Inr c" "c = cb1\<lparr> bufs := bufs c \<rparr>"
      "buf_used c = buf_used cb1" "cb_shape c"
      "cb_data c = overwrite (cb_data cb1) (cb_rel cb1 i * buf_size cb1 + off) (take ?m bs)" by blast
    note G = same_geom [OF B(2,3)]
    let ?j = "yf_cb_increase i ?n"
    have "(cb_rel cb i + 1) * ?b < ?n * ?b" using False assms(3) P(2,3) by (simp add: add_mult_distrib)
    from next_block [OF I(1) P(1) this] have j: "?j < ?n" "cb_rel cb ?j = cb_rel cb i + 1" by simp_all
    have relc: "cb_rel c ?j = cb_rel cb i + 1" using j(2) G(1) by (simp add: q)
    have sz: "buf_size c = ?b" "buf_used c = ?n" using G(4) B(3) c1 by simp_all
    have wl: "cb_rel c ?j * buf_size c + length (drop ?m bs) \<le> buf_used c * buf_size c"
      using assms(3) P(2,3) False by (simp add: relc sz add_mult_distrib)
    have "drop ?m bs \<noteq> []" using False by simp
    from write_blks_spec [OF B(4) _ this wl] j(1) sz obtain c' p where R: "write_blks c ?j (drop ?m bs) = Inr (c', p)"
      "c' = c\<lparr> bufs := bufs c' \<rparr>" "buf_used c' = ?n" "cb_shape c'"
      "cb_data c' = overwrite (cb_data c) (cb_rel c ?j * buf_size c) (drop ?m bs)"
      "cb_place c p" "0 < snd p" "cb_lin c p = cb_rel c ?j * buf_size c + length (drop ?m bs)" by auto
    have c': "c' = cb1\<lparr> bufs := bufs c' \<rparr>" by (subst R(2), subst B(2)) simp
    have "?c + length (take ?m bs @ drop ?m bs) \<le> length (cb_data cb)" using D by simp
    from overwrite_append [OF this] have "cb_data c' = overwrite (cb_data cb) ?c bs"
      unfolding R(5) B(5) len c1(3) using P(2,3) by (simp add: relc sz c1 q add_mult_distrib add.commute)
    moreover have "cb_place cb p" using R(6) G(3) by (simp add: q)
    moreover have "cb_lin cb p = ?c + ?l"
      using R(8) G(2) P(2,3) False by (simp add: q relc sz add_mult_distrib)
    ultimately have "cb_inv (set_cursor p c') \<and> cb_file (set_cursor p c') = overwrite (cb_file cb) (cb_pos cb) bs \<and>
      cb_pos (set_cursor p c') = cb_pos cb + ?l \<and> cb_avail (set_cursor p c') = cb_avail cb - ?l"
      using fin [OF c' R(3,4) _ _ _ R(7)] by blast
    then show ?thesis using False B(1) R(1) sz(2) by (simp add: c1)
  qed
qed

lemma write_tail_cursor [simp]:
  "cursor_index (cb_space_write_tail f k cb) = cursor_index cb" "buf_used (cb_space_write_tail f k cb) = buf_used cb"
  "buf_size (cb_space_write_tail f k cb) = buf_size cb"
  by (simp_all add: cb_space_write_tail_def Let_def)

lemma fwrite_spec:
  assumes "cb_inv cb" "buf \<noteq> []" "0 < cb_avail cb"
  defines "k \<equiv> min (length buf) (cb_avail cb)"
  shows "\<exists>cb'. yf_cb_fwrite buf cb = Inr (int k, cb') \<and> cb_inv cb' \<and>
    cb_file cb' = overwrite (cb_file cb) (cb_pos cb) (take k buf) \<and> cb_pos cb' = cb_pos cb + k \<and>
    cb_avail cb' = cb_avail cb - k"
proof -
  obtain f cb1 where E: "yf_cb_space_enlarge (int (length buf)) cb = (f, cb1)" by fastforce
  have e: "(if yf_circular_buf_free_wsize cb < int (length buf) then yf_cb_space_enlarge (int (length buf)) cb
      else (yf_circular_buf_free_wsize cb, cb)) = (f, cb1)"
    using E by (auto simp: yf_cb_space_enlarge_def Let_def)
  from enlarge_spec [OF assms(1) E] obtain m where G: "cb_grown m cb cb1" and room: "buf_used cb1 + heap_room cb1 = buf_used cb + heap_room cb"
    and f: "f = yf_circular_buf_free_wsize cb1" and mk: "min (int (length buf)) f = int k" unfolding k_def by blast
  note I1 = cb_grown_inv [OF assms(1) G] and L = cb_grown_lin [OF G]
  have co: "cursor_offset cb1 = cursor_offset cb" using G by (simp add: cb_grown_def)
  note av = cb_grown_avail [OF G room]
  let ?bs = "take k buf"
  have k: "0 < k" "length ?bs = k" using assms(2,3) by (simp_all add: k_def)
  have "int k \<le> f" using mk by (metis min.cobounded2)
  then have fits: "cb_lin cb1 (cb_cursor cb1) + length ?bs \<le> buf_used cb1 * buf_size cb1"
    unfolding f free_wsize [OF cb_invD(1,2) [OF I1(1)]] k(2) by linarith
  obtain i off where P: "preprocess_cursor (cb_space_write_tail f (int (length ?bs)) cb1) (cb_cursor cb1) = (i, off)" by fastforce
  have "?bs \<noteq> []" using k by auto
  from write_at [OF I1(1) this fits refl P [unfolded f]] obtain cb' where W:
    "(if length ?bs \<le> buf_size (cb_space_write_tail f (int k) cb1) - off
      then run_bind (put_blk i off ?bs (cb_space_write_tail f (int k) cb1)) (\<lambda>cb. Inr (set_cursor (i, off + length ?bs) cb))
      else run_bind (put_blk i off (take (buf_size (cb_space_write_tail f (int k) cb1) - off) ?bs) (cb_space_write_tail f (int k) cb1)) (\<lambda>cb.
           run_bind (write_blks cb (yf_cb_increase i (buf_used cb)) (drop (buf_size (cb_space_write_tail f (int k) cb1) - off) ?bs)) (\<lambda>(cb, p).
           Inr (set_cursor p cb)))) = Inr cb'"
    "cb_inv cb'" "cb_file cb' = overwrite (cb_file cb1) (cb_pos cb1) ?bs" "cb_pos cb' = cb_pos cb1 + length ?bs"
    "cb_avail cb' = cb_avail cb1 - length ?bs"
    unfolding f k(2) by blast
  have "yf_cb_fwrite buf cb = Inr (int k, cb')"
    using W(1) assms(2) P k co \<open>?bs \<noteq> []\<close>
    by (auto simp: yf_cb_fwrite_def Let_def e mk run_simps split: if_splits prod.splits)
  with W(2-5) I1(2,3) av k(2) show ?thesis by auto
qed

lemma seek_to:
  assumes "cb_inv cb" "t \<le> length (cb_file cb)"
  defines "cb' \<equiv> set_cursor (advance_front cb (cb_head cb) t) cb"
  shows "cb_inv cb'" "cb_file cb' = cb_file cb" "cb_pos cb' = t" "cb_avail cb' + t = cb_avail cb + cb_pos cb"
proof -
  note I = cb_invD [OF assms(1)]
  have hp: "cb_place cb (cb_head cb)" using I(1) by (simp add: cb_shape_def)
  have h: "cb_lin cb (cb_head cb) = head_offset cb" by (simp add: cb_lin_def)
  have t: "head_offset cb + t \<le> cb_lin cb (cb_tail cb)" using assms(2) I(4,5) by (simp add: length_cb_file [OF assms(1)])
  have "cb_lin cb (cb_head cb) + t \<le> buf_used cb * buf_size cb" using t I(7) by (simp add: h)
  note A = advance_front_spec [OF I(1) hp this]
  have rel: "cb_rel cb (fst (advance_front cb (cb_head cb) t)) \<le> cb_rel cb (tail_index cb)"
  proof (cases "t = 0")
    case True
    then show ?thesis by (simp add: advance_front_def)
  next
    case False
    then show ?thesis
      using cb_rel_mono [of cb _ "cb_tail cb"] A(2,3) t cb_placeD(1) [OF I(3)] by (simp add: h)
  qed
  show inv: "cb_inv cb'" using I A(1,2) t rel by (simp add: cb'_def cb_inv_def h)
  show "cb_file cb' = cb_file cb" by (simp add: cb'_def cb_file_def)
  show "cb_pos cb' = t" using A(2) by (simp add: cb'_def cb_pos_def h)
  show "cb_avail cb' + t = cb_avail cb + cb_pos cb"
    using A(2) t I(4,5,7) cb_used_cap [OF I(1)] by (simp add: cb'_def cb_avail_def cb_pos_def h)
qed

definition seek_target :: "int \<Rightarrow> seek_from \<Rightarrow> circular_buf \<Rightarrow> int option" where
  "seek_target offset fromwhere cb = (case fromwhere of SEEK_SET \<Rightarrow> Some offset
     | SEEK_CUR \<Rightarrow> Some (offset + int (cb_pos cb)) | SEEK_END \<Rightarrow> Some (offset + int (length (cb_file cb)))
     | SEEK_other \<Rightarrow> None)"

lemma set_cursor_head: "set_cursor (cb_head cb) cb = set_cursor (advance_front cb (cb_head cb) 0) cb"
  by (simp add: advance_front_def)

lemma fseek_spec:
  assumes "cb_inv cb"
  shows "case seek_target offset fromwhere cb of
      None \<Rightarrow> yf_cb_fseek offset fromwhere cb = (YF_ERROR, cb)
    | Some t \<Rightarrow> if 0 \<le> t \<and> t \<le> int (length (cb_file cb))
        then \<exists>cb'. yf_cb_fseek offset fromwhere cb = (YF_OK, cb') \<and> cb_inv cb' \<and> cb_file cb' = cb_file cb \<and>
          cb_pos cb' = nat t \<and> cb_avail cb' + nat t = cb_avail cb + cb_pos cb
        else yf_cb_fseek offset fromwhere cb = (YF_ERROR, cb)"
proof (cases "offset = 0")
  case False
  then have e: "yf_cb_fseek offset fromwhere cb = (case seek_target offset fromwhere cb of None \<Rightarrow> (YF_ERROR, cb)
      | Some t \<Rightarrow> if t < 0 \<or> t > int (length (cb_file cb)) then (YF_ERROR, cb)
          else (YF_OK, set_cursor (advance_front cb (cb_head cb) (nat t)) cb))"
    by (simp add: yf_cb_fseek_def seek_target_def Let_def fsize_file [OF assms] ftell_pos [OF assms] split: seek_from.split)
  show ?thesis
    unfolding e using seek_to [OF assms, of "nat t" for t] by (auto split: option.split)
next
  case True
  note I = cb_invD [OF assms]
  have tail: "cb_inv (set_cursor (cb_tail cb) cb) \<and> cb_file (set_cursor (cb_tail cb) cb) = cb_file cb \<and>
      cb_pos (set_cursor (cb_tail cb) cb) = length (cb_file cb) \<and>
      cb_avail (set_cursor (cb_tail cb) cb) + length (cb_file cb) = cb_avail cb + cb_pos cb"
  proof -
    show ?thesis
      using I cb_used_cap [OF I(1)] by (simp add: cb_inv_def cb_file_def [of "set_cursor _ _"] cb_file_def [of cb, symmetric] cb_pos_def cb_avail_def
          length_cb_file [OF assms])
  qed
  have head: "cb_inv (set_cursor (cb_head cb) cb)" "cb_file (set_cursor (cb_head cb) cb) = cb_file cb"
    "cb_pos (set_cursor (cb_head cb) cb) = 0" "cb_avail (set_cursor (cb_head cb) cb) = cb_avail cb + cb_pos cb"
    using seek_to [OF assms, of 0] by (simp_all add: set_cursor_head)
  show ?thesis
    using True head tail assms cb_pos_le [OF assms]
    by (simp add: yf_cb_fseek_def seek_target_def split: seek_from.split)
qed

lemma truncate_grow_spec:
  assumes "cb_inv cb" "length (cb_file cb) < n"
  shows "\<exists>m r cb'. cb_grown m cb cb' \<and> cb_avail cb' = cb_avail cb \<and> r = (if n \<le> cb_avail cb + cb_pos cb then YF_OK else YF_ERROR) \<and>
    yf_cb_ftruncate (int n) cb = (r, if r = YF_OK then cb_space_write_tail (yf_circular_buf_free_wsize cb') (int (n - cb_pos cb)) cb' else cb') \<and>
    (r = YF_OK \<longrightarrow> cb_lin cb' (cb_cursor cb') + (n - cb_pos cb) \<le> buf_used cb' * buf_size cb')"
proof -
  note le = cb_pos_le [OF assms(1)]
  obtain f cb1 where E: "yf_cb_space_enlarge (int (n - cb_pos cb)) cb = (f, cb1)" by fastforce
  from enlarge_spec [OF assms(1) E] obtain m where G: "cb_grown m cb cb1"
    and room: "buf_used cb1 + heap_room cb1 = buf_used cb + heap_room cb"
    and f: "f = yf_circular_buf_free_wsize cb1" and mk: "min (int (n - cb_pos cb)) f = int (min (n - cb_pos cb) (cb_avail cb))" by blast
  have more: "int n - yf_cb_ftell cb = int (n - cb_pos cb)" using le assms(2) by (simp add: ftell_pos [OF assms(1)] of_nat_diff)
  have fs: "int n - yf_cb_fsize cb > 0" "\<not> int n < 0" using assms(2) by (simp_all add: fsize_file [OF assms(1)])
  have "f < int (n - cb_pos cb) \<longleftrightarrow> \<not> n \<le> cb_avail cb + cb_pos cb" using mk le assms(2) by linarith
  then have "yf_cb_ftruncate (int n) cb = (if n \<le> cb_avail cb + cb_pos cb then (YF_OK, cb_space_write_tail f (int (n - cb_pos cb)) cb1) else (YF_ERROR, cb1))"
    using fs by (simp add: yf_cb_ftruncate_def Let_def more E)
  moreover have "cb_lin cb1 (cb_cursor cb1) + (n - cb_pos cb) \<le> buf_used cb1 * buf_size cb1" if "n \<le> cb_avail cb + cb_pos cb"
  proof -
    have "int (n - cb_pos cb) \<le> f" using mk le assms(2) that by linarith
    then show ?thesis unfolding f free_wsize [OF cb_invD(1,2) [OF cb_grown_inv(1) [OF assms(1) G]]] by linarith
  qed
  ultimately show ?thesis using G cb_grown_avail [OF G room] unfolding f by (intro exI [of _ m] exI [of _ "if n \<le> cb_avail cb + cb_pos cb then YF_OK else YF_ERROR"] exI [of _ cb1]) simp
qed

lemma truncate_cut_spec:
  assumes "cb_inv cb" "n \<le> length (cb_file cb)"
  shows "\<exists>cb'. yf_cb_ftruncate (int n) cb = (YF_OK, cb') \<and> cb_inv cb' \<and> cb_file cb' = take n (cb_file cb) \<and>
    cb_pos cb' = min (cb_pos cb) n \<and> cb_data cb' = cb_data cb \<and> head_offset cb' = head_offset cb \<and>
    cb_avail cb' + cb_pos cb' = cb_avail cb + cb_pos cb"
proof -
  note I = cb_invD [OF assms(1)] and cap = cb_used_cap [OF cb_invD(1) [OF assms(1)]]
  let ?c = "cb_lin cb (cb_cursor cb)" and ?t = "cb_lin cb (cb_tail cb)" and ?h = "head_offset cb" and ?d = "length (cb_file cb) - n"
  have len: "length (cb_file cb) = ?t - ?h" by (rule length_cb_file [OF assms(1)])
  show ?thesis
  proof (cases "n = length (cb_file cb)")
    case True
    then have "yf_cb_ftruncate (int n) cb = (YF_OK, cb)"
      by (simp add: yf_cb_ftruncate_def Let_def fsize_file [OF assms(1)])
    with True assms(1) cb_pos_le [OF assms(1)] show ?thesis by (intro exI [of _ cb]) simp
  next
    case False
    with assms(2) have d: "0 < ?d" "?d \<le> ?t" by (simp_all add: len)
    let ?p = "advance_back cb (cb_tail cb) ?d" and ?cb = "set_tail (advance_back cb (cb_tail cb) ?d) cb"
    note B = advance_back_spec [OF I(1,3) d(2,1)]
    have t: "cb_lin cb ?p = ?h + n" using B(2) assms(2) I(4,5) len by simp
    have shp: "cb_shape ?cb" by (simp add: I(1))
    have cpos: "yf_cb_ftell ?cb = int (cb_pos cb)" using ftell_lin [OF shp] I(4) by (simp add: cb_pos_def)
    have e: "yf_cb_ftruncate (int n) cb = (YF_OK, if cb_pos cb > n then set_cursor (cb_tail ?cb) ?cb else ?cb)"
    proof -
      have "int n - yf_cb_fsize cb = - int ?d" using assms(2) by (simp add: fsize_file [OF assms(1)] of_nat_diff)
      moreover have "nat (- (- int ?d)) = ?d" "int n < int (cb_pos cb) \<longleftrightarrow> n < cb_pos cb" by simp_all
      moreover have "\<not> int n < 0" "- int ?d \<noteq> 0" "\<not> - int ?d > 0" "\<not> int (cb_pos cb) < 0" using d(1) by simp_all
      ultimately show ?thesis
        by (simp only: yf_cb_ftruncate_def Let_def cpos simp_thms if_True if_False if_distrib [of "Pair _"])
    qed
    have cut: "cb_file c = take n (cb_file cb)" if "cb_data c = cb_data cb" "head_offset c = ?h" "cb_lin c (cb_tail c) = ?h + n" for c
      using that assms(2) len by (simp add: cb_file_def min_def)
    show ?thesis
    proof (cases "cb_pos cb > n")
      case True
      let ?c' = "set_cursor (cb_tail ?cb) ?cb"
      have "cb_inv ?c'" using I B(1) t by (simp add: cb_inv_def)
      moreover have "cb_file ?c' = take n (cb_file cb)" by (rule cut) (simp_all add: t)
      ultimately show ?thesis using e True t cap I(4,5,7) B(2) by (intro exI [of _ ?c']) (simp add: cb_pos_def cb_avail_def)
    next
      case nf: False
      have "cb_rel cb (cursor_index cb) \<le> cb_rel cb (fst ?p)"
      proof (rule ccontr)
        assume "\<not> ?thesis"
        then have "(cb_rel cb (fst ?p) + 1) * buf_size cb \<le> cb_rel cb (cursor_index cb) * buf_size cb"
          by (intro mult_le_mono1) simp
        moreover have "?c \<le> cb_lin cb ?p" using nf I(4) t by (simp add: cb_pos_def)
        ultimately show False using B(3) by (simp add: cb_lin_def)
      qed
      then have "cb_inv ?cb" using I B(1) t nf by (simp add: cb_inv_def cb_pos_def)
      moreover have "cb_file ?cb = take n (cb_file cb)" by (rule cut) (simp_all add: t)
      ultimately show ?thesis using e nf by (intro exI [of _ ?cb]) (simp add: cb_pos_def cb_avail_def)
    qed
  qed
qed

lemma rel_rot:
  assumes "cb_shape cb" "i < buf_used cb" "j < buf_used cb"
  shows "cb_rel (set_head (i, off) cb) j =
    (if cb_rel cb i \<le> cb_rel cb j then cb_rel cb j - cb_rel cb i else cb_rel cb j + buf_used cb - cb_rel cb i)"
  using cb_head_less [OF assms(1,2)] assms(2,3) unfolding cb_rel_def yf_cb_diff_r_def
  by (simp split: if_split, linarith)

lemma blocks_rot:
  assumes "cb_shape cb" "i < buf_used cb"
  shows "cb_blocks (set_head (i, off) cb) = drop (cb_rel cb i) (cb_blocks cb) @ take (cb_rel cb i) (cb_blocks cb)"
proof -
  let ?h = "head_index cb" and ?B = "bufs cb"
  have h: "?h < buf_used cb" by (rule cb_head_less [OF assms])
  show ?thesis
  proof (cases "?h \<le> i")
    case True
    have "take ?h ?B @ take (i - ?h) (drop ?h ?B) = take i ?B" using True take_add [of ?h "i - ?h" ?B] by simp
    with True h assms(2) show ?thesis by (simp add: cb_blocks_def cb_rel_def yf_cb_diff_r_def)
  next
    case False
    then have "drop i (take ?h ?B) @ drop ?h ?B = drop i ?B" using h
      by (metis append_take_drop_id drop_append diff_is_0_eq' drop0 length_take min.absorb4 nat_le_linear)
    with False h assms(2) show ?thesis by (simp add: cb_blocks_def cb_rel_def yf_cb_diff_r_def min_def)
  qed
qed

lemma concat_drop:
  "\<forall>x \<in> set xs. length x = b \<Longrightarrow> concat (drop k xs) = drop (k * b) (concat xs)"
proof (induction xs arbitrary: k)
  case (Cons x xs)
  then show ?case by (cases k) auto
qed simp

lemma cb_blocks_len:
  assumes "cb_shape cb"
  shows "\<forall>x \<in> set (cb_blocks cb). length x = buf_size cb"
  using assms by (auto simp: cb_blocks_def cb_shape_def dest: in_set_takeD in_set_dropD)

lemma head_to:
  assumes "cb_inv cb" "cb_place cb p" "head_offset cb \<le> cb_lin cb p" "cb_lin cb p \<le> cb_lin cb (cb_tail cb)"
    and "cb_rel cb (fst p) \<le> cb_rel cb (tail_index cb)"
  defines "cb' \<equiv> set_head p cb"
  shows "cb_shape cb'" "cb_lin cb' (cb_tail cb') + cb_rel cb (fst p) * buf_size cb = cb_lin cb (cb_tail cb)"
    "cb_file cb' = drop (cb_lin cb p - head_offset cb) (cb_file cb)"
    "cb_rel cb' (tail_index cb') = cb_rel cb (tail_index cb) - cb_rel cb (fst p)"
proof -
  note I = cb_invD [OF assms(1)]
  show S: "cb_shape cb'" using I(1) assms(2) by (auto simp: cb'_def cb_shape_def cb_place_def)
  have "cb_lin cb' (cb_tail cb') + cb_rel cb (fst p) * buf_size cb = cb_lin cb (cb_tail cb) \<and>
    cb_file cb' = drop (cb_lin cb p - head_offset cb) (cb_file cb) \<and>
    cb_rel cb' (tail_index cb') = cb_rel cb (tail_index cb) - cb_rel cb (fst p)"
  proof (cases "buf_used cb = 0")
    case True
    with I assms(2) have "cb_head cb = (0, 0)" "p = (0, 0)" "cb_tail cb = (0, 0)" by (auto simp: cb_shape_def cb_place_def)
    with True show ?thesis
      by (auto simp: cb'_def cb_lin_def cb_rel_def yf_cb_diff_r_def cb_file_def cb_data_def cb_blocks_def)
  next
    case False
    obtain i off where p: "p = (i, off)" by fastforce
    have i: "i < buf_used cb" "tail_index cb < buf_used cb" using False cb_placeD(2) [OF assms(2)] cb_placeD(2) [OF I(3)] p by auto
    note R = rel_rot [OF I(1) i, of off]
    have rt: "cb_rel cb' (tail_index cb') = cb_rel cb (tail_index cb) - cb_rel cb i"
      using R assms(5) p by (simp add: cb'_def)
    have "(cb_rel cb (tail_index cb) - cb_rel cb i) * buf_size cb + cb_rel cb i * buf_size cb =
        cb_rel cb (tail_index cb) * buf_size cb"
      using assms(5) p by (metis add_mult_distrib fst_conv le_add_diff_inverse2)
    with rt have lt: "cb_lin cb' (cb_tail cb') + cb_rel cb i * buf_size cb = cb_lin cb (cb_tail cb)"
      by (simp add: cb'_def cb_lin_def)
    have data: "cb_data cb' = drop (cb_rel cb i * buf_size cb) (cb_data cb) @ concat (take (cb_rel cb i) (cb_blocks cb))"
      unfolding cb_data_def cb'_def p blocks_rot [OF I(1) i(1)]
      by (simp add: concat_drop [OF cb_blocks_len [OF I(1)]])
    have lp: "cb_lin cb p = cb_rel cb i * buf_size cb + off" by (simp add: cb_lin_def p)
    have "cb_file cb' = take (cb_lin cb' (cb_tail cb') - off) (drop (cb_rel cb i * buf_size cb + off) (cb_data cb))"
      using I(7) lt assms(4) lp length_cb_data [OF I(1)] by (simp add: cb_file_def data) (simp add: cb'_def p add.commute)
    also have "cb_lin cb' (cb_tail cb') - off = cb_lin cb (cb_tail cb) - cb_lin cb p" using lt lp by linarith
    also have "take \<dots> (drop (cb_rel cb i * buf_size cb + off) (cb_data cb)) = drop (cb_lin cb p - head_offset cb) (cb_file cb)"
      using assms(3,4) lp by (simp add: cb_file_def drop_take)
    finally show ?thesis using lt rt p by simp
  qed
  then show "cb_lin cb' (cb_tail cb') + cb_rel cb (fst p) * buf_size cb = cb_lin cb (cb_tail cb)"
    "cb_file cb' = drop (cb_lin cb p - head_offset cb) (cb_file cb)"
    "cb_rel cb' (tail_index cb') = cb_rel cb (tail_index cb) - cb_rel cb (fst p)" by simp_all
qed

lemma head_at_cursor:
  assumes "cb_shape cb" "cb_place cb (cb_tail cb)" "head_offset cb \<le> cb_lin cb (cb_tail cb)"
  shows "cb_inv (set_cursor (cb_head cb) cb)" "cb_pos (set_cursor (cb_head cb) cb) = 0"
  using assms by (simp_all add: cb_inv_def cb_pos_def cb_lin_def cb_shape_def)

lemma fhead_set_spec:
  assumes "cb_inv cb" "n \<le> length (cb_file cb)"
    and "cb_lin cb (cb_cursor cb) = 0 \<Longrightarrow> cb_lin cb (cb_tail cb) < buf_used cb * buf_size cb \<or> n \<le> buf_size cb"
  shows "\<exists>cb'. yf_cb_fhead_set (int n) cb = (YF_OK, cb') \<and> cb_inv cb' \<and>
    (let k = (if n = 0 then cb_pos cb else n) in
      cb_file cb' = drop k (cb_file cb) \<and> cb_pos cb' = cb_pos cb - k)"
proof (cases "n = 0")
  case True
  note I = cb_invD [OF assms(1)]
  let ?cb = "set_head (cb_cursor cb) cb"
  have "cb_rel cb (fst (cb_cursor cb)) \<le> cb_rel cb (tail_index cb)" using I(6) by simp
  note H = head_to [OF assms(1) I(2,4,5) this]
  have t: "cursor_offset cb \<le> cb_lin ?cb (cb_tail cb)" using H(2) I(5) by (simp add: cb_lin_def)
  have e: "?cb = set_cursor (cb_head ?cb) ?cb" by (simp add: set_head_def set_cursor_def)
  have "cb_inv ?cb" "cb_pos ?cb = 0"
    using head_at_cursor [OF H(1)] t I(3) e by simp_all
  then show ?thesis using True H(3) by (simp add: yf_cb_fhead_set_def cb_pos_def)
next
  case False
  note I = cb_invD [OF assms(1)]
  let ?c = "cb_lin cb (cb_cursor cb)" and ?t = "cb_lin cb (cb_tail cb)" and ?h = "head_offset cb"
  let ?p = "advance_front cb (cb_head cb) n"
  let ?cb = "set_head ?p cb" and ?b = "buf_size cb" and ?N = "buf_used cb"
  have hp: "cb_place cb (cb_head cb)" and h: "cb_lin cb (cb_head cb) = ?h" using I(1) by (simp_all add: cb_shape_def cb_lin_def)
  have len: "length (cb_file cb) = ?t - ?h" by (rule length_cb_file [OF assms(1)])
  have "cb_lin cb (cb_head cb) + n \<le> ?N * ?b" using assms(2) I(4,5,7) by (simp add: h len)
  note A = advance_front_spec [OF I(1) hp this]
  have lp: "cb_lin cb ?p = ?h + n" "0 < snd ?p" using A(2,3) False by (simp_all add: h)
  have le: "?h \<le> cb_lin cb ?p" "cb_lin cb ?p \<le> ?t" using lp assms(2) I(4,5) by (simp_all add: len)
  have rt: "cb_rel cb (fst ?p) \<le> cb_rel cb (tail_index cb)"
    using cb_rel_mono [of cb ?p "cb_tail cb"] le(2) lp(2) cb_placeD(1) [OF I(3)] by simp
  note H = head_to [OF assms(1) A(1) le rt]
  have n0: "0 < ?N" using le(2) lp(1) False I(7) by (cases "?N = 0") auto
  have P: "fst ?p < ?N" "cursor_index cb < ?N" using cb_placeD(2) [OF A(1) n0] cb_placeD(2) [OF I(2) n0] by auto
  have hd: "yf_cb_fhead_set (int n) cb = (YF_OK, if yf_cb_ftell ?cb < 0 \<or> yf_cb_ftell ?cb > yf_cb_fsize ?cb
      then set_cursor (cb_head ?cb) ?cb else ?cb)"
    using False assms(2) by (simp add: yf_cb_fhead_set_def Let_def fsize_file [OF assms(1)])
  have fs: "yf_cb_fsize ?cb = int ?t - int (cb_lin cb ?p)"
  proof -
    obtain r where r: "r = cb_rel cb (fst ?p) * ?b" by simp
    have "cb_lin cb ?p = r + snd ?p" "cb_lin ?cb (cb_tail ?cb) + r = ?t" using H(2) by (simp_all add: r cb_lin_def)
    then show ?thesis using fsize_lin [OF H(1)] by simp
  qed
  have ft: "yf_cb_ftell ?cb = (if cb_rel cb (fst ?p) \<le> cb_rel cb (cursor_index cb) then int ?c - int (cb_lin cb ?p)
      else int ?c + int (?N * ?b) - int (cb_lin cb ?p))"
  proof -
    note R = rel_rot [OF I(1) P, of "snd ?p"]
    have "cb_lin ?cb (cb_cursor cb) + cb_rel cb (fst ?p) * ?b =
        (if cb_rel cb (fst ?p) \<le> cb_rel cb (cursor_index cb) then ?c else ?c + ?N * ?b)"
    proof (cases "cb_rel cb (fst ?p) \<le> cb_rel cb (cursor_index cb)")
      case True
      then have "(cb_rel cb (cursor_index cb) - cb_rel cb (fst ?p)) * ?b + cb_rel cb (fst ?p) * ?b = cb_rel cb (cursor_index cb) * ?b"
        by (metis add_mult_distrib le_add_diff_inverse2)
      then show ?thesis using True R by (simp add: cb_lin_def)
    next
      case False
      have "cb_rel cb (fst ?p) < ?N" by (rule cb_rel_less [OF I(1) P(1)])
      then have "cb_rel cb (cursor_index cb) + ?N - cb_rel cb (fst ?p) + cb_rel cb (fst ?p) = cb_rel cb (cursor_index cb) + ?N" by simp
      then have "(cb_rel cb (cursor_index cb) + ?N - cb_rel cb (fst ?p)) * ?b + cb_rel cb (fst ?p) * ?b =
          cb_rel cb (cursor_index cb) * ?b + ?N * ?b"
        by (metis add_mult_distrib)
      then show ?thesis using False R by (simp add: cb_lin_def)
    qed
    moreover obtain r m where r: "cb_rel cb (fst ?p) * ?b = r" "?N * ?b = m" by simp
    moreover have "cb_lin cb ?p = r + snd ?p" by (simp only: cb_lin_def r)
    moreover have "yf_cb_ftell ?cb = int (cb_lin ?cb (cb_cursor cb)) - int (snd ?p)" using ftell_lin [OF H(1)] by simp
    ultimately show ?thesis unfolding r by (simp split: if_split_asm)
  qed
  have cf: "cb_file (set_cursor q ?cb) = drop n (cb_file cb)" for q
    using H(3) lp by (simp add: cb_file_def [of "set_cursor _ _"] cb_file_def [of "set_head _ _"])
  have t': "snd ?p \<le> cb_lin ?cb (cb_tail cb)" using H(2) le(2) by (simp add: cb_lin_def [of cb ?p])
  show ?thesis
  proof (cases "yf_cb_ftell ?cb < 0 \<or> yf_cb_ftell ?cb > yf_cb_fsize ?cb")
    case True
    have "?c \<le> cb_lin cb ?p"
    proof (cases "cb_rel cb (fst ?p) \<le> cb_rel cb (cursor_index cb)")
      case rel: True
      have "yf_cb_ftell ?cb = int ?c - int (cb_lin cb ?p)" unfolding ft using rel by simp
      with True fs I(5) show ?thesis by linarith
    next
      case False
      then have "(cb_rel cb (cursor_index cb) + 1) * ?b \<le> cb_rel cb (fst ?p) * ?b" by (intro mult_le_mono1) simp
      then show ?thesis using cb_placeD(1) [OF I(2)] by (simp add: cb_lin_def)
    qed
    then have "cb_pos cb - n = 0" using lp(1) I(4) by (simp add: cb_pos_def)
    moreover have "cb_place ?cb (cb_tail ?cb)" "head_offset ?cb \<le> cb_lin ?cb (cb_tail ?cb)" using I(3) t' by simp_all
    from head_at_cursor [OF H(1) this] have "cb_inv (set_cursor (cb_head ?cb) ?cb)" "cb_pos (set_cursor (cb_head ?cb) ?cb) = 0" by auto
    ultimately show ?thesis using hd True cf False by (intro exI [of _ "set_cursor (cb_head ?cb) ?cb"]) (simp add: Let_def)
  next
    case nr: False
    have rel: "cb_rel cb (fst ?p) \<le> cb_rel cb (cursor_index cb)"
    proof (rule ccontr)
      assume r: "\<not> ?thesis"
      then have "yf_cb_ftell ?cb = int ?c + int (?N * ?b) - int (cb_lin cb ?p)" unfolding ft by simp
      with nr fs I(7) have z: "?c = 0" "?t = ?N * ?b" by linarith+
      with assms(3) have "n \<le> ?b" by simp
      moreover have "1 * ?b \<le> cb_rel cb (fst ?p) * ?b" using r by (intro mult_le_mono1) simp
      moreover have "?h = 0" using z(1) I(4) by simp
      moreover have "cb_lin cb ?p = cb_rel cb (fst ?p) * ?b + snd ?p" by (simp only: cb_lin_def)
      ultimately show False using lp by linarith
    qed
    have c: "cb_lin ?cb (cb_cursor cb) + cb_rel cb (fst ?p) * ?b = ?c" "cb_rel ?cb (cursor_index cb) = cb_rel cb (cursor_index cb) - cb_rel cb (fst ?p)"
    proof -
      have "(cb_rel cb (cursor_index cb) - cb_rel cb (fst ?p)) * ?b + cb_rel cb (fst ?p) * ?b = cb_rel cb (cursor_index cb) * ?b"
        using rel by (metis add_mult_distrib le_add_diff_inverse2)
      then show "cb_lin ?cb (cb_cursor cb) + cb_rel cb (fst ?p) * ?b = ?c"
        "cb_rel ?cb (cursor_index cb) = cb_rel cb (cursor_index cb) - cb_rel cb (fst ?p)"
        using rel rel_rot [OF I(1) P, of "snd ?p"] by (simp_all add: cb_lin_def)
    qed
    have "yf_cb_ftell ?cb = int ?c - int (cb_lin cb ?p)" unfolding ft using rel by simp
    with nr have pc: "cb_lin cb ?p \<le> ?c" by linarith
    obtain r where r: "cb_rel cb (fst ?p) * ?b = r" by simp
    have l: "cb_lin ?cb (cb_cursor cb) + r = ?c" "cb_lin ?cb (cb_tail cb) + r = ?t" "cb_lin cb ?p = r + snd ?p"
      using c(1) H(2) by (simp_all only: r cb_lin_def [of cb ?p] set_head_simps)
    have o: "snd ?p \<le> cb_lin ?cb (cb_cursor cb)" "cb_lin ?cb (cb_cursor cb) \<le> cb_lin ?cb (cb_tail cb)"
      "cb_lin ?cb (cb_cursor cb) - snd ?p = cb_pos cb - n"
      using l pc I(4,5) lp(1) by (simp_all add: cb_pos_def)
    have r': "cb_rel ?cb (cursor_index cb) \<le> cb_rel ?cb (tail_index cb)"
      using H(4) c(2) I(6) by (simp add: diff_le_mono)
    have "cb_inv ?cb"
      unfolding cb_inv_def set_head_simps cb_same using H(1) I(2,3) o(1,2) r' by blast
    moreover have "cb_pos ?cb = cb_pos cb - n" unfolding cb_pos_def [of ?cb] set_head_simps by (rule o(3))
    ultimately have "cb_inv ?cb" "cb_pos ?cb = cb_pos cb - n" by blast+
    then show ?thesis using hd nr H(3) lp(1) False by (intro exI [of _ ?cb]) (simp add: Let_def)
  qed
qed

subsection \<open>Block lists\<close>

lemma map_nth_upt': "a + m \<le> length xs \<Longrightarrow> map ((!) xs) [a..<a + m] = take m (drop a xs)"
  by (rule nth_equalityI) simp_all

lemma space_get_spec:
  assumes "cb_shape cb" "i < buf_used cb" "cb_rel cb i + K \<le> buf_used cb" "length b + K \<le> cap"
  shows "\<exists>xs. cb_space_get cb cap i b K = Inr (b @ xs) \<and>
    concat (map ((!) (bufs cb)) xs) = take (K * buf_size cb) (drop (cb_rel cb i * buf_size cb) (cb_data cb))"
proof -
  let ?n = "buf_used cb" and ?h = "head_index cb" and ?B = "bufs cb" and ?m = "min K (buf_used cb - i)"
  have h: "?h < ?n" by (rule cb_head_less [OF assms(1,2)])
  have "map ((!) ?B) ([i..<i + ?m] @ [0..<K - ?m]) = take K (drop (cb_rel cb i) (cb_blocks cb))"
  proof (cases "?h \<le> i")
    case True
    have K: "K - ?m \<le> ?h" using assms(2,3) True by (auto simp: cb_rel_def yf_cb_diff_r_def)
    have "map ((!) ?B) ([i..<i + ?m] @ [0..<K - ?m]) = take ?m (drop i ?B) @ take (K - ?m) ?B"
      using map_nth_upt' [of i ?m ?B] map_nth_upt' [of 0 "K - ?m" ?B] assms(2) h K by simp
    also have "\<dots> = take K (drop i ?B @ take ?h ?B)" using K assms(2) by (auto simp: min_def)
    finally show ?thesis using True h assms(2) by (simp add: cb_blocks_def cb_rel_def yf_cb_diff_r_def)
  next
    case False
    have K: "K \<le> ?h - i" "?m = K" using assms(2,3) False h by (auto simp: cb_rel_def yf_cb_diff_r_def)
    have "map ((!) ?B) ([i..<i + ?m] @ [0..<K - ?m]) = take K (drop i ?B)"
      using map_nth_upt' [of i ?m ?B] assms(2) h K by simp
    also have "\<dots> = take K (drop i (take ?h ?B))" using K(1) by (simp add: drop_take min_def)
    finally show ?thesis using False h by (simp add: cb_blocks_def cb_rel_def yf_cb_diff_r_def)
  qed
  moreover have "concat (take K (drop r xs)) = take (K * b) (drop (r * b) (concat xs))"
    if "\<forall>x \<in> set xs. length x = b" for r b and xs :: "u8 list list"
  proof -
    have "concat (take K ys) = take (K * b) (concat ys)" if "\<forall>x \<in> set ys. length x = b" for ys :: "u8 list list"
      using that
    proof (induction ys arbitrary: K)
      case (Cons y ys)
      then show ?case by (cases K) auto
    qed simp
    with that show ?thesis by (metis concat_drop in_set_dropD)
  qed
  ultimately show ?thesis
    using cb_blocks_len [OF assms(1)] assms(4) unfolding cb_data_def
    by (intro exI [of _ "[i..<i + ?m] @ [0..<K - ?m]"]) (simp add: cb_space_get_def Let_def del: map_append)
qed

lemma space_read_spec:
  assumes "cb_inv cb" "0 < bytes" "cb_pos cb < length (cb_file cb)"
  defines "k \<equiv> min (length (cb_file cb) - cb_pos cb) (nat bytes)"
  shows "\<exists>is off cb'. yf_cb_space_read bytes None peek cb = Inr (int k, is, off, cb') \<and>
    take k (drop off (concat (map ((!) (bufs cb)) is))) = take k (drop (cb_pos cb) (cb_file cb)) \<and>
    cb_inv cb' \<and> cb_file cb' = cb_file cb \<and> cb_pos cb' = (if peek then cb_pos cb else cb_pos cb + k)"
proof -
  note I = cb_invD [OF assms(1)]
  let ?c = "cb_lin cb (cb_cursor cb)" and ?t = "cb_lin cb (cb_tail cb)" and ?b = "buf_size cb" and ?n = "buf_used cb"
  have b0: "0 < ?b" by (rule cb_shapeD(1) [OF I(1)])
  have rest: "yf_circular_buf_rest_rsize cb = int (?t - ?c)" using rest_rsize [OF assms(1)] I(5) by simp
  have left: "length (cb_file cb) - cb_pos cb = ?t - ?c" using I(4,5) by (simp add: length_cb_file [OF assms(1)] cb_pos_def)
  have ct: "?c < ?t" using assms(3) left by simp
  have k: "0 < k" "?c + k \<le> ?t" "int k = min (int (?t - ?c)) bytes"
    using ct assms(2) unfolding k_def left by linarith+
  have kf: "cb_pos cb + k \<le> length (cb_file cb)" using assms(3) by (simp add: k_def)
  have cn: "?c < ?n * ?b" using ct I(7) by simp
  from preprocess_spec [OF I(1,2) cn] obtain i off where P: "preprocess_cursor cb (cb_cursor cb) = (i, off)" "i < ?n" "off < ?b"
    "?c = cb_rel cb i * ?b + off" by metis
  have fin: "cb_inv c \<and> cb_file c = cb_file cb \<and> cb_pos c = (if peek then cb_pos cb else cb_pos cb + k)"
    if "c = (if peek then cb else set_cursor p cb)" "cb_place cb p" "cb_lin cb p = ?c + k"
      "0 < snd p \<or> p = cb_tail cb" for c p
  proof -
    have "cb_rel cb (fst p) \<le> cb_rel cb (tail_index cb)"
      using cb_rel_mono [of cb p "cb_tail cb"] k(2) that(3,4) cb_placeD(1) [OF I(3)] by auto
    then show ?thesis using that(1-3) assms(1) I k(2) by (auto simp: cb_inv_def cb_pos_def cb_file_def)
  qed
  have got: "take k (drop off (take (K * ?b) (drop (cb_rel cb i * ?b) (cb_data cb)))) = take k (drop (cb_pos cb) (cb_file cb))"
    if "off + k \<le> K * ?b" for K
  proof -
    have "k \<le> K * ?b - off" using that by linarith
    then show ?thesis using take_drop_file [OF assms(1) kf] P(4) by (simp add: drop_take min_def add.commute)
  qed
  have n0: "0 < ?n" using P(2) by linarith
  have ti: "tail_index cb < ?n" "tail_offset cb \<le> ?b" using cb_placeD [OF I(3)] n0 by auto
  have ri: "cb_rel cb i \<le> cb_rel cb (tail_index cb)"
  proof (rule ccontr)
    assume "\<not> ?thesis"
    then have "(cb_rel cb (tail_index cb) + 1) * ?b \<le> cb_rel cb i * ?b" by (intro mult_le_mono1) simp
    with ct ti(2) P(4) show False by (simp add: cb_lin_def)
  qed
  have d: "yf_cb_diff_r (tail_index cb) i ?n = cb_rel cb (tail_index cb) - cb_rel cb i"
    using ri P(2) ti(1) cb_head_less [OF I(1) P(2)] by (auto simp: cb_rel_def yf_cb_diff_r_def split: if_splits)
  show ?thesis
  proof (cases "int (?t - ?c) \<le> bytes")
    case True
    let ?K = "cb_rel cb (tail_index cb) - cb_rel cb i + 1"
    have K: "cb_rel cb i + ?K \<le> ?n" using cb_rel_less [OF I(1) ti(1)] ri by simp
    have t: "?t = cb_rel cb (tail_index cb) * ?b + tail_offset cb" by (simp add: cb_lin_def)
    have Kb: "(?K - 1) * ?b + cb_rel cb i * ?b = cb_rel cb (tail_index cb) * ?b"
      using ri by (metis add_diff_cancel_right' add_mult_distrib le_add_diff_inverse2)
    have kt: "k = ?t - ?c" using True k(3) by simp
    have "nat bytes \<ge> ?t - ?c" using True by simp
    have "?K - 1 \<le> (nat bytes + (?b - 1)) div ?b"
    proof -
      have "(?K - 1) * ?b \<le> nat bytes + (?b - 1)"
        using \<open>nat bytes \<ge> ?t - ?c\<close> Kb t P(3,4) by linarith
      then show ?thesis using b0 by (simp only: less_eq_div_iff_mult_less_eq)
    qed
    then have "length ([] :: nat list) + ?K \<le> cb_bufs_alloc cb None (nat bytes)"
      by (simp add: cb_bufs_alloc_def cb_bsize [OF I(1)])
    from space_get_spec [OF I(1) P(2) K this] obtain xs where
      X: "cb_space_get cb (cb_bufs_alloc cb None (nat bytes)) i [] ?K = Inr xs"
        "concat (map ((!) (bufs cb)) xs) = take (?K * ?b) (drop (cb_rel cb i * ?b) (cb_data cb))" by auto
    have "off + k \<le> ?K * ?b" using kt t Kb P(4) ti(2) I(5) by (simp add: add_mult_distrib)
    note g = got [OF this, folded X(2)]
    have "yf_cb_space_read bytes None peek cb = Inr (int k, xs, off, if peek then cb else set_cursor (cb_tail cb) cb)"
      using True assms(2) X(1) kt by (simp add: yf_cb_space_read_def rest P(1) d Let_def)
    with g fin [OF refl I(3)] kt I(5) show ?thesis by fastforce
  next
    case False
    then have kb: "k = nat bytes" "int k = bytes" using k(3) assms(2) by linarith+
    have nr: "\<not> yf_circular_buf_rest_rsize cb \<le> bytes" unfolding rest by (rule False)
    have cap: "0 < cb_bufs_alloc cb None k" by (simp add: cb_bufs_alloc_def)
    show ?thesis
    proof (cases "k \<le> ?b - off")
      case True
      have e: "yf_cb_space_read bytes None peek cb = Inr (int k, [i], off, if peek then cb else set_cursor (i, off + k) cb)"
        using nr assms(2) True cap kb by (simp add: yf_cb_space_read_def P(1) Let_def)
      have "concat (map ((!) (bufs cb)) [i]) = take (1 * ?b) (drop (cb_rel cb i * ?b) (cb_data cb))"
        using cb_data_nth_block [OF I(1) P(2), of 0 ?b] P(2) I(1) by (simp add: cb_shape_def)
      moreover have "off + k \<le> 1 * ?b" using True P(3) by simp
      moreover have "cb_place cb (i, off + k)" "cb_lin cb (i, off + k) = ?c + k"
        using P True by (auto simp: cb_place_def cb_lin_def)
      ultimately show ?thesis using e fin [OF refl, of "(i, off + k)"] got [of 1] k(1) by fastforce
    next
      case nf: False
      let ?j = "yf_cb_increase i ?n" and ?m = "k - (?b - off)"
      have m0: "0 < ?m" using nf by simp
      obtain K r where x: "?m = K * ?b + r" "0 < r" "r \<le> ?b" "(?m + (?b - 1)) div ?b = K + 1" "yf_cb_rest_mod ?m ?b = r"
        using blocks_split [OF b0 m0] by metis
      have lin: "?c + k = (cb_rel cb i + (K + 1)) * ?b + r"
        using x(1) nf P(3,4) by (simp add: add_mult_distrib)
      have "(cb_rel cb i + (K + 1)) * ?b + r \<le> ?n * ?b" using lin k(2) I(7) by linarith
      then have room: "cb_rel cb i + (K + 1) < ?n" using x(2) by (rule block_room)
      note j = cb_rel_increase [OF I(1) P(2)] and add = cb_rel_add [OF I(1) P(2) room]
      have j1: "?j < ?n" "cb_rel cb ?j = cb_rel cb i + 1" using j room by simp_all
      have ne: "tail_index cb \<noteq> i"
      proof
        assume "tail_index cb = i"
        with k(2) lin ti(2) x(2) show False by (simp add: cb_lin_def add_mult_distrib)
      qed
      have "?m \<le> k" by simp
      then have "K + 1 \<le> (k + (?b - 1)) div ?b" unfolding x(4) [symmetric] by (intro div_le_mono) simp
      then have "length [i] + (K + 1) \<le> cb_bufs_alloc cb None k" "cb_rel cb ?j + (K + 1) \<le> ?n"
        using j1(2) room by (simp_all add: cb_bufs_alloc_def cb_bsize [OF I(1)])
      from space_get_spec [OF I(1) j1(1) this(2,1)] obtain xs where
        X: "cb_space_get cb (cb_bufs_alloc cb None k) ?j [i] (K + 1) = Inr (i # xs)"
          "concat (map ((!) (bufs cb)) xs) = take ((K + 1) * ?b) (drop (cb_rel cb ?j * ?b) (cb_data cb))" by auto
      let ?p = "(yf_cb_add i (K + 1) ?n, r)"
      have e: "yf_cb_space_read bytes None peek cb = Inr (int k, i # xs, off, if peek then cb else set_cursor ?p cb)"
        using nr assms(2) nf cap kb ne X(1) x(4,5) linorder_not_le [THEN iffD2, OF assms(2)] by (simp add: yf_cb_space_read_def P(1) Let_def cb_bsize [OF I(1)])
      have "concat (map ((!) (bufs cb)) (i # xs)) = take ?b (drop (cb_rel cb i * ?b) (cb_data cb)) @
          take ((K + 1) * ?b) (drop (?b + cb_rel cb i * ?b) (cb_data cb))"
        using cb_data_nth_block [OF I(1) P(2), of 0 ?b] P(2) I(1) X(2) j1(2) by (simp add: cb_shape_def add_mult_distrib)
      also have "\<dots> = take (?b + (K + 1) * ?b) (drop (cb_rel cb i * ?b) (cb_data cb))"
        unfolding take_add by (simp add: add.commute)
      finally have "concat (map ((!) (bufs cb)) (i # xs)) = take ((K + 2) * ?b) (drop (cb_rel cb i * ?b) (cb_data cb))"
        by (simp add: add_mult_distrib)
      moreover have "off + k \<le> (K + 2) * ?b" using x(1,3) nf P(3) by (simp add: add_mult_distrib)
      moreover have "cb_place cb ?p" "cb_lin cb ?p = ?c + k"
        using add x(3) lin n0 by (auto simp: cb_place_def cb_lin_def)
      ultimately show ?thesis using e fin [OF refl, of ?p] got [of "K + 2"] x(2) by fastforce
    qed
  qed
qed

end
