(* ===== verification/Circular_File.thy ===== *)
theory Circular_File
  imports Circular_Buf
begin

section \<open>Circular buffers as files\<close>

text \<open>
  What the operations of theory Circular_Buf promise to a client: reads, writes, seeks and
  truncations act on a sequence of bytes with a position, whatever the layout of the
  blocks. The contract is the locale \<open>seq_file\<close>, which the circular buffer implements.
\<close>

subsection \<open>Creation\<close>

lemma align_2pow_power:
  assumes "yf_align_2pow v = Inr w"
  obtains k where "k < 64" "w = 2 ^ k"
proof -
  from assms obtain c where c: "yf_bitcnt2val c = Inr w"
    by (auto simp: yf_align_2pow_def Let_def run_simps)
  then have "unat (c - 1) < 64" "w = 2 ^ unat (c - 1)"
    by (auto simp: yf_bitcnt2val_def run_simps push_bit_eq_mult)
  then show thesis by (rule that)
qed

lemma bit_cnt_power:
  assumes "k < 64"
  shows "unat (yf_bit_cnt (2 ^ k) - 1) = k"
proof -
  obtain n where n: "n \<le> 64" "yf_bit_cnt (2 ^ k) = of_nat n" "unat (2 ^ k :: u64) < 2 ^ n"
    "n \<noteq> 0 \<longrightarrow> 2 ^ (n - 1) \<le> unat (2 ^ k :: u64)" by (rule yf_bit_cnt_spec)
  have u: "unat (2 ^ k :: u64) = 2 ^ k" using assms by (intro unat_2p) simp
  have "k < n" using n(3) unfolding u by simp
  moreover have "n - 1 \<le> k" using n(4) \<open>k < n\<close> unfolding u by simp
  ultimately have "n = k + 1" by simp
  with assms n(2) show ?thesis by (simp add: unat_of_nat)
qed

lemma init_spec:
  assumes "yf_circular_buf_init size_arg ok room = Inr (r, cb)"
  shows "cb_inv cb" "cb_file cb = []" "cb_pos cb = 0" "cb_avail cb = min YF_CIRCULAR_BUF_MAX_NUM room * buf_size cb"
proof -
  from assms obtain w where w: "yf_align_2pow size_arg = Inr w"
    and cb: "cb = \<lparr> buf_size = unat w, buf_size_pow = unat (yf_bit_cnt w - 1), shrink_cnt = 0, bufs = [],
            head_index = 0, head_offset = 0, cursor_index = 0, cursor_offset = 0,
            tail_index = 0, tail_offset = 0, heap_room = room \<rparr>"
    by (auto simp: yf_circular_buf_init_def run_simps)
  from align_2pow_power [OF w] obtain k where k: "k < 64" "w = 2 ^ k" .
  have "buf_size cb = 2 ^ buf_size_pow cb" unfolding cb using bit_cnt_power [OF k(1)] k by (simp add: unat_2p)
  then have "cb_shape cb" by (simp add: cb_shape_def cb cb_place_def)
  then show "cb_inv cb" by (simp add: cb_inv_def) (simp add: cb cb_place_def cb_lin_def cb_rel_def yf_cb_diff_r_def)
  show "cb_file cb = []" "cb_pos cb = 0" "cb_avail cb = min YF_CIRCULAR_BUF_MAX_NUM room * buf_size cb"
    by (simp_all add: cb cb_file_def cb_pos_def cb_lin_def cb_rel_def yf_cb_diff_r_def cb_avail_def cb_cap_def
        cb_data_def cb_blocks_def)
qed

subsection \<open>Shrinking\<close>

lemma shrink_cnt_same [simp]:
  "cb_inv (cb\<lparr> shrink_cnt := k \<rparr>) = cb_inv cb" "cb_file (cb\<lparr> shrink_cnt := k \<rparr>) = cb_file cb"
  "cb_pos (cb\<lparr> shrink_cnt := k \<rparr>) = cb_pos cb"
  by (simp_all add: cb_inv_def cb_shape_def cb_place_def cb_lin_def cb_rel_def cb_file_def cb_pos_def cb_data_def cb_blocks_def)

lemma cut_blocks:
  fixes r :: nat
  assumes "cb_inv cb" "head_index cb = 0" "cb_rel cb (tail_index cb) < n" "n \<le> buf_used cb"
  defines "cb' \<equiv> cb\<lparr> bufs := take n (bufs cb), heap_room := r \<rparr>"
  shows "cb_inv cb'" "cb_file cb' = cb_file cb" "cb_pos cb' = cb_pos cb"
proof -
  note I = cb_invD [OF assms(1)]
  have n: "0 < n" "buf_used cb' = n" using assms(3,4) by (simp_all add: cb'_def)
  have rel: "cb_rel cb' i = i" "cb_rel cb i = i" for i using assms(2) by (simp_all add: cb'_def cb_rel_def yf_cb_diff_r_def)
  then have lin: "cb_lin cb' p = cb_lin cb p" for p by (simp add: cb_lin_def cb'_def)
  have "cb_shape cb'"
    using I(1) n assms(2-4) by (auto simp: cb_shape_def cb_place_def cb'_def dest: in_set_takeD split: if_splits)
  moreover have "cb_place cb' (cb_cursor cb)" "cb_place cb' (cb_tail cb)"
    using I(2,3,6) n assms(3,4) rel by (auto simp: cb_place_def cb'_def split: if_splits)
  ultimately show "cb_inv cb'" using I(4-6) rel by (simp add: cb_inv_def lin) (simp add: cb'_def)
  show "cb_pos cb' = cb_pos cb" by (simp add: cb_pos_def lin) (simp add: cb'_def)
  have "(cb_rel cb (tail_index cb) + 1) * buf_size cb \<le> n * buf_size cb" using assms(3) by (intro mult_le_mono1) simp
  with cb_placeD(1) [OF I(3)] have t: "cb_lin cb (cb_tail cb) \<le> n * buf_size cb" by (simp add: cb_lin_def)
  have "cb_data cb = cb_data cb' @ concat (drop n (bufs cb))"
    using assms(2) by (simp add: cb_data_def cb_blocks_def cb'_def flip: concat_append)
  moreover have "length (cb_data cb') = n * buf_size cb"
    using length_cb_data [OF \<open>cb_shape cb'\<close>] n by (simp add: cb'_def)
  ultimately show "cb_file cb' = cb_file cb"
    using t cb_invD(4,5) [OF assms(1)] unfolding cb_file_def lin by (simp add: cb'_def)
qed

lemma shrink_spec:
  assumes "cb_inv cb"
  shows "\<exists>cb'. yf_circular_buf_shrink cb = Inr cb' \<and> cb_inv cb' \<and> cb_file cb' = cb_file cb \<and> cb_pos cb' = cb_pos cb"
proof (cases "(shrink_cnt cb + 1) mod 256 < 32 \<or> buf_used cb \<le> 2")
  case True
  with assms show ?thesis by (auto simp: yf_circular_buf_shrink_def Let_def)
next
  case False
  let ?c = "cb\<lparr> shrink_cnt := 0 \<rparr>"
  let ?n = "buf_used cb" and ?b = "buf_size cb" and ?r = "cb_rel ?c (tail_index cb)"
  have c: "cb_inv ?c" using assms by simp
  note I = cb_invD [OF c] and R = reoder_grown [OF c]
  have "0 < buf_used ?c" using False by (cases "bufs cb") auto
  from cb_rel_less [OF I(1) cb_placeD(2) [OF I(3) this]] have r: "?r < ?n" by simp
  define t q where "t = ?n - 1 - ?r" and q: "q = max (Suc 0) (?n div 8)"
  then have n: "?n = t + (?r + 1)" using r by simp
  then have "?n * ?b = t * ?b + (?r + 1) * ?b" by (metis add_mult_distrib)
  moreover have "cb_lin ?c (cb_tail ?c) = ?r * ?b + tail_offset cb" by (simp add: cb_lin_def)
  ultimately have tw: "yf_circular_buf_tailed_wsize ?c - (int ?b - int (tail_offset cb)) = int (t * ?b)"
    using tailed_wsize [OF I(1,3)] by simp
  have p: "(2 :: int) ^ buf_size_pow cb = int ?b" "0 < ?b" using I(1) cb_shapeD(1) [OF I(1)] by (simp_all add: cb_shape_def)
  let ?s = "min q t"
  have sn: "min (int q) (int (t * ?b) div int ?b) = int ?s" "int (t * ?b) mod int ?b = 0" "nat (int ?n - int ?s) = ?n - ?s"
    using p(2) by simp_all
  have used: "buf_used (cb_space_reoder ?c) = ?n" "cb_rel (cb_space_reoder ?c) (tail_index (cb_space_reoder ?c)) = ?r"
    using R(1) by (simp_all add: cb_grown_def)
  have e: "yf_circular_buf_shrink cb = (if int ?s = 0 then Inr ?c else let d = cb_space_reoder ?c in
      Inr (d\<lparr> bufs := take (?n - ?s) (bufs d), heap_room := heap_room d + (?n - (?n - ?s)) \<rparr>))"
  proof -
    have "yf_circular_buf_shrink cb = (if int ?s = 0 then Inr ?c else let d = cb_space_reoder ?c;
        n = nat (int (buf_used d) - int ?s) in
        Inr (d\<lparr> bufs := take n (bufs d), heap_room := heap_room d + (buf_used d - n) \<rparr>))"
      using False sn(2) by (simp add: yf_circular_buf_shrink_def Let_def tw p(1) q [symmetric] sn(1)
          del: of_nat_mult of_nat_min split del: if_split cong: if_cong)
    then show ?thesis by (simp only: Let_def used(1) sn(3))
  qed
  show ?thesis
  proof (cases "?s = 0")
    case True
    with e assms show ?thesis by simp
  next
    case ns: False
    let ?d = "cb_space_reoder ?c"
    have "?r < ?n - ?s" using n by linarith
    with cut_blocks [OF cb_grown_inv(1) [OF c R(1)] R(2), of "?n - ?s" "heap_room ?d + (?n - (?n - ?s))"] used
      cb_grown_inv(2,3) [OF c R(1)] e ns
    show ?thesis by (simp add: Let_def)
  qed
qed

subsection \<open>The contract\<close>

locale seq_file =
  fixes invar :: "'f \<Rightarrow> bool" and content :: "'f \<Rightarrow> 'b list" and pos room :: "'f \<Rightarrow> nat"
    and fwrite :: "'b list \<Rightarrow> 'f \<Rightarrow> (int \<times> 'f) run"
    and fread :: "int \<Rightarrow> bool \<Rightarrow> 'f \<Rightarrow> (int \<times> 'b list \<times> 'f) run"
    and fseek :: "int \<Rightarrow> seek_from \<Rightarrow> 'f \<Rightarrow> int \<times> 'f"
  assumes pos_le: "invar f \<Longrightarrow> pos f \<le> length (content f)"
    and write_ok: "invar f \<Longrightarrow> bs \<noteq> [] \<Longrightarrow> length bs \<le> room f \<Longrightarrow>
      \<exists>f'. fwrite bs f = Inr (int (length bs), f') \<and> invar f' \<and>
        content f' = overwrite (content f) (pos f) bs \<and> pos f' = pos f + length bs"
    and read_ok: "invar f \<Longrightarrow> 0 < n \<Longrightarrow> pos f + n \<le> length (content f) \<Longrightarrow>
      \<exists>f'. fread (int n) peek f = Inr (int n, take n (drop (pos f) (content f)), f') \<and> invar f' \<and>
        content f' = content f \<and> pos f' = (if peek then pos f else pos f + n)"
    and seek_ok: "invar f \<Longrightarrow> n \<le> pos f \<Longrightarrow>
      \<exists>f'. fseek (- int n) SEEK_CUR f = (YF_OK, f') \<and> invar f' \<and> content f' = content f \<and> pos f' = pos f - n"
begin

lemma write_back_read:
  assumes "invar f" "bs \<noteq> []" "length bs \<le> room f"
  shows "\<exists>f1 f2 f3. fwrite bs f = Inr (int (length bs), f1) \<and> fseek (- int (length bs)) SEEK_CUR f1 = (YF_OK, f2) \<and>
    fread (int (length bs)) False f2 = Inr (int (length bs), bs, f3) \<and> invar f3 \<and>
    content f3 = overwrite (content f) (pos f) bs \<and> pos f3 = pos f + length bs"
proof -
  note p = pos_le [OF assms(1)]
  from write_ok [OF assms] obtain f1 where W: "fwrite bs f = Inr (int (length bs), f1)" "invar f1"
    "content f1 = overwrite (content f) (pos f) bs" "pos f1 = pos f + length bs" by blast
  from seek_ok [OF W(2), of "length bs"] W(4) obtain f2 where S: "fseek (- int (length bs)) SEEK_CUR f1 = (YF_OK, f2)"
    "invar f2" "content f2 = content f1" "pos f2 = pos f" by auto
  have le: "pos f2 + length bs \<le> length (content f2)"
    using p by (simp add: S(3,4) W(3) overwrite_def)
  have "take (length bs) (drop (pos f2) (content f2)) = bs"
    using p by (simp add: S(3,4) W(3) overwrite_def)
  with read_ok [OF S(2) _ le, of False] assms(2) W S show ?thesis by fastforce
qed

end

interpretation cbf: seq_file cb_inv cb_file cb_pos cb_avail yf_cb_fwrite yf_cb_fread yf_cb_fseek
proof
  fix f :: circular_buf and bs :: "u8 list" and n :: nat and peek :: bool
  assume f: "cb_inv f"
  show "cb_pos f \<le> length (cb_file f)" by (rule cb_pos_le [OF f])
  show "\<exists>f'. yf_cb_fwrite bs f = Inr (int (length bs), f') \<and> cb_inv f' \<and>
      cb_file f' = overwrite (cb_file f) (cb_pos f) bs \<and> cb_pos f' = cb_pos f + length bs"
    if "bs \<noteq> []" "length bs \<le> cb_avail f"
  proof -
    have "min (length bs) (cb_avail f) = length bs" using that(2) by simp
    moreover have "0 < cb_avail f" using that by (metis length_greater_0_conv less_le_trans)
    ultimately have "min (length bs) (cb_avail f) = length bs" "0 < cb_avail f" by simp_all
    with fwrite_spec [OF f that(1)] show ?thesis by auto
  qed
  show "\<exists>f'. yf_cb_fread (int n) peek f = Inr (int n, take n (drop (cb_pos f) (cb_file f)), f') \<and> cb_inv f' \<and>
      cb_file f' = cb_file f \<and> cb_pos f' = (if peek then cb_pos f else cb_pos f + n)"
    if "0 < n" "cb_pos f + n \<le> length (cb_file f)"
  proof -
    have "min (length (cb_file f) - cb_pos f) (nat (int n)) = n" "0 < int n" using that by auto
    with fread_spec [OF f this(2), of peek] show ?thesis by auto
  qed
  show "\<exists>f'. yf_cb_fseek (- int n) SEEK_CUR f = (YF_OK, f') \<and> cb_inv f' \<and> cb_file f' = cb_file f \<and> cb_pos f' = cb_pos f - n"
    if "n \<le> cb_pos f"
    using fseek_spec [OF f, of "- int n" SEEK_CUR] that cb_pos_le [OF f]
    by (auto simp: seek_target_def nat_diff_distrib)
qed

subsection \<open>Runs\<close>

text \<open>
  The file as a client sees it: its bytes, a position and the number of bytes it can grow to. A step
  is \<open>None\<close> where the buffer promises nothing: a write to a full file, and growing by truncation, which
  fixes the length only.
\<close>

datatype file_op = Read int bool | Write "u8 list" | Seek int seek_from | Truncate int

record afile =
  a_bytes :: "u8 list"
  a_pos :: nat
  a_max :: nat

definition file_step :: "file_op \<Rightarrow> afile \<Rightarrow> ((int \<times> u8 list) \<times> afile) option" where
  "file_step op a = (case op of
     Read n peek \<Rightarrow>
       if n \<le> 0 then Some ((n, []), a)
       else let k = min (length (a_bytes a) - a_pos a) (nat n) in
         Some ((int k, take k (drop (a_pos a) (a_bytes a))), if peek then a else a\<lparr> a_pos := a_pos a + k \<rparr>)
   | Write bs \<Rightarrow>
       if bs = [] then Some ((0, []), a)
       else if a_pos a = a_max a then None
       else let k = min (length bs) (a_max a - a_pos a) in
         Some ((int k, []), a\<lparr> a_bytes := overwrite (a_bytes a) (a_pos a) (take k bs), a_pos := a_pos a + k \<rparr>)
   | Seek off fw \<Rightarrow>
       (case (case fw of SEEK_SET \<Rightarrow> Some off | SEEK_CUR \<Rightarrow> Some (off + int (a_pos a))
           | SEEK_END \<Rightarrow> Some (off + int (length (a_bytes a))) | SEEK_other \<Rightarrow> None) of
          None \<Rightarrow> Some ((YF_ERROR, []), a)
        | Some t \<Rightarrow> if 0 \<le> t \<and> t \<le> int (length (a_bytes a)) then Some ((YF_OK, []), a\<lparr> a_pos := nat t \<rparr>)
            else Some ((YF_ERROR, []), a))
   | Truncate n \<Rightarrow>
       if n < 0 then Some ((YF_ERROR, []), a)
       else if n \<le> int (length (a_bytes a))
       then Some ((YF_OK, []), a\<lparr> a_bytes := take (nat n) (a_bytes a), a_pos := min (a_pos a) (nat n) \<rparr>)
       else if n > int (a_max a) then Some ((YF_ERROR, []), a) else None)"

definition cb_step :: "file_op \<Rightarrow> circular_buf \<Rightarrow> ((int \<times> u8 list) \<times> circular_buf) run" where
  "cb_step op cb = (case op of
     Read n peek \<Rightarrow> run_bind (yf_cb_fread n peek cb) (\<lambda>(r, bs, cb). Inr ((r, bs), cb))
   | Write bs \<Rightarrow> run_bind (yf_cb_fwrite bs cb) (\<lambda>(r, cb). Inr ((r, []), cb))
   | Seek off fw \<Rightarrow> (let (r, cb) = yf_cb_fseek off fw cb in Inr ((r, []), cb))
   | Truncate n \<Rightarrow> (let (r, cb) = yf_cb_ftruncate n cb in Inr ((r, []), cb)))"

fun file_run :: "file_op list \<Rightarrow> afile \<Rightarrow> ((int \<times> u8 list) list \<times> afile) option" where
  "file_run [] a = Some ([], a)"
| "file_run (op # ops) a = (case file_step op a of None \<Rightarrow> None
    | Some (r, a) \<Rightarrow> (case file_run ops a of None \<Rightarrow> None | Some (rs, a) \<Rightarrow> Some (r # rs, a)))"

fun cb_run :: "file_op list \<Rightarrow> circular_buf \<Rightarrow> ((int \<times> u8 list) list \<times> circular_buf) run" where
  "cb_run [] cb = Inr ([], cb)"
| "cb_run (op # ops) cb = run_bind (cb_step op cb) (\<lambda>(r, cb).
     run_bind (cb_run ops cb) (\<lambda>(rs, cb). Inr (r # rs, cb)))"

definition cb_abs :: "circular_buf \<Rightarrow> afile" where
  "cb_abs cb = \<lparr> a_bytes = cb_file cb, a_pos = cb_pos cb, a_max = cb_avail cb + cb_pos cb \<rparr>"

lemma cb_abs_simps [simp]:
  "a_bytes (cb_abs cb) = cb_file cb" "a_pos (cb_abs cb) = cb_pos cb" "a_max (cb_abs cb) = cb_avail cb + cb_pos cb"
  by (simp_all add: cb_abs_def)

lemma file_le_max:
  assumes "cb_inv cb"
  shows "length (cb_file cb) \<le> cb_avail cb + cb_pos cb"
  using cb_invD(1,4,5,7) [OF assms] cb_used_cap [OF cb_invD(1) [OF assms]]
  by (simp add: length_cb_file [OF assms] cb_avail_def cb_pos_def)

lemma step_refines:
  assumes "cb_inv cb" "file_step op (cb_abs cb) = Some (r, a)"
  shows "\<exists>cb'. cb_step op cb = Inr (r, cb') \<and> cb_inv cb' \<and> cb_abs cb' = a"
proof (cases op)
  case (Read n peek)
  show ?thesis
  proof (cases "n \<le> 0")
    case True
    have "int (cb_lin cb (cb_cursor cb)) \<le> int (cb_lin cb (cb_tail cb))" using cb_invD(5) [OF assms(1)] by simp
    then have "yf_cb_fread n peek cb = Inr (n, [], cb)"
      using True by (simp add: yf_cb_fread_def Let_def rest_rsize [OF assms(1)] min_def)
    with True assms Read show ?thesis by (simp add: file_step_def cb_step_def)
  next
    case False
    then have n: "0 < n" by simp
    from fread_spec [OF assms(1) n, of peek] False assms(2) Read show ?thesis
      by (auto simp: file_step_def cb_step_def Let_def cb_abs_def)
  qed
next
  case (Write bs)
  show ?thesis
  proof (cases "bs = []")
    case True
    then have "yf_cb_fwrite bs cb = Inr (0, cb)" by (simp add: yf_cb_fwrite_def Let_def)
    with True assms Write show ?thesis by (simp add: file_step_def cb_step_def)
  next
    case False
    with assms(2) Write have av: "0 < cb_avail cb" by (auto simp: file_step_def split: if_splits)
    from fwrite_spec [OF assms(1) False av] False av assms(2) Write show ?thesis
      by (auto simp: file_step_def cb_step_def Let_def cb_abs_def)
  qed
next
  case (Seek off fw)
  have e: "file_step op (cb_abs cb) = (case seek_target off fw cb of None \<Rightarrow> Some ((YF_ERROR, []), cb_abs cb)
      | Some t \<Rightarrow> if 0 \<le> t \<and> t \<le> int (length (cb_file cb)) then Some ((YF_OK, []), (cb_abs cb)\<lparr> a_pos := nat t \<rparr>)
          else Some ((YF_ERROR, []), cb_abs cb))"
    by (cases fw) (simp_all add: file_step_def Seek seek_target_def)
  note S = fseek_spec [OF assms(1), of off fw] and c = cb_step_def [of op cb]
  show ?thesis
  proof (cases "seek_target off fw cb")
    case None
    with S assms e c Seek show ?thesis by simp
  next
    case (Some t)
    show ?thesis
    proof (cases "0 \<le> t \<and> t \<le> int (length (cb_file cb))")
      case True
      with S Some obtain cb' where F: "yf_cb_fseek off fw cb = (YF_OK, cb')" "cb_inv cb'" "cb_file cb' = cb_file cb"
        "cb_pos cb' = nat t" "cb_avail cb' + nat t = cb_avail cb + cb_pos cb" by auto
      have "a = (cb_abs cb)\<lparr> a_pos := nat t \<rparr>" "r = (YF_OK, [])" using assms(2) e Some True by auto
      moreover have "cb_abs cb' = (cb_abs cb)\<lparr> a_pos := nat t \<rparr>" using F by (simp add: cb_abs_def)
      ultimately show ?thesis using c Seek F(1,2) by simp
    next
      case False
      with S Some have "yf_cb_fseek off fw cb = (YF_ERROR, cb)" by simp
      with assms e Some False c Seek show ?thesis by auto
    qed
  qed
next
  case (Truncate n)
  note cut = truncate_cut_spec [OF assms(1), of "nat n"] and grow = truncate_grow_spec [OF assms(1), of "nat n"]
  consider "n < 0" | "0 \<le> n" "n \<le> int (length (cb_file cb))" | "0 \<le> n" "int (cb_avail cb + cb_pos cb) < n"
    using assms(2) Truncate by (auto simp: file_step_def split: if_splits)
  then show ?thesis
  proof cases
    case 1
    with assms Truncate show ?thesis by (simp add: file_step_def cb_step_def yf_cb_ftruncate_def)
  next
    case 2
    then have "nat n \<le> length (cb_file cb)" "int (nat n) = n" by simp_all
    with cut obtain cb' where T: "yf_cb_ftruncate n cb = (YF_OK, cb')" "cb_inv cb'" "cb_file cb' = take (nat n) (cb_file cb)"
      "cb_pos cb' = min (cb_pos cb) (nat n)" "cb_avail cb' + cb_pos cb' = cb_avail cb + cb_pos cb" by auto
    with 2 assms(2) Truncate show ?thesis by (auto simp: file_step_def cb_step_def cb_abs_def)
  next
    case 3
    then have "length (cb_file cb) < nat n" "\<not> nat n \<le> cb_avail cb + cb_pos cb" "int (nat n) = n"
      and le: "\<not> n \<le> int (length (cb_file cb))" using file_le_max [OF assms(1)] by linarith+
    with grow obtain m cb' where G: "cb_grown m cb cb'" "cb_avail cb' = cb_avail cb"
      "yf_cb_ftruncate n cb = (YF_ERROR, cb')" by auto
    with cb_grown_inv [OF assms(1) G(1)] 3 le assms(2) Truncate show ?thesis
      by (simp add: file_step_def cb_step_def cb_abs_def split: if_splits)
  qed
qed

lemma run_refines:
  assumes "cb_inv cb" "file_run ops (cb_abs cb) = Some (rs, a)"
  shows "\<exists>cb'. cb_run ops cb = Inr (rs, cb') \<and> cb_inv cb' \<and> cb_abs cb' = a"
  using assms
proof (induction ops arbitrary: cb rs)
  case (Cons op ops)
  from Cons.prems(2) obtain r b rs' where s: "file_step op (cb_abs cb) = Some (r, b)"
    "file_run ops b = Some (rs', a)" "rs = r # rs'" by (auto split: option.splits)
  from step_refines [OF Cons.prems(1) s(1)] obtain c where c: "cb_step op cb = Inr (r, c)" "cb_inv c" "cb_abs c = b" by blast
  from Cons.IH [OF c(2)] s(2,3) c show ?case by auto
qed simp

subsection \<open>Full buffers and regrown files\<close>

lemma full_write:
  assumes "cb_inv cb" "cb_avail cb = 0" "0 < buf_used cb" "buf \<noteq> []" "head_offset cb = 0"
  shows "\<exists>cb'. yf_cb_fwrite buf cb = Inr (0, cb') \<and> cb_inv cb' \<and> cb_file cb' = cb_file cb \<and> cb_pos cb' = 0 \<and>
    cb_avail cb' = cb_pos cb"
proof -
  obtain f cb1 where E: "yf_cb_space_enlarge (int (length buf)) cb = (f, cb1)" by fastforce
  have e: "(if yf_circular_buf_free_wsize cb < int (length buf) then yf_cb_space_enlarge (int (length buf)) cb
      else (yf_circular_buf_free_wsize cb, cb)) = (f, cb1)"
    using E by (auto simp: yf_cb_space_enlarge_def Let_def)
  from enlarge_spec [OF assms(1) E] obtain m where G: "cb_grown m cb cb1" and room: "buf_used cb1 + heap_room cb1 = buf_used cb + heap_room cb"
    and f: "f = yf_circular_buf_free_wsize cb1" and mk: "min (int (length buf)) f = 0" using assms(2) by auto
  note I1 = cb_grown_inv [OF assms(1) G] and av = cb_grown_avail [OF G room]
  note J = cb_invD [OF I1(1)]
  let ?c = "cb_lin cb1 (cb_cursor cb1)" and ?n = "buf_used cb1" and ?b = "buf_size cb1"
  have h: "head_offset cb1 = 0" "cursor_offset cb1 = cursor_offset cb" using G assms(5) by (simp_all add: cb_grown_def)
  have n: "0 < ?n" using G assms(3) by (simp add: cb_grown_def)
  have "f \<le> 0" using mk assms(4) by (auto simp: min_def split: if_splits)
  moreover have fr: "f = int (?n * ?b) - int ?c" unfolding f by (rule free_wsize [OF J(1,2)])
  ultimately have full: "?c = ?n * ?b" and f0: "f = 0" using cb_lin_le [OF J(1,2)] by linarith+
  have "cb_lin cb1 (cb_tail cb1) = ?n * ?b" using J(5,7) full by simp
  then have "yf_circular_buf_tailed_wsize cb1 = 0" by (simp add: tailed_wsize [OF J(1,3)])
  then have wt: "cb_space_write_tail 0 0 cb1 = cb1" by (simp add: cb_space_write_tail_def)
  have i: "cursor_index cb1 < ?n" "cursor_offset cb1 \<le> ?b" using cb_placeD [OF J(2)] n by auto
  have rel: "cb_rel cb1 (cursor_index cb1) < ?n" by (rule cb_rel_less [OF J(1) i(1)])
  then have "(cb_rel cb1 (cursor_index cb1) + 1) * ?b \<le> ?n * ?b" by (intro mult_le_mono1) simp
  with full i(2) have off: "cursor_offset cb1 = ?b" "(cb_rel cb1 (cursor_index cb1) + 1) * ?b = ?n * ?b"
    by (simp_all add: cb_lin_def)
  then have "cb_rel cb1 (cursor_index cb1) + 1 = ?n" using cb_shapeD(1) [OF J(1)] by (simp only: mult_cancel2) auto
  then have inc: "yf_cb_increase (cursor_index cb1) ?n = head_index cb1"
    using i(1) cb_head_less [OF J(1) i(1)] by (auto simp: cb_rel_def yf_cb_diff_r_def yf_cb_increase_def split: if_splits)
  let ?c' = "set_cursor (cb_head cb1) cb1"
  have pre: "preprocess_cursor cb1 (cursor_index cb1, cursor_offset cb) = (head_index cb1, 0)"
    using off(1) h(2) inc by (simp add: preprocess_cursor_def)
  have W: "yf_cb_fwrite buf cb = Inr (0, ?c')"
    using assms(4) mk h(1) by (simp add: yf_cb_fwrite_def Let_def e f0 wt pre)
  have "cb_inv ?c'" "cb_pos ?c' = 0"
    using head_at_cursor [OF J(1,3)] h(1) by simp_all
  moreover have "cb_file ?c' = cb_file cb" using I1(2) by (simp add: cb_file_def [of "set_cursor _ _"] cb_file_def [of cb1])
  moreover have "cb_avail ?c' = cb_pos cb"
    using av assms(2) full h(1) I1(3) cb_used_cap [OF J(1)] by (simp add: cb_avail_def cb_pos_def cb_lin_def)
  ultimately show ?thesis using W by blast
qed

lemma truncate_regrow:
  assumes "cb_inv cb" "n \<le> length (cb_file cb)"
  shows "\<exists>cb' cb''. yf_cb_ftruncate (int n) cb = (YF_OK, cb') \<and> cb_file cb' = take n (cb_file cb) \<and>
    yf_cb_ftruncate (int (length (cb_file cb))) cb' = (YF_OK, cb'') \<and> cb_file cb'' = cb_file cb"
proof -
  from truncate_cut_spec [OF assms] obtain cb' where T: "yf_cb_ftruncate (int n) cb = (YF_OK, cb')" "cb_inv cb'"
    "cb_file cb' = take n (cb_file cb)" "cb_data cb' = cb_data cb" "head_offset cb' = head_offset cb"
    "cb_avail cb' + cb_pos cb' = cb_avail cb + cb_pos cb" by blast
  show ?thesis
  proof (cases "n = length (cb_file cb)")
    case True
    then have "yf_cb_ftruncate (int n) cb' = (YF_OK, cb')"
      by (simp add: yf_cb_ftruncate_def Let_def fsize_file [OF T(2)] T(3))
    with T True show ?thesis by auto
  next
    case False
    let ?l = "length (cb_file cb)" and ?h = "head_offset cb"
    note len = length_cb_file [OF assms(1)]
    have lt: "length (cb_file cb') < ?l" using assms(2) False by (simp add: T(3))
    have room: "?l \<le> cb_avail cb' + cb_pos cb'" using file_le_max [OF assms(1)] T(6) by simp
    from truncate_grow_spec [OF T(2) lt] room obtain m c where G: "cb_grown m cb' c"
      "yf_cb_ftruncate (int ?l) cb' = (YF_OK, cb_space_write_tail (yf_circular_buf_free_wsize c) (int (?l - cb_pos cb')) c)"
      "cb_lin c (cb_cursor c) + (?l - cb_pos cb') \<le> buf_used c * buf_size c" by auto
    note I = cb_grown_inv [OF T(2) G(1)]
    note W = write_tail_spec [OF I(1) G(3)]
    let ?w = "cb_space_write_tail (yf_circular_buf_free_wsize c) (int (?l - cb_pos cb')) c"
    obtain q where q: "?w = set_tail q c" using W(1) by blast
    have g: "head_offset c = ?h" "cb_data c = cb_data cb @ replicate (m * buf_size cb') 0"
      using G(1) T(4,5) by (simp_all add: cb_grown_def)
    have p: "cb_pos cb' \<le> ?l" using cb_pos_le [OF T(2)] lt by simp
    have "cb_lin c (cb_cursor c) = ?h + cb_pos cb'" using cb_invD(4) [OF I(1)] g(1) I(3) by (simp add: cb_pos_def)
    moreover have "cb_lin c (cb_tail c) = ?h + length (cb_file cb')"
      using length_cb_file [OF I(1)] I(2) g(1) cb_invD(4,5) [OF I(1)] by simp
    ultimately have t: "cb_lin ?w (cb_tail ?w) = ?h + ?l" unfolding W(3) using p lt by simp
    have D: "?h + ?l \<le> length (cb_data cb)" using cb_invD(4,5,7) [OF assms(1)] length_cb_data [OF cb_invD(1) [OF assms(1)]] by (simp add: len)
    have w: "cb_data ?w = cb_data c" "head_offset ?w = ?h" by (simp_all add: q g(1))
    have "cb_file ?w = take ?l (drop ?h (cb_data c))" unfolding cb_file_def [of ?w] t w by simp
    also have "\<dots> = take ?l (drop ?h (cb_data cb))" using D by (simp add: g(2))
    also have "\<dots> = cb_file cb" using len by (simp add: cb_file_def)
    finally show ?thesis using T(1,3) G(2) by blast
  qed
qed

subsection \<open>Properties\<close>

text \<open>A buffer of two blocks of four bytes that holds seven bytes across its end, two of them read.\<close>

definition some_cb :: circular_buf where
  "some_cb = \<lparr> buf_size = 4, buf_size_pow = 2, shrink_cnt = 0, bufs = [[5, 6, 7, 0], [1, 2, 3, 4]],
     head_index = 1, head_offset = 0, cursor_index = 1, cursor_offset = 2, tail_index = 0, tail_offset = 3,
     heap_room = 1 \<rparr>"

lemma some_cb:
  "cb_inv some_cb" "cb_file some_cb = [1, 2, 3, 4, 5, 6, 7]" "cb_pos some_cb = 2" "cb_avail some_cb = 10"
  by (simp_all add: some_cb_def cb_inv_def cb_shape_def cb_place_def YF_CIRCULAR_BUF_MAX_NUM_def cb_lin_def cb_rel_def
      yf_cb_diff_r_def cb_file_def cb_data_def cb_blocks_def cb_pos_def cb_avail_def cb_cap_def)


lemma init_4: "\<exists>cb. yf_circular_buf_init 4 True 3 = Inr (0, cb) \<and> buf_size cb = 4"
proof -
  have "yf_align_2pow 4 = Inr 4"
    by (simp add: yf_align_2pow_def yf_bit_cnt_def yf_bit_cnt_loop.simps yf_bitcnt2val_def push_bit_eq_mult)
  then show ?thesis by (simp add: yf_circular_buf_init_def)
qed


text \<open>
  C30: What is written to a circular buffer is read back after a seek to where it was written, and it
  replaces just the bytes there.
\<close>

theorem yf_cb_write_back:
  assumes "cb_inv cb" "bs \<noteq> []" "length bs \<le> cb_avail cb"
  shows "\<exists>c1 c2 c3. yf_cb_fwrite bs cb = Inr (int (length bs), c1) \<and>
    yf_cb_fseek (- int (length bs)) SEEK_CUR c1 = (YF_OK, c2) \<and>
    yf_cb_fread (int (length bs)) False c2 = Inr (int (length bs), bs, c3) \<and> cb_inv c3 \<and>
    cb_file c3 = overwrite (cb_file cb) (cb_pos cb) bs \<and> cb_pos c3 = cb_pos cb + length bs"
  by (rule cbf.write_back_read [OF assms])

theorem yf_cb_write_back_witness:
  "\<exists>c1 c2 c3. yf_cb_fwrite [8, 8, 8] some_cb = Inr (3, c1) \<and> yf_cb_fseek (-3) SEEK_CUR c1 = (YF_OK, c2) \<and>
    yf_cb_fread 3 False c2 = Inr (3, [8, 8, 8], c3) \<and> cb_file c3 = [1, 2, 8, 8, 8, 6, 7]"
  using yf_cb_write_back [OF some_cb(1), of "[8, 8, 8]"] by (auto simp: some_cb overwrite_def)



text \<open>
  C32: Moving the head of a circular buffer drops the bytes before it, the first \<open>n\<close> or, for 0, those
  before the cursor; the cursor keeps its byte, or goes to the new head if that was dropped.
  The code misses the last case, a cursor at the start of a buffer whose blocks are all full.
\<close>

theorem yf_cb_fhead_set_drops:
  assumes "cb_inv cb" "n \<le> length (cb_file cb)"
    and "cb_pos cb = 0 \<Longrightarrow> length (cb_file cb) < buf_used cb * buf_size cb \<or> n \<le> buf_size cb"
  shows "\<exists>cb'. yf_cb_fhead_set (int n) cb = (YF_OK, cb') \<and> cb_inv cb' \<and>
    (let k = (if n = 0 then cb_pos cb else n) in
      cb_file cb' = drop k (cb_file cb) \<and> cb_pos cb' = cb_pos cb - k)"
proof (rule fhead_set_spec [OF assms(1,2)])
  assume "cb_lin cb (cb_cursor cb) = 0"
  with assms(3) cb_invD(4) [OF assms(1)]
  show "cb_lin cb (cb_tail cb) < buf_used cb * buf_size cb \<or> n \<le> buf_size cb"
    by (simp add: cb_pos_def length_cb_file [OF assms(1)])
qed

theorem yf_cb_fhead_set_drops_witness:
  "\<exists>cb'. yf_cb_fhead_set 5 some_cb = (YF_OK, cb') \<and> cb_inv cb' \<and> cb_file cb' = [6, 7] \<and> cb_pos cb' = 0"
  using yf_cb_fhead_set_drops [OF some_cb(1), of 5] by (simp add: some_cb)

text \<open>
  C33: A write that finds a circular buffer full reports 0 bytes, but it moves the cursor to the start of
  the first block, so that the next try overwrites the oldest bytes of the file.
\<close>

theorem yf_cb_full_write_wraps:
  assumes "cb_inv cb" "cb_avail cb = 0" "0 < buf_used cb" "head_offset cb = 0" "buf \<noteq> []"
    and "ys \<noteq> []" "length ys \<le> cb_pos cb"
  shows "\<exists>cb' cb''. yf_cb_fwrite buf cb = Inr (0, cb') \<and> yf_cb_fwrite ys cb' = Inr (int (length ys), cb'') \<and>
    cb_file cb'' = overwrite (cb_file cb) 0 ys"
proof -
  from full_write [OF assms(1-3,5,4)] obtain cb' where W: "yf_cb_fwrite buf cb = Inr (0, cb')" "cb_inv cb'"
    "cb_file cb' = cb_file cb" "cb_pos cb' = 0" "cb_avail cb' = cb_pos cb" by blast
  with cbf.write_ok [OF W(2) assms(6)] assms(7) show ?thesis by auto
qed

definition full_cb :: circular_buf where
  "full_cb = some_cb\<lparr> tail_offset := 4, cursor_index := 0, cursor_offset := 4, heap_room := 0 \<rparr>"

theorem yf_cb_full_write_wraps_witness:
  "\<exists>cb' cb''. yf_cb_fwrite [9, 9] full_cb = Inr (0, cb') \<and> yf_cb_fwrite [9, 9] cb' = Inr (2, cb'') \<and>
    cb_file cb'' = [9, 9, 3, 4, 5, 6, 7, 0]"
proof -
  have F: "cb_inv full_cb" "cb_file full_cb = [1, 2, 3, 4, 5, 6, 7, 0]" "cb_pos full_cb = 8" "cb_avail full_cb = 0"
      "0 < buf_used full_cb" "head_offset full_cb = 0"
    by (simp_all add: full_cb_def some_cb_def cb_inv_def cb_shape_def cb_place_def YF_CIRCULAR_BUF_MAX_NUM_def cb_lin_def
      cb_rel_def yf_cb_diff_r_def cb_file_def cb_data_def cb_blocks_def cb_pos_def cb_avail_def cb_cap_def)
  from yf_cb_full_write_wraps [OF F(1,4-6), of "[9, 9]" "[9, 9]"] show ?thesis by (simp add: F overwrite_def)
qed

text \<open>
  Cutting a file and growing it to its old length brings the old bytes back: growing by
  truncation clears nothing.
\<close>

theorem yf_cb_truncate_keeps_bytes:
  assumes "cb_inv cb" "n \<le> length (cb_file cb)"
  shows "\<exists>cb' cb''. yf_cb_ftruncate (int n) cb = (YF_OK, cb') \<and> cb_file cb' = take n (cb_file cb) \<and>
    yf_cb_ftruncate (int (length (cb_file cb))) cb' = (YF_OK, cb'') \<and> cb_file cb'' = cb_file cb"
  by (rule truncate_regrow [OF assms])

theorem yf_cb_truncate_keeps_bytes_witness:
  "\<exists>cb' cb''. yf_cb_ftruncate 3 some_cb = (YF_OK, cb') \<and> cb_file cb' = [1, 2, 3] \<and>
    yf_cb_ftruncate 7 cb' = (YF_OK, cb'') \<and> cb_file cb'' = [1, 2, 3, 4, 5, 6, 7]"
  using yf_cb_truncate_keeps_bytes [OF some_cb(1), of 3] by (simp add: some_cb)

end
