(* ===== verification/Slab_Pool.thy ===== *)
theory Slab_Pool
  imports Bit_Op Mem_Pool
begin

section \<open>Slab pools\<close>

text \<open>
  Models \<^verbatim>\<open>base_struct/yf_slab_pool.h\<close> and \<^verbatim>\<open>yf_slab_pool.c\<close>: allocation in a few sizes from a memory
  pool (theory Mem_Pool), with a free list for each size. A slab is a head of 8 bytes and the data
  after it; the heads are a map from their addresses. The free lists, which the code threads through the data of free slabs, are
  sequences of addresses. The 16-bit sizes are numbers with the wrap-around written out.
\<close>

record slab_trick =
  st_magic :: u32
  st_used :: bool
  st_size :: nat
  st_emagic :: nat

record slab_pool =
  base_pool :: "pool \<times> range list"
  free_slabs :: "addr list list"
  sizes :: "nat list"
  types :: nat
  tricks :: "addr \<Rightarrow> slab_trick option"

definition YF_SLAB_TRICK_SIZE :: nat where "YF_SLAB_TRICK_SIZE = 8"

definition yf_align_mem :: "nat \<Rightarrow> nat" where "yf_align_mem n = align_up n YF_ALIGNMENT"

definition yf_slab_set_trick :: "addr \<Rightarrow> nat \<Rightarrow> slab_trick" where
  "yf_slab_set_trick slab size_arg =
     \<lparr> st_magic = YF_MAGIC_VAL, st_used = True, st_size = size_arg mod 2 ^ 14, st_emagic = slab mod 2 ^ 17 \<rparr>"

definition yf_slab_check_trick :: "addr \<Rightarrow> slab_trick \<Rightarrow> bool" where
  "yf_slab_check_trick slab t \<longleftrightarrow> st_magic t = YF_MAGIC_VAL \<and> st_emagic t = slab mod 2 ^ 17"

subsection \<open>Creation\<close>

text \<open>The variable arguments, ended by a size whose low 16 bits are 0; \<open>None\<close> is the error return.\<close>

fun read_sizes :: "nat list \<Rightarrow> nat list \<Rightarrow> nat list option run" where
  "read_sizes [] slab_size = Inl Bad_argument"
| "read_sizes (a # as) slab_size =
     (let input_size = a mod 2 ^ 16 in
      if input_size = 0 then Inr (Some slab_size)
      else
        let input_size = yf_align_mem input_size mod 2 ^ 16 in
        if input_size \<ge> 2 ^ 14 then Inr None
        else require Out_of_bounds (length slab_size < 64) (read_sizes as (slab_size @ [input_size])))"

definition swap_at :: "nat \<Rightarrow> nat \<Rightarrow> nat list \<Rightarrow> nat list" where
  "swap_at i j xs = xs[i := xs ! j, j := xs ! i]"

text \<open>The loops that sort and remove duplicates; \<open>cnt\<close> is \<^verbatim>\<open>slab_cnts\<close>.\<close>

function slab_inner :: "nat \<Rightarrow> nat \<Rightarrow> nat \<Rightarrow> nat list \<Rightarrow> nat \<times> nat list" where
  "slab_inner i j cnt xs =
     (if j < cnt
      then
        if xs ! j < xs ! i then slab_inner i (j + 1) cnt (swap_at j i xs)
        else if xs ! j = xs ! i
        then
          let cnt' = cnt - 1 in
          if j = cnt' then (cnt', xs) else slab_inner i j cnt' (swap_at j cnt' xs)
        else slab_inner i (j + 1) cnt xs
      else (cnt, xs))"
  by pat_completeness auto
termination by (relation "measure (\<lambda>(i, j, cnt, xs). cnt - j)") auto

declare slab_inner.simps [simp del]

lemma slab_inner_cnt: "fst (slab_inner i j cnt xs) \<le> cnt"
proof (induction i j cnt xs rule: slab_inner.induct)
  case (1 i j cnt xs)
  then show ?case by (subst slab_inner.simps) (auto simp: Let_def)
qed

function slab_outer :: "nat \<Rightarrow> nat \<Rightarrow> nat list \<Rightarrow> nat \<times> nat list" where
  "slab_outer i cnt xs =
     (if i < cnt then let (cnt', xs) = slab_inner i (i + 1) cnt xs in slab_outer (i + 1) cnt' xs else (cnt, xs))"
  by pat_completeness auto
termination
proof (relation "measure (\<lambda>(i, cnt, xs). cnt - i)", simp)
  fix i cnt cnt' :: nat and xs ys p
  assume "i < cnt" "p = slab_inner i (i + 1) cnt xs" "(cnt', ys) = p"
  then have "cnt' \<le> cnt" "i < cnt" using slab_inner_cnt [of i "i + 1" cnt xs] by (metis fst_conv)+
  then have "cnt' - (i + 1) < cnt - i" by linarith
  then show "((i + 1, cnt', ys), (i, cnt, xs)) \<in> measure (\<lambda>(i, cnt, xs). cnt - i)" by simp
qed

declare slab_outer.simps [simp del]

definition yf_slab_pool_init ::
    "allocator \<Rightarrow> range list \<Rightarrow> nat \<Rightarrow> nat list \<Rightarrow> (int \<times> range list \<times> slab_pool option) run option" where
  "yf_slab_pool_init al live pagesize args =
     (case read_sizes args [] of
        Inl e \<Rightarrow> Some (Inl e)
      | Inr None \<Rightarrow> Some (Inr (YF_ERROR, live, None))
      | Inr (Some []) \<Rightarrow> Some (Inr (YF_ERROR, live, None))
      | Inr (Some xs) \<Rightarrow>
          let (slab_cnts, slab_size) = slab_outer 0 (length xs) xs in
          case yf_create_pool al live (pagesize * 2) of
            Inl e \<Rightarrow> Some (Inl e)
          | Inr (None, live) \<Rightarrow> Some (Inr (YF_ERROR, live, None))
          | Inr (Some P, live) \<Rightarrow>
              Option.bind (yf_palloc al P live (2 * slab_cnts)) (\<lambda>(a, P, live).
              if a = 0 then Some (Inl Assert_failed)
              else Option.bind (yf_palloc al P live (8 * slab_cnts)) (\<lambda>(b, P, live).
                if b = 0 then Some (Inl Assert_failed)
                else Some (Inr (YF_OK, live, Some
                  \<lparr> base_pool = (P, live), free_slabs = replicate slab_cnts [], sizes = take slab_cnts slab_size,
                    types = slab_cnts mod 2 ^ 7, tricks = (\<lambda>_. None) \<rparr>)))))"

definition yf_slab_pool_destory :: "slab_pool \<Rightarrow> ((addr \<times> addr) list \<times> range list) run" where
  "yf_slab_pool_destory S = (case base_pool S of (P, live) \<Rightarrow> yf_destroy_pool P live)"

subsection \<open>Allocation and release\<close>

definition yf_cmp_size :: "nat \<Rightarrow> nat list \<Rightarrow> nat \<Rightarrow> int" where
  "yf_cmp_size sz xs i = int sz - int (xs ! i)"

definition yf_slab_pool_alloc :: "allocator \<Rightarrow> slab_pool \<Rightarrow> nat \<Rightarrow> (addr \<times> slab_pool) run option" where
  "yf_slab_pool_alloc al S size_arg =
     (let alloc_size = yf_align_mem size_arg mod 2 ^ 16;
          begin = yf_bsearch (yf_cmp_size alloc_size (sizes S)) (types S) in
      if begin = types S then Some (Inr (NULL, S))
      else
        let alloc_size = sizes S ! begin in
        case free_slabs S ! begin of
          alloc_part # rest \<Rightarrow>
            let slab = alloc_part - YF_SLAB_TRICK_SIZE in
            Some (case tricks S slab of
                None \<Rightarrow> Inl Assert_failed
              | Some t \<Rightarrow>
                  c_assert (yf_slab_check_trick slab t)
                    (c_assert (st_size t = alloc_size \<and> \<not> st_used t)
                      (Inr (alloc_part, S\<lparr> free_slabs := (free_slabs S)[begin := rest],
                              tricks := (tricks S)(slab \<mapsto> t\<lparr> st_used := True \<rparr>) \<rparr>))))
        | [] \<Rightarrow>
            (case base_pool S of (P, live) \<Rightarrow>
             Option.bind (yf_palloc al P live (YF_SLAB_TRICK_SIZE + alloc_size)) (\<lambda>(slab, P, live).
             if slab = 0 then Some (Inr (NULL, S\<lparr> base_pool := (P, live) \<rparr>))
             else Some (Inr (slab + YF_SLAB_TRICK_SIZE,
                    S\<lparr> base_pool := (P, live), tricks := (tricks S)(slab \<mapsto> yf_slab_set_trick slab alloc_size) \<rparr>)))))"

definition yf_slab_pool_free :: "slab_pool \<Rightarrow> addr \<Rightarrow> slab_pool run" where
  "yf_slab_pool_free S data =
     (let slab = data - YF_SLAB_TRICK_SIZE in
      case tricks S slab of
        None \<Rightarrow> Inl Assert_failed
      | Some t \<Rightarrow>
          c_assert (yf_slab_check_trick slab t)
            (c_assert (st_used t)
              (let index = yf_bsearch (yf_cmp_size (st_size t) (sizes S)) (types S) in
               c_assert (index \<noteq> types S)
                 (Inr (S\<lparr> free_slabs := (free_slabs S)[index := data # free_slabs S ! index],
                         tricks := (tricks S)(slab \<mapsto> t\<lparr> st_used := False \<rparr>) \<rparr>)))))"

subsection \<open>Sorting the sizes\<close>

abbreviation part :: "nat \<Rightarrow> nat \<Rightarrow> nat list \<Rightarrow> nat set" where
  "part i n xs \<equiv> (!) xs ` {i..<n}"

lemma swap_at_nth:
  assumes "i < length xs" "j < length xs"
  shows "length (swap_at i j xs) = length xs"
    "swap_at i j xs ! k = (if k = j then xs ! i else if k = i then xs ! j else xs ! k)"
  using assms by (auto simp: swap_at_def nth_list_update)

lemma part_swap:
  assumes "a \<le> i" "i < n" "a \<le> j" "j < n" "n \<le> length xs"
  shows "part a n (swap_at i j xs) = part a n xs"
proof -
  have l: "i < length xs" "j < length xs" using assms by linarith+
  note S = swap_at_nth(2) [OF l]
  have "xs ! k \<in> part a n (swap_at i j xs)" if k: "k \<in> {a..<n}" for k
  proof -
    consider "k = i" | "k = j" "k \<noteq> i" | "k \<noteq> i" "k \<noteq> j" by blast
    then show ?thesis
    proof cases
      case 1
      show ?thesis by (rule image_eqI [of _ _ j]) (use 1 S assms in simp_all)
    next
      case 2
      show ?thesis by (rule image_eqI [of _ _ i]) (use 2 S assms in simp_all)
    next
      case 3
      show ?thesis by (rule image_eqI [of _ _ k]) (use 3 S k in simp_all)
    qed
  qed
  moreover have "swap_at i j xs ! k \<in> part a n xs" if "k \<in> {a..<n}" for k
    using assms that by (simp add: S)
  ultimately show ?thesis by (intro subset_antisym image_subsetI)
qed

definition inner_post :: "nat \<Rightarrow> nat \<Rightarrow> nat list \<Rightarrow> nat \<times> nat list \<Rightarrow> bool" where
  "inner_post i cnt xs r = (case r of (cnt', ys) \<Rightarrow> i < cnt' \<and> cnt' \<le> cnt \<and> length ys = length xs \<and>
     part i cnt' ys = part i cnt xs \<and> (\<forall>k < i. ys ! k = xs ! k) \<and> (\<forall>m. i < m \<longrightarrow> m < cnt' \<longrightarrow> ys ! i < ys ! m))"

lemma inner_post_step:
  assumes "inner_post i cnt' ys r" "cnt' \<le> cnt" "length ys = length xs" "part i cnt' ys = part i cnt xs"
    and "\<And>k. k < i \<Longrightarrow> ys ! k = xs ! k"
  shows "inner_post i cnt xs r"
  using assms by (auto simp: inner_post_def)

lemma slab_inner_spec:
  assumes "i < j" "j \<le> cnt" "cnt \<le> length xs" "\<And>m. i < m \<Longrightarrow> m < j \<Longrightarrow> xs ! i < xs ! m"
  shows "inner_post i cnt xs (slab_inner i j cnt xs)"
  using assms
proof (induction i j cnt xs rule: slab_inner.induct)
  case (1 i j cnt xs)
  note prem = 1(4-7)
  show ?case
  proof (cases "j < cnt")
    case False
    then have "slab_inner i j cnt xs = (cnt, xs)" by (simp add: slab_inner.simps [of i j cnt xs])
    with False prem show ?thesis by (simp add: inner_post_def)
  next
    case lt: True
    consider (less) "xs ! j < xs ! i" | (eq) "xs ! j = xs ! i" | (gt) "xs ! i < xs ! j" by linarith
    then show ?thesis
    proof cases
      case less
      let ?ys = "swap_at j i xs"
      have ij: "i < length xs" "j < length xs" using prem lt by simp_all
      note S = swap_at_nth [OF ij(2,1)]
      have "?ys ! i < ?ys ! m" if "i < m" "m < j + 1" for m
      proof (cases "m = j")
        case True
        with less prem(1) show ?thesis by (simp add: S)
      next
        case False
        with prem(4) [of m] that less show ?thesis by (simp add: S)
      qed
      then have "inner_post i cnt ?ys (slab_inner i (j + 1) cnt ?ys)"
        using 1(1) [OF lt less] prem lt S(1) by simp
      then have "inner_post i cnt xs (slab_inner i (j + 1) cnt ?ys)"
        by (rule inner_post_step) (use prem lt S part_swap [of i j cnt i xs] in auto)
      with less lt show ?thesis by (simp add: slab_inner.simps [of i j cnt xs])
    next
      case eq
      show ?thesis
      proof (cases "j = cnt - 1")
        case True
        have "part i cnt xs = part i (cnt - 1) xs"
        proof -
          have "{i..<cnt} = insert j {i..<cnt - 1}" using True lt prem(1) by auto
          then have "part i cnt xs = insert (xs ! j) (part i (cnt - 1) xs)" by (simp only: image_insert)
          moreover have "xs ! j \<in> part i (cnt - 1) xs" using True prem(1) eq by auto
          ultimately show ?thesis by auto
        qed
        then have "inner_post i cnt xs (cnt - 1, xs)" using True prem by (auto simp: inner_post_def)
        moreover have "slab_inner i j cnt xs = (cnt - 1, xs)"
          using eq lt True by (subst slab_inner.simps) (simp add: Let_def)
        ultimately show ?thesis by simp
      next
        case False
        let ?ys = "swap_at j (cnt - 1) xs"
        have jl: "j < length xs" "cnt - 1 < length xs" using prem lt by simp_all
        note S = swap_at_nth [OF jl]
        have "part i (cnt - 1) ?ys = part i cnt xs"
        proof -
          have "{i..<cnt} = insert (cnt - 1) {i..<cnt - 1}" using lt prem(1) by auto
          then have "part i cnt ?ys = insert (?ys ! (cnt - 1)) (part i (cnt - 1) ?ys)" by (simp only: image_insert)
          moreover have "?ys ! (cnt - 1) = ?ys ! i" using S(2) eq False prem(1) lt by auto
          moreover have "?ys ! i \<in> part i (cnt - 1) ?ys" using prem(1) lt False by auto
          ultimately have "part i cnt ?ys = part i (cnt - 1) ?ys" by auto
          with part_swap [of i j cnt "cnt - 1" xs] prem lt show ?thesis by simp
        qed
        moreover have "inner_post i (cnt - 1) ?ys (slab_inner i j (cnt - 1) ?ys)"
          using 1(2) [OF lt _ eq refl False] prem lt False S eq by simp
        moreover have "?ys ! k = xs ! k" if "k < i" for k
        proof -
          have "k \<noteq> j" "k \<noteq> cnt - 1" using that prem(1) lt by linarith+
          then show ?thesis using S(2) by simp
        qed
        ultimately have "inner_post i cnt xs (slab_inner i j (cnt - 1) ?ys)"
          by (intro inner_post_step [of i "cnt - 1" ?ys _ cnt xs] S(1)) simp_all
        with eq lt False show ?thesis by (simp add: slab_inner.simps [of i j cnt xs] Let_def)
      qed
    next
      case gt
      then have "xs ! i < xs ! m" if "i < m" "m < j + 1" for m
        using prem(4) [of m] that by (cases "m = j") auto
      then have "inner_post i cnt xs (slab_inner i (j + 1) cnt xs)"
        using 1(3) [OF lt] gt prem lt by simp
      with gt lt show ?thesis by (simp add: slab_inner.simps [of i j cnt xs])
    qed
  qed
qed

lemma slab_outer_spec:
  assumes "cnt \<le> length xs" "\<And>k m. k < i \<Longrightarrow> k < m \<Longrightarrow> m < cnt \<Longrightarrow> xs ! k < xs ! m"
  shows "case slab_outer i cnt xs of (n, ys) \<Rightarrow> n \<le> cnt \<and> length ys = length xs \<and> part 0 n ys = part 0 cnt xs \<and>
    (\<forall>k m. k < m \<longrightarrow> m < n \<longrightarrow> ys ! k < ys ! m)"
  using assms
proof (induction i cnt xs rule: slab_outer.induct)
  case (1 i cnt xs)
  show ?case
  proof (cases "i < cnt")
    case False
    with 1(3) show ?thesis by (subst slab_outer.simps) (auto intro: 1)
  next
    case True
    obtain n ys where I: "slab_inner i (i + 1) cnt xs = (n, ys)" by fastforce
    have "inner_post i cnt xs (n, ys)"
      using slab_inner_spec [of i "i + 1" cnt xs] True 1(2) I by simp
    then have P: "i < n" "n \<le> cnt" "length ys = length xs" "part i n ys = part i cnt xs"
      "\<And>k. k < i \<Longrightarrow> ys ! k = xs ! k" "\<And>m. i < m \<Longrightarrow> m < n \<Longrightarrow> ys ! i < ys ! m"
      by (auto simp: inner_post_def)
    have inc: "ys ! k < ys ! m" if "k < i + 1" "k < m" "m < n" for k m
    proof (cases "k = i")
      case True
      with P(6) that show ?thesis by simp
    next
      case False
      then have k: "k < i" using that by simp
      show ?thesis
      proof (cases "m < i")
        case True
        with k that 1(3) [of k m] P(2,5) \<open>i < cnt\<close> show ?thesis by simp
      next
        case False
        then have "ys ! m \<in> part i n ys" using that by auto
        then obtain l where "ys ! m = xs ! l" "i \<le> l" "l < cnt" unfolding P(4) by auto
        with k 1(3) [of k l] P(5) show ?thesis by simp
      qed
    qed
    have part0: "part 0 n ys = part 0 cnt xs"
    proof -
      have "{0..<n} = {0..<i} \<union> {i..<n}" "{0..<cnt} = {0..<i} \<union> {i..<cnt}" using P(1,2) True by auto
      moreover have "part 0 i ys = part 0 i xs" using P(5) by (intro image_cong) auto
      ultimately show ?thesis using P(4) by (simp only: image_Un)
    qed
    have "n \<le> length ys" using P(2,3) 1(2) by simp
    from 1(1) [OF True refl I [symmetric] this inc] P(2,3) part0 I True
    show ?thesis by (subst slab_outer.simps) (auto split: prod.splits)
  qed
qed

subsection \<open>Invariant\<close>

text \<open>
  The slabs are ranges of the base pool, with valid heads and one of the sizes; the free lists hold unused
  slabs of their size, and the slabs the callers hold (\<open>held\<close>, with the sizes asked for) are used
  and large enough.
\<close>

definition slab_sizes_ok :: "slab_pool \<Rightarrow> bool" where
  "slab_sizes_ok S \<longleftrightarrow> length (sizes S) = types S \<and> length (free_slabs S) = types S \<and>
     (\<forall>i j. i < j \<longrightarrow> j < types S \<longrightarrow> sizes S ! i < sizes S ! j) \<and> (\<forall>n \<in> set (sizes S). n < 2 ^ 14)"

definition slab_at :: "slab_pool \<Rightarrow> addr \<Rightarrow> bool \<Rightarrow> (nat \<Rightarrow> bool) \<Rightarrow> bool" where
  "slab_at S a used Q \<longleftrightarrow> 8 \<le> a \<and> (\<exists>t. tricks S (a - 8) = Some t \<and> st_used t = used \<and> Q (st_size t))"

definition slab_inv :: "slab_pool \<Rightarrow> (addr \<times> nat) list \<Rightarrow> bool" where
  "slab_inv S held \<longleftrightarrow> slab_sizes_ok S \<and>
     (\<exists>user. (case base_pool S of (P, live) \<Rightarrow> pool_inv P live user) \<and>
       (\<forall>x t. tricks S x = Some t \<longrightarrow> (x, 8 + st_size t) \<in> set user)) \<and>
     (\<forall>x t. tricks S x = Some t \<longrightarrow> yf_slab_check_trick x t \<and> st_size t \<in> set (sizes S)) \<and>
     (\<forall>i < types S. distinct (free_slabs S ! i) \<and>
       (\<forall>a \<in> set (free_slabs S ! i). slab_at S a False (\<lambda>n. n = sizes S ! i))) \<and>
     distinct (map fst held) \<and> (\<forall>r \<in> set held. slab_at S (fst r) True (\<lambda>n. snd r \<le> n))"

lemma slab_search:
  fixes n :: nat
  assumes "slab_sizes_ok S"
  defines "p \<equiv> yf_bsearch (yf_cmp_size n (sizes S)) (types S)"
  shows "p \<le> types S" "p < types S \<Longrightarrow> n \<le> sizes S ! p" "n \<in> set (sizes S) \<Longrightarrow> p < types S \<and> sizes S ! p = n"
proof -
  have "probe_ordered (yf_cmp_size n (sizes S)) (types S)"
    unfolding probe_ordered_def yf_cmp_size_def
  proof (intro allI impI conjI)
    fix i j assume "i < j" "j < types S"
    with assms(1) have lt: "sizes S ! i < sizes S ! j" by (simp add: slab_sizes_ok_def)
    show "int n - int (sizes S ! j) < 0" if "int n - int (sizes S ! i) < 0" using lt that by simp
    show "0 < int n - int (sizes S ! i)" if "0 < int n - int (sizes S ! j)" using lt that by simp
  qed
  from bsearch_loop_spec [OF this, of 0 "types S"]
  have B: "p \<le> types S" "\<forall>i. p \<le> i \<longrightarrow> i < types S \<longrightarrow> yf_cmp_size n (sizes S) i \<le> 0"
    "p < types S \<and> yf_cmp_size n (sizes S) p = 0 \<or> (\<forall>i < types S. yf_cmp_size n (sizes S) i \<noteq> 0)"
    by (simp_all add: p_def yf_bsearch_def Let_def)
  show "p \<le> types S" "p < types S \<Longrightarrow> n \<le> sizes S ! p"
    using B by (auto simp: yf_cmp_size_def)
  show "p < types S \<and> sizes S ! p = n" if "n \<in> set (sizes S)"
    using that B(3) assms(1) by (auto simp: yf_cmp_size_def in_set_conv_nth slab_sizes_ok_def)
qed

lemma slab_at_upd:
  assumes "slab_at S a u Q" "a - 8 \<noteq> x"
  shows "slab_at (S\<lparr> free_slabs := fs, tricks := (tricks S)(x \<mapsto> t) \<rparr>) a u Q"
    "slab_at (S\<lparr> base_pool := bp, tricks := (tricks S)(x \<mapsto> t) \<rparr>) a u Q"
  using assms by (auto simp: slab_at_def)

lemma alloc_fits:
  assumes "n \<le> 65528"
  shows "n \<le> yf_align_mem n mod 2 ^ 16"
proof -
  have "yf_align_mem n \<le> 65528" unfolding yf_align_mem_def
    by (rule align_up_least) (use assms in \<open>simp_all add: YF_ALIGNMENT_def\<close>)
  moreover have "n \<le> yf_align_mem n" unfolding yf_align_mem_def by (rule align_up_ge) (simp add: YF_ALIGNMENT_def)
  ultimately show ?thesis by simp
qed

lemma slab_alloc_step:
  assumes inv: "slab_inv S held" and al: "allocator_ok al" and n: "n \<le> 65528"
  shows "\<exists>a S'. yf_slab_pool_alloc al S n = Some (Inr (a, S')) \<and>
    slab_inv S' (if a = 0 then held else (a, n) # held)"
proof -
  let ?p = "yf_bsearch (yf_cmp_size (yf_align_mem n mod 2 ^ 16) (sizes S)) (types S)"
  have so: "slab_sizes_ok S" using inv by (simp add: slab_inv_def)
  note B = slab_search [OF so, of "yf_align_mem n mod 2 ^ 16"]
  show ?thesis
  proof (cases "?p = types S")
    case True
    with inv show ?thesis by (simp add: yf_slab_pool_alloc_def Let_def)
  next
    case False
    then have p: "?p < types S" using B(1) by simp
    have sz: "n \<le> sizes S ! ?p" using B(2) [OF p] alloc_fits [OF n] by simp
    obtain P live where bp: "base_pool S = (P, live)" by fastforce
    have mem: "sizes S ! ?p \<in> set (sizes S)" using p so by (simp add: slab_sizes_ok_def)
    show ?thesis
    proof (cases "free_slabs S ! ?p")
      case (Cons a rest)
      have F: "distinct (a # rest)" "\<forall>x \<in> set (a # rest). slab_at S x False (\<lambda>m. m = sizes S ! ?p)"
        using inv p Cons unfolding slab_inv_def by metis+
      then obtain t where t: "8 \<le> a" "tricks S (a - 8) = Some t" "\<not> st_used t" "st_size t = sizes S ! ?p"
        by (auto simp: slab_at_def)
      have ck: "yf_slab_check_trick (a - 8) t" using inv t(2) by (simp add: slab_inv_def)
      let ?S = "S\<lparr> free_slabs := (free_slabs S)[?p := rest], tricks := (tricks S)(a - 8 \<mapsto> t\<lparr> st_used := True \<rparr>) \<rparr>"
      have run: "yf_slab_pool_alloc al S n = Some (Inr (a, ?S))"
        using False Cons t ck by (simp add: yf_slab_pool_alloc_def Let_def YF_SLAB_TRICK_SIZE_def)
      have other: "x - 8 \<noteq> a - 8" if "slab_at S x u Q" "x \<noteq> a" for x u Q
        using that t(1) by (auto simp: slab_at_def)
      have free: "distinct (free_slabs ?S ! i) \<and>
          (\<forall>x \<in> set (free_slabs ?S ! i). slab_at ?S x False (\<lambda>m. m = sizes S ! i))" if i: "i < types S" for i
      proof -
        have I: "distinct (free_slabs S ! i)" "\<forall>x \<in> set (free_slabs S ! i). slab_at S x False (\<lambda>m. m = sizes S ! i)"
          using inv i by (simp_all add: slab_inv_def)
        have len: "?p < length (free_slabs S)" using p so by (simp add: slab_sizes_ok_def)
        have ne: "x \<noteq> a" if "x \<in> set (free_slabs ?S ! i)" for x
        proof (cases "i = ?p")
          case True
          with that F(1) len show ?thesis by auto
        next
          case ne: False
          then have "x \<in> set (free_slabs S ! i)" using that by simp
          with I(2) have "slab_at S x False (\<lambda>m. m = sizes S ! i)" by blast
          moreover have "sizes S ! i \<noteq> sizes S ! ?p"
            using so ne i p unfolding slab_sizes_ok_def by (metis nat_neq_iff)
          ultimately show ?thesis using t by (auto simp: slab_at_def)
        qed
        have sub: "set (free_slabs ?S ! i) \<subseteq> set (free_slabs S ! i)" and d: "distinct (free_slabs ?S ! i)"
          using I(1) F(1) Cons len by (cases "i = ?p", auto)+
        have "slab_at ?S x False (\<lambda>m. m = sizes S ! i)" if x: "x \<in> set (free_slabs ?S ! i)" for x
        proof -
          have at: "slab_at S x False (\<lambda>m. m = sizes S ! i)" using I(2) sub x by blast
          show ?thesis by (rule slab_at_upd(1) [OF at other [OF at ne [OF x]]])
        qed
        with d show ?thesis by blast
      qed
      have new: "slab_at ?S a True (\<lambda>m. n \<le> m)" using t sz by (simp add: slab_at_def)
      have ha: "a \<notin> fst ` set held"
      proof
        assume "a \<in> fst ` set held"
        then obtain m where "slab_at S a True (\<lambda>k. m \<le> k)" using inv by (force simp: slab_inv_def)
        with t show False by (simp add: slab_at_def)
      qed
      have held: "\<forall>r \<in> set held. slab_at ?S (fst r) True (\<lambda>m. snd r \<le> m)"
      proof
        fix r assume r: "r \<in> set held"
        then have at: "slab_at S (fst r) True (\<lambda>m. snd r \<le> m)" using inv by (simp add: slab_inv_def)
        moreover have "fst r \<noteq> a" using ha r by force
        ultimately show "slab_at ?S (fst r) True (\<lambda>m. snd r \<le> m)" by (intro slab_at_upd(1) other)
      qed
      have "slab_inv ?S ((a, n) # held)"
        unfolding slab_inv_def
      proof (intro conjI)
        show "slab_sizes_ok ?S" using so by (simp add: slab_sizes_ok_def)
        show "\<exists>user. (case base_pool ?S of (P, live) \<Rightarrow> pool_inv P live user) \<and>
            (\<forall>x t. tricks ?S x = Some t \<longrightarrow> (x, 8 + st_size t) \<in> set user)"
          using inv t(2) unfolding slab_inv_def by (auto split: if_splits)
        show "\<forall>x t. tricks ?S x = Some t \<longrightarrow> yf_slab_check_trick x t \<and> st_size t \<in> set (sizes ?S)"
          using inv t(2) ck unfolding slab_inv_def by (auto simp: yf_slab_check_trick_def)
        show "\<forall>i < types ?S. distinct (free_slabs ?S ! i) \<and>
            (\<forall>x \<in> set (free_slabs ?S ! i). slab_at ?S x False (\<lambda>m. m = sizes ?S ! i))"
          using free by simp
        show "distinct (map fst ((a, n) # held))" using inv ha by (simp add: slab_inv_def)
        show "\<forall>r \<in> set ((a, n) # held). slab_at ?S (fst r) True (\<lambda>m. snd r \<le> m)"
          using new held by simp
      qed
      with run t(1) show ?thesis by auto
    next
      case Nil
      let ?n = "YF_SLAB_TRICK_SIZE + sizes S ! ?p"
      obtain user where U: "pool_inv P live user" "\<And>x t. tricks S x = Some t \<Longrightarrow> (x, 8 + st_size t) \<in> set user"
        using inv bp unfolding slab_inv_def by auto
      from palloc_step(1) [OF U(1) al, of ?n] obtain a P' live' where
        A: "yf_palloc al P live ?n = Some (a, P', live')" "alloc_result P live user ?n (a, P', live')" by auto
      show ?thesis
      proof (cases "a = 0")
        case True
        with A(2) have "P' = P" "live' = live" by (simp_all add: alloc_result_def)
        then have "S\<lparr> base_pool := (P', live') \<rparr> = S" using bp by simp
        then have "yf_slab_pool_alloc al S n = Some (Inr (NULL, S))"
          using False Nil bp A(1) True by (simp add: yf_slab_pool_alloc_def Let_def)
        with inv show ?thesis by simp
      next
        case a0: False
        then have pinv: "pool_inv P' live' ((a, ?n) # user)" using A(2) by (simp add: alloc_result_def)
        let ?S = "S\<lparr> base_pool := (P', live'), tricks := (tricks S)(a \<mapsto> yf_slab_set_trick a (sizes S ! ?p)) \<rparr>"
        have run: "yf_slab_pool_alloc al S n = Some (Inr (a + 8, ?S))"
          using False Nil bp A(1) a0 by (simp add: yf_slab_pool_alloc_def Let_def YF_SLAB_TRICK_SIZE_def)
        have new_t: "st_size (yf_slab_set_trick a (sizes S ! ?p)) = sizes S ! ?p"
          using mem so by (simp add: yf_slab_set_trick_def slab_sizes_ok_def)
        have none: "tricks S a = None"
        proof (rule ccontr)
          assume "tricks S a \<noteq> None"
          then obtain t where "tricks S a = Some t" by blast
          then have "(a, 8 + st_size t) \<in> set user" by (rule U(2))
          with pool_invD(4) [OF pinv] have "disj (a, ?n) (a, 8 + st_size t)" by simp
          then show False by (simp add: disj_def YF_SLAB_TRICK_SIZE_def)
        qed
        have other: "x - 8 \<noteq> a" if "slab_at S x u Q" for x u Q
          using that none by (auto simp: slab_at_def)
        have ha: "a + 8 \<notin> fst ` set held"
        proof
          assume "a + 8 \<in> fst ` set held"
          then obtain m where "slab_at S (a + 8) True (\<lambda>k. m \<le> k)" using inv by (force simp: slab_inv_def)
          with none show False by (simp add: slab_at_def)
        qed
        have "slab_inv ?S ((a + 8, n) # held)"
          unfolding slab_inv_def
        proof (intro conjI)
          show "slab_sizes_ok ?S" using so by (simp add: slab_sizes_ok_def)
          show "\<exists>user. (case base_pool ?S of (P, live) \<Rightarrow> pool_inv P live user) \<and>
              (\<forall>x t. tricks ?S x = Some t \<longrightarrow> (x, 8 + st_size t) \<in> set user)"
            using pinv U(2) new_t
            by (intro exI [of _ "(a, ?n) # user"]) (auto simp: YF_SLAB_TRICK_SIZE_def)
          show "\<forall>x t. tricks ?S x = Some t \<longrightarrow> yf_slab_check_trick x t \<and> st_size t \<in> set (sizes ?S)"
            using inv new_t mem unfolding slab_inv_def
            by (auto simp: yf_slab_check_trick_def yf_slab_set_trick_def)
          have "\<forall>i < types S. distinct (free_slabs S ! i) \<and>
              (\<forall>x \<in> set (free_slabs S ! i). slab_at S x False (\<lambda>m. m = sizes S ! i))"
            using inv by (simp add: slab_inv_def)
          then show "\<forall>i < types ?S. distinct (free_slabs ?S ! i) \<and>
              (\<forall>x \<in> set (free_slabs ?S ! i). slab_at ?S x False (\<lambda>m. m = sizes ?S ! i))"
            using slab_at_upd(2) other by fastforce
          show "distinct (map fst ((a + 8, n) # held))" using inv ha by (simp add: slab_inv_def)
          have "\<forall>r \<in> set held. slab_at S (fst r) True (\<lambda>m. snd r \<le> m)" using inv by (simp add: slab_inv_def)
          then have "\<forall>r \<in> set held. slab_at ?S (fst r) True (\<lambda>m. snd r \<le> m)" using slab_at_upd(2) other by blast
          moreover have "slab_at ?S (a + 8) True (\<lambda>m. n \<le> m)"
            using sz new_t by (simp add: slab_at_def) (simp add: yf_slab_set_trick_def)
          ultimately show "\<forall>r \<in> set ((a + 8, n) # held). slab_at ?S (fst r) True (\<lambda>m. snd r \<le> m)" by simp
        qed
        with run show ?thesis by auto
      qed
    qed
  qed
qed

lemma slab_free_step:
  assumes inv: "slab_inv S held" and a: "a \<in> fst ` set held"
  shows "\<exists>S'. yf_slab_pool_free S a = Inr S' \<and> slab_inv S' (filter (\<lambda>r. fst r \<noteq> a) held)"
proof -
  have so: "slab_sizes_ok S" using inv by (simp add: slab_inv_def)
  from a inv obtain m where "slab_at S a True (\<lambda>k. m \<le> k)" by (force simp: slab_inv_def)
  then obtain t where t: "8 \<le> a" "tricks S (a - 8) = Some t" "st_used t" by (auto simp: slab_at_def)
  have ck: "yf_slab_check_trick (a - 8) t" "st_size t \<in> set (sizes S)" using inv t(2) by (simp_all add: slab_inv_def)
  let ?p = "yf_bsearch (yf_cmp_size (st_size t) (sizes S)) (types S)"
  from slab_search(3) [OF so ck(2)] have p: "?p < types S" "sizes S ! ?p = st_size t" by simp_all
  let ?S = "S\<lparr> free_slabs := (free_slabs S)[?p := a # free_slabs S ! ?p], tricks := (tricks S)(a - 8 \<mapsto> t\<lparr> st_used := False \<rparr>) \<rparr>"
  have run: "yf_slab_pool_free S a = Inr ?S"
    using t ck p by (simp add: yf_slab_pool_free_def Let_def YF_SLAB_TRICK_SIZE_def)
  have len: "?p < length (free_slabs S)" using p so by (simp add: slab_sizes_ok_def)
  have I: "distinct (free_slabs S ! i)" "\<forall>x \<in> set (free_slabs S ! i). slab_at S x False (\<lambda>m. m = sizes S ! i)"
    if "i < types S" for i using inv that by (simp_all add: slab_inv_def)
  have other: "x - 8 \<noteq> a - 8" if "slab_at S x u Q" "x \<noteq> a" for x u Q
    using that t(1) by (auto simp: slab_at_def)
  have free_other: "x \<noteq> a" if "slab_at S x False Q" for x Q
    using that t by (auto simp: slab_at_def)
  have new: "slab_at ?S a False (\<lambda>m. m = sizes S ! ?p)" using t p by (simp add: slab_at_def)
  have free: "distinct (free_slabs ?S ! i) \<and> (\<forall>x \<in> set (free_slabs ?S ! i). slab_at ?S x False (\<lambda>m. m = sizes S ! i))"
    if i: "i < types S" for i
  proof -
    have old: "\<forall>x \<in> set (free_slabs S ! i). slab_at ?S x False (\<lambda>m. m = sizes S ! i)"
      using I(2) [OF i] slab_at_upd(1) other free_other by blast
    have "a \<notin> set (free_slabs S ! i)" using I(2) [OF i] free_other by blast
    then show ?thesis using old I(1) [OF i] new len by (cases "i = ?p") simp_all
  qed
  have "slab_inv ?S (filter (\<lambda>r. fst r \<noteq> a) held)"
    unfolding slab_inv_def
  proof (intro conjI)
    show "slab_sizes_ok ?S" using so by (simp add: slab_sizes_ok_def)
    show "\<exists>user. (case base_pool ?S of (P, live) \<Rightarrow> pool_inv P live user) \<and>
        (\<forall>x t. tricks ?S x = Some t \<longrightarrow> (x, 8 + st_size t) \<in> set user)"
      using inv t(2) unfolding slab_inv_def by (auto split: if_splits)
    show "\<forall>x t. tricks ?S x = Some t \<longrightarrow> yf_slab_check_trick x t \<and> st_size t \<in> set (sizes ?S)"
      using inv t(2) ck unfolding slab_inv_def by (auto simp: yf_slab_check_trick_def)
    show "\<forall>i < types ?S. distinct (free_slabs ?S ! i) \<and>
        (\<forall>x \<in> set (free_slabs ?S ! i). slab_at ?S x False (\<lambda>m. m = sizes ?S ! i))"
      using free by simp
    show "distinct (map fst (filter (\<lambda>r. fst r \<noteq> a) held))" using inv by (simp add: slab_inv_def distinct_map_filter)
    have "\<forall>r \<in> set held. slab_at S (fst r) True (\<lambda>m. snd r \<le> m)" using inv by (simp add: slab_inv_def)
    then show "\<forall>r \<in> set (filter (\<lambda>r. fst r \<noteq> a) held). slab_at ?S (fst r) True (\<lambda>m. snd r \<le> m)"
      using slab_at_upd(1) other by auto
  qed
  with run show ?thesis by blast
qed

subsection \<open>Runs\<close>

datatype slab_op = Salloc nat | Sfree addr

text \<open>A caller frees only what it holds.\<close>

fun slab_run :: "allocator \<Rightarrow> slab_op list \<Rightarrow> slab_pool \<times> (addr \<times> nat) list \<Rightarrow> (slab_pool \<times> (addr \<times> nat) list) run option" where
  "slab_run al [] s = Some (Inr s)"
| "slab_run al (Salloc n # ops) (S, held) =
     (case yf_slab_pool_alloc al S n of
        None \<Rightarrow> None
      | Some (Inl e) \<Rightarrow> Some (Inl e)
      | Some (Inr (a, S)) \<Rightarrow> slab_run al ops (S, if a = 0 then held else (a, n) # held))"
| "slab_run al (Sfree a # ops) (S, held) =
     (if a \<in> fst ` set held
      then case yf_slab_pool_free S a of
          Inl e \<Rightarrow> Some (Inl e)
        | Inr S \<Rightarrow> slab_run al ops (S, filter (\<lambda>r. fst r \<noteq> a) held)
      else slab_run al ops (S, held))"

lemma slab_run_ok:
  assumes "slab_inv S held" "allocator_ok al" "\<And>n. Salloc n \<in> set ops \<Longrightarrow> n \<le> 65528"
  shows "\<exists>S' held'. slab_run al ops (S, held) = Some (Inr (S', held')) \<and> slab_inv S' held'"
  using assms
proof (induction ops arbitrary: S held)
  case (Cons op ops)
  show ?case
  proof (cases op)
    case (Salloc n)
    with slab_alloc_step [OF Cons.prems(1,2), of n] Cons.prems(3) obtain a S' where
      "yf_slab_pool_alloc al S n = Some (Inr (a, S'))" "slab_inv S' (if a = 0 then held else (a, n) # held)" by auto
    with Cons.IH [OF this(2) Cons.prems(2)] Cons.prems(3) Salloc show ?thesis by simp
  next
    case (Sfree a)
    show ?thesis
    proof (cases "a \<in> fst ` set held")
      case True
      from slab_free_step [OF Cons.prems(1) this] obtain S' where
        "yf_slab_pool_free S a = Inr S'" "slab_inv S' (filter (\<lambda>r. fst r \<noteq> a) held)" by blast
      with Cons.IH [OF this(2) Cons.prems(2)] Cons.prems(3) Sfree True show ?thesis by simp
    next
      case False
      with Cons.IH [OF Cons.prems(1,2)] Cons.prems(3) Sfree show ?thesis by simp
    qed
  qed
qed auto

lemma slab_held_disj:
  assumes "slab_inv S held"
  shows "sorted_wrt disj held" "\<forall>r \<in> set held. \<exists>R \<in> set (snd (base_pool S)). within r R"
proof -
  obtain P live user where bp: "base_pool S = (P, live)" and U: "pool_inv P live user"
      "\<And>x t. tricks S x = Some t \<Longrightarrow> (x, 8 + st_size t) \<in> set user"
    using assms by (auto simp: slab_inv_def)
  note D = pool_invD [OF U(1)]
  have H: "\<exists>m \<ge> snd r. 8 \<le> fst r \<and> (fst r - 8, 8 + m) \<in> set user" if "r \<in> set held" for r
    using assms that U(2) by (fastforce simp: slab_inv_def slab_at_def)
  have "disj r s" if rs: "r \<in> set held" "s \<in> set held" "fst r \<noteq> fst s" for r s
  proof -
    obtain m k where m: "snd r \<le> m" "8 \<le> fst r" "(fst r - 8, 8 + m) \<in> set user"
      and k: "snd s \<le> k" "8 \<le> fst s" "(fst s - 8, 8 + k) \<in> set user" using H rs(1,2) by blast
    have "sorted_wrt disj user" using D(4) by (simp add: sorted_wrt_append)
    moreover have "fst r - 8 \<noteq> fst s - 8" using rs(3) m(2) k(2) by linarith
    ultimately have "disj (fst r - 8, 8 + m) (fst s - 8, 8 + k)"
      using sorted_wrt_sym [of disj user] m(3) k(3) disj_sym by blast
    with m k show ?thesis by (auto simp: disj_def)
  qed
  moreover have "distinct (map fst held)" using assms by (simp add: slab_inv_def)
  ultimately show "sorted_wrt disj held"
    by (induction held) (auto simp: image_iff)
  show "\<forall>r \<in> set held. \<exists>R \<in> set (snd (base_pool S)). within r R"
  proof
    fix r assume "r \<in> set held"
    then obtain m where m: "snd r \<le> m" "8 \<le> fst r" "(fst r - 8, 8 + m) \<in> set user" using H by blast
    from m(3) have "(fst r - 8, 8 + m) \<in> set (user @ internals P)" by simp
    from owned_within [OF D(2) D(5) [OF this]] obtain R where "R \<in> set live" "within (fst r - 8, 8 + m) R" by blast
    with m(1,2) bp show "\<exists>R \<in> set (snd (base_pool S)). within r R" by (auto simp: within_def intro!: bexI [of _ R])
  qed
qed

subsection \<open>Creation\<close>

lemma read_sizes_ok:
  assumes "read_sizes as acc = Inr (Some xs)" "\<forall>n \<in> set acc. n < 2 ^ 14" "length acc \<le> 64"
  shows "(\<forall>n \<in> set xs. n < 2 ^ 14) \<and> length xs \<le> 64"
  using assms
proof (induction as arbitrary: acc)
  case (Cons a as)
  show ?case
  proof (cases "a mod 2 ^ 16 = 0")
    case True
    with Cons.prems show ?thesis by simp
  next
    case False
    let ?n = "yf_align_mem (a mod 2 ^ 16) mod 2 ^ 16"
    have "?n < 2 ^ 14 \<and> length acc < 64 \<and> read_sizes as (acc @ [?n]) = Inr (Some xs)"
      using Cons.prems(1) False by (auto simp: Let_def run_simps split: if_splits)
    with Cons.IH [of "acc @ [?n]"] Cons.prems(2) show ?thesis by auto
  qed
qed simp

lemma slab_init_inv:
  assumes "allocator_ok al" "heap_ok live" "48 \<le> pagesize" "4 dvd pagesize"
    and "yf_slab_pool_init al live pagesize args = Some (Inr (YF_OK, live', Some S))"
  shows "slab_inv S []"
proof -
  obtain xs where xs: "read_sizes args [] = Inr (Some xs)" "xs \<noteq> []"
    using assms(5) by (auto simp: yf_slab_pool_init_def split: sum.splits option.splits list.splits)
  obtain n ys where o: "slab_outer 0 (length xs) xs = (n, ys)" by fastforce
  have X: "\<forall>m \<in> set xs. m < 2 ^ 14" "length xs \<le> 64" using read_sizes_ok [OF xs(1)] by simp_all
  from slab_outer_spec [of "length xs" xs 0] o have O: "n \<le> length xs" "length ys = length xs"
    "part 0 n ys = part 0 (length xs) xs" "\<And>k m. k < m \<Longrightarrow> m < n \<Longrightarrow> ys ! k < ys ! m" by auto
  have run: "yf_slab_pool_init al live pagesize args =
      (case yf_create_pool al live (pagesize * 2) of
            Inl e \<Rightarrow> Some (Inl e)
          | Inr (None, live) \<Rightarrow> Some (Inr (YF_ERROR, live, None))
          | Inr (Some P, live) \<Rightarrow>
              Option.bind (yf_palloc al P live (2 * n)) (\<lambda>(a, P, live).
              if a = 0 then Some (Inl Assert_failed)
              else Option.bind (yf_palloc al P live (8 * n)) (\<lambda>(b, P, live).
                if b = 0 then Some (Inl Assert_failed)
                else Some (Inr (YF_OK, live, Some
                  \<lparr> base_pool = (P, live), free_slabs = replicate n [], sizes = take n ys,
                    types = n mod 2 ^ 7, tricks = (\<lambda>_. None) \<rparr>)))))"
    using xs o by (cases xs) (simp_all add: yf_slab_pool_init_def)
  then obtain P l1 a P2 l2 b P3 where C: "yf_create_pool al live (pagesize * 2) = Inr (Some P, l1)"
      "yf_palloc al P l1 (2 * n) = Some (a, P2, l2)" "a \<noteq> 0" "yf_palloc al P2 l2 (8 * n) = Some (b, P3, live')" "b \<noteq> 0"
      "S = \<lparr> base_pool = (P3, live'), free_slabs = replicate n [], sizes = take n ys, types = n mod 2 ^ 7, tricks = (\<lambda>_. None) \<rparr>"
    using assms(5) [unfolded run] by (auto simp: bind_eq_Some_conv split: sum.splits option.splits prod.splits if_splits)
  have "96 \<le> pagesize * 2" "8 dvd pagesize * 2" using assms(3,4) by auto
  from yf_create_pool_spec [OF assms(1,2) this C(1)] have "pool_inv P l1 []" .
  from palloc_step(1) [OF this assms(1), of "2 * n"] C(2,3) have "pool_inv P2 l2 [(a, 2 * n)]" by (simp add: alloc_result_def)
  from palloc_step(1) [OF this assms(1), of "8 * n"] C(4,5) have "\<exists>user. pool_inv P3 live' user" by (auto simp: alloc_result_def)
  moreover have "\<forall>m \<in> set (take n ys). m < 2 ^ 14"
  proof
    fix m assume "m \<in> set (take n ys)"
    then have "m \<in> part 0 n ys" by (auto simp: in_set_conv_nth)
    then have "m \<in> set xs" unfolding O(3) by auto
    with X(1) show "m < 2 ^ 14" by blast
  qed
  moreover have "n mod 2 ^ 7 = n" using O(1) X(2) by simp
  ultimately show ?thesis
    using O(1,2,4) unfolding C(6) by (simp add: slab_inv_def slab_sizes_ok_def min_def)
qed

subsection \<open>Properties\<close>


lemma some_slab_init:
  "\<exists>S live. yf_slab_pool_init bump_allocator [] 4096 [100, 24, 100, 0] = Some (Inr (YF_OK, live, Some S)) \<and>
    sizes S = [24, 104]"
  by (simp add: yf_slab_pool_init_def yf_align_mem_def align_up_def YF_ALIGNMENT_def slab_outer.simps slab_inner.simps
      swap_at_def Let_def yf_create_pool_def bump_allocator_def bump_top_def pool_sizes yf_palloc_def palloc_small_def
      size_diff_def)


end
