(* ===== verification/Bridge_Wait.thy ===== *)
theory Bridge_Wait
  imports Yf_Prelude
begin

section \<open>Waiting for tasks\<close>

text \<open>
  Models how a child of a bridge waits in \<^verbatim>\<open>yf_poll_task\<close> (\<^verbatim>\<open>bridge_in/yf_bridge_in.c\<close>): it takes all
  tasks, waits, and takes all tasks again. The children that share one queue wait on a
  condition variable, those with a queue of their own on a channel (\<^verbatim>\<open>yf_bridge_signal.c\<close>,
  \<^verbatim>\<open>yf_bridge_thr.c\<close>). The steps between two unlock operations or system calls are interleaved in
  any order. Tasks are numbers; what the queue does with their bytes is in theory Task_Queue.
\<close>

subsection \<open>One queue, a mutex and a condition variable\<close>

text \<open>
  Where a child is: in the loop of the first \<^verbatim>\<open>yf_bridge_on_task_valiable\<close>, after it and before the
  lock of \<^verbatim>\<open>yf_bridge_mutex_wait\<close>, in \<^verbatim>\<open>yf_cond_wait\<close>, signalled and waiting for the mutex, in the second
  loop. A condition variable that is not signalled wakes nobody here: POSIX allows it, but does not
  promise it.
\<close>

datatype child_pc = Polling | To_wait | Waiting | Woken | Serving

record bt_state =
  bt_queue :: "nat list"
  bt_taken :: "nat list"
  wait_num :: nat
  pcs :: "nat \<Rightarrow> child_pc"

definition bt_start :: bt_state where
  "bt_start = \<lparr> bt_queue = [], bt_taken = [], wait_num = 0, pcs = (\<lambda>_. Polling) \<rparr>"

text \<open>\<^verbatim>\<open>yf_cond_signal\<close> wakes the child \<open>c\<close> if it waits.\<close>

definition yf_bridge_mutex_signal :: "nat \<Rightarrow> bt_state \<Rightarrow> bt_state" where
  "yf_bridge_mutex_signal c s =
     (if wait_num s \<noteq> 0 \<and> pcs s c = Waiting then s\<lparr> pcs := (pcs s)(c := Woken) \<rparr> else s)"

definition yf_bridge_mutex_wait :: "nat \<Rightarrow> bt_state \<Rightarrow> bt_state" where
  "yf_bridge_mutex_wait c s = s\<lparr> wait_num := wait_num s + 1, pcs := (pcs s)(c := Waiting) \<rparr>"

definition mutex_wait_end :: "nat \<Rightarrow> bt_state \<Rightarrow> bt_state" where
  "mutex_wait_end c s = s\<lparr> wait_num := wait_num s - 1, pcs := (pcs s)(c := Serving) \<rparr>"

text \<open>
  The parent pushes a task and signals under the mutex; the signal reaches one of the children that
  wait, if there is any.
\<close>

inductive bt_send :: "nat \<Rightarrow> bt_state \<Rightarrow> bt_state \<Rightarrow> bool" for n :: nat where
  "c < n \<Longrightarrow> pcs s c = Waiting \<or> (\<forall>d < n. pcs s d \<noteq> Waiting) \<Longrightarrow>
   bt_send n s (yf_bridge_mutex_signal c (s\<lparr> bt_queue := bt_queue s @ [t] \<rparr>))"

inductive bt_child :: "nat \<Rightarrow> bt_state \<Rightarrow> bt_state \<Rightarrow> bool" for n :: nat where
  take: "c < n \<Longrightarrow> pcs s c = Polling \<or> pcs s c = Serving \<Longrightarrow> bt_queue s = t # q \<Longrightarrow>
    bt_child n s (s\<lparr> bt_queue := q, bt_taken := bt_taken s @ [t] \<rparr>)"
| none: "c < n \<Longrightarrow> pcs s c = Polling \<Longrightarrow> bt_queue s = [] \<Longrightarrow>
    bt_child n s (s\<lparr> pcs := (pcs s)(c := To_wait) \<rparr>)"
| wait: "c < n \<Longrightarrow> pcs s c = To_wait \<Longrightarrow> bt_child n s (yf_bridge_mutex_wait c s)"
| wake: "c < n \<Longrightarrow> pcs s c = Woken \<Longrightarrow> bt_child n s (mutex_wait_end c s)"
| again: "c < n \<Longrightarrow> pcs s c = Serving \<Longrightarrow> bt_queue s = [] \<Longrightarrow>
    bt_child n s (s\<lparr> pcs := (pcs s)(c := Polling) \<rparr>)"

inductive_cases bt_childE: "bt_child n s s'"

abbreviation bt_step :: "nat \<Rightarrow> bt_state \<Rightarrow> bt_state \<Rightarrow> bool" where
  "bt_step n s s' \<equiv> bt_send n s s' \<or> bt_child n s s'"

lemma bt_all_none:
  assumes "m \<le> n"
  shows "(bt_step n)\<^sup>*\<^sup>* bt_start (bt_start\<lparr> pcs := (\<lambda>c. if c < m then To_wait else Polling) \<rparr>)"
  using assms
proof (induction m)
  case 0
  then show ?case by (simp add: bt_start_def)
next
  case (Suc m)
  let ?s = "bt_start\<lparr> pcs := (\<lambda>c. if c < m then To_wait else Polling) \<rparr>"
  have "bt_child n ?s (?s\<lparr> pcs := (pcs ?s)(m := To_wait) \<rparr>)"
    using Suc.prems by (intro bt_child.none) (simp_all add: bt_start_def)
  moreover have "(pcs ?s)(m := To_wait) = (\<lambda>c. if c < Suc m then To_wait else Polling)" by (auto simp: fun_eq_iff)
  ultimately have "bt_step n ?s (bt_start\<lparr> pcs := (\<lambda>c. if c < Suc m then To_wait else Polling) \<rparr>)" by simp
  with Suc show ?case by (auto intro: rtranclp.rtrancl_into_rtrancl)
qed

lemma bt_all_wait:
  assumes "m \<le> n"
  shows "(bt_step n)\<^sup>*\<^sup>* \<lparr> bt_queue = q, bt_taken = [], wait_num = 0, pcs = (\<lambda>c. if c < n then To_wait else Polling) \<rparr>
    \<lparr> bt_queue = q, bt_taken = [], wait_num = m,
      pcs = (\<lambda>c. if c < m then Waiting else if c < n then To_wait else Polling) \<rparr>"
  using assms
proof (induction m)
  case 0
  then show ?case by simp
next
  case (Suc m)
  let ?s = "\<lparr> bt_queue = q, bt_taken = [], wait_num = m,
      pcs = (\<lambda>c. if c < m then Waiting else if c < n then To_wait else Polling) \<rparr>"
  have "bt_child n ?s (yf_bridge_mutex_wait m ?s)" using Suc.prems by (intro bt_child.wait) simp_all
  moreover have "yf_bridge_mutex_wait m ?s = \<lparr> bt_queue = q, bt_taken = [], wait_num = Suc m,
      pcs = (\<lambda>c. if c < Suc m then Waiting else if c < n then To_wait else Polling) \<rparr>"
    by (auto simp: yf_bridge_mutex_wait_def fun_eq_iff)
  ultimately show ?case using Suc by (auto intro: rtranclp.rtrancl_into_rtrancl)
qed

text \<open>
  C35: The wakeup of children that share a queue can be lost: \<^verbatim>\<open>yf_bridge_mutex_wait\<close> does not look at the
  queue again after it has locked the mutex, so a task sent after all children found the queue empty and before
  they wait signals nobody, and all children sleep with the task in the queue.
\<close>

theorem yf_poll_task_misses_task:
  assumes "0 < n"
  shows "\<exists>s. (bt_step n)\<^sup>*\<^sup>* bt_start s \<and> bt_queue s = [t] \<and> bt_taken s = [] \<and>
    (\<forall>c < n. pcs s c = Waiting) \<and> (\<forall>s'. \<not> bt_child n s s')"
proof -
  let ?pcs = "\<lambda>c. if c < n then To_wait else Polling"
  let ?a = "bt_start\<lparr> pcs := ?pcs \<rparr>"
  let ?s = "\<lparr> bt_queue = [t], bt_taken = [], wait_num = n,
      pcs = (\<lambda>c. if c < n then Waiting else if c < n then To_wait else Polling) \<rparr>"
  have "bt_send n ?a (yf_bridge_mutex_signal 0 (?a\<lparr> bt_queue := bt_queue ?a @ [t] \<rparr>))"
    using assms by (intro bt_send.intros) auto
  then have "bt_send n ?a \<lparr> bt_queue = [t], bt_taken = [], wait_num = 0, pcs = ?pcs \<rparr>"
    by (simp add: yf_bridge_mutex_signal_def bt_start_def)
  then have "bt_step n ?a \<lparr> bt_queue = [t], bt_taken = [], wait_num = 0, pcs = ?pcs \<rparr>" by (rule disjI1)
  then have "(bt_step n)\<^sup>*\<^sup>* bt_start \<lparr> bt_queue = [t], bt_taken = [], wait_num = 0, pcs = ?pcs \<rparr>"
    by (rule rtranclp.rtrancl_into_rtrancl [OF bt_all_none [OF order_refl]])
  then have "(bt_step n)\<^sup>*\<^sup>* bt_start ?s"
    by (rule rtranclp_trans [OF _ bt_all_wait [OF order_refl]])
  moreover have "\<not> bt_child n ?s s'" for s' by (rule notI, erule bt_childE) (simp_all split: if_splits)
  ultimately show ?thesis by (intro exI [of _ ?s]) simp
qed

theorem yf_poll_task_misses_task_witness:
  "\<exists>s. (bt_step 4)\<^sup>*\<^sup>* bt_start s \<and> bt_queue s = [7] \<and> bt_taken s = [] \<and>
    (\<forall>c < 4. pcs s c = Waiting) \<and> (\<forall>s'. \<not> bt_child 4 s s')"
  by (rule yf_poll_task_misses_task) simp

subsection \<open>A queue and a channel for each child\<close>

text \<open>
  The parent pushes a task and then writes a command to the channel, which may be full
  (\<^verbatim>\<open>YF_AGAIN\<close> is no error). The child blocks in its first read of the channel and then reads until
  the channel is empty.
\<close>

datatype reader_pc = R_polling | To_read | Reading | R_serving

record ch_state =
  ch_queue :: "nat list"
  ch_taken :: "nat list"
  ch_cmds :: nat
  pushed :: bool
  reader :: reader_pc

definition ch_start :: ch_state where
  "ch_start = \<lparr> ch_queue = [], ch_taken = [], ch_cmds = 0, pushed = False, reader = R_polling \<rparr>"

definition yf_bridge_channel_signal :: "nat \<Rightarrow> ch_state \<Rightarrow> ch_state" where
  "yf_bridge_channel_signal room s =
     s\<lparr> ch_cmds := (if ch_cmds s < room then ch_cmds s + 1 else ch_cmds s), pushed := False \<rparr>"

inductive ch_parent :: "nat \<Rightarrow> ch_state \<Rightarrow> ch_state \<Rightarrow> bool" for room :: nat where
  push: "\<not> pushed s \<Longrightarrow> ch_parent room s (s\<lparr> ch_queue := ch_queue s @ [t], pushed := True \<rparr>)"
| signal: "pushed s \<Longrightarrow> ch_parent room s (yf_bridge_channel_signal room s)"

inductive yf_bridge_channel_wait :: "ch_state \<Rightarrow> ch_state \<Rightarrow> bool" where
  first: "reader s = To_read \<Longrightarrow> 0 < ch_cmds s \<Longrightarrow>
    yf_bridge_channel_wait s (s\<lparr> ch_cmds := ch_cmds s - 1, reader := Reading \<rparr>)"
| more: "reader s = Reading \<Longrightarrow> 0 < ch_cmds s \<Longrightarrow>
    yf_bridge_channel_wait s (s\<lparr> ch_cmds := ch_cmds s - 1 \<rparr>)"
| again: "reader s = Reading \<Longrightarrow> ch_cmds s = 0 \<Longrightarrow>
    yf_bridge_channel_wait s (s\<lparr> reader := R_serving \<rparr>)"

inductive ch_child :: "ch_state \<Rightarrow> ch_state \<Rightarrow> bool" where
  take: "reader s = R_polling \<or> reader s = R_serving \<Longrightarrow> ch_queue s = t # q \<Longrightarrow>
    ch_child s (s\<lparr> ch_queue := q, ch_taken := ch_taken s @ [t] \<rparr>)"
| none: "reader s = R_polling \<Longrightarrow> ch_queue s = [] \<Longrightarrow> ch_child s (s\<lparr> reader := To_read \<rparr>)"
| wait: "yf_bridge_channel_wait s s' \<Longrightarrow> ch_child s s'"
| next_poll: "reader s = R_serving \<Longrightarrow> ch_queue s = [] \<Longrightarrow> ch_child s (s\<lparr> reader := R_polling \<rparr>)"

inductive_cases ch_parentE: "ch_parent room s s'"
inductive_cases ch_waitE: "yf_bridge_channel_wait s s'"
inductive_cases ch_childE: "ch_child s s'"

abbreviation ch_step :: "nat \<Rightarrow> ch_state \<Rightarrow> ch_state \<Rightarrow> bool" where
  "ch_step room s s' \<equiv> ch_parent room s s' \<or> ch_child s s'"

text \<open>A reader about to block has nothing to take, or will get a command.\<close>

definition ch_inv :: "ch_state \<Rightarrow> bool" where
  "ch_inv s \<longleftrightarrow> (reader s = To_read \<longrightarrow> ch_queue s = [] \<or> 0 < ch_cmds s \<or> pushed s)"

lemma ch_inv_step:
  assumes "ch_inv s" "ch_step room s s'" "0 < room"
  shows "ch_inv s'"
  using assms(2)
proof
  assume "ch_parent room s s'"
  then show ?thesis
    using assms(1,3) by (auto elim!: ch_parentE simp: ch_inv_def yf_bridge_channel_signal_def)
next
  assume "ch_child s s'"
  then show ?thesis
    using assms(1) by (auto elim!: ch_childE ch_waitE simp: ch_inv_def)
qed

lemma ch_inv_reach: "(ch_step room)\<^sup>*\<^sup>* ch_start s \<Longrightarrow> 0 < room \<Longrightarrow> ch_inv s"
proof (induction rule: rtranclp_induct)
  case base
  show ?case by (simp add: ch_inv_def ch_start_def)
next
  case (step s s')
  then show ?case by (blast intro: ch_inv_step)
qed

text \<open>
  C36: With a channel no wakeup is lost: whenever a task is in the queue of a child and its parent is not between
  the push and the signal, the child can go on.
\<close>

theorem yf_bridge_channel_never_misses:
  assumes "(ch_step room)\<^sup>*\<^sup>* ch_start s" "0 < room" "ch_queue s \<noteq> []" "\<not> pushed s"
  shows "\<exists>s'. ch_child s s'"
proof -
  have inv: "ch_inv s" by (rule ch_inv_reach [OF assms(1,2)])
  obtain t q where q: "ch_queue s = t # q" using assms(3) by (cases "ch_queue s") auto
  show ?thesis
  proof (cases "reader s")
    case To_read
    with inv assms(3,4) have "0 < ch_cmds s" by (simp add: ch_inv_def)
    with To_read show ?thesis by (blast intro: ch_child.wait yf_bridge_channel_wait.first)
  next
    case Reading
    then show ?thesis
      by (cases "ch_cmds s = 0") (auto intro: ch_child.wait yf_bridge_channel_wait.again yf_bridge_channel_wait.more)
  qed (use q in \<open>blast intro: ch_child.take\<close>)+
qed

theorem yf_bridge_channel_never_misses_witness:
  "\<exists>s s'. (ch_step 3)\<^sup>*\<^sup>* ch_start s \<and> reader s = To_read \<and> ch_queue s = [5] \<and> ch_child s s'"
proof -
  let ?a = "ch_start\<lparr> reader := To_read \<rparr>"
  let ?b = "?a\<lparr> ch_queue := ch_queue ?a @ [5], pushed := True \<rparr>"
  let ?c = "yf_bridge_channel_signal 3 ?b"
  note into = rtranclp.rtrancl_into_rtrancl [where r = "ch_step 3" and a = ch_start]
  have "ch_child ch_start ?a" by (rule ch_child.none) (simp_all add: ch_start_def)
  then have "ch_step 3 ch_start ?a" by (rule disjI2)
  then have r1: "(ch_step 3)\<^sup>*\<^sup>* ch_start ?a" by (rule into [OF rtranclp.rtrancl_refl])
  have "ch_parent 3 ?a ?b" by (rule ch_parent.push) (simp add: ch_start_def)
  then have "ch_step 3 ?a ?b" by (rule disjI1)
  then have r2: "(ch_step 3)\<^sup>*\<^sup>* ch_start ?b" by (rule into [OF r1])
  have "ch_parent 3 ?b ?c" by (rule ch_parent.signal) simp
  then have "ch_step 3 ?b ?c" by (rule disjI1)
  then have r3: "(ch_step 3)\<^sup>*\<^sup>* ch_start ?c" by (rule into [OF r2])
  have c: "ch_queue ?c = [5]" "\<not> pushed ?c" "reader ?c = To_read"
    by (simp_all add: yf_bridge_channel_signal_def ch_start_def)
  have "\<exists>s'. ch_child ?c s'"
  proof (rule yf_bridge_channel_never_misses [OF r3])
    show "ch_queue ?c \<noteq> []" unfolding c by (rule list.distinct)
    show "\<not> pushed ?c" by (rule c)
  qed simp
  then show ?thesis using r3 c by blast
qed

end
