(* ===== verification/Fd_Event.thy ===== *)
theory Fd_Event
  imports Yf_List
begin

section \<open>Descriptor events\<close>

text \<open>
  Models \<^verbatim>\<open>mio_driver/event_in/yf_fd_event_in.h\<close> and \<^verbatim>\<open>yf_fd_event_in.c\<close>: each descriptor below the
  capacity has a slot with a read event and a write event. An event is polled while the operating system
  watches it, ready after the system reported it, active between its registration and the call of
  its handler. What the pollers of \<^verbatim>\<open>fd_poller/\<close> do is behind the table of actions; their state is
  the type variable \<open>'p\<close>, what the system answers to a wait \<open>'k\<close>.

  The two kinds of links are kept in heaps of their own (they are different members), with one
  address for each event. Timers of the wheel (theory Tm_Wheel) are a map from events to milliseconds.
  \<open>called\<close> is the trace of handler calls. \<^verbatim>\<open>active_linker\<close> is never linked and left out.
\<close>

datatype evt_half = Revt | Wevt

type_synonym evt = "nat \<times> evt_half"

definition YF_INVALID_INDEX :: nat where "YF_INVALID_INDEX = 0xd0d0d0d0"

record fd_evt_link =
  fd :: int
  ready :: bool
  timeout :: bool
  index :: nat
  timeset :: bool
  active :: bool
  polled :: bool
  last_active_op_index :: u32

record fd_evt_in =
  use_flag :: bool
  rd_link :: fd_evt_link
  wr_link :: fd_evt_link

record 'p fd_driver =
  pevents :: "nat \<Rightarrow> fd_evt_in"
  all_links :: dheap
  ready_links :: dheap
  active_op_index :: u32
  evts_capcity :: nat
  evts_num :: u32
  timers :: "evt \<Rightarrow> nat option"
  called :: "evt list"
  agen_data :: 'p

record ('p, 'k) fd_poll_actions =
  act_add :: "(nat \<Rightarrow> 'p fd_driver \<Rightarrow> (int \<times> 'p fd_driver) run) option"
  act_del :: "(bool \<Rightarrow> nat \<Rightarrow> 'p fd_driver \<Rightarrow> (int \<times> 'p fd_driver) run) option"
  act_activate :: "(bool \<Rightarrow> evt \<Rightarrow> 'p fd_driver \<Rightarrow> (int \<times> 'p fd_driver) run) option"
  act_deactivate :: "(evt \<Rightarrow> 'p fd_driver \<Rightarrow> (int \<times> 'p fd_driver) run) option"
  act_dispatch :: "'k \<Rightarrow> 'p fd_driver \<Rightarrow> (int \<times> 'p fd_driver) run"

text \<open>An action that is missing counts as successful.\<close>

definition call_action :: "('a \<Rightarrow> 'd \<Rightarrow> (int \<times> 'd) run) option \<Rightarrow> 'a \<Rightarrow> 'd \<Rightarrow> (int \<times> 'd) run" where
  "call_action act x d = (case act of None \<Rightarrow> Inr (YF_OK, d) | Some f \<Rightarrow> f x d)"

subsection \<open>Access to events and links\<close>

definition ev_link :: "'p fd_driver \<Rightarrow> evt \<Rightarrow> fd_evt_link" where
  "ev_link d e = (case e of (n, Revt) \<Rightarrow> rd_link (pevents d n) | (n, Wevt) \<Rightarrow> wr_link (pevents d n))"

definition map_link :: "evt \<Rightarrow> (fd_evt_link \<Rightarrow> fd_evt_link) \<Rightarrow> 'p fd_driver \<Rightarrow> 'p fd_driver" where
  "map_link e f d = (case e of
     (n, Revt) \<Rightarrow> d\<lparr> pevents := (pevents d)(n := (pevents d n)\<lparr> rd_link := f (rd_link (pevents d n)) \<rparr>) \<rparr>
   | (n, Wevt) \<Rightarrow> d\<lparr> pevents := (pevents d)(n := (pevents d n)\<lparr> wr_link := f (wr_link (pevents d n)) \<rparr>) \<rparr>)"

fun other_half :: "evt \<Rightarrow> evt" where
  "other_half (n, Revt) = (n, Wevt)"
| "other_half (n, Wevt) = (n, Revt)"

definition READY_LIST :: addr where "READY_LIST = 16"
definition LOCAL_READY :: addr where "LOCAL_READY = 32"
definition ALL_LIST :: addr where "ALL_LIST = 16"

definition all_linker :: "nat \<Rightarrow> addr" where "all_linker n = 16 * n + 32"

definition ready_linker :: "evt \<Rightarrow> addr" where
  "ready_linker e = 32 * fst e + (case snd e of Revt \<Rightarrow> 64 | Wevt \<Rightarrow> 80)"

text \<open>\<^verbatim>\<open>container_of\<close> on a ready link; a list head is no member of an event.\<close>

definition link_evt :: "addr \<Rightarrow> evt run" where
  "link_evt p = require Out_of_bounds (64 \<le> p \<and> 16 dvd p)
     (Inr ((p - 64) div 32, if (p - 64) div 16 mod 2 = 0 then Revt else Wevt))"

definition zero_links :: "addr set \<Rightarrow> dheap \<Rightarrow> dheap" where
  "zero_links A h = \<lparr> dnext = (\<lambda>p. if p \<in> A then 0 else dnext h p), dprev = (\<lambda>p. if p \<in> A then 0 else dprev h p) \<rparr>"

subsection \<open>Creation\<close>

text \<open>
  \<open>init t\<close> is what the initialisation of poller \<open>t\<close> returns, \<open>None\<close> also for a poller that is not
  compiled in; \<open>cls_num\<close> is the length of the table. Memory is zero, so all slots are free.
\<close>

fun try_poll :: "(nat \<Rightarrow> 'p option) \<Rightarrow> int \<Rightarrow> nat \<Rightarrow> 'p option" where
  "try_poll init poll_type 0 = init 0"
| "try_poll init poll_type (Suc t) =
     (case init (Suc t) of Some p \<Rightarrow> Some p | None \<Rightarrow> if poll_type = 0 then try_poll init poll_type t else None)"

definition zero_link :: fd_evt_link where
  "zero_link = \<lparr> fd = 0, ready = False, timeout = False, index = 0, timeset = False, active = False,
     polled = False, last_active_op_index = 0 \<rparr>"

definition yf_init_fd_driver :: "bool \<Rightarrow> (nat \<Rightarrow> 'p option) \<Rightarrow> nat \<Rightarrow> nat \<Rightarrow> int \<Rightarrow> 'p fd_driver option run" where
  "yf_init_fd_driver alloc_ok init cls_num nfds poll_type =
     run_bind (yf_init_list_head (zero_links UNIV \<lparr> dnext = id, dprev = id \<rparr>) ALL_LIST) (\<lambda>ah.
     run_bind (yf_init_list_head (zero_links UNIV \<lparr> dnext = id, dprev = id \<rparr>) READY_LIST) (\<lambda>rh.
     if \<not> alloc_ok \<or> poll_type < 0 \<or> poll_type \<ge> int cls_num then Inr None
     else
       let try_poll_type = (if poll_type = 0 then cls_num - 1 else nat poll_type) in
       case try_poll init poll_type try_poll_type of
         None \<Rightarrow> Inr None
       | Some p \<Rightarrow> Inr (Some \<lparr>
           pevents = (\<lambda>_. \<lparr> use_flag = False, rd_link = zero_link, wr_link = zero_link \<rparr>),
           all_links = ah, ready_links = rh, active_op_index = 0, evts_capcity = nfds, evts_num = 0,
           timers = Map.empty, called = [], agen_data = p \<rparr>)))"

subsection \<open>Timers of events\<close>

definition FD_TIMER_NEW :: int where "FD_TIMER_NEW = 1"
definition FD_TIMER_DEL :: int where "FD_TIMER_DEL = 2"

definition yf_fd_evt_timer_ctl :: "evt \<Rightarrow> int \<Rightarrow> nat \<Rightarrow> 'p fd_driver \<Rightarrow> 'p fd_driver" where
  "yf_fd_evt_timer_ctl e mode time_out_ms d =
     (if mode = FD_TIMER_NEW
      then map_link e (\<lambda>l. l\<lparr> timeset := True \<rparr>) (d\<lparr> timers := (timers d)(e \<mapsto> time_out_ms mod 2 ^ 30) \<rparr>)
      else if mode = FD_TIMER_DEL \<and> timeset (ev_link d e)
      then map_link e (\<lambda>l. l\<lparr> timeset := False \<rparr>) (d\<lparr> timers := (timers d)(e := None) \<rparr>)
      else d)"

subsection \<open>Registration\<close>

definition activated :: "evt \<Rightarrow> 'p fd_driver \<Rightarrow> 'p fd_driver" where
  "activated e d = map_link e (\<lambda>l. l\<lparr> last_active_op_index := active_op_index d, active := True \<rparr>) d"

definition yf_register_fd_evt ::
    "('p, 'k) fd_poll_actions \<Rightarrow> bool \<Rightarrow> evt \<Rightarrow> nat option \<Rightarrow> 'p fd_driver \<Rightarrow> (int \<times> 'p fd_driver) run" where
  "yf_register_fd_evt cls ok e time_out d =
     (let d = map_link e (\<lambda>l. l\<lparr> timeout := False \<rparr>) d in
      if ready (ev_link d e)
      then run_bind (yf_list_move_head (ready_links d) (ready_linker e) READY_LIST) (\<lambda>h.
           Inr (YF_OK, activated e (d\<lparr> ready_links := h \<rparr>)))
      else if active (ev_link d e) then Inr (YF_OK, activated e d)
      else
        run_bind (if \<not> polled (ev_link d e) then call_action (map_option (\<lambda>act. act ok) (act_activate cls)) e d
                  else Inr (YF_OK, d)) (\<lambda>(r, d).
        if r \<noteq> YF_OK then Inr (YF_ERROR, d)
        else
          let d = (case time_out of None \<Rightarrow> d | Some ms \<Rightarrow> yf_fd_evt_timer_ctl e FD_TIMER_NEW ms d) in
          Inr (YF_OK, activated e d)))"

definition yf_unregister_fd_evt ::
    "('p, 'k) fd_poll_actions \<Rightarrow> evt \<Rightarrow> 'p fd_driver \<Rightarrow> (int \<times> 'p fd_driver) run" where
  "yf_unregister_fd_evt cls e d =
     (if \<not> active (ev_link d e) then Inr (YF_OK, d)
      else
        run_bind (yf_list_del (ready_links d) (ready_linker e)) (\<lambda>h.
        let d = yf_fd_evt_timer_ctl e FD_TIMER_DEL 0 (d\<lparr> ready_links := h \<rparr>) in
        run_bind (if ready (ev_link d e) \<and> polled (ev_link d e) then call_action (act_deactivate cls) e d
                  else Inr (YF_OK, d)) (\<lambda>(r, d).
        if r \<noteq> YF_OK then Inr (YF_ERROR, d)
        else Inr (YF_OK, map_link e (\<lambda>l. l\<lparr> last_active_op_index := 0, active := False \<rparr>) d))))"

subsection \<open>Slots\<close>

definition fresh_link :: "nat \<Rightarrow> fd_evt_link" where
  "fresh_link n = zero_link\<lparr> fd := int n, index := YF_INVALID_INDEX \<rparr>"

definition use_slot :: "nat \<Rightarrow> bool \<Rightarrow> 'p fd_driver \<Rightarrow> 'p fd_driver" where
  "use_slot n b d = d\<lparr> pevents := (pevents d)(n := (pevents d n)\<lparr> use_flag := b \<rparr>) \<rparr>"

definition fd_slot :: "int \<Rightarrow> 'p fd_driver \<Rightarrow> nat run" where
  "fd_slot sock d = require Out_of_bounds (0 \<le> sock \<and> nat sock < evts_capcity d) (Inr (nat sock))"

text \<open>
  \<open>pwrite\<close> is the slot whose write event is passed with the read event of slot \<open>n\<close>, if any;
  \<open>ok\<close> tells whether the system call of the poller succeeds.
\<close>

definition yf_free_fd_evt ::
    "('p, 'k) fd_poll_actions \<Rightarrow> bool \<Rightarrow> nat \<Rightarrow> nat option \<Rightarrow> 'p fd_driver \<Rightarrow> (int \<times> 'p fd_driver) run" where
  "yf_free_fd_evt cls ok n pwrite d =
     (if pwrite \<noteq> None \<and> pwrite \<noteq> Some n then Inr (YF_ERROR, d)
      else if \<not> use_flag (pevents d n) then Inr (YF_ERROR, d)
      else
        run_bind (yf_unregister_fd_evt cls (n, Revt) (use_slot n False d)) (\<lambda>(_, d).
        run_bind (yf_unregister_fd_evt cls (n, Wevt) d) (\<lambda>(_, d).
        run_bind (call_action (map_option (\<lambda>act. act ok) (act_del cls)) n d) (\<lambda>(_, d).
        let d = map_link (n, Revt) (\<lambda>l. l\<lparr> fd := -1 \<rparr>) d;
            d = map_link (n, Wevt) (\<lambda>l. l\<lparr> fd := -1 \<rparr>) d in
        Inr (YF_OK, d\<lparr> evts_num := evts_num d - 1 \<rparr>)))))"

definition yf_alloc_fd_evt ::
    "('p, 'k) fd_poll_actions \<Rightarrow> bool \<Rightarrow> int \<Rightarrow> 'p fd_driver \<Rightarrow> (int \<times> 'p fd_driver) run" where
  "yf_alloc_fd_evt cls ok sock d =
     (if unat (word_of_int sock :: u32) \<ge> evts_capcity d then Inr (YF_ERROR, d)
      else
        run_bind (fd_slot sock d) (\<lambda>n.
        if use_flag (pevents d n) then Inr (YF_ERROR, d)
        else
          run_bind (yf_list_add_tail (zero_links {all_linker n} (all_links d)) (all_linker n) ALL_LIST) (\<lambda>h.
          let d = d\<lparr> evts_num := evts_num d + 1, all_links := h,
                 ready_links := zero_links {ready_linker (n, Revt), ready_linker (n, Wevt)} (ready_links d),
                 pevents := (pevents d)(n := \<lparr> use_flag = True, rd_link = fresh_link n, wr_link = fresh_link n \<rparr>) \<rparr> in
          run_bind (call_action (act_add cls) n d) (\<lambda>(r, d).
          if r \<noteq> YF_OK
          then run_bind (yf_free_fd_evt cls ok n (Some n) d) (\<lambda>(_, d). Inr (YF_ERROR, d))
          else Inr (YF_OK, d)))))"

definition yf_get_fd_evt :: "int \<Rightarrow> nat \<Rightarrow> 'p fd_driver \<Rightarrow> evt option run" where
  "yf_get_fd_evt sock kind d =
     (if kind \<noteq> 1 \<and> kind \<noteq> 2 then Inr None
      else
        run_bind (fd_slot sock d) (\<lambda>n.
        if \<not> use_flag (pevents d n) then Inr None else Inr (Some (n, if kind = 1 then Revt else Wevt))))"

subsection \<open>Reports of the pollers\<close>

definition mark_ready :: "evt \<Rightarrow> 'p fd_driver \<Rightarrow> 'p fd_driver run" where
  "mark_ready e d =
     run_bind (yf_list_move_tail (ready_links d) (ready_linker e) READY_LIST) (\<lambda>h.
     Inr (map_link e (\<lambda>l. l\<lparr> ready := True \<rparr>) (d\<lparr> ready_links := h \<rparr>)))"

fun marks :: "evt list \<Rightarrow> 'p fd_driver \<Rightarrow> 'p fd_driver run" where
  "marks [] d = Inr d"
| "marks (e # es) d = run_bind (mark_ready e d) (marks es)"

subsection \<open>Facts on the accessors\<close>

lemma ev_link_map [simp]: "ev_link (map_link e f d) e' = (if e' = e then f (ev_link d e) else ev_link d e')"
  by (cases e; cases e'; cases "snd e"; cases "snd e'") (auto simp: ev_link_def map_link_def)

lemma map_link_fields [simp]:
  "all_links (map_link e f d) = all_links d" "ready_links (map_link e f d) = ready_links d"
  "active_op_index (map_link e f d) = active_op_index d" "evts_capcity (map_link e f d) = evts_capcity d"
  "evts_num (map_link e f d) = evts_num d" "timers (map_link e f d) = timers d"
  "called (map_link e f d) = called d" "agen_data (map_link e f d) = agen_data d"
  "use_flag (pevents (map_link e f d) n) = use_flag (pevents d n)"
  by (cases e; cases "snd e"; auto simp: map_link_def)+

lemma ev_link_upd [simp]:
  "ev_link (d\<lparr> all_links := h \<rparr>) e = ev_link d e" "ev_link (d\<lparr> ready_links := h \<rparr>) e = ev_link d e"
  "ev_link (d\<lparr> active_op_index := i \<rparr>) e = ev_link d e" "ev_link (d\<lparr> evts_num := k \<rparr>) e = ev_link d e"
  "ev_link (d\<lparr> timers := t \<rparr>) e = ev_link d e" "ev_link (d\<lparr> called := cs \<rparr>) e = ev_link d e"
  "ev_link (d\<lparr> agen_data := p \<rparr>) e = ev_link d e"
  by (auto simp: ev_link_def split: evt_half.splits prod.splits)

lemma ev_link_use_slot [simp]: "ev_link (use_slot n b d) e = ev_link d e"
  by (auto simp: ev_link_def use_slot_def split: evt_half.splits prod.splits)

lemma use_slot_fields [simp]:
  "all_links (use_slot n b d) = all_links d" "ready_links (use_slot n b d) = ready_links d"
  "active_op_index (use_slot n b d) = active_op_index d" "evts_capcity (use_slot n b d) = evts_capcity d"
  "evts_num (use_slot n b d) = evts_num d" "timers (use_slot n b d) = timers d"
  "called (use_slot n b d) = called d" "agen_data (use_slot n b d) = agen_data d"
  "use_flag (pevents (use_slot n b d) m) = (if m = n then b else use_flag (pevents d m))"
  by (auto simp: use_slot_def)

lemma timer_ctl_simps:
  "yf_fd_evt_timer_ctl e FD_TIMER_NEW ms d =
     map_link e (\<lambda>l. l\<lparr> timeset := True \<rparr>) (d\<lparr> timers := (timers d)(e \<mapsto> ms mod 2 ^ 30) \<rparr>)"
  "yf_fd_evt_timer_ctl e FD_TIMER_DEL ms d =
     (if timeset (ev_link d e)
      then map_link e (\<lambda>l. l\<lparr> timeset := False \<rparr>) (d\<lparr> timers := (timers d)(e := None) \<rparr>) else d)"
  by (simp_all add: yf_fd_evt_timer_ctl_def FD_TIMER_NEW_def FD_TIMER_DEL_def)

lemma ready_linker_inj [simp]: "ready_linker e = ready_linker e' \<longleftrightarrow> e = e'"
proof (cases e; cases e')
  fix n k n' k'
  have "32 * n + 64 \<noteq> 32 * n' + 80" "32 * n + 80 \<noteq> 32 * n' + 64" for n n' :: nat by presburger+
  then show "e = (n, k) \<Longrightarrow> e' = (n', k') \<Longrightarrow> ?thesis" by (cases k; cases k') (simp_all add: ready_linker_def)
qed

lemma ready_linker_head [simp]:
  "ready_linker e \<noteq> 0" "ready_linker e \<noteq> READY_LIST" "ready_linker e \<noteq> LOCAL_READY"
  "READY_LIST \<noteq> ready_linker e" "LOCAL_READY \<noteq> ready_linker e" "0 \<noteq> ready_linker e"
  by (auto simp: ready_linker_def READY_LIST_def LOCAL_READY_def split: evt_half.splits)

lemma link_evt_linker [simp]: "link_evt (ready_linker e) = Inr e"
proof (cases e)
  case (Pair n k)
  show ?thesis
  proof (cases k)
    case Revt
    have "64 + 32 * n = 16 * (4 + 2 * n)" by simp
    then have "(16 :: nat) dvd 64 + 32 * n" by (metis dvd_triv_left)
    with Pair Revt show ?thesis by (simp add: link_evt_def ready_linker_def ac_simps)
  next
    case Wevt
    have "80 + 32 * n = 16 * (5 + 2 * n)" by simp
    then have "(16 :: nat) dvd 80 + 32 * n" by (metis dvd_triv_left)
    moreover have "(32 * n + 16) div 32 = n" "(32 * n + 16) div 16 mod 2 = 1" by presburger+
    ultimately show ?thesis using Pair Wevt by (simp add: link_evt_def ready_linker_def ac_simps)
  qed
qed

lemma link_evt_heads [simp]:
  "link_evt READY_LIST = Inl Out_of_bounds" "link_evt LOCAL_READY = Inl Out_of_bounds"
  by (simp_all add: link_evt_def READY_LIST_def LOCAL_READY_def)

subsection \<open>The ready lists\<close>

text \<open>
  The list of the driver and the one of the loop as sequences of events; an event in neither has null
  links.
\<close>

definition ready_heap :: "dheap \<Rightarrow> evt list \<Rightarrow> evt list \<Rightarrow> bool" where
  "ready_heap h xs ys \<longleftrightarrow>
     ring h READY_LIST (map ready_linker xs) \<and> ring h LOCAL_READY (map ready_linker ys) \<and> set xs \<inter> set ys = {} \<and>
     (\<forall>e. e \<notin> set xs \<union> set ys \<longrightarrow> dnext h (ready_linker e) = 0 \<and> dprev h (ready_linker e) = 0)"

lemma ready_heap_distinct: "ready_heap h xs ys \<Longrightarrow> distinct xs \<and> distinct ys"
  by (auto simp: ready_heap_def ring_def distinct_map)

lemma ready_heap_zero:
  "ready_heap h xs ys \<Longrightarrow> e \<notin> set xs \<Longrightarrow> e \<notin> set ys \<Longrightarrow>
   dnext h (ready_linker e) = 0 \<and> dprev h (ready_linker e) = 0"
  unfolding ready_heap_def by blast

lemma list_heads_ne [simp]: "READY_LIST \<noteq> LOCAL_READY" "LOCAL_READY \<noteq> READY_LIST" "READY_LIST \<noteq> 0" "LOCAL_READY \<noteq> 0"
  by (simp_all add: READY_LIST_def LOCAL_READY_def)

lemma linker_in [simp]: "ready_linker e \<in> ready_linker ` A \<longleftrightarrow> e \<in> A"
  by auto

text \<open>An update that stays within one list and \<open>e\<close> keeps the other list and the null links.\<close>

lemma ready_heap_upd:
  assumes r: "ready_heap h xs ys" and off: "same_off (insert (ready_linker e) (set (READY_LIST # map ready_linker xs))) h h'"
    and x: "ring h' READY_LIST (map ready_linker xs')" "set xs' \<subseteq> insert e (set xs)" "set xs - {e} \<subseteq> set xs'"
    and e: "e \<notin> set ys" "e \<in> set xs' \<or> dnext h' (ready_linker e) = 0 \<and> dprev h' (ready_linker e) = 0"
  shows "ready_heap h' xs' ys"
proof -
  have "ring h' LOCAL_READY (map ready_linker ys)"
    by (rule ring_same_off [OF off]) (use r e(1) in \<open>auto simp: ready_heap_def\<close>)
  moreover have "dnext h' (ready_linker e') = 0 \<and> dprev h' (ready_linker e') = 0" if "e' \<notin> set xs' \<union> set ys" for e'
  proof (cases "e' = e")
    case True
    with e(2) that show ?thesis by blast
  next
    case False
    then have "e' \<notin> set xs \<union> set ys" "ready_linker e' \<notin> insert (ready_linker e) (set (READY_LIST # map ready_linker xs))"
      using that x(3) by auto
    then have "dnext h' (ready_linker e') = dnext h (ready_linker e') \<and> dprev h' (ready_linker e') = dprev h (ready_linker e')"
      using off unfolding same_off_def by blast
    with ready_heap_zero [OF r, of e'] \<open>e' \<notin> set xs \<union> set ys\<close> show ?thesis by simp
  qed
  moreover have "set xs' \<inter> set ys = {}" using r x(2) e(1) by (auto simp: ready_heap_def)
  ultimately show ?thesis using x(1) by (simp add: ready_heap_def)
qed

lemma ready_unlink:
  assumes "ready_heap h xs ys" "e \<notin> set ys"
  shows "\<exists>h'. unlink h (ready_linker e) = Inr h' \<and> ring h' READY_LIST (map ready_linker (removeAll e xs)) \<and>
    same_off (set (READY_LIST # map ready_linker xs)) h h'"
proof (cases "e \<in> set xs")
  case True
  then obtain us vs where xs: "xs = us @ e # vs" by (auto dest: split_list)
  with ready_heap_distinct [OF assms(1)] have "removeAll e xs = us @ vs" by simp
  moreover have "ring h READY_LIST (map ready_linker us @ ready_linker e # map ready_linker vs)"
    using assms(1) xs by (simp add: ready_heap_def)
  from unlink_spec [OF this] obtain h' where "unlink h (ready_linker e) = Inr h'"
    "ring h' READY_LIST (map ready_linker (us @ vs))"
    "same_off (set (READY_LIST # map ready_linker us @ map ready_linker vs)) h h'" by auto
  moreover have "same_off (set (READY_LIST # map ready_linker xs)) h h'"
    by (rule same_off_trans [OF calculation(4) same_off_refl [of "{}"]]) (auto simp: xs)
  ultimately show ?thesis by auto
next
  case False
  have "dprev h (ready_linker e) = 0" "ring h READY_LIST (map ready_linker xs)"
    using ready_heap_zero [OF assms(1) False assms(2)] assms(1) by (simp_all add: ready_heap_def)
  with False show ?thesis by (auto simp: unlink_def list_del_def d_prev_def d_next_def)
qed

lemma ready_move:
  assumes r: "ready_heap h xs ys" and e: "e \<notin> set ys"
  shows "\<exists>h'. yf_list_move_head h (ready_linker e) READY_LIST = Inr h' \<and> ready_heap h' (e # removeAll e xs) ys"
    and "\<exists>h'. yf_list_move_tail h (ready_linker e) READY_LIST = Inr h' \<and> ready_heap h' (removeAll e xs @ [e]) ys"
proof -
  from ready_unlink [OF assms] obtain h1 where h1: "unlink h (ready_linker e) = Inr h1"
    "ring h1 READY_LIST (map ready_linker (removeAll e xs))" "same_off (set (READY_LIST # map ready_linker xs)) h h1" by blast
  have n: "ready_linker e \<notin> set (READY_LIST # map ready_linker (removeAll e xs))" by auto
  have off: "same_off (insert (ready_linker e) (set (READY_LIST # map ready_linker xs))) h h'"
    if "same_off (insert (ready_linker e) (set (READY_LIST # map ready_linker (removeAll e xs)))) h1 h'" for h'
    by (rule same_off_trans [OF h1(3) that]) auto
  from ring_add_first [OF h1(2) n] obtain h' where "yf_list_insert_after h1 (ready_linker e) READY_LIST = Inr h'"
    "ring h' READY_LIST (map ready_linker (e # removeAll e xs))"
    "same_off (insert (ready_linker e) (set (READY_LIST # map ready_linker (removeAll e xs)))) h1 h'" by auto
  with h1(1) ready_heap_upd [OF r off _ _ _ e, of h' "e # removeAll e xs"]
  show "\<exists>h'. yf_list_move_head h (ready_linker e) READY_LIST = Inr h' \<and> ready_heap h' (e # removeAll e xs) ys"
    by (auto simp: yf_list_move_head_def yf_list_add_head_def)
  from ring_add_last [OF h1(2) n] obtain h' where "yf_list_insert_before h1 (ready_linker e) READY_LIST = Inr h'"
    "ring h' READY_LIST (map ready_linker (removeAll e xs @ [e]))"
    "same_off (insert (ready_linker e) (set (READY_LIST # map ready_linker (removeAll e xs)))) h1 h'" by auto
  with h1(1) ready_heap_upd [OF r off _ _ _ e, of h' "removeAll e xs @ [e]"]
  show "\<exists>h'. yf_list_move_tail h (ready_linker e) READY_LIST = Inr h' \<and> ready_heap h' (removeAll e xs @ [e]) ys"
    by (auto simp: yf_list_move_tail_def yf_list_add_tail_def)
qed

lemma ready_del:
  assumes r: "ready_heap h xs ys" and e: "e \<notin> set ys"
  shows "\<exists>h'. yf_list_del h (ready_linker e) = Inr h' \<and> ready_heap h' (removeAll e xs) ys"
proof -
  from ready_unlink [OF assms] obtain h1 where h1: "unlink h (ready_linker e) = Inr h1"
    "ring h1 READY_LIST (map ready_linker (removeAll e xs))" "same_off (set (READY_LIST # map ready_linker xs)) h h1" by blast
  let ?h = "h1\<lparr> dnext := (dnext h1)(ready_linker e := 0), dprev := (dprev h1)(ready_linker e := 0) \<rparr>"
  have "yf_list_del h (ready_linker e) = Inr ?h" using h1(1) by (simp add: yf_list_del_def)
  moreover have "ready_heap ?h (removeAll e xs) ys"
  proof (rule ready_heap_upd [OF r _ _ _ _ e])
    show "same_off (insert (ready_linker e) (set (READY_LIST # map ready_linker xs))) h ?h"
      by (rule same_off_trans [OF h1(3) same_off_clear]) auto
    show "ring ?h READY_LIST (map ready_linker (removeAll e xs))"
      by (rule ring_same_off [OF same_off_clear _ h1(2)]) auto
  qed auto
  ultimately show ?thesis by blast
qed

text \<open>The loop takes the first event off its list.\<close>

lemma ready_del_local:
  assumes r: "ready_heap h xs (e # ys)"
  shows "\<exists>h'. yf_list_del h (ready_linker e) = Inr h' \<and> ready_heap h' xs ys"
proof -
  have "ring h LOCAL_READY ([] @ ready_linker e # map ready_linker ys)" using r by (simp add: ready_heap_def)
  from ring_del [OF this] obtain h' where h': "yf_list_del h (ready_linker e) = Inr h'"
    "ring h' LOCAL_READY (map ready_linker ys)" "dnext h' (ready_linker e) = 0" "dprev h' (ready_linker e) = 0"
    "same_off (set (LOCAL_READY # map ready_linker (e # ys))) h h'" by auto
  have "ring h' READY_LIST (map ready_linker xs)"
    by (rule ring_same_off [OF h'(5)]) (use r in \<open>auto simp: ready_heap_def\<close>)
  moreover have "dnext h' (ready_linker e') = 0 \<and> dprev h' (ready_linker e') = 0" if "e' \<notin> set xs \<union> set ys" for e'
  proof (cases "e' = e")
    case True
    with h'(3,4) show ?thesis by simp
  next
    case False
    then have "ready_linker e' \<notin> set (LOCAL_READY # map ready_linker (e # ys))" using that by auto
    then have "dnext h' (ready_linker e') = dnext h (ready_linker e') \<and> dprev h' (ready_linker e') = dprev h (ready_linker e')"
      using h'(5) unfolding same_off_def by blast
    with ready_heap_zero [OF r, of e'] that False show ?thesis by simp
  qed
  ultimately show ?thesis using h'(1,2) r by (auto simp: ready_heap_def)
qed

lemma ready_splice:
  assumes r: "ready_heap h xs []"
  shows "\<exists>h'. yf_list_splice h READY_LIST LOCAL_READY = Inr h' \<and> ready_heap h' [] xs"
proof -
  have "ring h READY_LIST (map ready_linker xs)" "ring h LOCAL_READY []" using r by (simp_all add: ready_heap_def)
  moreover have "set (READY_LIST # map ready_linker xs) \<inter> set [LOCAL_READY] = {}" by auto
  ultimately have "\<exists>h'. yf_list_splice h READY_LIST LOCAL_READY = Inr h' \<and> ring h' READY_LIST [] \<and>
    ring h' LOCAL_READY (map ready_linker xs @ []) \<and> same_off (set (READY_LIST # map ready_linker xs @ [LOCAL_READY])) h h'"
    by (rule ring_splice)
  then obtain h' where h': "yf_list_splice h READY_LIST LOCAL_READY = Inr h'" "ring h' READY_LIST []"
    "ring h' LOCAL_READY (map ready_linker xs)" "same_off (set (READY_LIST # map ready_linker xs @ [LOCAL_READY])) h h'"
    unfolding append_Nil2 by blast
  have "dnext h' (ready_linker e) = 0 \<and> dprev h' (ready_linker e) = 0" if "e \<notin> set xs" for e
  proof -
    have "ready_linker e \<notin> set (READY_LIST # map ready_linker xs @ [LOCAL_READY])" using that by auto
    then have "dnext h' (ready_linker e) = dnext h (ready_linker e) \<and> dprev h' (ready_linker e) = dprev h (ready_linker e)"
      using h'(4) unfolding same_off_def by blast
    with ready_heap_zero [OF r that] show ?thesis by simp
  qed
  with h'(1-3) show ?thesis by (auto simp: ready_heap_def)
qed

lemma zero_links_id: "\<forall>p \<in> A. dnext h p = 0 \<and> dprev h p = 0 \<Longrightarrow> zero_links A h = h"
  by (cases h) (auto simp: zero_links_def fun_eq_iff)

end
