(* ===== verification/Fd_Poller.thy ===== *)
theory Fd_Poller
  imports Fd_Event
begin

section \<open>The interface of the pollers\<close>

text \<open>
  What the driver of the descriptor events relies on when it calls the table of actions
  (\<^verbatim>\<open>event_in/yf_poll_in.h\<close>), as a locale, and the operations of the driver over it: any order of
  allocations, registrations, cancellations and releases keeps the invariant of the driver.
\<close>

declare split_paired_All [simp del] split_paired_Ex [simp del]

subsection \<open>States\<close>

definition slot_ok :: "'p fd_driver \<Rightarrow> nat \<Rightarrow> bool" where
  "slot_ok d n \<longleftrightarrow> n < evts_capcity d \<and>
     (\<forall>k. fd (ev_link d (n, k)) = int n \<and>
       (\<not> polled (ev_link d (n, k)) \<longrightarrow> index (ev_link d (n, k)) = YF_INVALID_INDEX))"

definition slots_ok :: "'p fd_driver \<Rightarrow> bool" where
  "slots_ok d \<longleftrightarrow> (\<forall>n k. polled (ev_link d (n, k)) \<longrightarrow> slot_ok d n)"

definition watch :: "'p fd_driver \<Rightarrow> evt \<Rightarrow> nat option" where
  "watch d e = (if polled (ev_link d e) then Some (index (ev_link d e)) else None)"

text \<open>Two states of an event that differ in nothing but what a poller keeps there.\<close>

definition same_evt :: "fd_evt_link \<Rightarrow> fd_evt_link \<Rightarrow> bool" where
  "same_evt l l' \<longleftrightarrow> fd l' = fd l \<and> ready l' = ready l \<and> timeout l' = timeout l \<and> timeset l' = timeset l \<and>
     active l' = active l \<and> last_active_op_index l' = last_active_op_index l"

lemma same_evt_refl [simp]: "same_evt l l"
  by (simp add: same_evt_def)

lemma same_evt_upd [simp]: "same_evt l (l\<lparr> index := i \<rparr>)" "same_evt l (l\<lparr> polled := b \<rparr>)"
  "same_evt l (l\<lparr> index := i, polled := b \<rparr>)"
  by (simp_all add: same_evt_def)

lemma same_evt_trans: "same_evt l l' \<Longrightarrow> same_evt l' l'' \<Longrightarrow> same_evt l l''"
  by (simp add: same_evt_def)

definition poll_frame :: "'p fd_driver \<Rightarrow> 'p fd_driver \<Rightarrow> bool" where
  "poll_frame d d' \<longleftrightarrow> all_links d' = all_links d \<and> ready_links d' = ready_links d \<and>
     active_op_index d' = active_op_index d \<and> evts_capcity d' = evts_capcity d \<and> evts_num d' = evts_num d \<and>
     timers d' = timers d \<and> called d' = called d \<and> (\<forall>n. use_flag (pevents d' n) = use_flag (pevents d n)) \<and>
     (\<forall>e. same_evt (ev_link d e) (ev_link d' e))"

definition polling :: "'p fd_driver \<Rightarrow> 'p fd_driver \<Rightarrow> (evt \<Rightarrow> bool) \<Rightarrow> bool" where
  "polling d d' P \<longleftrightarrow> poll_frame d d' \<and> (\<forall>n. slot_ok d n \<longrightarrow> slot_ok d' n) \<and> (\<forall>e. polled (ev_link d' e) = P e)"

text \<open>
  \<open>watch_ok\<close> is the invariant of the poller: its state, the capacity and the index of each polled event;
  \<open>answers\<close> are the answers of the system that can come, \<open>reports\<close> the events it reports ready.
\<close>

locale fd_poller =
  fixes cls :: "('p, 'k) fd_poll_actions"
    and watch_ok :: "'p \<Rightarrow> nat \<Rightarrow> (evt \<Rightarrow> nat option) \<Rightarrow> bool"
    and answers :: "'p fd_driver \<Rightarrow> 'k \<Rightarrow> bool"
    and reports :: "'p fd_driver \<Rightarrow> 'k \<Rightarrow> evt list"
  assumes no_add: "act_add cls = None"
    and activate: "slots_ok d \<Longrightarrow> watch_ok (agen_data d) (evts_capcity d) (watch d) \<Longrightarrow>
      slot_ok d (fst e) \<Longrightarrow> \<not> polled (ev_link d e) \<Longrightarrow>
      \<exists>act r d'. act_activate cls = Some act \<and> act ok e d = Inr (r, d') \<and>
        polling d d' (\<lambda>e'. polled (ev_link d e') \<or> e' = e \<and> r = YF_OK) \<and>
        watch_ok (agen_data d') (evts_capcity d) (watch d')"
    and deactivate: "slots_ok d \<Longrightarrow> watch_ok (agen_data d) (evts_capcity d) (watch d) \<Longrightarrow>
      polled (ev_link d e) \<Longrightarrow> act_deactivate cls = Some dact \<Longrightarrow>
      \<exists>d'. dact e d = Inr (YF_OK, d') \<and> polling d d' (\<lambda>e'. polled (ev_link d e') \<and> e' \<noteq> e) \<and>
        watch_ok (agen_data d') (evts_capcity d) (watch d')"
    and del: "slots_ok d \<Longrightarrow> watch_ok (agen_data d) (evts_capcity d) (watch d) \<Longrightarrow>
      \<exists>act r d'. act_del cls = Some act \<and> act ok n d = Inr (r, d') \<and>
        polling d d' (\<lambda>e'. polled (ev_link d e') \<and> fst e' \<noteq> n) \<and>
        watch_ok (agen_data d') (evts_capcity d) (watch d')"
    and dispatch: "slots_ok d \<Longrightarrow> watch_ok (agen_data d) (evts_capcity d) (watch d) \<Longrightarrow> answers d k \<Longrightarrow>
      \<exists>r p. act_dispatch cls k d = run_bind (marks (reports d k) (d\<lparr> agen_data := p \<rparr>)) (\<lambda>d'. Inr (r, d')) \<and>
        watch_ok p (evts_capcity d) (watch d)"

subsection \<open>The operations as seen by handlers\<close>

text \<open>\<open>Drained\<close> is what the functions of \<^verbatim>\<open>yf_send_recv.c\<close> do when a call would block.\<close>

datatype fd_op = Alloc int | Free nat | Register evt "nat option" | Unregister evt | Drained evt

fun fd_op_run :: "('p, 'k) fd_poll_actions \<Rightarrow> bool \<Rightarrow> fd_op \<Rightarrow> 'p fd_driver \<Rightarrow> (int \<times> 'p fd_driver) run" where
  "fd_op_run cls ok (Alloc sock) d = yf_alloc_fd_evt cls ok sock d"
| "fd_op_run cls ok (Free n) d = yf_free_fd_evt cls ok n (Some n) d"
| "fd_op_run cls ok (Register e t) d = yf_register_fd_evt cls ok e t d"
| "fd_op_run cls ok (Unregister e) d = yf_unregister_fd_evt cls e d"
| "fd_op_run cls ok (Drained e) d = Inr (YF_OK, map_link e (\<lambda>l. l\<lparr> ready := False \<rparr>) d)"

text \<open>Only values of type int and events of slots in use are passed to the driver.\<close>

fun op_allowed :: "fd_op \<Rightarrow> 'p fd_driver \<Rightarrow> bool" where
  "op_allowed (Alloc sock) d \<longleftrightarrow> - (2 ^ 31) \<le> sock \<and> sock < 2 ^ 31"
| "op_allowed (Free n) d \<longleftrightarrow> use_flag (pevents d n)"
| "op_allowed (Register e t) d \<longleftrightarrow> use_flag (pevents d (fst e))"
| "op_allowed (Unregister e) d \<longleftrightarrow> use_flag (pevents d (fst e))"
| "op_allowed (Drained e) d \<longleftrightarrow> use_flag (pevents d (fst e))"

fun fd_ops_run ::
    "('p, 'k) fd_poll_actions \<Rightarrow> (fd_op \<times> bool) list \<Rightarrow> 'p fd_driver \<Rightarrow> 'p fd_driver run" where
  "fd_ops_run cls [] d = Inr d"
| "fd_ops_run cls ((op, ok) # ops) d =
     (if op_allowed op d
      then run_bind (fd_op_run cls ok op d) (\<lambda>(_, d). fd_ops_run cls ops d)
      else fd_ops_run cls ops d)"

text \<open>The events an operation changes.\<close>

fun touches :: "fd_op \<Rightarrow> evt set" where
  "touches (Alloc sock) = {(nat sock, Revt), (nat sock, Wevt)}"
| "touches (Free n) = {(n, Revt), (n, Wevt)}"
| "touches (Register e t) = {e}"
| "touches (Unregister e) = {e}"
| "touches (Drained e) = {e}"

lemma slot_evts: "e \<in> {(n, Revt), (n, Wevt)} \<longleftrightarrow> fst e = n"
  by (cases e; cases "snd e") auto

definition untouched :: "evt set \<Rightarrow> 'p fd_driver \<Rightarrow> 'p fd_driver \<Rightarrow> bool" where
  "untouched T d d' \<longleftrightarrow> active_op_index d' = active_op_index d \<and> evts_capcity d' = evts_capcity d \<and>
     called d' = called d \<and> (\<forall>e. e \<notin> T \<longrightarrow> same_evt (ev_link d e) (ev_link d' e)) \<and>
     (\<forall>n k. (n, k) \<notin> T \<longrightarrow> use_flag (pevents d' n) = use_flag (pevents d n))"

subsection \<open>The invariant of the driver\<close>

text \<open>\<open>U\<close> are the slots in use; while a slot is released its flag is down already.\<close>

definition base_inv :: "(nat \<Rightarrow> bool) \<Rightarrow> 'p fd_driver \<Rightarrow> bool" where
  "base_inv U d \<longleftrightarrow> (\<forall>n. U n \<longrightarrow> slot_ok d n) \<and>
     (\<forall>n k. \<not> U n \<longrightarrow> \<not> polled (ev_link d (n, k)) \<and> \<not> active (ev_link d (n, k))) \<and>
     (\<forall>e. timeset (ev_link d e) \<longleftrightarrow> timers d e \<noteq> None) \<and> (\<forall>e. timeset (ev_link d e) \<longrightarrow> active (ev_link d e)) \<and>
     dprev (all_links d) ALL_LIST \<noteq> 0 \<and> evts_capcity d \<le> 2 ^ 31"

text \<open>\<open>xs\<close> is the ready list of the driver, \<open>ys\<close> what is left of the list of the loop.\<close>

definition lists_inv :: "'p fd_driver \<Rightarrow> evt list \<Rightarrow> evt list \<Rightarrow> bool" where
  "lists_inv d xs ys \<longleftrightarrow> ready_heap (ready_links d) xs ys \<and> (\<forall>e \<in> set xs. active (ev_link d e))"

abbreviation in_use :: "'p fd_driver \<Rightarrow> nat \<Rightarrow> bool" where
  "in_use d \<equiv> \<lambda>n. use_flag (pevents d n)"

lemma watch_map: "(\<And>l. polled (f l) = polled l) \<Longrightarrow> (\<And>l. index (f l) = index l) \<Longrightarrow> watch (map_link e f d) = watch d"
  by (simp add: watch_def fun_eq_iff)

lemma watch_upd [simp]:
  "watch (d\<lparr> all_links := h \<rparr>) = watch d" "watch (d\<lparr> ready_links := h \<rparr>) = watch d"
  "watch (d\<lparr> active_op_index := i \<rparr>) = watch d" "watch (d\<lparr> evts_num := k \<rparr>) = watch d"
  "watch (d\<lparr> timers := t \<rparr>) = watch d" "watch (d\<lparr> called := cs \<rparr>) = watch d"
  "watch (d\<lparr> agen_data := p \<rparr>) = watch d" "watch (use_slot n b d) = watch d"
  by (simp_all add: watch_def fun_eq_iff)

lemma slot_ok_map:
  "(\<And>l. polled (f l) = polled l) \<Longrightarrow> (\<And>l. index (f l) = index l) \<Longrightarrow> (\<And>l. fd (f l) = fd l) \<Longrightarrow>
   slot_ok (map_link e f d) n = slot_ok d n"
  unfolding slot_ok_def by (simp cong: conj_cong) (metis (no_types))

lemma slot_ok_upd [simp]:
  "slot_ok (d\<lparr> all_links := h \<rparr>) n = slot_ok d n" "slot_ok (d\<lparr> ready_links := h \<rparr>) n = slot_ok d n"
  "slot_ok (d\<lparr> active_op_index := i \<rparr>) n = slot_ok d n" "slot_ok (d\<lparr> evts_num := k \<rparr>) n = slot_ok d n"
  "slot_ok (d\<lparr> timers := t \<rparr>) n = slot_ok d n" "slot_ok (d\<lparr> called := cs \<rparr>) n = slot_ok d n"
  "slot_ok (d\<lparr> agen_data := p \<rparr>) n = slot_ok d n" "slot_ok (use_slot m b d) n = slot_ok d n"
  by (simp_all add: slot_ok_def)

lemma base_invD:
  assumes "base_inv U d"
  shows "\<And>n. U n \<Longrightarrow> slot_ok d n"
    "\<And>e. polled (ev_link d e) \<Longrightarrow> U (fst e)" "\<And>e. active (ev_link d e) \<Longrightarrow> U (fst e)"
    "\<And>e. timeset (ev_link d e) \<longleftrightarrow> timers d e \<noteq> None" "\<And>e. timeset (ev_link d e) \<Longrightarrow> active (ev_link d e)"
    "dprev (all_links d) ALL_LIST \<noteq> 0" "evts_capcity d \<le> 2 ^ 31"
proof -
  show "\<And>n. U n \<Longrightarrow> slot_ok d n" using assms unfolding base_inv_def by blast
  show "\<And>e. polled (ev_link d e) \<Longrightarrow> U (fst e)" using assms unfolding base_inv_def by (metis prod.collapse)
  show "\<And>e. active (ev_link d e) \<Longrightarrow> U (fst e)" using assms unfolding base_inv_def by (metis prod.collapse)
qed (use assms in \<open>unfold base_inv_def, blast+\<close>)

lemma base_invI:
  assumes "\<And>n. U n \<Longrightarrow> slot_ok d n"
    "\<And>e. polled (ev_link d e) \<Longrightarrow> U (fst e)" "\<And>e. active (ev_link d e) \<Longrightarrow> U (fst e)"
    "\<And>e. timeset (ev_link d e) \<longleftrightarrow> timers d e \<noteq> None" "\<And>e. timeset (ev_link d e) \<Longrightarrow> active (ev_link d e)"
    "dprev (all_links d) ALL_LIST \<noteq> 0" "evts_capcity d \<le> 2 ^ 31"
  shows "base_inv U d"
  unfolding base_inv_def using assms by (metis fst_conv)

lemma base_slots_ok: "base_inv U d \<Longrightarrow> slots_ok d"
  unfolding slots_ok_def using base_invD(1,2) by (metis fst_conv)

lemma polling_base:
  assumes "base_inv U d" "polling d d' P" "\<And>e. P e \<Longrightarrow> U (fst e)"
  shows "base_inv U d'"
proof -
  note D = base_invD [OF assms(1)]
  have F: "all_links d' = all_links d" "timers d' = timers d" "evts_capcity d' = evts_capcity d"
    and E: "\<And>e. same_evt (ev_link d e) (ev_link d' e)" and S: "\<And>n. slot_ok d n \<Longrightarrow> slot_ok d' n" "\<And>e. polled (ev_link d' e) = P e"
    using assms(2) by (auto simp: polling_def poll_frame_def)
  show ?thesis
    by (rule base_invI) (use D F S assms(3) E in \<open>simp_all add: same_evt_def\<close>)
qed

lemma polling_lists: "lists_inv d xs ys \<Longrightarrow> polling d d' P \<Longrightarrow> lists_inv d' xs ys"
  unfolding lists_inv_def polling_def poll_frame_def same_evt_def by simp

lemma pollingD:
  assumes "polling d d' P"
  shows "same_evt (ev_link d e) (ev_link d' e)" "polled (ev_link d' e) = P e" "in_use d' = in_use d"
  using assms unfolding polling_def poll_frame_def by (blast, blast, simp add: fun_eq_iff)

lemma polling_untouched: "polling d d' P \<Longrightarrow> untouched T d d'"
  by (auto simp: untouched_def polling_def poll_frame_def)

lemma untouched_refl [simp]: "untouched T d d"
  by (simp add: untouched_def)

lemma untouched_trans: "untouched T d d' \<Longrightarrow> untouched T' d' d'' \<Longrightarrow> T \<subseteq> S \<Longrightarrow> T' \<subseteq> S \<Longrightarrow> untouched S d d''"
proof -
  assume a: "untouched T d d'" "untouched T' d' d''" "T \<subseteq> S" "T' \<subseteq> S"
  have "same_evt (ev_link d e) (ev_link d'' e)" if "e \<notin> S" for e
    using a that same_evt_trans unfolding untouched_def by blast
  moreover have "in_use d'' n = in_use d n" if "(n, k) \<notin> S" for n k
  proof -
    have "in_use d'' n = in_use d' n" "in_use d' n = in_use d n" using a that unfolding untouched_def by blast+
    then show ?thesis by simp
  qed
  ultimately show ?thesis using a(1,2) by (simp add: untouched_def)
qed

lemma untouched_map [simp]: "e \<in> T \<Longrightarrow> untouched T d (map_link e f d)"
  by (auto simp: untouched_def)

lemma untouched_upd [simp]:
  "untouched T d (d\<lparr> all_links := h \<rparr>)" "untouched T d (d\<lparr> ready_links := h \<rparr>)" "untouched T d (d\<lparr> evts_num := k \<rparr>)"
  "untouched T d (d\<lparr> timers := t \<rparr>)" "untouched T d (d\<lparr> agen_data := p \<rparr>)"
  by (auto simp: untouched_def)

text \<open>For the proofs of the laws.\<close>

lemma pollingI:
  assumes "\<And>x. same_evt (ev_link d x) (ev_link d' x)" "\<And>x. polled (ev_link d' x) = P x"
    and "\<And>x. \<not> P x \<Longrightarrow> polled (ev_link d x) \<or> index (ev_link d x) = YF_INVALID_INDEX \<Longrightarrow> index (ev_link d' x) = YF_INVALID_INDEX"
    and "all_links d' = all_links d" "ready_links d' = ready_links d" "active_op_index d' = active_op_index d"
    "evts_capcity d' = evts_capcity d" "evts_num d' = evts_num d" "timers d' = timers d" "called d' = called d" "in_use d' = in_use d"
  shows "polling d d' P"
  unfolding polling_def
proof (intro conjI allI impI)
  show "poll_frame d d'" using assms fun_cong [OF assms(11)] by (simp add: poll_frame_def)
  fix n assume n: "slot_ok d n"
  have "polled (ev_link d (n, k)) \<or> index (ev_link d (n, k)) = YF_INVALID_INDEX" "fd (ev_link d (n, k)) = int n" for k
    using n by (auto simp: slot_ok_def)
  with n assms(1-3,7) show "slot_ok d' n" unfolding slot_ok_def same_evt_def by metis
qed (rule assms(2))

lemma polling_slots_ok:
  assumes "slots_ok d" "polling d d' P" "\<And>e. P e \<Longrightarrow> polled (ev_link d e)"
  shows "slots_ok d'"
  using assms unfolding slots_ok_def polling_def by blast

lemma polling_trans:
  assumes "polling d d' P" "polling d' d'' Q"
  shows "polling d d'' Q"
  using assms unfolding polling_def poll_frame_def by (auto intro: same_evt_trans)

lemma polling_cong: "polling d d' P \<Longrightarrow> (\<And>e. P e = Q e) \<Longrightarrow> polling d d' Q"
  by (simp add: polling_def)

lemma polling_cap: "polling d d' P \<Longrightarrow> evts_capcity d' = evts_capcity d"
  by (simp add: polling_def poll_frame_def)

lemma watch_set:
  "watch (map_link e (\<lambda>l. l\<lparr> polled := True, index := i \<rparr>) d) = (watch d)(e \<mapsto> i)"
  "watch (map_link e (\<lambda>l. l\<lparr> polled := False, index := i \<rparr>) d) = (watch d)(e := None)"
  by (simp_all add: watch_def fun_eq_iff)

lemma list_capacity:
  assumes "distinct ns" "\<forall>n \<in> set ns. n < (cap :: nat)"
  shows "length ns \<le> cap" "n < cap \<Longrightarrow> n \<notin> set ns \<Longrightarrow> length ns < cap"
proof -
  have "length ns = card (set ns)" using distinct_card [OF assms(1)] by simp
  moreover have "card (set ns) \<le> card {..<cap}" using assms(2) by (intro card_mono) auto
  moreover have "card (set ns) < card {..<cap}" if "n < cap" "n \<notin> set ns" using assms(2) that by (intro psubset_card_mono) auto
  ultimately show "length ns \<le> cap" "n < cap \<Longrightarrow> n \<notin> set ns \<Longrightarrow> length ns < cap" by simp_all
qed

lemma mark_ready_keeps: "mark_ready e d = Inr d' \<Longrightarrow>
  evts_capcity d' = evts_capcity d \<and> agen_data d' = agen_data d \<and> (\<forall>x. fd (ev_link d' x) = fd (ev_link d x))"
  by (auto simp: mark_ready_def run_simps)

lemma run_bind_assoc: "run_bind (run_bind r f) g = run_bind r (\<lambda>x. run_bind (f x) g)"
  by (cases r) simp_all

lemma marks_append: "marks (es @ es') d = run_bind (marks es d) (marks es')"
  by (induction es arbitrary: d) (simp_all add: run_bind_assoc cong: run_bind_cong)

lemma marks_keeps: "marks es d = Inr d' \<Longrightarrow>
  evts_capcity d' = evts_capcity d \<and> agen_data d' = agen_data d \<and> (\<forall>x. fd (ev_link d' x) = fd (ev_link d x))"
  by (induction es arbitrary: d) (auto simp: run_simps dest!: mark_ready_keeps)

subsection \<open>Every operation keeps the invariant\<close>

context fd_poller begin

definition drv_inv :: "(nat \<Rightarrow> bool) \<Rightarrow> 'p fd_driver \<Rightarrow> bool" where
  "drv_inv U d \<longleftrightarrow> base_inv U d \<and> watch_ok (agen_data d) (evts_capcity d) (watch d)"

lemma drv_inv_polling:
  assumes "drv_inv U d" "polling d d' P" "\<And>e. P e \<Longrightarrow> U (fst e)" "watch_ok (agen_data d') (evts_capcity d) (watch d')"
  shows "drv_inv U d'"
proof -
  have "evts_capcity d' = evts_capcity d" using assms(2) by (simp add: polling_def poll_frame_def)
  moreover have "base_inv U d'" using assms(1,3) by (intro polling_base [OF _ assms(2)]) (simp_all add: drv_inv_def)
  ultimately show ?thesis using assms(4) by (simp add: drv_inv_def)
qed

text \<open>An update that leaves alone what the poller sees.\<close>

lemma drv_inv_upd:
  assumes "drv_inv U d" "agen_data d' = agen_data d" "evts_capcity d' = evts_capcity d" "dprev (all_links d') ALL_LIST \<noteq> 0"
    and "\<And>e. polled (ev_link d' e) = polled (ev_link d e) \<and> index (ev_link d' e) = index (ev_link d e) \<and>
      fd (ev_link d' e) = fd (ev_link d e)"
    and "\<And>e. active (ev_link d' e) \<Longrightarrow> U (fst e)" "\<And>e. timeset (ev_link d' e) \<longleftrightarrow> timers d' e \<noteq> None"
    and "\<And>e. timeset (ev_link d' e) \<Longrightarrow> active (ev_link d' e)"
  shows "drv_inv U d'"
proof -
  have b: "base_inv U d" using assms(1) by (simp add: drv_inv_def)
  have "base_inv U d'"
  proof (rule base_invI)
    show "slot_ok d' n" if "U n" for n using base_invD(1) [OF b that] assms(3,5) by (simp add: slot_ok_def)
    show "U (fst e)" if "polled (ev_link d' e)" for e using base_invD(2) [OF b] assms(5) that by blast
    show "evts_capcity d' \<le> 2 ^ 31" using base_invD(7) [OF b] assms(3) by simp
  qed (use assms in blast)+
  moreover have "watch d' = watch d" using assms(5) by (simp add: watch_def fun_eq_iff)
  ultimately show ?thesis using assms(1-3) by (simp add: drv_inv_def)
qed

lemma drv_invD:
  assumes "drv_inv U d"
  shows "base_inv U d" "slots_ok d" "watch_ok (agen_data d) (evts_capcity d) (watch d)"
  using assms base_slots_ok unfolding drv_inv_def by blast+

lemma timer_del_inv:
  assumes "drv_inv U d"
  shows "drv_inv U (yf_fd_evt_timer_ctl e FD_TIMER_DEL ms d)"
proof -
  note D = base_invD [OF drv_invD(1) [OF assms]]
  show ?thesis
    by (rule drv_inv_upd [OF assms]) (use D in \<open>auto simp: timer_ctl_simps split: if_splits\<close>)
qed

lemma timer_del_lists: "lists_inv d xs ys \<Longrightarrow> lists_inv (yf_fd_evt_timer_ctl e FD_TIMER_DEL ms d) xs ys"
  by (auto simp: lists_inv_def timer_ctl_simps)

lemma unregister_spec:
  assumes d: "drv_inv U d" and l: "lists_inv d xs ys" and e: "e \<notin> set ys"
  shows "\<exists>d'. yf_unregister_fd_evt cls e d = Inr (YF_OK, d') \<and> drv_inv U d' \<and>
    lists_inv d' (removeAll e xs) ys \<and> untouched {e} d d' \<and> \<not> active (ev_link d' e) \<and>
    (\<forall>e'. polled (ev_link d' e') \<longrightarrow> polled (ev_link d e')) \<and> in_use d' = in_use d"
proof (cases "active (ev_link d e)")
  case False
  then have "e \<notin> set xs" using l by (auto simp: lists_inv_def)
  with False assms show ?thesis by (simp add: yf_unregister_fd_evt_def)
next
  case True
  from ready_del [of "ready_links d" xs ys e] l e obtain h where h: "yf_list_del (ready_links d) (ready_linker e) = Inr h"
    "ready_heap h (removeAll e xs) ys" by (auto simp: lists_inv_def)
  let ?a = "d\<lparr> ready_links := h \<rparr>"
  let ?b = "yf_fd_evt_timer_ctl e FD_TIMER_DEL 0 ?a"
  note D = base_invD [OF drv_invD(1) [OF d]]
  have "drv_inv U ?a" by (rule drv_inv_upd [OF d]) (use D in auto)
  then have b: "drv_inv U ?b" by (rule timer_del_inv)
  have bl: "lists_inv ?b (removeAll e xs) ys"
    by (rule timer_del_lists) (use l h(2) in \<open>auto simp: lists_inv_def\<close>)
  have bt: "\<not> timeset (ev_link ?b e)" "untouched {e} d ?b" "in_use ?b = in_use d"
      "\<And>e'. polled (ev_link ?b e') = polled (ev_link d e')"
    by (auto simp: timer_ctl_simps untouched_def fun_eq_iff)
  obtain c where c: "(if ready (ev_link ?b e) \<and> polled (ev_link ?b e) then call_action (act_deactivate cls) e ?b
        else Inr (YF_OK, ?b)) = Inr (YF_OK, c)"
    "drv_inv U c" "lists_inv c (removeAll e xs) ys" "untouched {e} ?b c" "\<not> timeset (ev_link c e)"
    "\<And>e'. polled (ev_link c e') \<Longrightarrow> polled (ev_link ?b e')" "in_use c = in_use d"
  proof (cases "ready (ev_link ?b e) \<and> polled (ev_link ?b e) \<and> act_deactivate cls \<noteq> None")
    case False
    then have "(if ready (ev_link ?b e) \<and> polled (ev_link ?b e) then call_action (act_deactivate cls) e ?b
        else Inr (YF_OK, ?b)) = Inr (YF_OK, ?b)" by (auto simp: call_action_def)
    from that [OF this b bl untouched_refl bt(1) _ bt(3)] show ?thesis by blast
  next
    case True
    then obtain act where act: "act_deactivate cls = Some act" "polled (ev_link ?b e)" by blast
    from deactivate [OF drv_invD(2,3) [OF b] act(2,1)] obtain c where
      c: "act e ?b = Inr (YF_OK, c)" "polling ?b c (\<lambda>e'. polled (ev_link ?b e') \<and> e' \<noteq> e)"
        "watch_ok (agen_data c) (evts_capcity ?b) (watch c)" by blast
    have "drv_inv U c" by (rule drv_inv_polling [OF b c(2) _ c(3)]) (use base_invD(2) [OF drv_invD(1) [OF b]] in blast)
    moreover have "\<not> timeset (ev_link c e)" "\<And>e'. polled (ev_link c e') \<Longrightarrow> polled (ev_link ?b e')" "in_use c = in_use d"
      using c(2) bt(1,3) unfolding polling_def poll_frame_def same_evt_def by (blast, blast, simp add: fun_eq_iff)
    ultimately show ?thesis
      using that True act(1) c(1) polling_lists [OF bl c(2)] polling_untouched [OF c(2), of "{e}"] by (simp add: call_action_def)
  qed
  let ?d = "map_link e (\<lambda>l. l\<lparr> last_active_op_index := 0, active := False \<rparr>) c"
  note C = base_invD [OF drv_invD(1) [OF c(2)]]
  have "yf_unregister_fd_evt cls e d = Inr (YF_OK, ?d)"
    using True h(1) c(1) by (simp add: yf_unregister_fd_evt_def Let_def)
  moreover have "drv_inv U ?d"
    by (rule drv_inv_upd [OF c(2)]) (use C c(5) in \<open>auto split: if_splits\<close>)
  moreover have "lists_inv ?d (removeAll e xs) ys" using c(3) by (auto simp: lists_inv_def)
  moreover have "untouched {e} d ?d"
    by (rule untouched_trans [OF untouched_trans [OF bt(2) c(4), of "{e}"], where T' = "{e}"]) auto
  moreover have "\<And>e'. polled (ev_link ?d e') \<Longrightarrow> polled (ev_link d e')" using c(6) bt(4) by (auto split: if_splits)
  ultimately show ?thesis using c(7) by (intro exI [of _ ?d]) simp
qed

lemma activated_inv:
  assumes d: "drv_inv U d" and e: "U (fst e)"
  shows "drv_inv U (activated e d)"
proof -
  note D = base_invD [OF drv_invD(1) [OF d]]
  show ?thesis
    by (rule drv_inv_upd [OF d]) (use D e in \<open>auto simp: activated_def split: if_splits\<close>)
qed

lemma activated_lists: "lists_inv d xs ys \<Longrightarrow> lists_inv (activated e d) xs ys"
  by (auto simp: lists_inv_def activated_def)

lemma register_spec:
  assumes d: "drv_inv (in_use d) d" and l: "lists_inv d xs ys" and e: "e \<notin> set ys" "in_use d (fst e)"
  shows "\<exists>r d' xs'. yf_register_fd_evt cls ok e t d = Inr (r, d') \<and> drv_inv (in_use d') d' \<and>
    lists_inv d' xs' ys \<and> untouched {e} d d' \<and> in_use d' = in_use d \<and>
    (r = YF_OK \<longrightarrow> active (ev_link d' e) \<and> (ready (ev_link d' e) \<or> active (ev_link d e) \<or> polled (ev_link d' e)))"
proof -
  let ?U = "in_use d"
  let ?a = "map_link e (\<lambda>l. l\<lparr> timeout := False \<rparr>) d"
  note D = base_invD [OF drv_invD(1) [OF d]]
  have a: "drv_inv ?U ?a" by (rule drv_inv_upd [OF d]) (use D in \<open>auto split: if_splits\<close>)
  have al: "lists_inv ?a xs ys" using l by (auto simp: lists_inv_def)
  have au: "untouched {e} d ?a" "in_use ?a = ?U" by (simp_all add: fun_eq_iff)
  have final: ?thesis if "yf_register_fd_evt cls ok e t d = Inr (YF_OK, activated e b)" "drv_inv ?U b"
    "lists_inv b xs' ys" "untouched {e} d b" "in_use b = ?U" "ready (ev_link b e) \<or> active (ev_link d e) \<or> polled (ev_link b e)" for b xs'
  proof -
    have "untouched {e} d (activated e b)"
      by (rule untouched_trans [OF that(4), where T' = "{e}"]) (auto simp: activated_def)
    moreover have "in_use (activated e b) = ?U" using that(5) by (simp add: activated_def)
    moreover have "active (ev_link (activated e b) e)"
      "ready (ev_link (activated e b) e) = ready (ev_link b e)" "polled (ev_link (activated e b) e) = polled (ev_link b e)"
      by (simp_all add: activated_def)
    ultimately show ?thesis
      using that(1,6) activated_inv [OF that(2), of e] e(2) activated_lists [OF that(3), of e] by metis
  qed
  consider (ready) "ready (ev_link d e)" | (active) "\<not> ready (ev_link d e)" "active (ev_link d e)"
    | (poll) "\<not> ready (ev_link d e)" "\<not> active (ev_link d e)" by blast
  then show ?thesis
  proof cases
    case ready
    from ready_move(1) [of "ready_links d" xs ys e] l e obtain h where h:
      "yf_list_move_head (ready_links d) (ready_linker e) READY_LIST = Inr h" "ready_heap h (e # removeAll e xs) ys"
      by (auto simp: lists_inv_def)
    let ?b = "?a\<lparr> ready_links := h \<rparr>"
    have run: "yf_register_fd_evt cls ok e t d = Inr (YF_OK, activated e ?b)"
      using ready h(1) by (simp add: yf_register_fd_evt_def Let_def)
    have b: "drv_inv ?U ?b" by (rule drv_inv_upd [OF a]) (use base_invD [OF drv_invD(1) [OF a]] in auto)
    have "lists_inv (activated e ?b) (e # removeAll e xs) ys"
      using h(2) l by (auto simp: lists_inv_def activated_def)
    moreover have "drv_inv ?U (activated e ?b)" by (rule activated_inv [OF b e(2)])
    moreover have "untouched {e} d (activated e ?b)"
      using au(1) by (auto simp: untouched_def activated_def)
    moreover have "in_use (activated e ?b) = ?U" "active (ev_link (activated e ?b) e)" "ready (ev_link (activated e ?b) e)"
      using ready by (simp_all add: activated_def)
    ultimately show ?thesis using run by metis
  next
    case active
    then have "yf_register_fd_evt cls ok e t d = Inr (YF_OK, activated e ?a)" by (simp add: yf_register_fd_evt_def Let_def)
    from final [OF this a al au] active show ?thesis by blast
  next
    case poll
    obtain r b where b: "(if \<not> polled (ev_link ?a e) then call_action (map_option (\<lambda>act. act ok) (act_activate cls)) e ?a
        else Inr (YF_OK, ?a)) = Inr (r, b)" "drv_inv ?U b" "lists_inv b xs ys" "untouched {e} ?a b" "in_use b = ?U"
        "r = YF_OK \<longrightarrow> polled (ev_link b e)" "same_evt (ev_link ?a e) (ev_link b e)"
    proof (cases "polled (ev_link ?a e)")
      case True
      with that [of YF_OK ?a] a al au show ?thesis by simp
    next
      case False
      have "slot_ok ?a (fst e)" using base_invD(1) [OF drv_invD(1) [OF a]] e(2) by blast
      from activate [OF drv_invD(2,3) [OF a] this False] obtain act r b where
        b: "act_activate cls = Some act" "act ok e ?a = Inr (r, b)"
          "polling ?a b (\<lambda>e'. polled (ev_link ?a e') \<or> e' = e \<and> r = YF_OK)" "watch_ok (agen_data b) (evts_capcity ?a) (watch b)"
        by blast
      have "drv_inv ?U b"
        by (rule drv_inv_polling [OF a b(3) _ b(4)]) (use base_invD(2) [OF drv_invD(1) [OF a]] e(2) in blast)
      moreover have "in_use b = ?U" "same_evt (ev_link ?a e) (ev_link b e)" "r = YF_OK \<longrightarrow> polled (ev_link b e)"
        using pollingD(1,2) [OF b(3), of e] pollingD(3) [OF b(3)] au(2) by simp_all
      ultimately show ?thesis
        using that [of r b] False b(1,2) polling_lists [OF al b(3)] polling_untouched [OF b(3)] by (simp add: call_action_def)
    qed
    have bu: "untouched {e} d b" by (rule untouched_trans [OF au(1) b(4)]) auto
    show ?thesis
    proof (cases "r = YF_OK")
      case False
      then have "yf_register_fd_evt cls ok e t d = Inr (YF_ERROR, b)"
        using poll b(1) by (simp add: yf_register_fd_evt_def Let_def)
      with b(2,3,5) bu show ?thesis by (intro exI [of _ YF_ERROR] exI [of _ b] exI [of _ xs]) simp
    next
      case True
      let ?c = "case t of None \<Rightarrow> b | Some ms \<Rightarrow> yf_fd_evt_timer_ctl e FD_TIMER_NEW ms b"
      let ?d = "activated e ?c"
      have "yf_register_fd_evt cls ok e t d = Inr (YF_OK, ?d)"
        using poll b(1) True by (simp add: yf_register_fd_evt_def Let_def)
      moreover note B = base_invD [OF drv_invD(1) [OF b(2)]]
      have "drv_inv ?U ?d"
      proof (rule drv_inv_upd [OF b(2)])
        show "dprev (all_links ?d) ALL_LIST \<noteq> 0"
          using B(6) by (simp add: activated_def timer_ctl_simps split: option.splits)
        show "timeset (ev_link ?d e') \<longleftrightarrow> timers ?d e' \<noteq> None" for e'
          using B(4) [of e'] by (auto simp: activated_def timer_ctl_simps split: option.splits)
        show "active (ev_link ?d e') \<Longrightarrow> in_use d (fst e')" for e'
          using B(3) [of e'] e(2) by (auto simp: activated_def timer_ctl_simps split: option.splits if_splits)
        show "timeset (ev_link ?d e') \<Longrightarrow> active (ev_link ?d e')" for e'
          using B(5) [of e'] by (auto simp: activated_def timer_ctl_simps split: option.splits if_splits)
      qed (auto simp: activated_def timer_ctl_simps split: option.splits)
      moreover have "lists_inv ?d xs ys"
        using b(3) by (auto simp: lists_inv_def activated_def timer_ctl_simps split: option.splits)
      moreover have "untouched {e} d ?d"
        using bu by (auto simp: untouched_def activated_def timer_ctl_simps split: option.splits)
      moreover have "in_use ?d = ?U" "active (ev_link ?d e)" "polled (ev_link ?d e)"
        using b(5,6) True by (auto simp: activated_def timer_ctl_simps fun_eq_iff split: option.splits)
      ultimately show ?thesis by metis
    qed
  qed
qed

lemma free_spec:
  assumes d: "drv_inv (in_use d) d" and l: "lists_inv d xs ys" and n: "(n, Revt) \<notin> set ys" "(n, Wevt) \<notin> set ys" "in_use d n"
  shows "\<exists>d' xs'. yf_free_fd_evt cls ok n (Some n) d = Inr (YF_OK, d') \<and> drv_inv (in_use d') d' \<and>
    lists_inv d' xs' ys \<and> untouched {(n, Revt), (n, Wevt)} d d' \<and> in_use d' = (in_use d)(n := False)"
proof -
  let ?U = "in_use d" and ?T = "{(n, Revt), (n, Wevt)}" and ?a = "use_slot n False d"
  note D = base_invD [OF drv_invD(1) [OF d]]
  have a: "drv_inv ?U ?a" by (rule drv_inv_upd [OF d]) (use D in auto)
  have al: "lists_inv ?a xs ys" using l by (simp add: lists_inv_def)
  have au: "untouched ?T d ?a" unfolding untouched_def slot_evts by auto
  from unregister_spec [OF a al n(1)] obtain b where b: "yf_unregister_fd_evt cls (n, Revt) ?a = Inr (YF_OK, b)"
    "drv_inv ?U b" "lists_inv b (removeAll (n, Revt) xs) ys" "untouched {(n, Revt)} ?a b" "\<not> active (ev_link b (n, Revt))"
    "in_use b = in_use ?a" by blast
  from unregister_spec [OF b(2,3) n(2)] obtain c where c: "yf_unregister_fd_evt cls (n, Wevt) b = Inr (YF_OK, c)"
    "drv_inv ?U c" "lists_inv c (removeAll (n, Wevt) (removeAll (n, Revt) xs)) ys" "untouched {(n, Wevt)} b c"
    "\<not> active (ev_link c (n, Wevt))" "in_use c = in_use ?a" unfolding b(6) by blast
  have "same_evt (ev_link b (n, Revt)) (ev_link c (n, Revt))" using c(4) by (auto simp: untouched_def)
  with b(5) have c0: "\<not> active (ev_link c (n, Revt))" by (simp add: same_evt_def)
  from del [OF drv_invD(2,3) [OF c(2)], of ok n] obtain act r e where e: "act_del cls = Some act" "act ok n c = Inr (r, e)"
    "polling c e (\<lambda>e'. polled (ev_link c e') \<and> fst e' \<noteq> n)" "watch_ok (agen_data e) (evts_capcity c) (watch e)" by blast
  have e': "drv_inv ?U e" by (rule drv_inv_polling [OF c(2) e(3) _ e(4)]) (use base_invD(2) [OF drv_invD(1) [OF c(2)]] in blast)
  have en: "in_use e = in_use c" "\<And>x. same_evt (ev_link c x) (ev_link e x)" "\<And>x. polled (ev_link e x) \<longleftrightarrow> polled (ev_link c x) \<and> fst x \<noteq> n"
    using e(3) unfolding polling_def poll_frame_def by (auto simp: fun_eq_iff)
  have idle: "\<not> active (ev_link e x)" if "fst x = n" for x
    using en(2) [of x] c(5) c0 that by (cases x; cases "snd x") (auto simp: same_evt_def)
  have el: "lists_inv e (removeAll (n, Wevt) (removeAll (n, Revt) xs)) ys" by (rule polling_lists [OF c(3) e(3)])
  let ?f = "map_link (n, Wevt) (\<lambda>l. l\<lparr> fd := -1 \<rparr>) (map_link (n, Revt) (\<lambda>l. l\<lparr> fd := -1 \<rparr>) e)"
  let ?d = "?f\<lparr> evts_num := evts_num ?f - 1 \<rparr>"
  have run: "yf_free_fd_evt cls ok n (Some n) d = Inr (YF_OK, ?d)"
    using n(3) b(1) c(1) e(1,2) by (simp add: yf_free_fd_evt_def call_action_def Let_def)
  have use: "in_use ?d = (in_use d)(n := False)" using en(1) c(6) by (simp add: fun_eq_iff)
  have use1: "in_use ?d m \<longleftrightarrow> m \<noteq> n \<and> in_use d m" for m using fun_cong [OF use, of m] by simp
  note E = base_invD [OF drv_invD(1) [OF e']]
  have "base_inv (in_use ?d) ?d"
  proof (rule base_invI)
    show "slot_ok ?d m" if "in_use ?d m" for m
    proof -
      have "m \<noteq> n" "in_use d m" using that use1 by blast+
      with E(1) show ?thesis by (simp add: slot_ok_def)
    qed
    show "in_use ?d (fst x)" if "polled (ev_link ?d x)" for x
      using that en(3) [of x] E(2) [of x] unfolding use1 by (auto split: if_splits)
    show "in_use ?d (fst x)" if "active (ev_link ?d x)" for x
      using that idle [of x] E(3) [of x] unfolding use1 by (auto split: if_splits)
    show "timeset (ev_link ?d x) \<longleftrightarrow> timers ?d x \<noteq> None" for x using E(4) [of x] by auto
    show "active (ev_link ?d x)" if "timeset (ev_link ?d x)" for x using E(5) [of x] that by (auto split: if_splits)
    show "dprev (all_links ?d) ALL_LIST \<noteq> 0" "evts_capcity ?d \<le> 2 ^ 31" using E(6,7) by simp_all
  qed
  moreover have "watch ?d = watch e" by (simp add: watch_def fun_eq_iff)
  ultimately have "drv_inv (in_use ?d) ?d" using drv_invD(3) [OF e'] by (simp add: drv_inv_def)
  moreover have "lists_inv ?d (removeAll (n, Wevt) (removeAll (n, Revt) xs)) ys" using el by (simp add: lists_inv_def)
  moreover have "untouched ?T d ?d"
  proof -
    have "untouched ?T ?a c" by (rule untouched_trans [OF b(4) c(4)]) auto
    then have "untouched ?T d c" by (rule untouched_trans [OF au]) auto
    then have "untouched ?T d e" by (rule untouched_trans [OF _ polling_untouched [OF e(3)], of _ _ _ "{}"]) auto
    then show ?thesis by (simp add: untouched_def)
  qed
  ultimately show ?thesis using run use by blast
qed

lemma ev_link_new:
  "ev_link (d\<lparr> pevents := (pevents d)(n := \<lparr> use_flag = b, rd_link = l, wr_link = l \<rparr>) \<rparr>) e =
   (if fst e = n then l else ev_link d e)"
  by (cases e; cases "snd e") (auto simp: ev_link_def)

lemma all_list_add:
  assumes "dprev h ALL_LIST \<noteq> 0"
  shows "\<exists>h'. yf_list_add_tail (zero_links {all_linker n} h) (all_linker n) ALL_LIST = Inr h' \<and> dprev h' ALL_LIST \<noteq> 0"
proof -
  have "all_linker n \<noteq> 0" "all_linker n \<noteq> ALL_LIST" "ALL_LIST \<noteq> 0" by (simp_all add: all_linker_def ALL_LIST_def)
  with assms show ?thesis
    by (auto simp: yf_list_add_tail_def yf_list_insert_before_def d_prev_def zero_links_def list_add_def set_prev_def set_next_def)
qed

lemma alloc_spec:
  assumes d: "drv_inv (in_use d) d" and l: "lists_inv d xs ys" and n: "(nat sock, Revt) \<notin> set ys" "(nat sock, Wevt) \<notin> set ys"
    and sock: "- (2 ^ 31) \<le> sock" "sock < 2 ^ 31"
  shows "\<exists>r d'. yf_alloc_fd_evt cls ok sock d = Inr (r, d') \<and> drv_inv (in_use d') d' \<and>
    lists_inv d' xs ys \<and> untouched {(nat sock, Revt), (nat sock, Wevt)} d d' \<and>
    (r = YF_OK \<longrightarrow> in_use d' = (in_use d)(nat sock := True))"
proof -
  let ?n = "nat sock"
  note D = base_invD [OF drv_invD(1) [OF d]]
  show ?thesis
  proof (cases "unat (word_of_int sock :: u32) \<ge> evts_capcity d")
    case True
    then have "yf_alloc_fd_evt cls ok sock d = Inr (YF_ERROR, d)" by (simp add: yf_alloc_fd_evt_def)
    with d l show ?thesis by (intro exI [of _ YF_ERROR] exI [of _ d]) simp
  next
    case False
    have "0 \<le> sock \<and> ?n < evts_capcity d"
    proof (cases "0 \<le> sock")
      case True
      have "unat (word_of_int sock :: u32) = ?n" using True sock(2) by (simp add: unsigned_of_int take_bit_int_eq_self)
      with False True show ?thesis by simp
    next
      case neg: False
      have "- 2147483648 \<le> sock" using sock(1) by simp
      then have "(sock + 4294967296) mod 4294967296 = sock + 4294967296"
        by (intro mod_pos_pos_trivial) (use neg in simp_all)
      then have "sock mod 4294967296 = sock + 4294967296" by simp
      then have "unat (word_of_int sock :: u32) = nat (sock + 2 ^ 32)" by (simp add: unsigned_of_int take_bit_eq_mod)
      with False D(7) sock(1) neg show ?thesis by simp
    qed
    then have slot: "fd_slot sock d = Inr ?n" "?n < evts_capcity d" by (simp_all add: fd_slot_def)
    show ?thesis
    proof (cases "in_use d ?n")
      case True
      then have "yf_alloc_fd_evt cls ok sock d = Inr (YF_ERROR, d)" using False slot by (simp add: yf_alloc_fd_evt_def)
      with d l show ?thesis by (intro exI [of _ YF_ERROR] exI [of _ d]) simp
    next
      case free: False
      from all_list_add [OF D(6)] obtain h where h:
        "yf_list_add_tail (zero_links {all_linker ?n} (all_links d)) (all_linker ?n) ALL_LIST = Inr h" "dprev h ALL_LIST \<noteq> 0" by blast
      have idle: "\<not> active (ev_link d e)" "\<not> polled (ev_link d e)" if "fst e = ?n" for e
        using D(2,3) [of e] free that by auto
      have "(?n, k) \<notin> set xs" "(?n, k) \<notin> set ys" for k
        using idle(1) [of "(?n, k)"] l n by (cases k; auto simp: lists_inv_def)+
      then have z: "zero_links {ready_linker (?n, Revt), ready_linker (?n, Wevt)} (ready_links d) = ready_links d"
        using ready_heap_zero l by (intro zero_links_id) (auto simp: lists_inv_def)
      let ?d = "d\<lparr> evts_num := evts_num d + 1, all_links := h,
        pevents := (pevents d)(?n := \<lparr> use_flag = True, rd_link = fresh_link ?n, wr_link = fresh_link ?n \<rparr>) \<rparr>"
      have "?d = d\<lparr> evts_num := evts_num d + 1, all_links := h, ready_links := ready_links d,
        pevents := (pevents d)(?n := \<lparr> use_flag = True, rd_link = fresh_link ?n, wr_link = fresh_link ?n \<rparr>) \<rparr>" by simp
      then have run: "yf_alloc_fd_evt cls ok sock d = Inr (YF_OK, ?d)"
        using False slot free h(1) z by (simp add: yf_alloc_fd_evt_def Let_def call_action_def no_add)
      have new: "ev_link ?d e = (if fst e = ?n then fresh_link ?n else ev_link d e)" for e
        using ev_link_new [of "d\<lparr> evts_num := evts_num d + 1, all_links := h \<rparr>" ?n True "fresh_link ?n" e] by simp
      have use: "in_use ?d = (in_use d)(?n := True)" by (simp add: fun_eq_iff)
      have use1: "in_use ?d m \<longleftrightarrow> m = ?n \<or> in_use d m" for m using fun_cong [OF use, of m] by simp
      have fresh: "\<not> polled (fresh_link m)" "\<not> active (fresh_link m)" "\<not> timeset (fresh_link m)" "fd (fresh_link m) = int m"
        "index (fresh_link m) = YF_INVALID_INDEX" for m by (simp_all add: fresh_link_def zero_link_def)
      have "base_inv (in_use ?d) ?d"
      proof (rule base_invI)
        show "slot_ok ?d m" if "in_use ?d m" for m
        proof (cases "m = ?n")
          case True
          with slot(2) show ?thesis by (simp add: slot_ok_def new fresh)
        next
          case other: False
          then have "in_use d m" using that use1 by blast
          with D(1) other show ?thesis by (simp add: slot_ok_def new)
        qed
        show "in_use ?d (fst e)" if "polled (ev_link ?d e)" for e
          using that D(2) [of e] unfolding use1 new by (simp add: fresh split: if_splits)
        show "in_use ?d (fst e)" if "active (ev_link ?d e)" for e
          using that D(3) [of e] unfolding use1 new by (simp add: fresh split: if_splits)
        show "timeset (ev_link ?d e) \<longleftrightarrow> timers ?d e \<noteq> None" for e
          using D(4,5) [of e] idle(1) [of e] unfolding new by (auto simp: fresh)
        show "active (ev_link ?d e)" if "timeset (ev_link ?d e)" for e
          using D(5) [of e] that unfolding new by (simp add: fresh split: if_splits)
        show "dprev (all_links ?d) ALL_LIST \<noteq> 0" "evts_capcity ?d \<le> 2 ^ 31" using D(7) h(2) by simp_all
      qed
      moreover have "watch ?d = watch d" unfolding watch_def new using idle(2) by (simp add: fun_eq_iff fresh)
      ultimately have "drv_inv (in_use ?d) ?d" using drv_invD(3) [OF d] by (simp add: drv_inv_def)
      moreover have "lists_inv ?d xs ys"
        using l idle(1) unfolding lists_inv_def new by auto
      moreover have "untouched {(?n, Revt), (?n, Wevt)} d ?d"
        unfolding untouched_def new slot_evts by auto
      ultimately show ?thesis using run use by blast
    qed
  qed
qed

text \<open>One lemma for all operations a handler performs.\<close>

lemma fd_op_spec:
  assumes d: "drv_inv (in_use d) d" "lists_inv d xs ys" and op: "op_allowed op d" "touches op \<inter> set ys = {}"
  shows "\<exists>r d' xs'. fd_op_run cls ok op d = Inr (r, d') \<and> drv_inv (in_use d') d' \<and> lists_inv d' xs' ys \<and>
    untouched (touches op) d d'"
proof (cases op)
  case (Alloc sock)
  with alloc_spec [OF d, of sock ok] op show ?thesis by (simp del: One_nat_def) blast
next
  case (Free n)
  with free_spec [OF d, of n ok] op show ?thesis by simp blast
next
  case (Register e t)
  with register_spec [OF d, of e ok t] op show ?thesis by simp blast
next
  case (Unregister e)
  have "e \<notin> set ys" using Unregister op by simp
  from unregister_spec [OF d this] obtain d' where "yf_unregister_fd_evt cls e d = Inr (YF_OK, d')" "drv_inv (in_use d) d'"
    "lists_inv d' (removeAll e xs) ys" "untouched {e} d d'" "in_use d' = in_use d" by blast
  with Unregister show ?thesis by (intro exI [of _ YF_OK] exI [of _ d'] exI [of _ "removeAll e xs"]) simp
next
  case (Drained e)
  let ?d = "map_link e (\<lambda>l. l\<lparr> ready := False \<rparr>) d"
  note D = base_invD [OF drv_invD(1) [OF d(1)]]
  have "drv_inv (in_use d) ?d" by (rule drv_inv_upd [OF d(1)]) (use D in \<open>auto split: if_splits\<close>)
  moreover have "lists_inv ?d xs ys" using d(2) by (auto simp: lists_inv_def)
  ultimately show ?thesis using Drained by (intro exI [of _ YF_OK] exI [of _ ?d] exI [of _ xs]) simp
qed

lemma fd_ops_spec:
  assumes "drv_inv (in_use d) d" "lists_inv d xs ys" "\<forall>(op, ok) \<in> set ops. touches op \<inter> set ys = {}"
  shows "\<exists>d' xs'. fd_ops_run cls ops d = Inr d' \<and> drv_inv (in_use d') d' \<and> lists_inv d' xs' ys \<and>
    untouched (\<Union>(op, ok) \<in> set ops. touches op) d d'"
  using assms
proof (induction ops arbitrary: d xs)
  case Nil
  then show ?case by auto
next
  case (Cons a ops)
  obtain op ok where a: "a = (op, ok)" by (cases a)
  show ?case
  proof (cases "op_allowed op d")
    case False
    from Cons.IH [OF Cons.prems(1,2)] Cons.prems(3) obtain d' xs' where
      "fd_ops_run cls ops d = Inr d'" "drv_inv (in_use d') d'" "lists_inv d' xs' ys"
      "untouched (\<Union>(op, ok) \<in> set ops. touches op) d d'" by auto
    with False a show ?thesis
      by (intro exI [of _ d'] exI [of _ xs']) (auto intro: untouched_trans [OF untouched_refl [of "{}"]])
  next
    case True
    have "touches op \<inter> set ys = {}" using Cons.prems(3) a by simp
    from fd_op_spec [OF Cons.prems(1,2) True this, of ok] obtain r d1 xs1 where
      d1: "fd_op_run cls ok op d = Inr (r, d1)" "drv_inv (in_use d1) d1" "lists_inv d1 xs1 ys" "untouched (touches op) d d1" by blast
    from Cons.IH [OF d1(2,3)] Cons.prems(3) obtain d' xs' where
      d': "fd_ops_run cls ops d1 = Inr d'" "drv_inv (in_use d') d'" "lists_inv d' xs' ys"
      "untouched (\<Union>(op, ok) \<in> set ops. touches op) d1 d'" by auto
    have "untouched (\<Union>(op, ok) \<in> set (a # ops). touches op) d d'"
      by (rule untouched_trans [OF d1(4) d'(4)]) (auto simp: a)
    with True a d1(1) d'(1-3) show ?thesis by (intro exI [of _ d'] exI [of _ xs']) simp
  qed
qed

text \<open>What the system reports is linked to the ready list once.\<close>

lemma marks_spec:
  assumes "drv_inv (in_use d) d" "ready_heap (ready_links d) xs []"
  shows "\<exists>d' xs'. marks es d = Inr d' \<and> drv_inv (in_use d') d' \<and> ready_heap (ready_links d') xs' [] \<and>
    set xs' = set xs \<union> set es \<and> in_use d' = in_use d \<and> agen_data d' = agen_data d \<and>
    (\<forall>e. active (ev_link d' e) = active (ev_link d e) \<and> fd (ev_link d' e) = fd (ev_link d e) \<and>
      polled (ev_link d' e) = polled (ev_link d e) \<and>
      (ready (ev_link d' e) \<longleftrightarrow> ready (ev_link d e) \<or> e \<in> set es)) \<and> called d' = called d"
  using assms
proof (induction es arbitrary: d xs)
  case Nil
  then show ?case by auto
next
  case (Cons e es)
  from ready_move(2) [OF Cons.prems(2), of e] obtain h where h:
    "yf_list_move_tail (ready_links d) (ready_linker e) READY_LIST = Inr h" "ready_heap h (removeAll e xs @ [e]) []" by auto
  let ?a = "map_link e (\<lambda>l. l\<lparr> ready := True \<rparr>) (d\<lparr> ready_links := h \<rparr>)"
  note D = base_invD [OF drv_invD(1) [OF Cons.prems(1)]]
  have a: "drv_inv (in_use ?a) ?a" by simp (rule drv_inv_upd [OF Cons.prems(1)]; use D in \<open>auto split: if_splits\<close>)
  have "ready_heap (ready_links ?a) (removeAll e xs @ [e]) []" using h(2) by simp
  from Cons.IH [OF a this] obtain d' xs' where d': "marks es ?a = Inr d'" "drv_inv (in_use d') d'"
    "ready_heap (ready_links d') xs' []" "set xs' = set (removeAll e xs @ [e]) \<union> set es" "in_use d' = in_use ?a"
    "agen_data d' = agen_data ?a" "called d' = called ?a"
    "\<And>x. active (ev_link d' x) = active (ev_link ?a x) \<and> fd (ev_link d' x) = fd (ev_link ?a x) \<and>
      polled (ev_link d' x) = polled (ev_link ?a x) \<and> (ready (ev_link d' x) \<longleftrightarrow> ready (ev_link ?a x) \<or> x \<in> set es)" by blast
  have "marks (e # es) d = Inr d'" using h(1) d'(1) by (simp add: mark_ready_def)
  moreover have "set xs' = set xs \<union> set (e # es)" using d'(4) by auto
  ultimately show ?case using d'(2,3,5-8) by (intro exI [of _ d'] exI [of _ xs']) (auto simp: fun_eq_iff)
qed

end

end
