(* ===== verification/Fd_Epoll.thy ===== *)
theory Fd_Epoll
  imports Fd_Poller
begin

section \<open>The epoll poller\<close>

text \<open>
  Models \<^verbatim>\<open>fd_poller/yf_epoll.c\<close>. The state holds what the kernel knows about the descriptor of the
  poller, the map \<open>interest\<close> from watched descriptors to event masks; \<open>epoll_ctl\<close> and the range of the
  answers of \<^verbatim>\<open>epoll_wait\<close> follow their documentation.
\<close>

definition EPOLLIN :: u32 where "EPOLLIN = 1"
definition EPOLLOUT :: u32 where "EPOLLOUT = 4"
definition EPOLLERR :: u32 where "EPOLLERR = 8"
definition EPOLLHUP :: u32 where "EPOLLHUP = 16"
definition EPOLLET :: u32 where "EPOLLET = 0x80000000"

lemmas epoll_masks = EPOLLIN_def EPOLLOUT_def EPOLLERR_def EPOLLHUP_def EPOLLET_def

datatype epoll_op = EPOLL_CTL_ADD | EPOLL_CTL_MOD | EPOLL_CTL_DEL

type_synonym interests = "int \<Rightarrow> u32 option"

record epoll_ctx =
  nfds :: u64
  maxfds :: nat
  interest :: interests

definition epoll_ctl :: "bool \<Rightarrow> epoll_op \<Rightarrow> int \<Rightarrow> u32 \<Rightarrow> interests \<Rightarrow> bool \<times> interests" where
  "epoll_ctl ok op f events K =
     (if \<not> ok \<or> (op = EPOLL_CTL_ADD \<longleftrightarrow> K f \<noteq> None) then (False, K)
      else (True, K(f := if op = EPOLL_CTL_DEL then None else Some events)))"

text \<open>\<open>alloc_ok\<close> and \<open>create_ok\<close> tell whether the allocation and \<^verbatim>\<open>epoll_create\<close> succeed.\<close>

definition yf_epoll_init :: "bool \<Rightarrow> bool \<Rightarrow> nat \<Rightarrow> epoll_ctx option" where
  "yf_epoll_init alloc_ok create_ok n =
     (if \<not> alloc_ok \<or> \<not> create_ok then None else Some \<lparr> nfds = 0, maxfds = n, interest = Map.empty \<rparr>)"

definition yf_epoll_del :: "bool \<Rightarrow> nat \<Rightarrow> epoll_ctx fd_driver \<Rightarrow> (int \<times> epoll_ctx fd_driver) run" where
  "yf_epoll_del ok n d =
     (if polled (ev_link d (n, Revt)) \<or> polled (ev_link d (n, Wevt))
      then
        let d = map_link (n, Revt) (\<lambda>l. l\<lparr> polled := False \<rparr>) d;
            d = map_link (n, Wevt) (\<lambda>l. l\<lparr> polled := False \<rparr>) d;
            c = (agen_data d)\<lparr> nfds := nfds (agen_data d) - 1 \<rparr>;
            (res, K) = epoll_ctl ok EPOLL_CTL_DEL (fd (ev_link d (n, Revt))) 0 (interest c);
            d = d\<lparr> agen_data := c\<lparr> interest := K \<rparr> \<rparr> in
        Inr (if res then YF_OK else YF_ERROR, d)
      else Inr (YF_OK, d))"

definition yf_epoll_activate :: "bool \<Rightarrow> evt \<Rightarrow> epoll_ctx fd_driver \<Rightarrow> (int \<times> epoll_ctx fd_driver) run" where
  "yf_epoll_activate ok e d =
     (if polled (ev_link d e) then Inr (YF_OK, d)
      else
        let (event, pre) = (case snd e of Revt \<Rightarrow> (EPOLLIN, EPOLLOUT) | Wevt \<Rightarrow> (EPOLLOUT, EPOLLIN));
            c = agen_data d;
            (op, event, c) =
              (if polled (ev_link d (other_half e)) then (EPOLL_CTL_MOD, event OR pre, c)
               else (EPOLL_CTL_ADD, event, c\<lparr> nfds := nfds c + 1 \<rparr>));
            (res, K) = epoll_ctl ok op (fd (ev_link d e)) (event OR EPOLLET) (interest c);
            d = d\<lparr> agen_data := c\<lparr> interest := K \<rparr> \<rparr> in
        if \<not> res then Inr (YF_ERROR, d)
        else Inr (YF_OK, map_link e (\<lambda>l. l\<lparr> polled := True \<rparr>) d))"

subsection \<open>Dispatch\<close>

text \<open>An answer is a list of events with their descriptors, or \<open>None\<close> for an error.\<close>

type_synonym epoll_answer = "(u32 \<times> int) list option"

definition widen :: "u32 \<Rightarrow> u32" where
  "widen revents =
     (if revents AND (EPOLLERR OR EPOLLHUP) \<noteq> 0 \<and> revents AND (EPOLLIN OR EPOLLOUT) = 0
      then revents OR (EPOLLIN OR EPOLLOUT) else revents)"

fun epoll_events :: "(u32 \<times> int) list \<Rightarrow> epoll_ctx fd_driver \<Rightarrow> epoll_ctx fd_driver run" where
  "epoll_events [] d = Inr d"
| "epoll_events ((revents, f) # es) d =
     run_bind (fd_slot f d) (\<lambda>n.
     if fd (ev_link d (n, Revt)) = -1 then epoll_events es d
     else
       let revents = widen revents in
       run_bind (if revents AND EPOLLIN \<noteq> 0 then mark_ready (n, Revt) d else Inr d) (\<lambda>d.
       run_bind (if revents AND EPOLLOUT \<noteq> 0 then mark_ready (n, Wevt) d else Inr d) (\<lambda>d.
       epoll_events es d)))"

definition epoll_wait :: "u64 \<Rightarrow> nat \<Rightarrow> epoll_answer \<Rightarrow> epoll_answer run" where
  "epoll_wait maxevents room k =
     (if maxevents = 0 \<or> maxevents \<ge> 2 ^ 31 then Inr None
      else case k of None \<Rightarrow> Inr None | Some es \<Rightarrow> require Out_of_bounds (length es \<le> room) (Inr (Some es)))"

definition yf_epoll_dispatch :: "epoll_answer \<Rightarrow> epoll_ctx fd_driver \<Rightarrow> (int \<times> epoll_ctx fd_driver) run" where
  "yf_epoll_dispatch k d =
     run_bind (epoll_wait (nfds (agen_data d)) (maxfds (agen_data d)) k) (\<lambda>r.
     case r of
       None \<Rightarrow> Inr (YF_ERROR, d)
     | Some [] \<Rightarrow> Inr (YF_ERROR, d)
     | Some es \<Rightarrow> run_bind (epoll_events es d) (\<lambda>d. Inr (YF_OK, d)))"

definition yf_fd_epoll_poller_cls :: "(epoll_ctx, epoll_answer) fd_poll_actions" where
  "yf_fd_epoll_poller_cls = \<lparr> act_add = None, act_del = Some yf_epoll_del, act_activate = Some yf_epoll_activate,
     act_deactivate = None, act_dispatch = yf_epoll_dispatch \<rparr>"

subsection \<open>The poller meets the interface\<close>

definition half_mask :: "evt_half \<Rightarrow> u32" where
  "half_mask k = (case k of Revt \<Rightarrow> EPOLLIN | Wevt \<Rightarrow> EPOLLOUT)"

text \<open>Every polled event is in the interest list of the kernel, which holds no descriptor beyond the capacity.\<close>

definition epoll_watch_ok :: "epoll_ctx \<Rightarrow> nat \<Rightarrow> (evt \<Rightarrow> nat option) \<Rightarrow> bool" where
  "epoll_watch_ok c cap w \<longleftrightarrow> maxfds c = cap \<and> (\<forall>e i. w e = Some i \<longrightarrow> i = YF_INVALID_INDEX) \<and>
     (\<forall>f. interest c f \<noteq> None \<longrightarrow> 0 \<le> f \<and> nat f < cap) \<and>
     (\<forall>n k. w (n, k) \<noteq> None \<longrightarrow> (\<exists>ev. interest c (int n) = Some ev \<and> ev AND half_mask k \<noteq> 0))"

definition epoll_answers :: "epoll_ctx fd_driver \<Rightarrow> epoll_answer \<Rightarrow> bool" where
  "epoll_answers d k \<longleftrightarrow> (case k of None \<Rightarrow> True
     | Some es \<Rightarrow> distinct (map snd es) \<and> (\<forall>(ev, f) \<in> set es. interest (agen_data d) f \<noteq> None))"

definition epoll_report :: "epoll_ctx fd_driver \<Rightarrow> u32 \<times> int \<Rightarrow> evt list" where
  "epoll_report d r = (case r of (revents, f) \<Rightarrow>
     if fd (ev_link d (nat f, Revt)) = -1 then []
     else [(nat f, k). k \<leftarrow> [Revt, Wevt], widen revents AND half_mask k \<noteq> 0])"

definition epoll_reports :: "epoll_ctx fd_driver \<Rightarrow> epoll_answer \<Rightarrow> evt list" where
  "epoll_reports d k = (if nfds (agen_data d) = 0 \<or> nfds (agen_data d) \<ge> 2 ^ 31 then []
     else case k of None \<Rightarrow> [] | Some es \<Rightarrow> concat (map (epoll_report d) es))"

lemma epoll_watchD:
  assumes "epoll_watch_ok (agen_data d) (evts_capcity d) (watch d)"
  shows "maxfds (agen_data d) = evts_capcity d" "\<And>f. interest (agen_data d) f \<noteq> None \<Longrightarrow> 0 \<le> f \<and> nat f < evts_capcity d"
    "\<And>n k. polled (ev_link d (n, k)) \<Longrightarrow> \<exists>ev. interest (agen_data d) (int n) = Some ev \<and> ev AND half_mask k \<noteq> 0"
    "\<And>x. polled (ev_link d x) \<Longrightarrow> index (ev_link d x) = YF_INVALID_INDEX"
proof -
  have w: "\<And>x i. watch d x = Some i \<Longrightarrow> i = YF_INVALID_INDEX"
    "\<And>n k. watch d (n, k) \<noteq> None \<Longrightarrow> \<exists>ev. interest (agen_data d) (int n) = Some ev \<and> ev AND half_mask k \<noteq> 0"
    using assms unfolding epoll_watch_ok_def by blast+
  show "\<And>n k. polled (ev_link d (n, k)) \<Longrightarrow> \<exists>ev. interest (agen_data d) (int n) = Some ev \<and> ev AND half_mask k \<noteq> 0"
    by (rule w(2)) (simp add: watch_def)
  show "index (ev_link d x) = YF_INVALID_INDEX" if "polled (ev_link d x)" for x
    by (rule w(1) [of x]) (simp add: watch_def that)
qed (use assms in \<open>unfold epoll_watch_ok_def, blast+\<close>)

lemma epoll_events_marks:
  assumes "\<forall>(ev, f) \<in> set es. 0 \<le> f \<and> nat f < evts_capcity d"
  shows "epoll_events es d = marks (concat (map (epoll_report d) es)) d"
  using assms
proof (induction es arbitrary: d)
  case Nil
  then show ?case by simp
next
  case (Cons r es)
  obtain revents f where r: "r = (revents, f)" by (cases r)
  have slot: "fd_slot f d = Inr (nat f)" using Cons.prems r by (simp add: fd_slot_def)
  have step: "run_bind (marks xs d) (epoll_events es) = marks (xs @ concat (map (epoll_report d) es)) d" for xs
  proof (cases "marks xs d")
    case (Inr d')
    with marks_keeps [OF this] Cons.prems Cons.IH [of d'] have "epoll_events es d' = marks (concat (map (epoll_report d') es)) d'"
      by simp
    moreover have "epoll_report d' = epoll_report d" using marks_keeps [OF Inr] by (simp add: epoll_report_def fun_eq_iff)
    ultimately show ?thesis using Inr by (simp add: marks_append)
  qed (simp add: marks_append)
  have "epoll_events (r # es) d = run_bind (marks (epoll_report d r) d) (epoll_events es)"
    using slot by (auto simp: r epoll_report_def half_mask_def Let_def run_bind_assoc)
  with step show ?case by simp
qed

lemma epoll_activate_law:
  assumes s: "slots_ok d" and w: "epoll_watch_ok (agen_data d) (evts_capcity d) (watch d)"
    and e: "slot_ok d (fst e)" "\<not> polled (ev_link d e)"
  shows "\<exists>r d'. yf_epoll_activate ok e d = Inr (r, d') \<and>
    polling d d' (\<lambda>e'. polled (ev_link d e') \<or> e' = e \<and> r = YF_OK) \<and>
    epoll_watch_ok (agen_data d') (evts_capcity d) (watch d')"
proof -
  obtain n k where ek: "e = (n, k)" by (cases e)
  obtain j where o: "other_half e = (n, j)" "k \<noteq> j"
    and pair: "(case k of Revt \<Rightarrow> (EPOLLIN, EPOLLOUT) | Wevt \<Rightarrow> (EPOLLOUT, EPOLLIN)) = (half_mask k, half_mask j)"
    by (cases k) (simp_all add: ek half_mask_def)
  have snd_e: "snd e = k" by (simp add: ek)
  let ?c = "agen_data d" and ?p = "polled (ev_link d (n, j))"
  define op where "op = (if ?p then EPOLL_CTL_MOD else EPOLL_CTL_ADD)"
  define m where "m = (if ?p then half_mask k OR half_mask j else half_mask k)"
  define nf where "nf = (if ?p then nfds ?c else nfds ?c + 1)"
  have f: "fd (ev_link d e) = int n" "n < evts_capcity d" using e(1) ek by (simp_all add: slot_ok_def)
  obtain res K where K: "epoll_ctl ok op (int n) (m OR EPOLLET) (interest ?c) = (res, K)" by fastforce
  let ?a = "d\<lparr> agen_data := ?c\<lparr> nfds := nf, interest := K \<rparr> \<rparr>"
  let ?d = "if res then map_link e (\<lambda>l. l\<lparr> polled := True \<rparr>) ?a else ?a" and ?r = "if res then YF_OK else YF_ERROR"
  have run: "yf_epoll_activate ok e d = Inr (?r, ?d)"
    using e(2) K by (cases ?p) (simp_all add: yf_epoll_activate_def o(1) f(1) snd_e pair op_def m_def nf_def Let_def)
  have pol: "polling d ?d (\<lambda>e'. polled (ev_link d e') \<or> e' = e \<and> ?r = YF_OK)"
    by (rule pollingI) (auto simp: fun_eq_iff)
  have bits: "(m OR EPOLLET) AND half_mask k \<noteq> 0" "?p \<Longrightarrow> (m OR EPOLLET) AND half_mask j \<noteq> 0"
    using o(2) by (cases k; cases j; simp add: m_def half_mask_def epoll_masks)+
  note W = epoll_watchD [OF w]
  have Kres: "K = (if res then (interest ?c)(int n := Some (m OR EPOLLET)) else interest ?c)"
    using K by (auto simp: epoll_ctl_def op_def split: if_splits)
  have sib: "i = k \<or> i = j" for i using o(2) by (cases i; cases k; cases j) auto
  have "epoll_watch_ok (agen_data ?d) (evts_capcity d) (watch ?d)"
    unfolding epoll_watch_ok_def
  proof (intro conjI allI impI)
    show "maxfds (agen_data ?d) = evts_capcity d" using W(1) by simp
    have "index (ev_link d e) = YF_INVALID_INDEX" using e by (simp add: slot_ok_def ek)
    then show "i = YF_INVALID_INDEX" if "watch ?d x = Some i" for x i
      using that W(4) [of x] by (auto simp: watch_def split: if_splits)
    show "0 \<le> f'" "nat f' < evts_capcity d" if "interest (agen_data ?d) f' \<noteq> None" for f'
      using that W(2) [of f'] f(2) unfolding Kres by (auto split: if_splits)
    fix n' i assume p: "watch ?d (n', i) \<noteq> None"
    show "\<exists>ev. interest (agen_data ?d) (int n') = Some ev \<and> ev AND half_mask i \<noteq> 0"
    proof (cases "res \<and> n' = n")
      case True
      then have "interest (agen_data ?d) (int n') = Some (m OR EPOLLET)" by (simp add: Kres)
      moreover have "i = k \<or> polled (ev_link d (n, i)) \<and> i = j" using p True sib [of i] by (auto simp: watch_def ek split: if_splits)
      ultimately show ?thesis using bits by auto
    next
      case False
      then have "polled (ev_link d (n', i))" using p by (auto simp: watch_def ek split: if_splits)
      moreover have "interest (agen_data ?d) (int n') = interest ?c (int n')" using False by (auto simp: Kres)
      ultimately show ?thesis using W(3) by simp
    qed
  qed
  with run pol show ?thesis by blast
qed

lemma epoll_del_law:
  assumes s: "slots_ok d" and w: "epoll_watch_ok (agen_data d) (evts_capcity d) (watch d)"
  shows "\<exists>r d'. yf_epoll_del ok n d = Inr (r, d') \<and> polling d d' (\<lambda>e'. polled (ev_link d e') \<and> fst e' \<noteq> n) \<and>
    epoll_watch_ok (agen_data d') (evts_capcity d) (watch d')"
proof (cases "polled (ev_link d (n, Revt)) \<or> polled (ev_link d (n, Wevt))")
  case False
  then have no: "\<not> polled (ev_link d e)" if "fst e = n" for e using that by (cases e; cases "snd e") auto
  have "polling d d (\<lambda>e'. polled (ev_link d e') \<and> fst e' \<noteq> n)" by (rule pollingI) (use no in auto)
  with False w show ?thesis by (intro exI [of _ YF_OK] exI [of _ d]) (simp add: yf_epoll_del_def)
next
  case True
  let ?c = "agen_data d"
  have slot: "slot_ok d n" using True s unfolding slots_ok_def by blast
  note W = epoll_watchD(1,2,4,3) [OF w]
  from slot have f: "fd (ev_link d (n, Revt)) = int n" by (simp add: slot_ok_def)
  let ?b = "map_link (n, Wevt) (\<lambda>l. l\<lparr> polled := False \<rparr>) (map_link (n, Revt) (\<lambda>l. l\<lparr> polled := False \<rparr>) d)"
  obtain res K where K: "epoll_ctl ok EPOLL_CTL_DEL (int n) 0 (interest ?c) = (res, K)" by fastforce
  let ?d = "?b\<lparr> agen_data := ?c\<lparr> nfds := nfds ?c - 1, interest := K \<rparr> \<rparr>"
  have run: "yf_epoll_del ok n d = Inr (if res then YF_OK else YF_ERROR, ?d)"
    using True K f by (simp add: yf_epoll_del_def Let_def)
  have P: "polled (ev_link ?d e) \<longleftrightarrow> polled (ev_link d e) \<and> fst e \<noteq> n" for e by (cases e; cases "snd e") auto
  have pol: "polling d ?d (\<lambda>e'. polled (ev_link d e') \<and> fst e' \<noteq> n)"
  proof (rule pollingI)
    fix x assume "\<not> (polled (ev_link d x) \<and> fst x \<noteq> n)" "polled (ev_link d x) \<or> index (ev_link d x) = YF_INVALID_INDEX"
    with W(3) [of x] show "index (ev_link ?d x) = YF_INVALID_INDEX" by auto
  qed (use P in \<open>auto simp: fun_eq_iff\<close>)
  have "epoll_watch_ok (agen_data ?d) (evts_capcity d) (watch ?d)"
    unfolding epoll_watch_ok_def
  proof (intro conjI allI impI)
    show "maxfds (agen_data ?d) = evts_capcity d" using W(1) by simp
    show "i = YF_INVALID_INDEX" if "watch ?d x = Some i" for x i
      using that W(3) [of x] by (auto simp: watch_def split: if_splits)
    show "0 \<le> f'" "nat f' < evts_capcity d" if "interest (agen_data ?d) f' \<noteq> None" for f'
      using that W(2) [of f'] K by (auto simp: epoll_ctl_def split: if_splits)
    fix n' i assume "watch ?d (n', i) \<noteq> None"
    then have p: "polled (ev_link d (n', i))" "n' \<noteq> n" using P [of "(n', i)"] by (auto simp: watch_def split: if_splits)
    have "K (int n') = interest ?c (int n')" using K p(2) by (auto simp: epoll_ctl_def split: if_splits)
    with W(4) [OF p(1)] show "\<exists>ev. interest (agen_data ?d) (int n') = Some ev \<and> ev AND half_mask i \<noteq> 0" by simp
  qed
  with run pol show ?thesis by blast
qed

lemma epoll_dispatch_law:
  assumes s: "slots_ok d" and w: "epoll_watch_ok (agen_data d) (evts_capcity d) (watch d)" and k: "epoll_answers d k"
  shows "\<exists>r p. yf_epoll_dispatch k d = run_bind (marks (epoll_reports d k) (d\<lparr> agen_data := p \<rparr>)) (\<lambda>d'. Inr (r, d')) \<and>
    epoll_watch_ok p (evts_capcity d) (watch d)"
proof (cases "nfds (agen_data d) = 0 \<or> nfds (agen_data d) \<ge> 2 ^ 31 \<or> k = None")
  case True
  then have "yf_epoll_dispatch k d = Inr (YF_ERROR, d)" "epoll_reports d k = []"
    by (auto simp: yf_epoll_dispatch_def epoll_wait_def epoll_reports_def)
  with w show ?thesis by (intro exI [of _ YF_ERROR] exI [of _ "agen_data d"]) simp
next
  case False
  then obtain es where es: "k = Some es" by blast
  note W = epoll_watchD [OF w]
  have A: "distinct (map snd es)" "\<forall>(ev, f) \<in> set es. interest (agen_data d) f \<noteq> None"
    using k es by (simp_all add: epoll_answers_def)
  have range: "\<forall>(ev, f) \<in> set es. 0 \<le> f \<and> nat f < evts_capcity d" using A(2) W(2) by blast
  then have "set (map snd es) \<subseteq> int ` {..<evts_capcity d}" by (force simp: image_iff)
  then have "card (set (map snd es)) \<le> card (int ` {..<evts_capcity d})" by (intro card_mono) simp_all
  then have "length es \<le> evts_capcity d" using distinct_card [OF A(1)] by (simp add: card_image)
  then have wait: "epoll_wait (nfds (agen_data d)) (maxfds (agen_data d)) k = Inr (Some es)"
    using False es W(1) by (simp add: epoll_wait_def)
  have rep: "epoll_reports d k = concat (map (epoll_report d) es)" using False es by (simp add: epoll_reports_def)
  show ?thesis
  proof (cases "es = []")
    case True
    then have "yf_epoll_dispatch k d = Inr (YF_ERROR, d)" using wait by (simp add: yf_epoll_dispatch_def)
    with w rep True show ?thesis by (intro exI [of _ YF_ERROR] exI [of _ "agen_data d"]) simp
  next
    case False
    then have "yf_epoll_dispatch k d = run_bind (epoll_events es d) (\<lambda>d. Inr (YF_OK, d))"
      using wait by (simp add: yf_epoll_dispatch_def split: list.split)
    with w rep epoll_events_marks [OF range] show ?thesis
      by (intro exI [of _ YF_OK] exI [of _ "agen_data d"]) simp
  qed
qed

interpretation epoll: fd_poller yf_fd_epoll_poller_cls epoll_watch_ok epoll_answers epoll_reports
proof unfold_locales
  show "act_add yf_fd_epoll_poller_cls = None" by (simp add: yf_fd_epoll_poller_cls_def)
next
  fix d :: "epoll_ctx fd_driver" and e ok
  assume "slots_ok d" "epoll_watch_ok (agen_data d) (evts_capcity d) (watch d)" "slot_ok d (fst e)" "\<not> polled (ev_link d e)"
  from epoll_activate_law [OF this, of ok]
  show "\<exists>act r d'. act_activate yf_fd_epoll_poller_cls = Some act \<and> act ok e d = Inr (r, d') \<and>
        polling d d' (\<lambda>e'. polled (ev_link d e') \<or> e' = e \<and> r = YF_OK) \<and>
        epoll_watch_ok (agen_data d') (evts_capcity d) (watch d')" by (simp add: yf_fd_epoll_poller_cls_def)
next
  fix d :: "epoll_ctx fd_driver" and ok n
  assume "slots_ok d" "epoll_watch_ok (agen_data d) (evts_capcity d) (watch d)"
  from epoll_del_law [OF this, of ok n]
  show "\<exists>act r d'. act_del yf_fd_epoll_poller_cls = Some act \<and> act ok n d = Inr (r, d') \<and>
        polling d d' (\<lambda>e'. polled (ev_link d e') \<and> fst e' \<noteq> n) \<and>
        epoll_watch_ok (agen_data d') (evts_capcity d) (watch d')" by (simp add: yf_fd_epoll_poller_cls_def)
next
  fix d :: "epoll_ctx fd_driver" and k
  assume "slots_ok d" "epoll_watch_ok (agen_data d) (evts_capcity d) (watch d)" "epoll_answers d k"
  from epoll_dispatch_law [OF this]
  show "\<exists>r p. act_dispatch yf_fd_epoll_poller_cls k d =
        run_bind (marks (epoll_reports d k) (d\<lparr> agen_data := p \<rparr>)) (\<lambda>d'. Inr (r, d')) \<and>
        epoll_watch_ok p (evts_capcity d) (watch d)" by (simp add: yf_fd_epoll_poller_cls_def)
qed (simp add: yf_fd_epoll_poller_cls_def)

end
