(* ===== verification/Fd_Poll.thy ===== *)
theory Fd_Poll
  imports Fd_Poller
begin

section \<open>The poll poller\<close>

text \<open>
  Models \<^verbatim>\<open>fd_poller/yf_poll.c\<close>: an array with one entry for each descriptor that is watched. The
  answer of \<^verbatim>\<open>poll\<close> is the returned events of the entries in use, or \<open>None\<close> for an error.
\<close>

definition POLLIN :: u16 where "POLLIN = 1"
definition POLLOUT :: u16 where "POLLOUT = 4"
definition POLLERR :: u16 where "POLLERR = 8"
definition POLLHUP :: u16 where "POLLHUP = 16"
definition POLLNVAL :: u16 where "POLLNVAL = 32"

lemmas poll_masks = POLLIN_def POLLOUT_def POLLERR_def POLLHUP_def POLLNVAL_def

record pollfd =
  pfd :: int
  events :: u16
  revents :: u16

record poll_ctx =
  nevents :: nat
  event_list :: "pollfd list"

definition yf_poll_init :: "bool \<Rightarrow> nat \<Rightarrow> poll_ctx option" where
  "yf_poll_init alloc_ok n =
     (if \<not> alloc_ok then None
      else Some \<lparr> nevents = 0, event_list = replicate n \<lparr> pfd = 0, events = 0, revents = 0 \<rparr> \<rparr>)"

definition poll_event :: "evt_half \<Rightarrow> u16" where
  "poll_event k = (case k of Revt \<Rightarrow> POLLIN | Wevt \<Rightarrow> POLLOUT)"

definition entry_upd :: "nat \<Rightarrow> (pollfd \<Rightarrow> pollfd) \<Rightarrow> poll_ctx \<Rightarrow> poll_ctx run" where
  "entry_upd i f c = require Out_of_bounds (i < length (event_list c))
     (Inr (c\<lparr> event_list := (event_list c)[i := f (event_list c ! i)] \<rparr>))"

definition yf_poll_activate :: "bool \<Rightarrow> evt \<Rightarrow> poll_ctx fd_driver \<Rightarrow> (int \<times> poll_ctx fd_driver) run" where
  "yf_poll_activate ok e d =
     (if index (ev_link d e) \<noteq> YF_INVALID_INDEX then Inr (YF_OK, d)
      else
        let event = poll_event (snd e); c = agen_data d; i_other = index (ev_link d (other_half e)) in
        run_bind
          (if i_other = YF_INVALID_INDEX
           then run_bind (entry_upd (nevents c) (\<lambda>_. \<lparr> pfd = fd (ev_link d e), events = event, revents = 0 \<rparr>) c) (\<lambda>c.
                Inr (nevents c, c\<lparr> nevents := nevents c + 1 \<rparr>))
           else run_bind (entry_upd i_other (\<lambda>x. x\<lparr> events := events x OR event \<rparr>) c) (\<lambda>c. Inr (i_other, c)))
          (\<lambda>(i, c). Inr (YF_OK, map_link e (\<lambda>l. l\<lparr> polled := True, index := i \<rparr>) (d\<lparr> agen_data := c \<rparr>))))"

definition move_index :: "nat \<Rightarrow> nat \<Rightarrow> evt \<Rightarrow> 'p fd_driver \<Rightarrow> 'p fd_driver" where
  "move_index a b e d = (if index (ev_link d e) = a then map_link e (\<lambda>l. l\<lparr> index := b \<rparr>) d else d)"

text \<open>The last entry moves to the place \<open>i\<close> that became free.\<close>

definition poll_fill :: "nat \<Rightarrow> poll_ctx fd_driver \<Rightarrow> poll_ctx fd_driver run" where
  "poll_fill i d =
     (let c = agen_data d; last_i = nevents c - 1; c = c\<lparr> nevents := last_i \<rparr> in
      if i < last_i
      then
        require Out_of_bounds (last_i < length (event_list c))
          (let x = event_list c ! last_i in
           run_bind (entry_upd i (\<lambda>_. x) c) (\<lambda>c.
           run_bind (fd_slot (pfd x) d) (\<lambda>m.
           let d = d\<lparr> agen_data := c \<rparr> in
           if fd (ev_link d (m, Revt)) = -1 then Inr d
           else Inr (move_index last_i i (m, Wevt) (move_index last_i i (m, Revt) d)))))
      else Inr (d\<lparr> agen_data := c \<rparr>))"

definition yf_poll_deactivate :: "evt \<Rightarrow> poll_ctx fd_driver \<Rightarrow> (int \<times> poll_ctx fd_driver) run" where
  "yf_poll_deactivate e d =
     (if index (ev_link d e) = YF_INVALID_INDEX then Inr (YF_OK, d)
      else
        let event = poll_event (snd e); i_other = index (ev_link d (other_half e)) in
        run_bind
          (if i_other = YF_INVALID_INDEX then poll_fill (index (ev_link d e)) d
           else run_bind (entry_upd i_other (\<lambda>x. x\<lparr> events := events x AND NOT event \<rparr>) (agen_data d)) (\<lambda>c.
                Inr (d\<lparr> agen_data := c \<rparr>)))
          (\<lambda>d. Inr (YF_OK, map_link e (\<lambda>l. l\<lparr> polled := False, index := YF_INVALID_INDEX \<rparr>) d)))"

definition yf_poll_del :: "bool \<Rightarrow> nat \<Rightarrow> poll_ctx fd_driver \<Rightarrow> (int \<times> poll_ctx fd_driver) run" where
  "yf_poll_del ok n d =
     run_bind (if polled (ev_link d (n, Revt)) then yf_poll_deactivate (n, Revt) d else Inr (YF_OK, d)) (\<lambda>(r, d).
     if r \<noteq> YF_OK then Inr (r, d)
     else run_bind (if polled (ev_link d (n, Wevt)) then yf_poll_deactivate (n, Wevt) d else Inr (YF_OK, d)) (\<lambda>(r, d).
     if r \<noteq> YF_OK then Inr (r, d) else Inr (YF_OK, d)))"

subsection \<open>Dispatch\<close>

type_synonym poll_answer = "u16 list option"

definition poll_widen :: "u16 \<Rightarrow> u16" where
  "poll_widen rev_events =
     (if rev_events AND (POLLERR OR POLLHUP OR POLLNVAL) \<noteq> 0 \<and> rev_events AND (POLLIN OR POLLOUT) = 0
      then rev_events OR (POLLIN OR POLLOUT) else rev_events)"

text \<open>The loop over the entries; \<open>is\<close> are the indices not yet seen, at most the entries before the loop.\<close>

fun poll_loop :: "nat list \<Rightarrow> nat \<Rightarrow> poll_ctx fd_driver \<Rightarrow> poll_ctx fd_driver run" where
  "poll_loop [] n_ready d = Inr d"
| "poll_loop (i # is) n_ready d =
     (let c = agen_data d in
      if \<not> (i < nevents c \<and> n_ready \<noteq> 0) then Inr d
      else
        require Out_of_bounds (i < length (event_list c))
          (let x = event_list c ! i in
           if pfd x = -1 then poll_loop is n_ready d
           else
             run_bind (fd_slot (pfd x) d) (\<lambda>n.
             if fd (ev_link d (n, Revt)) = -1
             then
               (if i = nevents c - 1 then poll_loop is n_ready (d\<lparr> agen_data := c\<lparr> nevents := nevents c - 1 \<rparr> \<rparr>)
                else run_bind (entry_upd i (\<lambda>x. x\<lparr> pfd := -1 \<rparr>) c) (\<lambda>c. poll_loop is n_ready (d\<lparr> agen_data := c \<rparr>)))
             else
               let rv = poll_widen (revents x) in
               run_bind (if rv AND POLLIN \<noteq> 0 then mark_ready (n, Revt) d else Inr d) (\<lambda>d.
               run_bind (if rv AND POLLOUT \<noteq> 0 then mark_ready (n, Wevt) d else Inr d) (\<lambda>d.
               poll_loop is (if rv AND (POLLIN OR POLLOUT) \<noteq> 0 then n_ready - 1 else n_ready) d)))))"

text \<open>\<^verbatim>\<open>poll\<close> stores the returned events and counts the entries that have some.\<close>

definition poll_store :: "u16 list \<Rightarrow> poll_ctx \<Rightarrow> poll_ctx" where
  "poll_store rs c = c\<lparr> event_list := map2 (\<lambda>x r. x\<lparr> revents := r \<rparr>) (take (length rs) (event_list c)) rs @
     drop (length rs) (event_list c) \<rparr>"

definition yf_poll_dispatch :: "poll_answer \<Rightarrow> poll_ctx fd_driver \<Rightarrow> (int \<times> poll_ctx fd_driver) run" where
  "yf_poll_dispatch k d =
     (case k of
        None \<Rightarrow> Inr (YF_ERROR, d)
      | Some rs \<Rightarrow>
          let d = d\<lparr> agen_data := poll_store rs (agen_data d) \<rparr>; n_ready = length (filter (\<lambda>r. r \<noteq> 0) rs) in
          if n_ready = 0 then Inr (YF_ERROR, d)
          else run_bind (poll_loop [0..<nevents (agen_data d)] n_ready d) (\<lambda>d. Inr (YF_OK, d)))"

definition yf_fd_poll_poller_cls :: "(poll_ctx, poll_answer) fd_poll_actions" where
  "yf_fd_poll_poller_cls = \<lparr> act_add = None, act_del = Some yf_poll_del, act_activate = Some yf_poll_activate,
     act_deactivate = Some yf_poll_deactivate, act_dispatch = yf_poll_dispatch \<rparr>"

subsection \<open>The array of entries\<close>

text \<open>\<open>ns\<close> are the watched descriptors in the order of their entries.\<close>

definition poll_mask :: "bool \<Rightarrow> bool \<Rightarrow> u16" where
  "poll_mask r w = (if r then POLLIN else 0) OR (if w then POLLOUT else 0)"

definition poll_list :: "poll_ctx \<Rightarrow> (evt \<Rightarrow> nat option) \<Rightarrow> nat list \<Rightarrow> bool" where
  "poll_list c w ns \<longleftrightarrow> nevents c = length ns \<and> distinct ns \<and>
     (\<forall>i < length ns. pfd (event_list c ! i) = int (ns ! i) \<and>
        events (event_list c ! i) = poll_mask (w (ns ! i, Revt) \<noteq> None) (w (ns ! i, Wevt) \<noteq> None)) \<and>
     (\<forall>n k i. w (n, k) = Some i \<longrightarrow> i < length ns \<and> ns ! i = n) \<and> (\<forall>n \<in> set ns. \<exists>k. w (n, k) \<noteq> None)"

definition poll_watch_ok :: "poll_ctx \<Rightarrow> nat \<Rightarrow> (evt \<Rightarrow> nat option) \<Rightarrow> bool" where
  "poll_watch_ok c cap w \<longleftrightarrow> length (event_list c) = cap \<and> cap \<le> 2 ^ 31 \<and>
     (\<exists>ns. poll_list c w ns \<and> (\<forall>n \<in> set ns. n < cap))"

definition poll_answers :: "poll_ctx fd_driver \<Rightarrow> poll_answer \<Rightarrow> bool" where
  "poll_answers d k \<longleftrightarrow> (case k of None \<Rightarrow> True | Some rs \<Rightarrow> length rs = nevents (agen_data d))"

definition poll_report :: "int \<times> u16 \<Rightarrow> evt list" where
  "poll_report r = (case r of (f, rv) \<Rightarrow> [(nat f, k). k \<leftarrow> [Revt, Wevt], poll_widen rv AND poll_event k \<noteq> 0])"

definition poll_reports :: "poll_ctx fd_driver \<Rightarrow> poll_answer \<Rightarrow> evt list" where
  "poll_reports d k = (case k of None \<Rightarrow> []
     | Some rs \<Rightarrow> concat (map poll_report (zip (map pfd (event_list (agen_data d))) rs)))"

lemma poll_listD:
  assumes "poll_list c w ns"
  shows "nevents c = length ns" "distinct ns" "\<And>i. i < length ns \<Longrightarrow> pfd (event_list c ! i) = int (ns ! i)"
    "\<And>i. i < length ns \<Longrightarrow> events (event_list c ! i) = poll_mask (w (ns ! i, Revt) \<noteq> None) (w (ns ! i, Wevt) \<noteq> None)"
    "\<And>n k i. w (n, k) = Some i \<Longrightarrow> i < length ns \<and> ns ! i = n" "\<And>n. n \<in> set ns \<Longrightarrow> \<exists>k. w (n, k) \<noteq> None"
  using assms unfolding poll_list_def by blast+

text \<open>The answers in terms of the list: indices are valid, and an unwatched descriptor has room.\<close>

lemma poll_watchE:
  assumes "poll_watch_ok (agen_data d) (evts_capcity d) (watch d)"
  obtains ns where "poll_list (agen_data d) (watch d) ns" "length (event_list (agen_data d)) = evts_capcity d"
    "\<forall>n \<in> set ns. n < evts_capcity d" "length ns \<le> evts_capcity d" "evts_capcity d < YF_INVALID_INDEX"
proof -
  from assms obtain ns where ns: "poll_list (agen_data d) (watch d) ns" "\<forall>n \<in> set ns. n < evts_capcity d"
    "length (event_list (agen_data d)) = evts_capcity d" "evts_capcity d \<le> 2 ^ 31" by (auto simp: poll_watch_ok_def)
  moreover have "length ns \<le> evts_capcity d" using list_capacity(1) poll_listD(2) [OF ns(1)] ns(2) by blast
  moreover have "evts_capcity d < YF_INVALID_INDEX" using ns(4) by (simp add: YF_INVALID_INDEX_def)
  ultimately show thesis using that by blast
qed

lemma index_polled:
  assumes "poll_watch_ok (agen_data d) (evts_capcity d) (watch d)" "slot_ok d n"
  shows "index (ev_link d (n, k)) = YF_INVALID_INDEX \<longleftrightarrow> \<not> polled (ev_link d (n, k))"
proof
  assume i: "index (ev_link d (n, k)) = YF_INVALID_INDEX"
  show "\<not> polled (ev_link d (n, k))"
  proof
    assume "polled (ev_link d (n, k))"
    then have "watch d (n, k) = Some YF_INVALID_INDEX" using i by (simp add: watch_def)
    with assms(1) show False using poll_listD(5) by (metis poll_watchE leD le_trans nat_less_le)
  qed
qed (use assms(2) in \<open>simp add: slot_ok_def\<close>)

lemma half_other: "other_half (n, k) = (n, j) \<Longrightarrow> k \<noteq> j \<and> (\<forall>i. i = k \<or> i = j)"
  by (cases k; cases j) (auto intro: evt_half.exhaust)

lemma other_halfE: obtains j where "other_half (n, k) = (n, j)"
  by (cases k) auto

lemma poll_activate_law:
  assumes s: "slots_ok d" and w: "poll_watch_ok (agen_data d) (evts_capcity d) (watch d)"
    and e: "slot_ok d (fst e)" "\<not> polled (ev_link d e)"
  shows "\<exists>d'. yf_poll_activate ok e d = Inr (YF_OK, d') \<and>
    polling d d' (\<lambda>e'. polled (ev_link d e') \<or> e' = e) \<and> poll_watch_ok (agen_data d') (evts_capcity d) (watch d')"
proof -
  obtain n k where ek: "e = (n, k)" by (cases e)
  obtain j where o: "other_half (n, k) = (n, j)" by (rule other_halfE)
  note kj = half_other [OF o]
  obtain ns where ns: "poll_list (agen_data d) (watch d) ns" "length (event_list (agen_data d)) = evts_capcity d"
    "\<forall>n \<in> set ns. n < evts_capcity d" "length ns \<le> evts_capcity d" "evts_capcity d < YF_INVALID_INDEX"
    by (rule poll_watchE [OF w])
  note L = poll_listD [OF ns(1)]
  let ?c = "agen_data d" and ?w = "watch d"
  have slot: "fd (ev_link d (n, k)) = int n" "n < evts_capcity d" using e(1) ek by (simp_all add: slot_ok_def)
  have un: "index (ev_link d (n, k)) = YF_INVALID_INDEX" "?w (n, k) = None"
    using e ek by (simp_all add: slot_ok_def watch_def)
  have pol: "polling d (map_link e (\<lambda>l. l\<lparr> polled := True, index := i \<rparr>) (d\<lparr> agen_data := c \<rparr>)) (\<lambda>e'. polled (ev_link d e') \<or> e' = e)" for c i
    by (rule pollingI) (auto simp: fun_eq_iff same_evt_def)
  show ?thesis
  proof (cases "polled (ev_link d (n, j))")
    case False
    then have inv: "index (ev_link d (n, j)) = YF_INVALID_INDEX" "?w (n, j) = None"
      using e(1) ek by (simp_all add: slot_ok_def watch_def)
    have n: "n \<notin> set ns"
    proof
      assume "n \<in> set ns"
      then obtain i where "?w (n, i) \<noteq> None" using L(6) by blast
      with un(2) inv(2) kj show False by (metis)
    qed
    then have room: "length ns < evts_capcity d" using list_capacity(2) [OF L(2) ns(3) slot(2)] by blast
    let ?x = "\<lparr> pfd = int n, events = poll_event k, revents = 0 \<rparr>"
    let ?c' = "?c\<lparr> event_list := (event_list ?c)[length ns := ?x], nevents := length ns + 1 \<rparr>"
    let ?d = "map_link e (\<lambda>l. l\<lparr> polled := True, index := length ns \<rparr>) (d\<lparr> agen_data := ?c' \<rparr>)"
    have run: "yf_poll_activate ok e d = Inr (YF_OK, ?d)"
      using un(1) inv(1) room ns(2) slot(1) by (simp add: ek o yf_poll_activate_def entry_upd_def L(1) Let_def)
    have wd: "watch ?d = ?w(e \<mapsto> length ns)" by (simp add: watch_set)
    have other: "(?w(e \<mapsto> length ns)) (m, i) = ?w (m, i)" if "m \<in> set ns" for m i using that n ek by auto
    have "poll_list ?c' (watch ?d) (ns @ [n])"
      unfolding poll_list_def wd
    proof (intro conjI allI impI ballI)
      show "distinct (ns @ [n])" using L(2) n by simp
      fix i assume i: "i < length (ns @ [n])"
      show "pfd (event_list ?c' ! i) = int ((ns @ [n]) ! i)"
        using i L(3) [of i] room ns(2) by (cases "i = length ns") (simp_all add: nth_append nth_list_update)
      show "events (event_list ?c' ! i) =
          poll_mask ((?w(e \<mapsto> length ns)) ((ns @ [n]) ! i, Revt) \<noteq> None) ((?w(e \<mapsto> length ns)) ((ns @ [n]) ! i, Wevt) \<noteq> None)"
      proof (cases "i = length ns")
        case True
        then show ?thesis using room ns(2) un(2) inv(2) kj
          by (cases k; cases j) (simp_all add: ek poll_event_def poll_mask_def)
      next
        case False
        then have "i < length ns" using i by simp
        with L(4) [OF this] other [of "ns ! i"] room ns(2) show ?thesis by (simp add: nth_append nth_list_update)
      qed
    next
      fix m a i assume "(?w(e \<mapsto> length ns)) (m, a) = Some i"
      then show "i < length (ns @ [n])" "(ns @ [n]) ! i = m"
        using L(5) [of m a i] ek by (auto simp: nth_append split: if_splits)
    next
      fix m assume "m \<in> set (ns @ [n])"
      then consider "m = n" | "m \<in> set ns" by auto
      then show "\<exists>a. (?w(e \<mapsto> length ns)) (m, a) \<noteq> None"
      proof cases
        case 1
        then show ?thesis by (intro exI [of _ k]) (simp add: ek)
      next
        case 2
        from L(6) [OF this] other [OF 2] show ?thesis by simp
      qed
    qed (simp add: L(1))
    then have "poll_watch_ok (agen_data ?d) (evts_capcity d) (watch ?d)"
      using ns(2,3) slot(2) w unfolding poll_watch_ok_def by (intro conjI exI [of _ "ns @ [n]"]) auto
    with run pol show ?thesis by blast
  next
    case True
    let ?i = "index (ev_link d (n, j))"
    have wj: "?w (n, j) = Some ?i" using True by (simp add: watch_def)
    from L(5) [OF this] have i: "?i < length ns" "ns ! ?i = n" by simp_all
    then have ne: "?i \<noteq> YF_INVALID_INDEX" using ns(4,5) by simp
    let ?x = "(event_list ?c ! ?i)\<lparr> events := events (event_list ?c ! ?i) OR poll_event k \<rparr>"
    let ?c' = "?c\<lparr> event_list := (event_list ?c)[?i := ?x] \<rparr>"
    let ?d = "map_link e (\<lambda>l. l\<lparr> polled := True, index := ?i \<rparr>) (d\<lparr> agen_data := ?c' \<rparr>)"
    have run: "yf_poll_activate ok e d = Inr (YF_OK, ?d)"
      using un(1) ne i(1) ns(2,4) by (simp add: ek o yf_poll_activate_def entry_upd_def Let_def)
    have wd: "watch ?d = ?w(e \<mapsto> ?i)" by (simp add: watch_set)
    have "poll_list ?c' (watch ?d) ns"
      unfolding poll_list_def wd
    proof (intro conjI allI impI ballI)
      fix a assume a: "a < length ns"
      show "pfd (event_list ?c' ! a) = int (ns ! a)" using a L(3) [of a] i ns(2,4) by (cases "a = ?i") simp_all
      show "events (event_list ?c' ! a) =
          poll_mask ((?w(e \<mapsto> ?i)) (ns ! a, Revt) \<noteq> None) ((?w(e \<mapsto> ?i)) (ns ! a, Wevt) \<noteq> None)"
      proof (cases "a = ?i")
        case True
        then have "events (event_list ?c' ! a) = poll_mask (?w (n, Revt) \<noteq> None) (?w (n, Wevt) \<noteq> None) OR poll_event k"
          using a L(4) [of a] i ns(2,4) by simp
        with True i wj un(2) kj show ?thesis
          by (cases k; cases j) (simp_all add: ek poll_event_def poll_mask_def poll_masks)
      next
        case False
        then have "ns ! a \<noteq> n" using a i L(2) nth_eq_iff_index_eq by metis
        with False a L(4) [OF a] show ?thesis by (simp add: ek)
      qed
    next
      fix m b a assume "(?w(e \<mapsto> ?i)) (m, b) = Some a"
      then show "a < length ns" "ns ! a = m" using L(5) [of m b a] i by (auto simp: ek split: if_splits)
    next
      fix m assume "m \<in> set ns"
      from L(6) [OF this] show "\<exists>a. (?w(e \<mapsto> ?i)) (m, a) \<noteq> None" by auto
    qed (use L in simp_all)
    then have "poll_watch_ok (agen_data ?d) (evts_capcity d) (watch ?d)"
      using ns(2,3) w unfolding poll_watch_ok_def by (intro conjI exI [of _ ns]) auto
    with run pol show ?thesis by blast
  qed
qed

text \<open>The entry of a descriptor that is not watched any more, filled with the last one.\<close>

lemma poll_list_fill:
  fixes c w ns i c'
  defines "last_i \<equiv> length ns - 1"
  assumes ns: "poll_list c w ns" and i: "i < length ns"
    and c': "nevents c' = last_i" "\<And>a. a < last_i \<Longrightarrow> event_list c' ! a = event_list c ! (if a = i then last_i else a)"
    and w': "\<And>m k. w' (m, k) = (if m = ns ! i then None else if m = last ns \<and> w (m, k) \<noteq> None then Some i else w (m, k))"
  shows "poll_list c' w' (butlast (ns[i := last ns]))"
proof -
  note L = poll_listD [OF ns]
  let ?ns = "butlast (ns[i := last ns])"
  have ne: "ns \<noteq> []" using i by auto
  then have last: "last ns = ns ! last_i" "last_i < length ns"
    using i by (simp_all add: last_conv_nth last_i_def)
  have len: "length ?ns = last_i" by (simp add: last_i_def)
  have nth: "?ns ! a = ns ! (if a = i then last_i else a)" if "a < last_i" for a
    using that i last by (simp add: nth_butlast len nth_list_update)
  have inj: "ns ! a = ns ! b \<longleftrightarrow> a = b" if "a < length ns" "b < length ns" for a b
    using nth_eq_iff_index_eq [OF L(2) that] .
  have src: "(if a = i then last_i else a) < length ns" "(if a = i then last_i else a) \<noteq> i" if "a < last_i" for a
    using that last by auto
  have keep: "w' (?ns ! a, k) = None \<longleftrightarrow> w (?ns ! a, k) = None" if "a < last_i" for a k
  proof -
    have "?ns ! a \<noteq> ns ! i" using nth [OF that] inj [OF src(1) [OF that] i] src(2) [OF that] by simp
    then show ?thesis by (auto simp: w')
  qed
  show ?thesis
    unfolding poll_list_def len
  proof (intro conjI allI impI ballI)
    show "nevents c' = last_i" by (rule c'(1))
    show "distinct ?ns"
    proof (subst distinct_conv_nth, intro allI impI)
      fix a b assume ab: "a < length ?ns" "b < length ?ns" "a \<noteq> b"
      then have "a < last_i" "b < last_i" by (simp_all only: len)
      then have "(if a = i then last_i else a) \<noteq> (if b = i then last_i else b)" using ab(3) by auto
      with ab inj [OF src(1) src(1)] show "?ns ! a \<noteq> ?ns ! b" by (simp only: len nth not_False_eq_True)
    qed
    fix a assume a: "a < last_i"
    show "pfd (event_list c' ! a) = int (?ns ! a)" using c'(2) [OF a] nth [OF a] L(3) [OF src(1) [OF a]] by simp
    show "events (event_list c' ! a) = poll_mask (w' (?ns ! a, Revt) \<noteq> None) (w' (?ns ! a, Wevt) \<noteq> None)"
      using c'(2) [OF a] L(4) [OF src(1) [OF a]] keep [OF a] by (simp only: nth [OF a])
  next
    fix m k t assume wm: "w' (m, k) = Some t"
    show "t < last_i" "?ns ! t = m"
    proof -
      have m: "m \<noteq> ns ! i" using wm by (auto simp: w')
      have "t < last_i \<and> ?ns ! t = m"
      proof (cases "m = last ns \<and> w (m, k) \<noteq> None")
        case True
        then have "t = i" "i \<noteq> last_i" using wm m last by (auto simp: w')
        then have "t < last_i" using i by (simp add: last_i_def)
        moreover from nth [OF this] have "?ns ! t = last ns" using \<open>t = i\<close> last(1) by (simp only: simp_thms if_True)
        ultimately show ?thesis using True by blast
      next
        case False
        then have "w (m, k) = Some t" using wm m unfolding w' by (auto split: if_splits)
        with L(5) [OF this] False last m have "t < length ns" "ns ! t = m" "t \<noteq> last_i" "t \<noteq> i" by auto
        then show ?thesis by (simp add: nth last_i_def)
      qed
      then show "t < last_i" "?ns ! t = m" by blast+
    qed
  next
    fix m assume "m \<in> set ?ns"
    then obtain a where a: "a < last_i" "m = ?ns ! a" by (metis in_set_conv_nth len)
    then have "m \<in> set ns" using nth src(1) by (metis nth_mem)
    from L(6) [OF this] obtain k where "w (m, k) \<noteq> None" by blast
    then have "w' (m, k) \<noteq> None" using keep [OF a(1), of k] a(2) by simp
    then show "\<exists>k. w' (m, k) \<noteq> None" by blast
  qed
qed

lemma fill_member:
  assumes "i < length ns" "m \<in> set (butlast (ns[i := last ns]))" shows "m \<in> set ns"
proof -
  have "m \<in> set (ns[i := last ns])" using assms(2) by (rule in_set_butlastD)
  moreover have "last ns \<in> set ns" using assms(1) by (intro last_in_set) auto
  ultimately show ?thesis using set_update_subset_insert by fastforce
qed

lemma move_index_simps [simp]:
  "agen_data (move_index a b e d) = agen_data d" "all_links (move_index a b e d) = all_links d"
  "ready_links (move_index a b e d) = ready_links d" "active_op_index (move_index a b e d) = active_op_index d"
  "evts_capcity (move_index a b e d) = evts_capcity d" "evts_num (move_index a b e d) = evts_num d"
  "timers (move_index a b e d) = timers d" "called (move_index a b e d) = called d"
  "use_flag (pevents (move_index a b e d) n) = use_flag (pevents d n)"
  by (simp_all add: move_index_def)

lemma move_index_link: "ev_link (move_index a b e d) x =
     (if x = e \<and> index (ev_link d x) = a then (ev_link d x)\<lparr> index := b \<rparr> else ev_link d x)"
  by (auto simp: move_index_def)

text \<open>Slot \<open>m\<close> moved from the index \<open>a\<close> to \<open>b\<close>.\<close>

lemma moved_link:
  "ev_link (move_index a b (m, Wevt) (move_index a b (m, Revt) d)) x =
     (if fst x = m \<and> index (ev_link d x) = a then (ev_link d x)\<lparr> index := b \<rparr> else ev_link d x)"
  by (cases x; cases "snd x") (auto simp: move_index_link)

lemma poll_fill_spec:
  assumes s: "slots_ok d" and w: "poll_watch_ok (agen_data d) (evts_capcity d) (watch d)"
    and ns: "poll_list (agen_data d) (watch d) ns" and i: "watch d (n, k) = Some i"
  shows "\<exists>d'. poll_fill i d = Inr d' \<and> length (event_list (agen_data d')) = evts_capcity d \<and>
    (\<forall>x. ev_link d' x = (if fst x = last ns \<and> polled (ev_link d x) then (ev_link d x)\<lparr> index := i \<rparr> else ev_link d x)) \<and>
    all_links d' = all_links d \<and> ready_links d' = ready_links d \<and> active_op_index d' = active_op_index d \<and>
    evts_capcity d' = evts_capcity d \<and> evts_num d' = evts_num d \<and> timers d' = timers d \<and> called d' = called d \<and>
    in_use d' = in_use d \<and> nevents (agen_data d') = length ns - 1 \<and>
    (\<forall>a < length ns - 1. event_list (agen_data d') ! a = event_list (agen_data d) ! (if a = i then length ns - 1 else a))"
proof -
  let ?c = "agen_data d" and ?l = "length ns - 1"
  note L = poll_listD [OF ns]
  from w obtain ms where ms: "poll_list ?c (watch d) ms" "length (event_list ?c) = evts_capcity d"
    "\<forall>n \<in> set ms. n < evts_capcity d" "length ms \<le> evts_capcity d" "evts_capcity d < YF_INVALID_INDEX"
    by (rule poll_watchE)
  have cap: "length ns \<le> evts_capcity d" using ms(4) L(1) poll_listD(1) [OF ms(1)] by simp
  have i': "i < length ns" "ns ! i = n" using L(5) [OF i] by simp_all
  have last: "last ns = ns ! ?l" "?l < length ns" using i'(1) last_conv_nth [of ns] by (cases ns; simp)+
  have ix: "index (ev_link d x) = t" if "polled (ev_link d x)" "fst x = ns ! t" "t < length ns" for x t
  proof -
    have "watch d (fst x, snd x) = Some (index (ev_link d x))" using that(1) by (simp add: watch_def)
    from L(5) [OF this] that(2,3) show ?thesis using nth_eq_iff_index_eq [OF L(2)] by metis
  qed
  show ?thesis
  proof (cases "i < ?l")
    case False
    then have "i = ?l" using i'(1) by simp
    let ?d = "d\<lparr> agen_data := ?c\<lparr> nevents := ?l \<rparr> \<rparr>"
    have "poll_fill i d = Inr ?d" using False L(1) by (simp add: poll_fill_def Let_def)
    moreover have "ev_link d x = (ev_link d x)\<lparr> index := i \<rparr>" if "fst x = last ns" "polled (ev_link d x)" for x
      using ix [OF that(2), of i] that(1) last \<open>i = ?l\<close> by simp
    ultimately show ?thesis using ms(2) \<open>i = ?l\<close> by (intro exI [of _ ?d]) auto
  next
    case True
    let ?m = "last ns"
    obtain a where "watch d (?m, a) \<noteq> None" using L(6) [of ?m] last by (metis nth_mem)
    then have slot: "slot_ok d ?m" using s by (auto simp: slots_ok_def watch_def split: if_splits)
    then have m: "?m < evts_capcity d" "fd (ev_link d (?m, Revt)) = int ?m" by (simp_all add: slot_ok_def)
    have x: "pfd (event_list ?c ! ?l) = int ?m" using L(3) [OF last(2)] last(1) by simp
    let ?c' = "?c\<lparr> nevents := ?l, event_list := (event_list ?c)[i := event_list ?c ! ?l] \<rparr>"
    let ?b = "d\<lparr> agen_data := ?c' \<rparr>"
    let ?d = "move_index ?l i (?m, Wevt) (move_index ?l i (?m, Revt) ?b)"
    have room: "?l < length (event_list ?c)" "i < length (event_list ?c)" using cap ms(2) last(2) i'(1) by simp_all
    have "fd_slot (pfd (event_list ?c ! ?l)) d = Inr ?m" using x m(1) by (simp add: fd_slot_def)
    then have run: "poll_fill i d = Inr ?d"
      using True room m(2) by (simp add: poll_fill_def Let_def L(1) entry_upd_def)
    have links: "ev_link ?d x = (if fst x = ?m \<and> polled (ev_link d x) then (ev_link d x)\<lparr> index := i \<rparr> else ev_link d x)" for x
    proof (cases "fst x = ?m")
      case True
      have "index (ev_link d x) = ?l \<longleftrightarrow> polled (ev_link d x)"
      proof
        assume "index (ev_link d x) = ?l"
        moreover have "?l < YF_INVALID_INDEX" using cap ms(5) last(2) by simp
        ultimately show "polled (ev_link d x)" using slot True by (metis slot_ok_def prod.collapse less_irrefl)
      next
        assume "polled (ev_link d x)"
        then show "index (ev_link d x) = ?l" using ix [of x ?l] True last by simp
      qed
      then show ?thesis by (simp add: moved_link True)
    qed (simp add: moved_link)
    have ents: "event_list ?c' ! a = event_list ?c ! (if a = i then ?l else a)" if "a < ?l" for a
      using that room by (simp add: nth_list_update)
    show ?thesis
      by (intro exI [of _ ?d] conjI allI impI run links) (use ms(2) ents in \<open>simp_all add: fun_eq_iff\<close>)
  qed
qed

lemma poll_deactivate_law:
  assumes s: "slots_ok d" and w: "poll_watch_ok (agen_data d) (evts_capcity d) (watch d)" and e: "polled (ev_link d e)"
  shows "\<exists>d'. yf_poll_deactivate e d = Inr (YF_OK, d') \<and> polling d d' (\<lambda>e'. polled (ev_link d e') \<and> e' \<noteq> e) \<and>
    poll_watch_ok (agen_data d') (evts_capcity d) (watch d')"
proof -
  obtain n k where ek: "e = (n, k)" by (cases e)
  obtain j where o: "other_half (n, k) = (n, j)" by (rule other_halfE)
  note kj = half_other [OF o]
  obtain ns where ns: "poll_list (agen_data d) (watch d) ns" "length (event_list (agen_data d)) = evts_capcity d"
    "\<forall>n \<in> set ns. n < evts_capcity d" "length ns \<le> evts_capcity d" "evts_capcity d < YF_INVALID_INDEX"
    by (rule poll_watchE [OF w])
  note L = poll_listD [OF ns(1)]
  let ?c = "agen_data d" and ?w = "watch d" and ?i = "index (ev_link d (n, k))"
  have slot: "slot_ok d n" using s e ek by (auto simp: slots_ok_def)
  note ip = index_polled [OF w slot]
  have wk: "?w (n, k) = Some ?i" using e ek by (simp add: watch_def)
  from L(5) [OF this] have i: "?i < length ns" "ns ! ?i = n" by simp_all
  have ik: "?i \<noteq> YF_INVALID_INDEX" using ip [of k] e ek by simp
  show ?thesis
  proof (cases "polled (ev_link d (n, j))")
    case False
    then have ij: "index (ev_link d (n, j)) = YF_INVALID_INDEX" using ip by simp
    from poll_fill_spec [OF s w ns(1) wk] obtain b where b: "poll_fill ?i d = Inr b" "length (event_list (agen_data b)) = evts_capcity d"
      "\<And>x. ev_link b x = (if fst x = last ns \<and> polled (ev_link d x) then (ev_link d x)\<lparr> index := ?i \<rparr> else ev_link d x)"
      "all_links b = all_links d" "ready_links b = ready_links d" "active_op_index b = active_op_index d"
      "evts_capcity b = evts_capcity d" "evts_num b = evts_num d" "timers b = timers d" "called b = called d" "in_use b = in_use d"
      "nevents (agen_data b) = length ns - 1"
      "\<And>a. a < length ns - 1 \<Longrightarrow> event_list (agen_data b) ! a = event_list ?c ! (if a = ?i then length ns - 1 else a)" by blast
    let ?d = "map_link e (\<lambda>l. l\<lparr> polled := False, index := YF_INVALID_INDEX \<rparr>) b"
    have run: "yf_poll_deactivate e d = Inr (YF_OK, ?d)"
      using b(1) ik ij by (simp add: ek o yf_poll_deactivate_def)
    have pol: "polling d ?d (\<lambda>e'. polled (ev_link d e') \<and> e' \<noteq> e)"
      by (rule pollingI) (use b(3-11) in \<open>auto simp: fun_eq_iff same_evt_def split: if_splits\<close>)
    have wd: "watch ?d (m, a) = (if m = ns ! ?i then None else if m = last ns \<and> ?w (m, a) \<noteq> None then Some ?i else ?w (m, a))" for m a
    proof (cases "m = n")
      case True
      have "a = k \<or> a = j" using kj by blast
      then show ?thesis using True False i b(3) [of "(n, j)"] by (auto simp: watch_set ek) (simp add: watch_def)
    next
      case False
      then have "(m, a) \<noteq> e" using ek by simp
      moreover have "watch b (m, a) = (if m = last ns \<and> ?w (m, a) \<noteq> None then Some ?i else ?w (m, a))"
        using b(3) [of "(m, a)"] by (cases "m = last ns \<and> polled (ev_link d (m, a))") (simp_all add: watch_def)
      ultimately show ?thesis using False i by (simp add: watch_set)
    qed
    have "poll_list (agen_data ?d) (watch ?d) (butlast (ns[?i := last ns]))"
      by (rule poll_list_fill [OF ns(1) i(1) _ _ wd]) (use b(12,13) in simp_all)
    moreover have "\<forall>m \<in> set (butlast (ns[?i := last ns])). m < evts_capcity d" using fill_member [OF i(1)] ns(3) by blast
    ultimately have "poll_watch_ok (agen_data ?d) (evts_capcity d) (watch ?d)"
      using b(2) w unfolding poll_watch_ok_def by auto
    with run pol show ?thesis by blast
  next
    case True
    let ?j = "index (ev_link d (n, j))"
    have wj: "?w (n, j) = Some ?j" using True by (simp add: watch_def)
    from L(5) [OF this] have j: "?j < length ns" "ns ! ?j = n" by simp_all
    then have ne: "?j \<noteq> YF_INVALID_INDEX" using ns(4,5) by simp
    let ?x = "(event_list ?c ! ?j)\<lparr> events := events (event_list ?c ! ?j) AND NOT (poll_event k) \<rparr>"
    let ?c' = "?c\<lparr> event_list := (event_list ?c)[?j := ?x] \<rparr>"
    let ?d = "map_link e (\<lambda>l. l\<lparr> polled := False, index := YF_INVALID_INDEX \<rparr>) (d\<lparr> agen_data := ?c' \<rparr>)"
    have run: "yf_poll_deactivate e d = Inr (YF_OK, ?d)"
      using ik ne j(1) ns(2,4) by (simp add: ek o yf_poll_deactivate_def entry_upd_def Let_def)
    have pol: "polling d ?d (\<lambda>e'. polled (ev_link d e') \<and> e' \<noteq> e)"
      by (rule pollingI) (auto simp: fun_eq_iff same_evt_def)
    have wd: "watch ?d = ?w(e := None)" by (simp add: watch_set)
    have "poll_list ?c' (watch ?d) ns"
      unfolding poll_list_def wd
    proof (intro conjI allI impI ballI)
      fix a assume a: "a < length ns"
      show "pfd (event_list ?c' ! a) = int (ns ! a)" using a L(3) [of a] j ns(2,4) by (cases "a = ?j") simp_all
      show "events (event_list ?c' ! a) = poll_mask ((?w(e := None)) (ns ! a, Revt) \<noteq> None) ((?w(e := None)) (ns ! a, Wevt) \<noteq> None)"
      proof (cases "a = ?j")
        case True
        then have "events (event_list ?c' ! a) = poll_mask (?w (n, Revt) \<noteq> None) (?w (n, Wevt) \<noteq> None) AND NOT (poll_event k)"
          using a L(4) [of a] j ns(2,4) by simp
        with True j wj wk kj show ?thesis
          by (cases k; cases j) (simp_all add: ek poll_event_def poll_mask_def poll_masks)
      next
        case False
        then have "ns ! a \<noteq> n" using a j L(2) nth_eq_iff_index_eq by metis
        with False a L(4) [OF a] show ?thesis by (simp add: ek)
      qed
    next
      fix m b a assume "(?w(e := None)) (m, b) = Some a"
      then show "a < length ns" "ns ! a = m" using L(5) [of m b a] by (auto split: if_splits)
    next
      fix m assume m: "m \<in> set ns"
      show "\<exists>a. (?w(e := None)) (m, a) \<noteq> None"
      proof (cases "m = n")
        case True
        then show ?thesis using wj kj by (intro exI [of _ j]) (auto simp: ek)
      next
        case False
        with L(6) [OF m] show ?thesis by (auto simp: ek)
      qed
    qed (use L in simp_all)
    then have "poll_watch_ok (agen_data ?d) (evts_capcity d) (watch ?d)"
      using ns(2,3) w unfolding poll_watch_ok_def by (intro conjI exI [of _ ns]) auto
    with run pol show ?thesis by blast
  qed
qed

lemma poll_del_half:
  assumes "slots_ok d" "poll_watch_ok (agen_data d) (evts_capcity d) (watch d)"
  shows "\<exists>d'. (if polled (ev_link d e) then yf_poll_deactivate e d else Inr (YF_OK, d)) = Inr (YF_OK, d') \<and>
    polling d d' (\<lambda>e'. polled (ev_link d e') \<and> e' \<noteq> e) \<and> poll_watch_ok (agen_data d') (evts_capcity d) (watch d')"
proof (cases "polled (ev_link d e)")
  case True
  with poll_deactivate_law [OF assms True] show ?thesis by simp
next
  case False
  have "polling d d (\<lambda>e'. polled (ev_link d e') \<and> e' \<noteq> e)" by (rule pollingI) (use False in auto)
  with False assms(2) show ?thesis by simp
qed

lemma poll_del_law:
  assumes s: "slots_ok d" and w: "poll_watch_ok (agen_data d) (evts_capcity d) (watch d)"
  shows "\<exists>r d'. yf_poll_del ok n d = Inr (r, d') \<and> polling d d' (\<lambda>e'. polled (ev_link d e') \<and> fst e' \<noteq> n) \<and>
    poll_watch_ok (agen_data d') (evts_capcity d) (watch d')"
proof -
  from poll_del_half [OF s w, of "(n, Revt)"] obtain b where b:
    "(if polled (ev_link d (n, Revt)) then yf_poll_deactivate (n, Revt) d else Inr (YF_OK, d)) = Inr (YF_OK, b)"
    "polling d b (\<lambda>e'. polled (ev_link d e') \<and> e' \<noteq> (n, Revt))" "poll_watch_ok (agen_data b) (evts_capcity d) (watch b)" by blast
  have "slots_ok b" by (rule polling_slots_ok [OF s b(2)]) simp
  moreover have "poll_watch_ok (agen_data b) (evts_capcity b) (watch b)" using b(3) polling_cap [OF b(2)] by simp
  ultimately obtain c where c:
    "(if polled (ev_link b (n, Wevt)) then yf_poll_deactivate (n, Wevt) b else Inr (YF_OK, b)) = Inr (YF_OK, c)"
    "polling b c (\<lambda>e'. polled (ev_link b e') \<and> e' \<noteq> (n, Wevt))" "poll_watch_ok (agen_data c) (evts_capcity b) (watch c)"
    using poll_del_half [of b "(n, Wevt)"] by blast
  have "yf_poll_del ok n d = Inr (YF_OK, c)" using b(1) c(1) by (simp add: yf_poll_del_def)
  moreover have "polling d c (\<lambda>e'. polled (ev_link d e') \<and> fst e' \<noteq> n)"
  proof (rule polling_cong [OF polling_trans [OF b(2) c(2)]])
    fix e :: evt
    have "polled (ev_link b e) \<longleftrightarrow> polled (ev_link d e) \<and> e \<noteq> (n, Revt)" using pollingD(2) [OF b(2)] .
    moreover have "fst e = n \<longleftrightarrow> e = (n, Revt) \<or> e = (n, Wevt)" using slot_evts [of e n] by simp
    ultimately show "(polled (ev_link b e) \<and> e \<noteq> (n, Wevt)) = (polled (ev_link d e) \<and> fst e \<noteq> n)" by blast
  qed
  ultimately show ?thesis using c(3) polling_cap [OF b(2)] by auto
qed

subsection \<open>Dispatch reports what poll returned\<close>

lemma poll_widen_zero: "poll_report (f, 0) = []"
  by (simp add: poll_report_def poll_widen_def)

lemma poll_loop_marks:
  assumes "\<And>i. i \<in> set is \<Longrightarrow> i < nevents (agen_data d) \<and> i < length (event_list (agen_data d)) \<and>
      0 \<le> pfd (event_list (agen_data d) ! i) \<and> nat (pfd (event_list (agen_data d) ! i)) < evts_capcity d \<and>
      fd (ev_link d (nat (pfd (event_list (agen_data d) ! i)), Revt)) \<noteq> -1"
    and "length (filter (\<lambda>i. revents (event_list (agen_data d) ! i) \<noteq> 0) is) \<le> n_ready"
  shows "poll_loop is n_ready d =
    marks (concat (map (\<lambda>i. poll_report (pfd (event_list (agen_data d) ! i), revents (event_list (agen_data d) ! i))) is)) d"
  using assms
proof (induction "is" arbitrary: d n_ready)
  case Nil
  then show ?case by simp
next
  case (Cons i "is")
  let ?c = "agen_data d"
  let ?x = "event_list ?c ! i"
  let ?R = "\<lambda>i. poll_report (pfd (event_list ?c ! i), revents (event_list ?c ! i))"
  show ?case
  proof (cases "n_ready = 0")
    case True
    then have "revents (event_list ?c ! a) = 0" if "a \<in> set (i # is)" for a
      using Cons.prems(2) that by (auto simp: filter_empty_conv split: if_splits)
    then have "concat (map ?R (i # is)) = []" by (auto simp: poll_widen_zero)
    moreover have "poll_loop (i # is) n_ready d = Inr d" using True by (simp add: Let_def)
    ultimately show ?thesis by (simp only: marks.simps)
  next
    case False
    let ?n = "nat (pfd ?x)" and ?rv = "poll_widen (revents ?x)"
    let ?r = "if ?rv AND (POLLIN OR POLLOUT) \<noteq> 0 then n_ready - 1 else n_ready"
    have P: "i < nevents ?c" "i < length (event_list ?c)" "0 \<le> pfd ?x" "?n < evts_capcity d" "fd (ev_link d (?n, Revt)) \<noteq> -1"
      using Cons.prems(1) [of i] by simp_all
    have slot: "fd_slot (pfd ?x) d = Inr ?n" using P by (simp add: fd_slot_def)
    have "pfd ?x \<noteq> -1" using P(3) by simp
    then have run: "poll_loop (i # is) n_ready d = run_bind (marks (?R i) d) (poll_loop is ?r)"
      using False P slot by (auto simp: Let_def poll_report_def poll_event_def run_bind_assoc)
    have count: "length (filter (\<lambda>i. revents (event_list ?c ! i) \<noteq> 0) is) \<le> ?r"
    proof (cases "revents ?x = 0")
      case True
      then have "?rv = 0" by (simp add: poll_widen_def)
      then show ?thesis using Cons.prems(2) True by simp
    next
      case False
      then have "Suc (length (filter (\<lambda>i. revents (event_list ?c ! i) \<noteq> 0) is)) \<le> n_ready" using Cons.prems(2) by simp
      then show ?thesis by (cases "?rv AND (POLLIN OR POLLOUT) = 0") simp_all
    qed
    show ?thesis
    proof (cases "marks (?R i) d")
      case (Inl e)
      then show ?thesis unfolding run by (simp add: marks_append)
    next
      case (Inr d')
      note K = marks_keeps [OF this]
      have "poll_loop is ?r d' = marks (concat (map (\<lambda>i. poll_report (pfd (event_list (agen_data d') ! i), revents (event_list (agen_data d') ! i))) is)) d'"
        by (rule Cons.IH) (use K Cons.prems(1) count in simp_all)
      then show ?thesis using Inr K run by (simp only: marks_append concat.simps list.map run_bind_simps)
    qed
  qed
qed

lemma poll_store_nth:
  assumes "length rs \<le> length (event_list c)"
  shows "length (event_list (poll_store rs c)) = length (event_list c)" "nevents (poll_store rs c) = nevents c"
    "i < length (event_list c) \<Longrightarrow>
     event_list (poll_store rs c) ! i = (if i < length rs then (event_list c ! i)\<lparr> revents := rs ! i \<rparr> else event_list c ! i)"
  using assms by (auto simp: poll_store_def nth_append min_def)

lemma poll_dispatch_law:
  assumes s: "slots_ok d" and w: "poll_watch_ok (agen_data d) (evts_capcity d) (watch d)" and k: "poll_answers d k"
  shows "\<exists>r p. yf_poll_dispatch k d = run_bind (marks (poll_reports d k) (d\<lparr> agen_data := p \<rparr>)) (\<lambda>d'. Inr (r, d')) \<and>
    poll_watch_ok p (evts_capcity d) (watch d)"
proof (cases k)
  case None
  then show ?thesis using w
    by (intro exI [of _ YF_ERROR] exI [of _ "agen_data d"]) (simp add: yf_poll_dispatch_def poll_reports_def)
next
  case (Some rs)
  obtain ns where ns: "poll_list (agen_data d) (watch d) ns" "length (event_list (agen_data d)) = evts_capcity d"
    "\<forall>n \<in> set ns. n < evts_capcity d" "length ns \<le> evts_capcity d" "evts_capcity d < YF_INVALID_INDEX"
    by (rule poll_watchE [OF w])
  note L = poll_listD [OF ns(1)]
  let ?c = "agen_data d" and ?p = "poll_store rs (agen_data d)"
  let ?d = "d\<lparr> agen_data := ?p \<rparr>"
  have len: "length rs = length ns" using k Some L(1) by (simp add: poll_answers_def)
  then have S: "length (event_list ?p) = evts_capcity d" "nevents ?p = length ns"
    "\<And>i. i < length ns \<Longrightarrow> event_list ?p ! i = (event_list ?c ! i)\<lparr> revents := rs ! i \<rparr>"
    using poll_store_nth [of rs ?c] ns(2,4) L(1) by simp_all
  have "poll_list ?p (watch d) ns" unfolding poll_list_def using L S by simp
  then have w': "poll_watch_ok ?p (evts_capcity d) (watch d)"
    using S(1) ns(3) w unfolding poll_watch_ok_def by auto
  have rep: "poll_reports d k = concat (map (\<lambda>i. poll_report (pfd (event_list ?p ! i), revents (event_list ?p ! i))) [0..<length ns])"
  proof -
    have "zip (map pfd (event_list ?c)) rs = map (\<lambda>i. (pfd (event_list ?p ! i), revents (event_list ?p ! i))) [0..<length ns]"
      using S(3) len ns(2,4) by (intro nth_equalityI) simp_all
    then show ?thesis using Some by (simp add: poll_reports_def comp_def)
  qed
  show ?thesis
  proof (cases "filter (\<lambda>r. r \<noteq> 0) rs = []")
    case True
    then have "rs ! i = 0" if "i < length ns" for i using that len by (auto simp: filter_empty_conv)
    then have "concat (map (\<lambda>i. poll_report (pfd (event_list ?p ! i), revents (event_list ?p ! i))) [0..<length ns]) = []"
      using S(3) by (auto simp: poll_widen_zero)
    with rep have "poll_reports d k = []" by (simp only:)
    moreover have "yf_poll_dispatch k d = Inr (YF_ERROR, ?d)" using Some True by (simp add: yf_poll_dispatch_def Let_def)
    ultimately show ?thesis using w' by (intro exI [of _ YF_ERROR] exI [of _ ?p]) simp
  next
    case False
    let ?r = "length (filter (\<lambda>r. r \<noteq> 0) rs)"
    have "map (\<lambda>i. revents (event_list ?p ! i)) [0..<length ns] = rs" using S(3) len by (intro nth_equalityI) simp_all
    from arg_cong [OF this, of "\<lambda>xs. length (filter (\<lambda>r. r \<noteq> 0) xs)"]
    have count: "length (filter (\<lambda>i. revents (event_list ?p ! i) \<noteq> 0) [0..<length ns]) = ?r"
      by (simp add: filter_map comp_def)
    have "poll_loop [0..<length ns] ?r ?d =
      marks (concat (map (\<lambda>i. poll_report (pfd (event_list (agen_data ?d) ! i), revents (event_list (agen_data ?d) ! i))) [0..<length ns])) ?d"
    proof (rule poll_loop_marks)
      fix i assume "i \<in> set [0..<length ns]"
      then have i: "i < length ns" by simp
      then have f: "pfd (event_list ?p ! i) = int (ns ! i)" using S(3) L(3) by simp
      obtain a where "watch d (ns ! i, a) \<noteq> None" using L(6) i by (metis nth_mem)
      then have "slot_ok d (ns ! i)" using s by (auto simp: slots_ok_def watch_def split: if_splits)
      then show "i < nevents (agen_data ?d) \<and> i < length (event_list (agen_data ?d)) \<and>
        0 \<le> pfd (event_list (agen_data ?d) ! i) \<and> nat (pfd (event_list (agen_data ?d) ! i)) < evts_capcity ?d \<and>
        fd (ev_link ?d (nat (pfd (event_list (agen_data ?d) ! i)), Revt)) \<noteq> -1"
        using i f S(1,2) ns(4) by (simp add: slot_ok_def)
    qed (use count in simp)
    then have "yf_poll_dispatch k d = run_bind (marks (poll_reports d k) ?d) (\<lambda>d. Inr (YF_OK, d))"
      using Some False rep S(2) by (simp add: yf_poll_dispatch_def Let_def)
    with w' show ?thesis by blast
  qed
qed

interpretation poll: fd_poller yf_fd_poll_poller_cls poll_watch_ok poll_answers poll_reports
proof unfold_locales
  fix d :: "poll_ctx fd_driver" and e ok
  assume "slots_ok d" "poll_watch_ok (agen_data d) (evts_capcity d) (watch d)" "slot_ok d (fst e)" "\<not> polled (ev_link d e)"
  from poll_activate_law [OF this, of ok]
  show "\<exists>act r d'. act_activate yf_fd_poll_poller_cls = Some act \<and> act ok e d = Inr (r, d') \<and>
        polling d d' (\<lambda>e'. polled (ev_link d e') \<or> e' = e \<and> r = YF_OK) \<and>
        poll_watch_ok (agen_data d') (evts_capcity d) (watch d')" by (fastforce simp: yf_fd_poll_poller_cls_def)
next
  fix d :: "poll_ctx fd_driver" and e dact
  assume a: "slots_ok d" "poll_watch_ok (agen_data d) (evts_capcity d) (watch d)" "polled (ev_link d e)"
    "act_deactivate yf_fd_poll_poller_cls = Some dact"
  from poll_deactivate_law [OF a(1-3)] a(4)
  show "\<exists>d'. dact e d = Inr (YF_OK, d') \<and> polling d d' (\<lambda>e'. polled (ev_link d e') \<and> e' \<noteq> e) \<and>
        poll_watch_ok (agen_data d') (evts_capcity d) (watch d')" by (simp add: yf_fd_poll_poller_cls_def)
next
  fix d :: "poll_ctx fd_driver" and ok n
  assume "slots_ok d" "poll_watch_ok (agen_data d) (evts_capcity d) (watch d)"
  from poll_del_law [OF this, of ok n]
  show "\<exists>act r d'. act_del yf_fd_poll_poller_cls = Some act \<and> act ok n d = Inr (r, d') \<and>
        polling d d' (\<lambda>e'. polled (ev_link d e') \<and> fst e' \<noteq> n) \<and>
        poll_watch_ok (agen_data d') (evts_capcity d) (watch d')" by (simp add: yf_fd_poll_poller_cls_def)
next
  fix d :: "poll_ctx fd_driver" and k
  assume "slots_ok d" "poll_watch_ok (agen_data d) (evts_capcity d) (watch d)" "poll_answers d k"
  from poll_dispatch_law [OF this]
  show "\<exists>r p. act_dispatch yf_fd_poll_poller_cls k d =
        run_bind (marks (poll_reports d k) (d\<lparr> agen_data := p \<rparr>)) (\<lambda>d'. Inr (r, d')) \<and>
        poll_watch_ok p (evts_capcity d) (watch d)" by (simp add: yf_fd_poll_poller_cls_def)
qed (simp add: yf_fd_poll_poller_cls_def)

end
