(* ===== verification/Fd_Select.thy ===== *)
theory Fd_Select
  imports Fd_Poller
begin

section \<open>The select poller\<close>

text \<open>
  Models \<^verbatim>\<open>fd_poller/yf_select.c\<close>: an array of pointers to the watched events and two descriptor sets of
  \<open>FD_SETSIZE\<close> bits, outside of which \<^verbatim>\<open>FD_SET\<close> writes past the set. The work sets, which only carry the
  sets to \<^verbatim>\<open>select\<close> and its answer back, are the answer itself. An event has no other type than read
  or write, so the branches for other types are left out.
\<close>

definition FD_SETSIZE :: int where "FD_SETSIZE = 1024"

record select_ctx =
  max_fd :: int
  sel_nevents :: nat
  event_index :: "evt option list"
  read_fd_set :: "nat set"
  write_fd_set :: "nat set"

definition yf_select_init :: "bool \<Rightarrow> nat \<Rightarrow> select_ctx option" where
  "yf_select_init alloc_ok n =
     (if \<not> alloc_ok then None
      else Some \<lparr> max_fd = -1, sel_nevents = 0, event_index = replicate (n * 2) None, read_fd_set = {}, write_fd_set = {} \<rparr>)"

definition fd_bit :: "int \<Rightarrow> nat run" where
  "fd_bit f = require Out_of_bounds (0 \<le> f \<and> f < FD_SETSIZE) (Inr (nat f))"

definition map_set :: "evt_half \<Rightarrow> (nat set \<Rightarrow> nat set) \<Rightarrow> select_ctx \<Rightarrow> select_ctx" where
  "map_set k g c = (case k of Revt \<Rightarrow> c\<lparr> read_fd_set := g (read_fd_set c) \<rparr> | Wevt \<Rightarrow> c\<lparr> write_fd_set := g (write_fd_set c) \<rparr>)"

definition yf_select_activate :: "bool \<Rightarrow> evt \<Rightarrow> select_ctx fd_driver \<Rightarrow> (int \<times> select_ctx fd_driver) run" where
  "yf_select_activate ok e d =
     (if index (ev_link d e) \<noteq> YF_INVALID_INDEX then Inr (YF_OK, d)
      else
        let f = fd (ev_link d e); c = agen_data d in
        run_bind (fd_bit f) (\<lambda>n.
        let c = map_set (snd e) (insert n) c;
            c = (if max_fd c \<noteq> -1 \<and> max_fd c < f then c\<lparr> max_fd := f \<rparr> else c);
            i = sel_nevents c in
        require Out_of_bounds (i < length (event_index c))
          (Inr (YF_OK, map_link e (\<lambda>l. l\<lparr> polled := True, index := i \<rparr>)
             (d\<lparr> agen_data := c\<lparr> event_index := (event_index c)[i := Some e], sel_nevents := i + 1 \<rparr> \<rparr>)))))"

definition yf_select_deactivate :: "evt \<Rightarrow> select_ctx fd_driver \<Rightarrow> (int \<times> select_ctx fd_driver) run" where
  "yf_select_deactivate e d =
     (let d = map_link e (\<lambda>l. l\<lparr> polled := False \<rparr>) d; i = index (ev_link d e) in
      if i = YF_INVALID_INDEX then Inr (YF_OK, d)
      else
        let f = fd (ev_link d e); c = agen_data d in
        run_bind (fd_bit f) (\<lambda>n.
        let c = map_set (snd e) (\<lambda>A. A - {n}) c;
            c = (if max_fd c = f then c\<lparr> max_fd := -1 \<rparr> else c);
            last_i = sel_nevents c - 1;
            c = c\<lparr> sel_nevents := last_i \<rparr> in
        run_bind
          (if i < last_i
           then require Out_of_bounds (last_i < length (event_index c))
             (case event_index c ! last_i of
                None \<Rightarrow> Inl Null_deref
              | Some x \<Rightarrow> Inr (map_link x (\<lambda>l. l\<lparr> index := i \<rparr>) (d\<lparr> agen_data := c\<lparr> event_index := (event_index c)[i := Some x] \<rparr> \<rparr>)))
           else Inr (d\<lparr> agen_data := c \<rparr>))
          (\<lambda>d. Inr (YF_OK, map_link e (\<lambda>l. l\<lparr> index := YF_INVALID_INDEX \<rparr>) d))))"

definition yf_select_del :: "bool \<Rightarrow> nat \<Rightarrow> select_ctx fd_driver \<Rightarrow> (int \<times> select_ctx fd_driver) run" where
  "yf_select_del ok n d =
     run_bind (if polled (ev_link d (n, Revt)) then yf_select_deactivate (n, Revt) d else Inr (YF_OK, d)) (\<lambda>(r, d).
     if r \<noteq> YF_OK then Inr (r, d)
     else run_bind (if polled (ev_link d (n, Wevt)) then yf_select_deactivate (n, Wevt) d else Inr (YF_OK, d)) (\<lambda>(r, d).
     if r \<noteq> YF_OK then Inr (r, d) else Inr (YF_OK, d)))"

subsection \<open>Dispatch\<close>

text \<open>
  \<open>sel_result\<close> is what \<^verbatim>\<open>select\<close> stores and returns, \<open>None\<close> for an error, \<open>ebadf\<close> its cause; \<open>sock_valid\<close>
  is what \<^verbatim>\<open>getsockopt\<close> says of a descriptor.
\<close>

record select_answer =
  sel_result :: "(nat set \<times> nat set \<times> nat) option"
  ebadf :: bool
  sock_valid :: "nat \<Rightarrow> bool"

definition yf_select_repair_fd_sets :: "(nat \<Rightarrow> bool) \<Rightarrow> select_ctx \<Rightarrow> select_ctx run" where
  "yf_select_repair_fd_sets valid c = require Out_of_bounds (max_fd c < FD_SETSIZE)
     (Inr (c\<lparr> read_fd_set := Set.filter (\<lambda>s. \<not> (int s \<le> max_fd c \<and> \<not> valid s)) (read_fd_set c),
            write_fd_set := Set.filter (\<lambda>s. \<not> (int s \<le> max_fd c \<and> \<not> valid s)) (write_fd_set c), max_fd := -1 \<rparr>))"

definition sel_event :: "nat \<Rightarrow> select_ctx \<Rightarrow> evt run" where
  "sel_event i c = require Out_of_bounds (i < length (event_index c))
     (case event_index c ! i of None \<Rightarrow> Inl Null_deref | Some e \<Rightarrow> Inr e)"

fun sel_max :: "nat list \<Rightarrow> int \<Rightarrow> select_ctx fd_driver \<Rightarrow> int run" where
  "sel_max [] m d = Inr m"
| "sel_max (i # is) m d = run_bind (sel_event i (agen_data d)) (\<lambda>e.
     sel_max is (if m < fd (ev_link d e) then fd (ev_link d e) else m) d)"

fun sel_loop :: "nat list \<Rightarrow> nat set \<Rightarrow> nat set \<Rightarrow> nat \<Rightarrow> select_ctx fd_driver \<Rightarrow> (nat \<times> select_ctx fd_driver) run" where
  "sel_loop [] R W n_ready d = Inr (n_ready, d)"
| "sel_loop (i # is) R W n_ready d =
     run_bind (sel_event i (agen_data d)) (\<lambda>e.
     run_bind (fd_bit (fd (ev_link d e))) (\<lambda>n.
     if n \<in> (case snd e of Wevt \<Rightarrow> W | Revt \<Rightarrow> R)
     then run_bind (mark_ready e d) (sel_loop is R W (n_ready + 1))
     else sel_loop is R W n_ready d))"

definition yf_select_dispatch :: "select_answer \<Rightarrow> select_ctx fd_driver \<Rightarrow> (int \<times> select_ctx fd_driver) run" where
  "yf_select_dispatch k d =
     run_bind (if max_fd (agen_data d) = -1
        then run_bind (sel_max [0..<sel_nevents (agen_data d)] (-1) d) (\<lambda>m. Inr (d\<lparr> agen_data := (agen_data d)\<lparr> max_fd := m \<rparr> \<rparr>))
        else Inr d) (\<lambda>d.
     let repair = (\<lambda>d. run_bind (yf_select_repair_fd_sets (sock_valid k) (agen_data d)) (\<lambda>c. Inr (d\<lparr> agen_data := c \<rparr>))) in
     case sel_result k of
       None \<Rightarrow> run_bind (if ebadf k then repair d else Inr d) (\<lambda>d. Inr (YF_ERROR, d))
     | Some (R, W, n_ready) \<Rightarrow>
         if n_ready = 0 then Inr (YF_OK, d)
         else
           run_bind (sel_loop [0..<sel_nevents (agen_data d)] R W 0 d) (\<lambda>(m, d).
           run_bind (if n_ready \<noteq> m then repair d else Inr d) (\<lambda>d. Inr (YF_OK, d))))"

definition yf_fd_select_poller_cls :: "(select_ctx, select_answer) fd_poll_actions" where
  "yf_fd_select_poller_cls = \<lparr> act_add = None, act_del = Some yf_select_del, act_activate = Some yf_select_activate,
     act_deactivate = Some yf_select_deactivate, act_dispatch = yf_select_dispatch \<rparr>"

subsection \<open>The array of events\<close>

text \<open>\<open>es\<close> are the watched events in the order of the array.\<close>

definition sel_list :: "select_ctx \<Rightarrow> (evt \<Rightarrow> nat option) \<Rightarrow> evt list \<Rightarrow> bool" where
  "sel_list c w es \<longleftrightarrow> sel_nevents c = length es \<and> (\<forall>i < length es. event_index c ! i = Some (es ! i)) \<and>
     (\<forall>e i. w e = Some i \<longleftrightarrow> i < length es \<and> es ! i = e)"

definition select_watch_ok :: "select_ctx \<Rightarrow> nat \<Rightarrow> (evt \<Rightarrow> nat option) \<Rightarrow> bool" where
  "select_watch_ok c cap w \<longleftrightarrow> cap \<le> 1024 \<and> length (event_index c) = 2 * cap \<and>
     (\<exists>es. sel_list c w es) \<and> (\<forall>e. w e \<noteq> None \<longrightarrow> fst e < cap \<and> (max_fd c = -1 \<or> int (fst e) \<le> max_fd c)) \<and>
     max_fd c < int cap \<and>
     read_fd_set c = {n. w (n, Revt) \<noteq> None} \<and> write_fd_set c = {n. w (n, Wevt) \<noteq> None}"

definition select_answers :: "select_ctx fd_driver \<Rightarrow> select_answer \<Rightarrow> bool" where
  "select_answers d k \<longleftrightarrow> (sel_result k = None \<longrightarrow> \<not> ebadf k) \<and>
     (\<forall>s \<in> read_fd_set (agen_data d) \<union> write_fd_set (agen_data d). sock_valid k s)"

definition select_reports :: "select_ctx fd_driver \<Rightarrow> select_answer \<Rightarrow> evt list" where
  "select_reports d k = (case sel_result k of None \<Rightarrow> []
     | Some (R, W, n_ready) \<Rightarrow> if n_ready = 0 then []
         else filter (\<lambda>e. fst e \<in> (case snd e of Wevt \<Rightarrow> W | Revt \<Rightarrow> R))
           (map the (take (sel_nevents (agen_data d)) (event_index (agen_data d)))))"

lemma map_set_simps [simp]:
  "max_fd (map_set k g c) = max_fd c" "sel_nevents (map_set k g c) = sel_nevents c" "event_index (map_set k g c) = event_index c"
  "read_fd_set (map_set k g c) = (if k = Revt then g (read_fd_set c) else read_fd_set c)"
  "write_fd_set (map_set k g c) = (if k = Wevt then g (write_fd_set c) else write_fd_set c)"
  by (cases k; simp add: map_set_def)+

lemma sel_listD:
  assumes "sel_list c w es"
  shows "sel_nevents c = length es" "\<And>i. i < length es \<Longrightarrow> event_index c ! i = Some (es ! i)"
    "\<And>e i. w e = Some i \<longleftrightarrow> i < length es \<and> es ! i = e" "distinct es" "set es = dom w"
proof -
  show D: "\<And>e i. w e = Some i \<longleftrightarrow> i < length es \<and> es ! i = e" using assms unfolding sel_list_def by blast
  show "distinct es" unfolding distinct_conv_nth using D by (metis option.inject)
  show "set es = dom w"
  proof (intro set_eqI)
    show "x \<in> set es \<longleftrightarrow> x \<in> dom w" for x unfolding in_set_conv_nth dom_def mem_Collect_eq using D by blast
  qed
qed (use assms in \<open>unfold sel_list_def, blast+\<close>)

lemma sel_room:
  assumes "sel_list c w es" "\<And>e. w e \<noteq> None \<Longrightarrow> fst e < cap"
  shows "length es \<le> 2 * cap" "fst e < cap \<Longrightarrow> w e = None \<Longrightarrow> length es < 2 * cap"
proof -
  let ?A = "{..<cap} \<times> {Revt, Wevt}"
  have A: "finite ?A" "card ?A = 2 * cap" by (simp_all add: card_cartesian_product)
  have U: "x \<in> {Revt, Wevt}" for x by (cases x) simp_all
  have sub: "set es \<subseteq> ?A"
  proof
    fix x assume "x \<in> set es"
    then have "w x \<noteq> None" unfolding sel_listD(5) [OF assms(1)] by (simp add: dom_def)
    with assms(2) U show "x \<in> ?A" unfolding mem_Times_iff by blast
  qed
  have len: "length es = card (set es)" using distinct_card [OF sel_listD(4) [OF assms(1)]] by simp
  show "length es \<le> 2 * cap" unfolding len A(2) [symmetric] by (rule card_mono [OF A(1) sub])
  assume "fst e < cap" "w e = None"
  then have "e \<in> ?A" "e \<notin> set es" using U [of "snd e"] sel_listD(5) [OF assms(1)] by (simp_all add: mem_Times_iff domIff)
  then have "set es \<subset> ?A" using sub by blast
  then show "length es < 2 * cap" unfolding len A(2) [symmetric] by (rule psubset_card_mono [OF A(1)])
qed

lemma select_watchE:
  assumes "select_watch_ok (agen_data d) (evts_capcity d) (watch d)"
  obtains es where "sel_list (agen_data d) (watch d) es" "length (event_index (agen_data d)) = 2 * evts_capcity d"
    "\<forall>e. polled (ev_link d e) \<longrightarrow> fst e < evts_capcity d \<and> (max_fd (agen_data d) = -1 \<or> int (fst e) \<le> max_fd (agen_data d))"
    "length es \<le> 2 * evts_capcity d" "evts_capcity d \<le> 1024"
    "max_fd (agen_data d) < int (evts_capcity d)" "read_fd_set (agen_data d) = {n. polled (ev_link d (n, Revt))}"
    "write_fd_set (agen_data d) = {n. polled (ev_link d (n, Wevt))}"
proof -
  from assms obtain es where es: "sel_list (agen_data d) (watch d) es" by (auto simp: select_watch_ok_def)
  have W: "\<And>e. watch d e \<noteq> None \<Longrightarrow> fst e < evts_capcity d \<and> (max_fd (agen_data d) = -1 \<or> int (fst e) \<le> max_fd (agen_data d))"
    using assms unfolding select_watch_ok_def by blast
  have p: "watch d e \<noteq> None \<longleftrightarrow> polled (ev_link d e)" for e by (simp add: watch_def)
  show thesis
  proof (rule that [OF es])
    show "length es \<le> 2 * evts_capcity d" by (rule sel_room(1) [OF es]) (use W in blast)
    show "\<forall>e. polled (ev_link d e) \<longrightarrow> fst e < evts_capcity d \<and> (max_fd (agen_data d) = -1 \<or> int (fst e) \<le> max_fd (agen_data d))"
      using W unfolding p by blast
  qed (use assms in \<open>unfold select_watch_ok_def p, blast+\<close>)
qed

text \<open>The conditions on the sets and the greatest descriptor, on the events that are polled.\<close>

lemma select_watchI:
  assumes "evts_capcity d \<le> 1024" "length (event_index (agen_data d)) = 2 * evts_capcity d" "sel_list (agen_data d) (watch d) es"
    "\<And>e. polled (ev_link d e) \<Longrightarrow> fst e < evts_capcity d \<and> (max_fd (agen_data d) = -1 \<or> int (fst e) \<le> max_fd (agen_data d))"
    "max_fd (agen_data d) < int (evts_capcity d)" "read_fd_set (agen_data d) = {n. polled (ev_link d (n, Revt))}"
    "write_fd_set (agen_data d) = {n. polled (ev_link d (n, Wevt))}"
  shows "select_watch_ok (agen_data d) (evts_capcity d) (watch d)"
proof -
  have p: "watch d e \<noteq> None \<longleftrightarrow> polled (ev_link d e)" for e by (simp add: watch_def)
  show ?thesis using assms unfolding select_watch_ok_def p by blast
qed

lemma select_activate_law:
  assumes s: "slots_ok d" and w: "select_watch_ok (agen_data d) (evts_capcity d) (watch d)"
    and e: "slot_ok d (fst e)" "\<not> polled (ev_link d e)"
  shows "\<exists>d'. yf_select_activate ok e d = Inr (YF_OK, d') \<and>
    polling d d' (\<lambda>e'. polled (ev_link d e') \<or> e' = e) \<and> select_watch_ok (agen_data d') (evts_capcity d) (watch d')"
proof -
  obtain n k where ek: "e = (n, k)" by (cases e)
  obtain es where es: "sel_list (agen_data d) (watch d) es" "length (event_index (agen_data d)) = 2 * evts_capcity d"
    "\<forall>e. polled (ev_link d e) \<longrightarrow> fst e < evts_capcity d \<and> (max_fd (agen_data d) = -1 \<or> int (fst e) \<le> max_fd (agen_data d))"
    "length es \<le> 2 * evts_capcity d" "evts_capcity d \<le> 1024"
    "max_fd (agen_data d) < int (evts_capcity d)" "read_fd_set (agen_data d) = {n. polled (ev_link d (n, Revt))}"
    "write_fd_set (agen_data d) = {n. polled (ev_link d (n, Wevt))}" by (rule select_watchE [OF w])
  note L = sel_listD [OF es(1)]
  let ?c = "agen_data d"
  have slot: "fd (ev_link d e) = int n" "n < evts_capcity d" "index (ev_link d e) = YF_INVALID_INDEX"
    using e ek by (simp_all add: slot_ok_def)
  have none: "watch d e = None" using e(2) by (simp add: watch_def)
  have "fst x < evts_capcity d" if "watch d x \<noteq> None" for x using es(3) that by (simp add: watch_def split: if_splits)
  from sel_room(2) [OF es(1) this, of e] have room: "length es < 2 * evts_capcity d"
    using none slot(2) ek by simp
  let ?c1 = "map_set k (insert n) ?c"
  let ?c2 = "if max_fd ?c \<noteq> -1 \<and> max_fd ?c < int n then ?c1\<lparr> max_fd := int n \<rparr> else ?c1"
  let ?c' = "?c2\<lparr> event_index := (event_index ?c)[length es := Some e], sel_nevents := length es + 1 \<rparr>"
  let ?d = "map_link e (\<lambda>l. l\<lparr> polled := True, index := length es \<rparr>) (d\<lparr> agen_data := ?c' \<rparr>)"
  have "fd_bit (int n) = Inr n" using slot(2) es(5) by (simp add: fd_bit_def FD_SETSIZE_def)
  then have run: "yf_select_activate ok e d = Inr (YF_OK, ?d)"
    using slot room es(2) by (simp add: yf_select_activate_def Let_def L(1) ek)
  have pol: "polling d ?d (\<lambda>e'. polled (ev_link d e') \<or> e' = e)"
    by (rule pollingI) (auto simp: fun_eq_iff same_evt_def)
  have wd: "watch ?d = (watch d)(e \<mapsto> length es)" by (simp add: watch_set)
  have "sel_list ?c' (watch ?d) (es @ [e])"
    unfolding sel_list_def wd
  proof (intro conjI allI impI)
    fix i assume "i < length (es @ [e])"
    then show "event_index ?c' ! i = Some ((es @ [e]) ! i)"
      using L(2) [of i] room es(2) by (cases "i = length es") (simp_all add: nth_append nth_list_update)
  next
    fix x i
    show "((watch d)(e \<mapsto> length es)) x = Some i \<longleftrightarrow> i < length (es @ [e]) \<and> (es @ [e]) ! i = x"
      using L(3) [of x i] none L(3) [of e i] by (auto simp: nth_append less_Suc_eq)
  qed simp
  moreover have "polled (ev_link ?d x) \<Longrightarrow> fst x < evts_capcity ?d \<and> (max_fd (agen_data ?d) = -1 \<or> int (fst x) \<le> max_fd (agen_data ?d))" for x
    using es(3) slot(2) ek by (cases "x = e") auto
  moreover have "read_fd_set (agen_data ?d) = {m. polled (ev_link ?d (m, Revt))}"
    "write_fd_set (agen_data ?d) = {m. polled (ev_link ?d (m, Wevt))}"
    using es(7,8) by (cases k; auto simp: ek)+
  ultimately have "select_watch_ok (agen_data ?d) (evts_capcity ?d) (watch ?d)"
    using es(2,5,6) slot(2) by (intro select_watchI) simp_all
  with run pol show ?thesis by (intro exI [of _ ?d]) simp
qed

text \<open>The place of an event that is not watched any more, filled with the last one.\<close>

lemma sel_list_fill:
  fixes c w es i c'
  defines "last_i \<equiv> length es - 1"
  assumes es: "sel_list c w es" and i: "i < length es"
    and c': "sel_nevents c' = last_i" "\<And>a. a < last_i \<Longrightarrow> event_index c' ! a = event_index c ! (if a = i then last_i else a)"
    and w': "\<And>x. w' x = (if x = es ! i then None else if x = last es then Some i else w x)"
  shows "sel_list c' w' (butlast (es[i := last es]))"
proof -
  note L = sel_listD [OF es]
  let ?es = "butlast (es[i := last es])"
  have "es \<noteq> []" using i by auto
  then have last: "last es = es ! last_i" "last_i < length es" using i by (simp_all add: last_conv_nth last_i_def)
  have len: "length ?es = last_i" by (simp add: last_i_def)
  have nth: "?es ! a = es ! (if a = i then last_i else a)" if "a < last_i" for a
    using that i last by (simp add: nth_butlast len nth_list_update)
  have src: "(if a = i then last_i else a) < length es" if "a < last_i" for a using that last by auto
  have inj: "es ! a = es ! b \<longleftrightarrow> a = b" if "a < length es" "b < length es" for a b
    using nth_eq_iff_index_eq [OF L(4) that] .
  show ?thesis
    unfolding sel_list_def len
  proof (intro conjI allI impI)
    show "sel_nevents c' = last_i" by (rule c'(1))
    fix a assume a: "a < last_i"
    show "event_index c' ! a = Some (?es ! a)" unfolding c'(2) [OF a] nth [OF a] by (rule L(2) [OF src [OF a]])
  next
    fix x t
    show "w' x = Some t \<longleftrightarrow> t < last_i \<and> ?es ! t = x"
    proof (cases "t < last_i")
      case False
      have "w' x \<noteq> Some t"
      proof
        assume t: "w' x = Some t"
        show False
        proof (cases "x = last es")
          case True
          then have "t = i" "x \<noteq> es ! i" using t by (auto simp: w' split: if_splits)
          moreover then have "i = last_i" using False i unfolding last_i_def by linarith
          ultimately show False using True last(1) by simp
        next
          case ne: False
          then have "t < length es" "es ! t = x" using t L(3) [of x t] by (auto simp: w' split: if_splits)
          moreover then have "t = last_i" using False unfolding last_i_def by linarith
          ultimately show False using ne last(1) by simp
        qed
      qed
      with False show ?thesis by simp
    next
      case True
      let ?s = "if t = i then last_i else t"
      have T: "t < length es" "?s < length es" "?s \<noteq> i" "?s = last_i \<longleftrightarrow> t = i" using True last by auto
      have R: "t < last_i \<and> ?es ! t = x \<longleftrightarrow> es ! ?s = x" using nth [OF True] True by simp
      consider "x = es ! i" | "x = es ! last_i" "x \<noteq> es ! i" | "x \<noteq> es ! last_i" "x \<noteq> es ! i" by blast
      then show ?thesis
      proof cases
        case 1
        then show ?thesis unfolding R using inj [OF T(2) i] T(3) by (simp add: w')
      next
        case 2
        then show ?thesis unfolding R using inj [OF T(2) last(2)] T(4) last(1) by (auto simp: w')
      next
        case 3
        then have "w' x = w x" using last(1) by (simp add: w')
        then show ?thesis unfolding R using 3 L(3) [of x t] T(1) by (cases "t = i") auto
      qed
    qed
  qed
qed

lemma map_link_upd: "map_link e f (d\<lparr> agen_data := c \<rparr>) = (map_link e f d)\<lparr> agen_data := c \<rparr>"
  by (cases e; cases "snd e"; auto simp: map_link_def)

lemma select_deactivate_run:
  assumes s: "slots_ok d" and w: "select_watch_ok (agen_data d) (evts_capcity d) (watch d)" and e: "polled (ev_link d e)"
    and es: "sel_list (agen_data d) (watch d) es"
  defines "i \<equiv> index (ev_link d e)" and "c \<equiv> agen_data d"
  shows "\<exists>d' c'. yf_select_deactivate e d = Inr (YF_OK, d') \<and> agen_data d' = c' \<and>
    (\<forall>x. ev_link d' x = (if x = e then (ev_link d e)\<lparr> polled := False, index := YF_INVALID_INDEX \<rparr>
       else if x = last es then (ev_link d x)\<lparr> index := i \<rparr> else ev_link d x)) \<and>
    all_links d' = all_links d \<and> ready_links d' = ready_links d \<and> active_op_index d' = active_op_index d \<and>
    evts_capcity d' = evts_capcity d \<and> evts_num d' = evts_num d \<and> timers d' = timers d \<and> called d' = called d \<and>
    in_use d' = in_use d \<and> sel_nevents c' = length es - 1 \<and> length (event_index c') = length (event_index c) \<and>
    (\<forall>a < length es - 1. event_index c' ! a = event_index c ! (if a = i then length es - 1 else a)) \<and>
    max_fd c' = (if max_fd c = fd (ev_link d e) then -1 else max_fd c) \<and>
    read_fd_set c' = (if snd e = Revt then read_fd_set c - {fst e} else read_fd_set c) \<and>
    write_fd_set c' = (if snd e = Wevt then write_fd_set c - {fst e} else write_fd_set c)"
proof -
  note L = sel_listD [OF es]
  let ?l = "length es - 1" and ?n = "fst e"
  obtain es' where es': "sel_list c (watch d) es'" "length (event_index c) = 2 * evts_capcity d" "length es' \<le> 2 * evts_capcity d"
    "evts_capcity d \<le> 1024" unfolding c_def by (rule select_watchE [OF w])
  have room: "length es \<le> 2 * evts_capcity d" using es'(3) sel_listD(1) [OF es'(1)] L(1) by (simp add: c_def)
  have slot: "slot_ok d ?n" using s e unfolding slots_ok_def by (metis prod.collapse)
  then have fd: "fd (ev_link d e) = int ?n" "?n < evts_capcity d" unfolding slot_ok_def by (metis prod.collapse)+
  have "watch d e = Some i" using e by (simp add: watch_def i_def)
  then have i: "i < length es" "es ! i = e" using L(3) by blast+
  have i_ne: "i \<noteq> YF_INVALID_INDEX" using i(1) room es'(4) by (simp add: YF_INVALID_INDEX_def)
  have bit: "fd_bit (int ?n) = Inr ?n" using fd(2) es'(4) by (simp add: fd_bit_def FD_SETSIZE_def)
  let ?c1 = "map_set (snd e) (\<lambda>A. A - {?n}) c"
  let ?c2 = "(if max_fd c = int ?n then ?c1\<lparr> max_fd := -1 \<rparr> else ?c1)\<lparr> sel_nevents := ?l \<rparr>"
  let ?d0 = "map_link e (\<lambda>l. l\<lparr> polled := False \<rparr>) d"
  have c2: "max_fd ?c2 = (if max_fd c = fd (ev_link d e) then -1 else max_fd c)" "event_index ?c2 = event_index c"
    "read_fd_set ?c2 = (if snd e = Revt then read_fd_set c - {?n} else read_fd_set c)"
    "write_fd_set ?c2 = (if snd e = Wevt then write_fd_set c - {?n} else write_fd_set c)" "sel_nevents ?c2 = ?l"
    by (simp_all add: fd(1))
  have last: "last es = es ! ?l" "?l < length es" using i(1) last_conv_nth [of es] by (cases es; simp)+
  have ix: "i = index (ev_link ?d0 e)" "fd (ev_link ?d0 e) = int ?n" "agen_data ?d0 = c" by (simp_all add: i_def fd(1) c_def)
  show ?thesis
  proof (cases "i < ?l")
    case False
    then have il: "i = ?l" using i(1) by simp
    let ?d = "map_link e (\<lambda>l. l\<lparr> index := YF_INVALID_INDEX \<rparr>) (?d0\<lparr> agen_data := ?c2 \<rparr>)"
    have run: "yf_select_deactivate e d = Inr (YF_OK, ?d)"
      using False i_ne bit L(1) unfolding yf_select_deactivate_def Let_def ix(1) [symmetric] ix(2,3) c_def [symmetric]
      by simp
    show ?thesis
      by (rule exI [of _ ?d], rule exI [of _ ?c2], intro conjI allI impI run)
        (use c2 il last i in \<open>auto simp: fun_eq_iff\<close>)
  next
    case True
    let ?x = "last es"
    have x: "event_index c ! ?l = Some ?x" using L(2) [OF last(2)] last(1) by (simp add: c_def)
    have xe: "?x \<noteq> e" using True i last nth_eq_iff_index_eq [OF L(4) last(2) i(1)] by auto
    let ?c3 = "?c2\<lparr> event_index := (event_index c)[i := Some ?x] \<rparr>"
    let ?d = "map_link e (\<lambda>l. l\<lparr> index := YF_INVALID_INDEX \<rparr>) (map_link ?x (\<lambda>l. l\<lparr> index := i \<rparr>) (?d0\<lparr> agen_data := ?c3 \<rparr>))"
    have rl: "?l < length (event_index c)" "i < length (event_index c)" using room es'(2) last(2) i(1) by simp_all
    have run: "yf_select_deactivate e d = Inr (YF_OK, ?d)"
      using True i_ne bit L(1) rl x unfolding yf_select_deactivate_def Let_def ix(1) [symmetric] ix(2,3) c_def [symmetric]
      by simp
    have ents: "event_index ?c3 ! a = event_index c ! (if a = i then ?l else a)" if "a < ?l" for a
      using that rl x by (simp add: nth_list_update)
    show ?thesis
      by (rule exI [of _ ?d], rule exI [of _ ?c3], intro conjI allI impI run ents)
        (use c2 xe in \<open>auto simp: fun_eq_iff\<close>)
  qed
qed

lemma select_deactivate_law:
  assumes s: "slots_ok d" and w: "select_watch_ok (agen_data d) (evts_capcity d) (watch d)" and e: "polled (ev_link d e)"
  shows "\<exists>d'. yf_select_deactivate e d = Inr (YF_OK, d') \<and> polling d d' (\<lambda>e'. polled (ev_link d e') \<and> e' \<noteq> e) \<and>
    select_watch_ok (agen_data d') (evts_capcity d) (watch d')"
proof -
  obtain es where es: "sel_list (agen_data d) (watch d) es" "length (event_index (agen_data d)) = 2 * evts_capcity d"
    "\<forall>e. polled (ev_link d e) \<longrightarrow> fst e < evts_capcity d \<and> (max_fd (agen_data d) = -1 \<or> int (fst e) \<le> max_fd (agen_data d))"
    "length es \<le> 2 * evts_capcity d" "evts_capcity d \<le> 1024"
    "max_fd (agen_data d) < int (evts_capcity d)" "read_fd_set (agen_data d) = {n. polled (ev_link d (n, Revt))}"
    "write_fd_set (agen_data d) = {n. polled (ev_link d (n, Wevt))}" by (rule select_watchE [OF w])
  note L = sel_listD [OF es(1)]
  let ?i = "index (ev_link d e)"
  have "watch d e = Some ?i" using e by (simp add: watch_def)
  then have i: "?i < length es" "es ! ?i = e" using L(3) by blast+
  have "last es \<in> set es" using i(1) by (intro last_in_set) auto
  then have lp: "polled (ev_link d (last es))" unfolding L(5) by (auto simp: watch_def dom_def split: if_splits)
  from select_deactivate_run [OF s w e es(1)] obtain b where b: "yf_select_deactivate e d = Inr (YF_OK, b)"
    "\<And>x. ev_link b x = (if x = e then (ev_link d e)\<lparr> polled := False, index := YF_INVALID_INDEX \<rparr>
       else if x = last es then (ev_link d x)\<lparr> index := ?i \<rparr> else ev_link d x)"
    "all_links b = all_links d" "ready_links b = ready_links d" "active_op_index b = active_op_index d"
    "evts_capcity b = evts_capcity d" "evts_num b = evts_num d" "timers b = timers d" "called b = called d"
    "in_use b = in_use d" "sel_nevents (agen_data b) = length es - 1"
    "length (event_index (agen_data b)) = length (event_index (agen_data d))"
    "\<And>a. a < length es - 1 \<Longrightarrow> event_index (agen_data b) ! a = event_index (agen_data d) ! (if a = ?i then length es - 1 else a)"
    "max_fd (agen_data b) = (if max_fd (agen_data d) = fd (ev_link d e) then -1 else max_fd (agen_data d))"
    "read_fd_set (agen_data b) = (if snd e = Revt then read_fd_set (agen_data d) - {fst e} else read_fd_set (agen_data d))"
    "write_fd_set (agen_data b) = (if snd e = Wevt then write_fd_set (agen_data d) - {fst e} else write_fd_set (agen_data d))" by blast
  have pb: "polled (ev_link b x) \<longleftrightarrow> polled (ev_link d x) \<and> x \<noteq> e" for x by (simp add: b(2))
  have pol: "polling d b (\<lambda>e'. polled (ev_link d e') \<and> e' \<noteq> e)"
    by (rule pollingI) (use b(2-10) lp in \<open>auto simp: same_evt_def split: if_splits\<close>)
  have wb: "watch b x = (if x = es ! ?i then None else if x = last es then Some ?i else watch d x)" for x
    using lp by (simp add: watch_def b(2) i(2))
  have "sel_list (agen_data b) (watch b) (butlast (es[?i := last es]))"
    by (rule sel_list_fill [OF es(1) i(1) b(11,13) wb])
  moreover have "fst x < evts_capcity b \<and> (max_fd (agen_data b) = -1 \<or> int (fst x) \<le> max_fd (agen_data b))" if "polled (ev_link b x)" for x
    using that es(3) unfolding pb b(6,14) by auto
  moreover have "read_fd_set (agen_data b) = {n. polled (ev_link b (n, Revt))}" "write_fd_set (agen_data b) = {n. polled (ev_link b (n, Wevt))}"
    unfolding pb b(15,16) es(7,8) by (cases e; cases "snd e"; auto)+
  moreover have "max_fd (agen_data b) < int (evts_capcity b)" using es(6) b(6,14) by simp
  ultimately have "select_watch_ok (agen_data b) (evts_capcity b) (watch b)"
    using es(2,5) b(6,12) by (intro select_watchI) simp_all
  with b(1,6) pol show ?thesis by (intro exI [of _ b]) simp
qed

lemma select_del_half:
  assumes "slots_ok d" "select_watch_ok (agen_data d) (evts_capcity d) (watch d)"
  shows "\<exists>d'. (if polled (ev_link d e) then yf_select_deactivate e d else Inr (YF_OK, d)) = Inr (YF_OK, d') \<and>
    polling d d' (\<lambda>e'. polled (ev_link d e') \<and> e' \<noteq> e) \<and> select_watch_ok (agen_data d') (evts_capcity d) (watch d')"
proof (cases "polled (ev_link d e)")
  case True
  with select_deactivate_law [OF assms True] show ?thesis by simp
next
  case False
  have "polling d d (\<lambda>e'. polled (ev_link d e') \<and> e' \<noteq> e)" by (rule pollingI) (use False in auto)
  with False assms(2) show ?thesis by simp
qed

lemma select_del_law:
  assumes s: "slots_ok d" and w: "select_watch_ok (agen_data d) (evts_capcity d) (watch d)"
  shows "\<exists>r d'. yf_select_del ok n d = Inr (r, d') \<and> polling d d' (\<lambda>e'. polled (ev_link d e') \<and> fst e' \<noteq> n) \<and>
    select_watch_ok (agen_data d') (evts_capcity d) (watch d')"
proof -
  from select_del_half [OF s w, of "(n, Revt)"] obtain b where b:
    "(if polled (ev_link d (n, Revt)) then yf_select_deactivate (n, Revt) d else Inr (YF_OK, d)) = Inr (YF_OK, b)"
    "polling d b (\<lambda>e'. polled (ev_link d e') \<and> e' \<noteq> (n, Revt))" "select_watch_ok (agen_data b) (evts_capcity d) (watch b)" by blast
  have "slots_ok b" by (rule polling_slots_ok [OF s b(2)]) simp
  moreover have "select_watch_ok (agen_data b) (evts_capcity b) (watch b)" using b(3) polling_cap [OF b(2)] by simp
  ultimately obtain c where c:
    "(if polled (ev_link b (n, Wevt)) then yf_select_deactivate (n, Wevt) b else Inr (YF_OK, b)) = Inr (YF_OK, c)"
    "polling b c (\<lambda>e'. polled (ev_link b e') \<and> e' \<noteq> (n, Wevt))" "select_watch_ok (agen_data c) (evts_capcity b) (watch c)"
    using select_del_half [of b "(n, Wevt)"] by blast
  have "yf_select_del ok n d = Inr (YF_OK, c)" using b(1) c(1) by (simp add: yf_select_del_def)
  moreover have "polling d c (\<lambda>e'. polled (ev_link d e') \<and> fst e' \<noteq> n)"
  proof (rule polling_cong [OF polling_trans [OF b(2) c(2)]])
    fix e :: evt
    have "polled (ev_link b e) \<longleftrightarrow> polled (ev_link d e) \<and> e \<noteq> (n, Revt)" using pollingD(2) [OF b(2)] .
    moreover have "fst e = n \<longleftrightarrow> e = (n, Revt) \<or> e = (n, Wevt)" using slot_evts [of e n] by simp
    ultimately show "(polled (ev_link b e) \<and> e \<noteq> (n, Wevt)) = (polled (ev_link d e) \<and> fst e \<noteq> n)" by blast
  qed
  ultimately show ?thesis using c(3) polling_cap [OF b(2)] by auto
qed

subsection \<open>Dispatch reports what select returned\<close>

lemma mark_ready_agen: "mark_ready e (d\<lparr> agen_data := p \<rparr>) = run_bind (mark_ready e d) (\<lambda>d'. Inr (d'\<lparr> agen_data := p \<rparr>))"
  by (cases e; cases "snd e"; cases "yf_list_move_tail (ready_links d) (ready_linker e) READY_LIST")
    (simp_all add: mark_ready_def map_link_def)

lemma marks_agen: "marks es (d\<lparr> agen_data := p \<rparr>) = run_bind (marks es d) (\<lambda>d'. Inr (d'\<lparr> agen_data := p \<rparr>))"
proof (induction es arbitrary: d)
  case (Cons e es)
  then show ?case by (cases "mark_ready e d") (simp_all add: mark_ready_agen)
qed simp

lemma sel_max_result:
  assumes "\<And>i. i \<in> set is \<Longrightarrow> \<exists>e. sel_event i (agen_data d) = Inr e \<and> fd (ev_link d e) \<in> F"
  shows "\<exists>m'. sel_max is m d = Inr m' \<and> (m' = m \<or> m' \<in> F) \<and> m \<le> m' \<and>
    (\<forall>i \<in> set is. \<forall>e. sel_event i (agen_data d) = Inr e \<longrightarrow> fd (ev_link d e) \<le> m')"
  using assms
proof (induction "is" arbitrary: m)
  case Nil
  then show ?case by simp
next
  case (Cons i "is")
  obtain e where e: "sel_event i (agen_data d) = Inr e" "fd (ev_link d e) \<in> F" using Cons.prems [of i] by auto
  let ?m = "if m < fd (ev_link d e) then fd (ev_link d e) else m"
  from Cons.IH [of ?m] Cons.prems obtain m' where m': "sel_max is ?m d = Inr m'" "m' = ?m \<or> m' \<in> F" "?m \<le> m'"
    "\<forall>i \<in> set is. \<forall>e. sel_event i (agen_data d) = Inr e \<longrightarrow> fd (ev_link d e) \<le> m'" by auto
  have "sel_max (i # is) m d = Inr m'" using e(1) m'(1) by simp
  moreover have "m' = m \<or> m' \<in> F" using m'(2) e(2) by (auto split: if_splits)
  moreover have "m \<le> m'" "fd (ev_link d e) \<le> m'" using m'(3) by (auto split: if_splits)
  ultimately show ?case using m'(4) e(1) by (intro exI [of _ m']) auto
qed

lemma sel_loop_marks:
  assumes "\<And>i. i \<in> set is \<Longrightarrow> \<exists>e. event_index (agen_data d) ! i = Some e \<and> i < length (event_index (agen_data d)) \<and>
    0 \<le> fd (ev_link d e) \<and> fd (ev_link d e) < FD_SETSIZE \<and> fd (ev_link d e) = int (fst e)"
  shows "\<exists>m'. sel_loop is R W m d = run_bind (marks (filter (\<lambda>e. fst e \<in> (case snd e of Wevt \<Rightarrow> W | Revt \<Rightarrow> R))
      (map (\<lambda>i. the (event_index (agen_data d) ! i)) is)) d) (\<lambda>d'. Inr (m', d'))"
  using assms
proof (induction "is" arbitrary: d m)
  case Nil
  then show ?case by simp
next
  case (Cons i "is")
  obtain e where e: "event_index (agen_data d) ! i = Some e" "i < length (event_index (agen_data d))"
    "0 \<le> fd (ev_link d e)" "fd (ev_link d e) < FD_SETSIZE" "fd (ev_link d e) = int (fst e)"
    using Cons.prems [of i] by auto
  have ev: "sel_event i (agen_data d) = Inr e" using e(1,2) by (simp add: sel_event_def)
  have bit: "fd_bit (fd (ev_link d e)) = Inr (fst e)" using e(3-5) by (simp add: fd_bit_def)
  let ?in = "fst e \<in> (case snd e of Wevt \<Rightarrow> W | Revt \<Rightarrow> R)"
  show ?case
  proof (cases ?in)
    case False
    have "sel_loop (i # is) R W m d = sel_loop is R W m d" using ev bit False by simp
    with Cons.IH [of d m] Cons.prems e(1) False show ?thesis by auto
  next
    case True
    have run: "sel_loop (i # is) R W m d = run_bind (mark_ready e d) (sel_loop is R W (m + 1))" using ev bit True by simp
    show ?thesis
    proof (cases "mark_ready e d")
      case (Inl x)
      with run e(1) True show ?thesis by simp
    next
      case (Inr d')
      note K = mark_ready_keeps [OF Inr]
      have "\<exists>m'. sel_loop is R W (m + 1) d' = run_bind (marks (filter (\<lambda>e. fst e \<in> (case snd e of Wevt \<Rightarrow> W | Revt \<Rightarrow> R))
          (map (\<lambda>i. the (event_index (agen_data d') ! i)) is)) d') (\<lambda>d'. Inr (m', d'))"
        by (rule Cons.IH) (use K Cons.prems in auto)
      with Inr K run e(1) True show ?thesis by simp
    qed
  qed
qed

text \<open>Another greatest descriptor that is still an upper bound, or none.\<close>

lemma select_watch_max:
  assumes "select_watch_ok c cap w" "m < int cap" "m = -1 \<or> (\<forall>e. w e \<noteq> None \<longrightarrow> int (fst e) \<le> m)"
  shows "select_watch_ok (c\<lparr> max_fd := m \<rparr>) cap w"
proof -
  have "sel_list (c\<lparr> max_fd := m \<rparr>) w es = sel_list c w es" for es by (simp add: sel_list_def)
  then show ?thesis using assms unfolding select_watch_ok_def by auto
qed

lemma select_repair_valid:
  assumes "\<forall>s \<in> read_fd_set c \<union> write_fd_set c. valid s" "max_fd c < FD_SETSIZE"
  shows "yf_select_repair_fd_sets valid c = Inr (c\<lparr> max_fd := -1 \<rparr>)"
proof -
  have "Set.filter (\<lambda>s. \<not> (int s \<le> max_fd c \<and> \<not> valid s)) (read_fd_set c) = read_fd_set c"
    "Set.filter (\<lambda>s. \<not> (int s \<le> max_fd c \<and> \<not> valid s)) (write_fd_set c) = write_fd_set c" using assms(1) by auto
  then show ?thesis using assms(2) by (simp add: yf_select_repair_fd_sets_def)
qed

text \<open>The greatest descriptor is computed when it is not known.\<close>

lemma sel_max_law:
  assumes s: "slots_ok d" and w: "select_watch_ok (agen_data d) (evts_capcity d) (watch d)"
  shows "\<exists>p. (if max_fd (agen_data d) = -1
      then run_bind (sel_max [0..<sel_nevents (agen_data d)] (-1) d) (\<lambda>m. Inr (d\<lparr> agen_data := (agen_data d)\<lparr> max_fd := m \<rparr> \<rparr>))
      else Inr d) = Inr (d\<lparr> agen_data := p \<rparr>) \<and> select_watch_ok p (evts_capcity d) (watch d) \<and>
    (\<exists>m. p = (agen_data d)\<lparr> max_fd := m \<rparr>)"
proof (cases "max_fd (agen_data d) = -1")
  case False
  have "d = d\<lparr> agen_data := agen_data d \<rparr>" "agen_data d = (agen_data d)\<lparr> max_fd := max_fd (agen_data d) \<rparr>" by simp_all
  with False w show ?thesis by metis
next
  case True
  let ?c = "agen_data d"
  obtain es where es: "sel_list ?c (watch d) es" "length (event_index ?c) = 2 * evts_capcity d"
    "\<forall>e. polled (ev_link d e) \<longrightarrow> fst e < evts_capcity d \<and> (max_fd ?c = -1 \<or> int (fst e) \<le> max_fd ?c)"
    "length es \<le> 2 * evts_capcity d" by (rule select_watchE [OF w])
  note L = sel_listD [OF es(1)]
  have pol: "polled (ev_link d (es ! i))" "fd (ev_link d (es ! i)) = int (fst (es ! i))" if "i < length es" for i
  proof -
    have "watch d (es ! i) = Some i" using L(3) that by blast
    then show p: "polled (ev_link d (es ! i))" by (simp add: watch_def split: if_splits)
    with s have "slot_ok d (fst (es ! i))" unfolding slots_ok_def by (metis prod.collapse)
    then show "fd (ev_link d (es ! i)) = int (fst (es ! i))" unfolding slot_ok_def by (metis prod.collapse)
  qed
  have ev: "sel_event i ?c = Inr (es ! i)" if "i < length es" for i
    using L(2) [OF that] es(2,4) that by (simp add: sel_event_def)
  have "\<exists>e. sel_event i ?c = Inr e \<and> fd (ev_link d e) \<in> {f. f < int (evts_capcity d)}" if "i \<in> set [0..<sel_nevents ?c]" for i
  proof -
    have "i < length es" using that L(1) by simp
    then show ?thesis using ev pol es(3) by simp
  qed
  from sel_max_result [OF this, of "[0..<sel_nevents ?c]" "-1"] obtain m where m:
    "sel_max [0..<sel_nevents ?c] (-1) d = Inr m" "m = -1 \<or> m < int (evts_capcity d)" "-1 \<le> m"
    "\<forall>i \<in> set [0..<sel_nevents ?c]. \<forall>e. sel_event i ?c = Inr e \<longrightarrow> fd (ev_link d e) \<le> m" by auto
  have "int (fst e) \<le> m" if "watch d e \<noteq> None" for e
  proof -
    from that have "\<exists>i. watch d e = Some i" by (simp add: not_None_eq)
    then obtain i where "watch d e = Some i" ..
    then have i: "i < length es" "es ! i = e" using L(3) by blast+
    have "i \<in> set [0..<sel_nevents ?c]" using i(1) L(1) by simp
    from bspec [OF m(4) this] have "fd (ev_link d (es ! i)) \<le> m" using ev [OF i(1)] by blast
    with pol(2) [OF i(1)] i(2) show ?thesis by simp
  qed
  then have "select_watch_ok (?c\<lparr> max_fd := m \<rparr>) (evts_capcity d) (watch d)"
    using m(2) by (intro select_watch_max [OF w]) auto
  with True m(1) show ?thesis by auto
qed

lemma select_dispatch_law:
  assumes s: "slots_ok d" and w: "select_watch_ok (agen_data d) (evts_capcity d) (watch d)" and k: "select_answers d k"
  shows "\<exists>r p. yf_select_dispatch k d = run_bind (marks (select_reports d k) (d\<lparr> agen_data := p \<rparr>)) (\<lambda>d'. Inr (r, d')) \<and>
    select_watch_ok p (evts_capcity d) (watch d)"
proof -
  from sel_max_law [OF s w] obtain p m where p: "(if max_fd (agen_data d) = -1
      then run_bind (sel_max [0..<sel_nevents (agen_data d)] (-1) d) (\<lambda>m. Inr (d\<lparr> agen_data := (agen_data d)\<lparr> max_fd := m \<rparr> \<rparr>))
      else Inr d) = Inr (d\<lparr> agen_data := p \<rparr>)" "select_watch_ok p (evts_capcity d) (watch d)" "p = (agen_data d)\<lparr> max_fd := m \<rparr>" by blast
  let ?d = "d\<lparr> agen_data := p \<rparr>"
  have pc: "sel_nevents p = sel_nevents (agen_data d)" "event_index p = event_index (agen_data d)"
    "read_fd_set p = read_fd_set (agen_data d)" "write_fd_set p = write_fd_set (agen_data d)" by (simp_all add: p(3))
  let ?q = "p\<lparr> max_fd := -1 \<rparr>"
  have q: "select_watch_ok ?q (evts_capcity d) (watch d)" by (rule select_watch_max [OF p(2)]) simp_all
  show ?thesis
  proof (cases "sel_result k")
    case None
    then have "\<not> ebadf k" using k by (simp add: select_answers_def)
    then have "yf_select_dispatch k d = Inr (YF_ERROR, ?d)" using None p(1) by (simp add: yf_select_dispatch_def Let_def)
    moreover have "select_reports d k = []" using None by (simp add: select_reports_def)
    ultimately show ?thesis using p(2) by (intro exI [of _ YF_ERROR] exI [of _ p]) simp
  next
    case (Some a)
    obtain R W n where a: "sel_result k = Some (R, W, n)" using Some by (metis prod_cases3)
    show ?thesis
    proof (cases "n = 0")
      case True
      then have "yf_select_dispatch k d = Inr (YF_OK, ?d)" using a p(1) by (simp add: yf_select_dispatch_def Let_def)
      moreover have "select_reports d k = []" using a True by (simp add: select_reports_def)
      ultimately show ?thesis using p(2) by (intro exI [of _ YF_OK] exI [of _ p]) simp
    next
      case False
      have w1: "select_watch_ok (agen_data ?d) (evts_capcity ?d) (watch ?d)" using p(2) by simp
      obtain es where es: "sel_list (agen_data ?d) (watch ?d) es" "length (event_index (agen_data ?d)) = 2 * evts_capcity ?d"
        "\<forall>e. polled (ev_link ?d e) \<longrightarrow> fst e < evts_capcity ?d \<and> (max_fd (agen_data ?d) = -1 \<or> int (fst e) \<le> max_fd (agen_data ?d))"
        "length es \<le> 2 * evts_capcity ?d" "evts_capcity ?d \<le> 1024" "max_fd (agen_data ?d) < int (evts_capcity ?d)"
        by (rule select_watchE [OF w1])
      note L = sel_listD [OF es(1)]
      have "\<exists>m'. sel_loop [0..<sel_nevents p] R W 0 ?d = run_bind (marks (filter (\<lambda>e. fst e \<in> (case snd e of Wevt \<Rightarrow> W | Revt \<Rightarrow> R))
          (map (\<lambda>i. the (event_index (agen_data ?d) ! i)) [0..<sel_nevents p])) ?d) (\<lambda>d'. Inr (m', d'))"
      proof (rule sel_loop_marks)
        fix i assume "i \<in> set [0..<sel_nevents p]"
        then have i: "i < length es" using L(1) by simp
        have "watch ?d (es ! i) = Some i" using L(3) i by blast
        then have po: "polled (ev_link d (es ! i))" by (simp add: watch_def split: if_splits)
        with s have "slot_ok d (fst (es ! i))" unfolding slots_ok_def by (metis prod.collapse)
        then have "fd (ev_link d (es ! i)) = int (fst (es ! i))" unfolding slot_ok_def by (metis prod.collapse)
        moreover have "fst (es ! i) < 1024" using es(3,5) po by (metis ev_link_upd(7) order_less_le_trans)
        ultimately show "\<exists>e. event_index (agen_data ?d) ! i = Some e \<and> i < length (event_index (agen_data ?d)) \<and>
            0 \<le> fd (ev_link ?d e) \<and> fd (ev_link ?d e) < FD_SETSIZE \<and> fd (ev_link ?d e) = int (fst e)"
          using L(2) [OF i] es(2,4) i by (intro exI [of _ "es ! i"]) (simp add: FD_SETSIZE_def)
      qed
      moreover have "map (\<lambda>i. the (event_index p ! i)) [0..<sel_nevents p] = map the (take (sel_nevents p) (event_index p))"
        using L(1) es(2,4) by (intro nth_equalityI) simp_all
      ultimately obtain m' where m': "sel_loop [0..<sel_nevents p] R W 0 ?d = run_bind (marks (select_reports d k) ?d) (\<lambda>d'. Inr (m', d'))"
        using a False pc(1,2) by (auto simp: select_reports_def)
      have rep: "yf_select_repair_fd_sets (sock_valid k) p = Inr ?q"
        by (rule select_repair_valid) (use k pc es(5,6) in \<open>auto simp: select_answers_def FD_SETSIZE_def\<close>)
      have run: "yf_select_dispatch k d = run_bind (sel_loop [0..<sel_nevents p] R W 0 ?d) (\<lambda>(m, d).
           run_bind (if n \<noteq> m then run_bind (yf_select_repair_fd_sets (sock_valid k) (agen_data d)) (\<lambda>c. Inr (d\<lparr> agen_data := c \<rparr>))
             else Inr d) (\<lambda>d. Inr (YF_OK, d)))"
        unfolding yf_select_dispatch_def p(1) using a False by (simp add: Let_def)
      show ?thesis
      proof (cases "marks (select_reports d k) d")
        case (Inl x)
        then have "yf_select_dispatch k d = run_bind (marks (select_reports d k) ?d) (\<lambda>d'. Inr (YF_OK, d'))"
          unfolding run m' marks_agen by simp
        with p(2) show ?thesis by blast
      next
        case (Inr d')
        let ?r = "if n \<noteq> m' then ?q else p"
        have "yf_select_dispatch k d = run_bind (marks (select_reports d k) (d\<lparr> agen_data := ?r \<rparr>)) (\<lambda>d'. Inr (YF_OK, d'))"
          unfolding run m' marks_agen using Inr rep by simp
        moreover have "select_watch_ok ?r (evts_capcity d) (watch d)" using p(2) q by simp
        ultimately show ?thesis by blast
      qed
    qed
  qed
qed

interpretation select: fd_poller yf_fd_select_poller_cls select_watch_ok select_answers select_reports
proof unfold_locales
  fix d :: "select_ctx fd_driver" and e ok
  assume "slots_ok d" "select_watch_ok (agen_data d) (evts_capcity d) (watch d)" "slot_ok d (fst e)" "\<not> polled (ev_link d e)"
  from select_activate_law [OF this, of ok]
  show "\<exists>act r d'. act_activate yf_fd_select_poller_cls = Some act \<and> act ok e d = Inr (r, d') \<and>
        polling d d' (\<lambda>e'. polled (ev_link d e') \<or> e' = e \<and> r = YF_OK) \<and>
        select_watch_ok (agen_data d') (evts_capcity d) (watch d')" by (fastforce simp: yf_fd_select_poller_cls_def)
next
  fix d :: "select_ctx fd_driver" and e dact
  assume a: "slots_ok d" "select_watch_ok (agen_data d) (evts_capcity d) (watch d)" "polled (ev_link d e)"
    "act_deactivate yf_fd_select_poller_cls = Some dact"
  from select_deactivate_law [OF a(1-3)] a(4)
  show "\<exists>d'. dact e d = Inr (YF_OK, d') \<and> polling d d' (\<lambda>e'. polled (ev_link d e') \<and> e' \<noteq> e) \<and>
        select_watch_ok (agen_data d') (evts_capcity d) (watch d')" by (simp add: yf_fd_select_poller_cls_def)
next
  fix d :: "select_ctx fd_driver" and ok n
  assume "slots_ok d" "select_watch_ok (agen_data d) (evts_capcity d) (watch d)"
  from select_del_law [OF this, of ok n]
  show "\<exists>act r d'. act_del yf_fd_select_poller_cls = Some act \<and> act ok n d = Inr (r, d') \<and>
        polling d d' (\<lambda>e'. polled (ev_link d e') \<and> fst e' \<noteq> n) \<and>
        select_watch_ok (agen_data d') (evts_capcity d) (watch d')" by (simp add: yf_fd_select_poller_cls_def)
next
  fix d :: "select_ctx fd_driver" and k
  assume "slots_ok d" "select_watch_ok (agen_data d) (evts_capcity d) (watch d)" "select_answers d k"
  from select_dispatch_law [OF this]
  show "\<exists>r p. act_dispatch yf_fd_select_poller_cls k d =
        run_bind (marks (select_reports d k) (d\<lparr> agen_data := p \<rparr>)) (\<lambda>d'. Inr (r, d')) \<and>
        select_watch_ok p (evts_capcity d) (watch d)" by (simp add: yf_fd_select_poller_cls_def)
qed (simp add: yf_fd_select_poller_cls_def)

end
