(* ===== verification/Evt_Loop.thy ===== *)
theory Evt_Loop
  imports Fd_Poller
begin

section \<open>The event loop\<close>

text \<open>
  Models the part of \<^verbatim>\<open>yf_evt_driver_start\<close> (\<^verbatim>\<open>mio_driver/yf_event.c\<close>) that polls the descriptors and calls
  the handlers of ready events, and the expiry of the timer of an event in \<^verbatim>\<open>yf_timeout_caller\<close>
  (\<^verbatim>\<open>event_in/yf_tm_event_in.c\<close>). A handler is a parameter, a function on the state of the driver.
\<close>

type_synonym 'p evt_handler = "evt \<Rightarrow> 'p fd_driver \<Rightarrow> 'p fd_driver run"

text \<open>The end of a handler call: an event that was not registered again is cancelled.\<close>

definition oneshot :: "('p, 'k) fd_poll_actions \<Rightarrow> evt \<Rightarrow> u32 \<Rightarrow> 'p fd_driver \<Rightarrow> 'p fd_driver run" where
  "oneshot cls e active_index d =
     (if 0 < fd (ev_link d e) \<and> active (ev_link d e) \<and> active_index = last_active_op_index (ev_link d e)
      then run_bind (yf_unregister_fd_evt cls e d) (\<lambda>(_, d). Inr d) else Inr d)"

definition call_handler :: "('p, 'k) fd_poll_actions \<Rightarrow> 'p evt_handler \<Rightarrow> evt \<Rightarrow> 'p fd_driver \<Rightarrow> 'p fd_driver run" where
  "call_handler cls h e d =
     (let active_index = last_active_op_index (ev_link d e) in
      run_bind (h e (d\<lparr> called := called d @ [e] \<rparr>)) (oneshot cls e active_index))"

definition walk_body :: "('p, 'k) fd_poll_actions \<Rightarrow> 'p evt_handler \<Rightarrow> addr \<Rightarrow> 'p fd_driver \<Rightarrow> 'p fd_driver run" where
  "walk_body cls h pos d =
     run_bind (yf_list_del (ready_links d) pos) (\<lambda>lh.
     run_bind (link_evt pos) (\<lambda>e.
     let d = d\<lparr> ready_links := lh \<rparr>;
         d = (if timeset (ev_link d e)
              then map_link e (\<lambda>l. l\<lparr> timeset := False \<rparr>) (yf_fd_evt_timer_ctl e FD_TIMER_DEL 0 d) else d) in
     if \<not> active (ev_link d e) then Inr d else call_handler cls h e d))"

text \<open>\<^verbatim>\<open>yf_list_for_each_safe\<close> over the local list; \<open>None\<close> is a walk that never ends.\<close>

partial_function (option) ready_walk ::
    "('p, 'k) fd_poll_actions \<Rightarrow> 'p evt_handler \<Rightarrow> addr \<Rightarrow> addr \<Rightarrow> 'p fd_driver \<Rightarrow> 'p fd_driver run option" where
  "ready_walk cls h pos keep d =
     (if pos = LOCAL_READY then Some (Inr d)
      else case walk_body cls h pos d of
        Inl e \<Rightarrow> Some (Inl e)
      | Inr d \<Rightarrow>
          (case d_next (ready_links d) keep of
             Inl e \<Rightarrow> Some (Inl e)
           | Inr nx \<Rightarrow> ready_walk cls h keep nx d))"

definition handle_ready :: "('p, 'k) fd_poll_actions \<Rightarrow> 'p evt_handler \<Rightarrow> 'p fd_driver \<Rightarrow> 'p fd_driver run option" where
  "handle_ready cls h d =
     (case run_bind (yf_list_splice (ready_links d) READY_LIST LOCAL_READY) (\<lambda>lh.
           run_bind (d_next lh LOCAL_READY) (\<lambda>pos.
           run_bind (d_next lh pos) (\<lambda>keep. Inr (pos, keep, d\<lparr> ready_links := lh \<rparr>)))) of
        Inl e \<Rightarrow> Some (Inl e)
      | Inr (pos, keep, d) \<Rightarrow> ready_walk cls h pos keep d)"

definition evt_loop_start :: "'p fd_driver \<Rightarrow> 'p fd_driver run" where
  "evt_loop_start d = run_bind (yf_init_list_head (ready_links d) LOCAL_READY) (\<lambda>h. Inr (d\<lparr> ready_links := h \<rparr>))"

text \<open>One turn of the loop as far as it is about descriptors; the system answers \<open>k\<close> to the poller.\<close>

definition fd_turn :: "('p, 'k) fd_poll_actions \<Rightarrow> 'p evt_handler \<Rightarrow> 'k \<Rightarrow> 'p fd_driver \<Rightarrow> 'p fd_driver run option" where
  "fd_turn cls h k d =
     (case act_dispatch cls k d of
        Inl e \<Rightarrow> Some (Inl e)
      | Inr (_, d) \<Rightarrow> handle_ready cls h (d\<lparr> active_op_index := active_op_index d + 1 \<rparr>))"

definition fd_evt_timeout :: "('p, 'k) fd_poll_actions \<Rightarrow> 'p evt_handler \<Rightarrow> evt \<Rightarrow> 'p fd_driver \<Rightarrow> 'p fd_driver run" where
  "fd_evt_timeout cls h e d =
     (let d = d\<lparr> timers := (timers d)(e := None) \<rparr> in
      c_assert (active (ev_link d e))
        (call_handler cls h e (map_link e (\<lambda>l. l\<lparr> timeset := False, timeout := True \<rparr>) d)))"

subsection \<open>Handlers that leave the pending events alone\<close>

definition script_handler :: "('p, 'k) fd_poll_actions \<Rightarrow> (evt \<Rightarrow> (fd_op \<times> bool) list) \<Rightarrow> 'p evt_handler" where
  "script_handler cls ops e = fd_ops_run cls (ops e)"

definition spares :: "(fd_op \<times> bool) list \<Rightarrow> evt set \<Rightarrow> bool" where
  "spares ops E \<longleftrightarrow> (\<forall>(op, ok) \<in> set ops. touches op \<inter> E = {})"

context fd_poller begin

lemma called_inv: "drv_inv U (d\<lparr> called := cs \<rparr>) = drv_inv U d"
proof -
  have "base_inv U (d\<lparr> called := cs \<rparr>) = base_inv U d" by (simp add: base_inv_def)
  then show ?thesis by (simp add: drv_inv_def)
qed

lemma call_handler_spec:
  assumes d: "drv_inv (in_use d) d" "lists_inv d xs ys" and e: "e \<notin> set ys" "spares (ops e) (set ys)"
  shows "\<exists>d' xs'. call_handler cls (script_handler cls ops) e d = Inr d' \<and> drv_inv (in_use d') d' \<and>
    lists_inv d' xs' ys \<and> called d' = called d @ [e] \<and> (\<forall>x \<in> set ys. same_evt (ev_link d x) (ev_link d' x))"
proof -
  let ?a = "d\<lparr> called := called d @ [e] \<rparr>" and ?i = "last_active_op_index (ev_link d e)"
  have a: "drv_inv (in_use ?a) ?a" "lists_inv ?a xs ys" using d by (simp_all add: called_inv lists_inv_def)
  from fd_ops_spec [OF a, of "ops e"] e(2) obtain b xs' where b: "fd_ops_run cls (ops e) ?a = Inr b"
    "drv_inv (in_use b) b" "lists_inv b xs' ys" "untouched (\<Union>(op, ok) \<in> set (ops e). touches op) ?a b"
    by (auto simp: spares_def)
  have bt: "called b = called d @ [e]" using b(4) by (simp add: untouched_def)
  have bs: "same_evt (ev_link d x) (ev_link b x)" if x: "x \<in> set ys" for x
  proof -
    have "x \<notin> (\<Union>(op, ok) \<in> set (ops e). touches op)" using e(2) x by (auto simp: spares_def)
    with b(4) have "same_evt (ev_link ?a x) (ev_link b x)" unfolding untouched_def by blast
    then show ?thesis by simp
  qed
  from unregister_spec [OF b(2,3) e(1)] obtain c where c: "yf_unregister_fd_evt cls e b = Inr (YF_OK, c)"
    "drv_inv (in_use b) c" "lists_inv c (removeAll e xs') ys" "untouched {e} b c" "in_use c = in_use b" by blast
  have cs: "called c = called b" "same_evt (ev_link d x) (ev_link c x)" if x: "x \<in> set ys" for x
  proof -
    show "called c = called b" using c(4) by (simp add: untouched_def)
    have "x \<notin> {e}" using x e(1) by auto
    with c(4) have "same_evt (ev_link b x) (ev_link c x)" unfolding untouched_def by blast
    then show "same_evt (ev_link d x) (ev_link c x)" by (rule same_evt_trans [OF bs [OF x]])
  qed
  have run: "call_handler cls (script_handler cls ops) e d = oneshot cls e ?i b"
    using b(1) by (simp add: call_handler_def script_handler_def)
  show ?thesis
  proof (cases "0 < fd (ev_link b e) \<and> active (ev_link b e) \<and> ?i = last_active_op_index (ev_link b e)")
    case True
    then have "oneshot cls e ?i b = Inr c" using c(1) by (simp add: oneshot_def)
    moreover have "called c = called d @ [e]" using c(4) bt by (simp add: untouched_def)
    ultimately show ?thesis
      using run c(2,3,5) cs(2) by (intro exI [of _ c] exI [of _ "removeAll e xs'"]) simp
  next
    case False
    then have "oneshot cls e ?i b = Inr b" unfolding oneshot_def by (rule if_not_P)
    with run b(2,3) bs bt show ?thesis by (intro exI [of _ b] exI [of _ xs']) simp
  qed
qed

lemma walk_body_spec:
  assumes d: "drv_inv (in_use d) d" "lists_inv d xs (e # ys)" and e: "spares (ops e) (set ys)"
  shows "\<exists>d' xs'. walk_body cls (script_handler cls ops) (ready_linker e) d = Inr d' \<and> drv_inv (in_use d') d' \<and>
    lists_inv d' xs' ys \<and> called d' = called d @ filter (\<lambda>x. active (ev_link d x)) [e] \<and>
    (\<forall>x \<in> set ys. same_evt (ev_link d x) (ev_link d' x))"
proof -
  have e_ys: "e \<notin> set ys" and e_xs: "e \<notin> set xs"
    using ready_heap_distinct [of "ready_links d" xs "e # ys"] d(2) by (auto simp: lists_inv_def ready_heap_def)
  from ready_del_local [of "ready_links d" xs e ys] d(2) obtain h where
    h: "yf_list_del (ready_links d) (ready_linker e) = Inr h" "ready_heap h xs ys" by (auto simp: lists_inv_def)
  let ?a = "d\<lparr> ready_links := h \<rparr>"
  let ?b = "if timeset (ev_link ?a e)
    then map_link e (\<lambda>l. l\<lparr> timeset := False \<rparr>) (yf_fd_evt_timer_ctl e FD_TIMER_DEL 0 ?a) else ?a"
  note D = base_invD [OF drv_invD(1) [OF d(1)]]
  have "drv_inv (in_use d) ?b" by (rule drv_inv_upd [OF d(1)]) (use D in \<open>auto simp: timer_ctl_simps split: if_splits\<close>)
  moreover have "in_use ?b = in_use d" by (simp add: timer_ctl_simps fun_eq_iff)
  ultimately have b: "drv_inv (in_use ?b) ?b" by (simp only:)
  have bl: "lists_inv ?b xs ys" using h(2) d(2) e_xs by (auto simp: lists_inv_def timer_ctl_simps)
  have bs: "same_evt (ev_link d x) (ev_link ?b x)" if "x \<in> set ys" for x
    using that e_ys by (auto simp: timer_ctl_simps)
  have bc: "called ?b = called d" "active (ev_link ?b e) = active (ev_link d e)" by (simp_all add: timer_ctl_simps)
  have run: "walk_body cls (script_handler cls ops) (ready_linker e) d =
    (if \<not> active (ev_link ?b e) then Inr ?b else call_handler cls (script_handler cls ops) e ?b)"
    using h(1) by (simp add: walk_body_def Let_def)
  show ?thesis
  proof (cases "active (ev_link d e)")
    case False
    then have "walk_body cls (script_handler cls ops) (ready_linker e) d = Inr ?b" using run bc(2) by simp
    with b bl bs bc(1) False show ?thesis by (intro exI [of _ ?b] exI [of _ xs]) simp
  next
    case True
    from call_handler_spec [where ops = ops, OF b bl e_ys e] obtain c xs' where c:
      "call_handler cls (script_handler cls ops) e ?b = Inr c" "drv_inv (in_use c) c" "lists_inv c xs' ys"
      "called c = called ?b @ [e]" "\<forall>x \<in> set ys. same_evt (ev_link ?b x) (ev_link c x)" by blast
    have "walk_body cls (script_handler cls ops) (ready_linker e) d = Inr c" using run bc(2) True c(1) by simp
    moreover have "\<forall>x \<in> set ys. same_evt (ev_link d x) (ev_link c x)" using bs c(5) same_evt_trans by blast
    ultimately show ?thesis using c(2-4) bc(1) True by (intro exI [of _ c] exI [of _ xs']) simp
  qed
qed

lemma ready_walk_spec:
  assumes "drv_inv (in_use d) d" "lists_inv d xs ys" "\<And>us e vs. ys = us @ e # vs \<Longrightarrow> spares (ops e) (set vs)"
  shows "\<exists>d' xs'. ready_walk cls (script_handler cls ops) (hd (map ready_linker ys @ [LOCAL_READY]))
      (dnext (ready_links d) (hd (map ready_linker ys @ [LOCAL_READY]))) d = Some (Inr d') \<and>
    drv_inv (in_use d') d' \<and> lists_inv d' xs' [] \<and> called d' = called d @ filter (\<lambda>e. active (ev_link d e)) ys"
  using assms
proof (induction ys arbitrary: d xs)
  case Nil
  then show ?case by (auto simp: ready_walk.simps)
next
  case (Cons e ys)
  let ?H = "script_handler cls ops" and ?p = "hd (map ready_linker ys @ [LOCAL_READY])"
  have "ring (ready_links d) LOCAL_READY (map ready_linker (e # ys))" using Cons.prems(2) by (simp add: lists_inv_def ready_heap_def)
  then have "dpath (ready_links d) (ready_linker e) (map ready_linker ys) LOCAL_READY" by (simp add: ring_def)
  then have keep: "dnext (ready_links d) (ready_linker e) = ?p" using dpath_first by blast
  have "spares (ops e) (set ys)" using Cons.prems(3) [of "[]" e ys] by simp
  from walk_body_spec [where ops = ops, OF Cons.prems(1,2) this] obtain b xs1 where b:
    "walk_body cls ?H (ready_linker e) d = Inr b" "drv_inv (in_use b) b" "lists_inv b xs1 ys"
    "called b = called d @ filter (\<lambda>x. active (ev_link d x)) [e]" "\<forall>x \<in> set ys. same_evt (ev_link d x) (ev_link b x)" by blast
  have "spares (ops x) (set vs)" if "ys = us @ x # vs" for us x vs using Cons.prems(3) [of "e # us" x vs] that by simp
  from Cons.IH [OF b(2,3)] this obtain d' xs' where d': "ready_walk cls ?H ?p (dnext (ready_links b) ?p) b = Some (Inr d')"
    "drv_inv (in_use d') d'" "lists_inv d' xs' []" "called d' = called b @ filter (\<lambda>e. active (ev_link b e)) ys" by blast
  have nz: "?p \<noteq> 0" by (cases ys) simp_all
  have "ready_walk cls ?H (ready_linker e) ?p d = ready_walk cls ?H ?p (dnext (ready_links b) ?p) b"
    using b(1) nz by (subst ready_walk.simps) (simp add: d_next_def)
  moreover have "filter (\<lambda>e. active (ev_link b e)) ys = filter (\<lambda>e. active (ev_link d e)) ys"
    using b(5) by (intro filter_cong) (simp_all add: same_evt_def)
  ultimately show ?case using d' b(4) keep by (intro exI [of _ d'] exI [of _ xs']) simp
qed

lemma handle_ready_spec:
  assumes d: "drv_inv (in_use d) d" "ready_heap (ready_links d) xs []" and h: "\<And>us e vs. xs = us @ e # vs \<Longrightarrow> spares (ops e) (set vs)"
  shows "\<exists>d' xs'. handle_ready cls (script_handler cls ops) d = Some (Inr d') \<and> drv_inv (in_use d') d' \<and>
    lists_inv d' xs' [] \<and> called d' = called d @ filter (\<lambda>e. active (ev_link d e)) xs"
proof -
  from ready_splice [OF d(2)] obtain lh where lh: "yf_list_splice (ready_links d) READY_LIST LOCAL_READY = Inr lh" "ready_heap lh [] xs" by blast
  let ?a = "d\<lparr> ready_links := lh \<rparr>" and ?p = "hd (map ready_linker xs @ [LOCAL_READY])"
  have "dpath lh LOCAL_READY (map ready_linker xs) LOCAL_READY" using lh(2) by (simp add: ready_heap_def ring_def)
  then have p: "dnext lh LOCAL_READY = ?p" using dpath_first by blast
  have nz: "?p \<noteq> 0" by (cases xs) simp_all
  have run: "handle_ready cls (script_handler cls ops) d = ready_walk cls (script_handler cls ops) ?p (dnext (ready_links ?a) ?p) ?a"
    using lh(1) p nz by (simp add: handle_ready_def d_next_def)
  have "drv_inv (in_use d) ?a" by (rule drv_inv_upd [OF d(1)]) (use base_invD [OF drv_invD(1) [OF d(1)]] in auto)
  then have "drv_inv (in_use ?a) ?a" by simp
  moreover have "lists_inv ?a [] xs" using lh(2) by (simp add: lists_inv_def)
  ultimately have "\<exists>d' xs'. ready_walk cls (script_handler cls ops) ?p (dnext (ready_links ?a) ?p) ?a = Some (Inr d') \<and>
    drv_inv (in_use d') d' \<and> lists_inv d' xs' [] \<and> called d' = called ?a @ filter (\<lambda>e. active (ev_link ?a e)) xs"
    by (rule ready_walk_spec [where ops = ops]) (rule h)
  with run show ?thesis by simp
qed

text \<open>A turn calls the handler of every active event that is ready or reported exactly once.\<close>

lemma fd_turn_spec:
  assumes d: "drv_inv (in_use d) d" "ready_heap (ready_links d) xs []" and k: "answers d k"
    and h: "\<And>e. e \<in> set xs \<union> set (reports d k) \<Longrightarrow> spares (ops e) (set xs \<union> set (reports d k) - {e})"
  shows "\<exists>d' xs' hs. fd_turn cls (script_handler cls ops) k d = Some (Inr d') \<and> drv_inv (in_use d') d' \<and>
    lists_inv d' xs' [] \<and> called d' = called d @ hs \<and> distinct hs \<and>
    set hs = {e \<in> set xs \<union> set (reports d k). active (ev_link d e)}"
proof -
  from dispatch [OF drv_invD(2,3) [OF d(1)] k] obtain r p where
    p: "act_dispatch cls k d = run_bind (marks (reports d k) (d\<lparr> agen_data := p \<rparr>)) (\<lambda>d'. Inr (r, d'))"
      "watch_ok p (evts_capcity d) (watch d)" by blast
  let ?a = "d\<lparr> agen_data := p \<rparr>"
  have "base_inv (in_use ?a) ?a" using drv_invD(1) [OF d(1)] by (simp add: base_inv_def)
  then have a: "drv_inv (in_use ?a) ?a" using p(2) by (simp add: drv_inv_def)
  from marks_spec [OF a, of xs "reports d k"] d(2) obtain b ys where b: "marks (reports d k) ?a = Inr b" "drv_inv (in_use b) b"
    "ready_heap (ready_links b) ys []" "set ys = set xs \<union> set (reports d k)" "in_use b = in_use ?a" "called b = called ?a"
    "\<And>e. active (ev_link b e) = active (ev_link ?a e)" by auto
  let ?b = "b\<lparr> active_op_index := active_op_index b + 1 \<rparr>"
  have "base_inv (in_use ?b) ?b" using drv_invD(1) [OF b(2)] by (simp add: base_inv_def)
  then have b': "drv_inv (in_use ?b) ?b" "ready_heap (ready_links ?b) ys []" using drv_invD(3) [OF b(2)] b(3) by (simp_all add: drv_inv_def)
  have dist: "distinct ys" using ready_heap_distinct [OF b(3)] by blast
  have spare: "spares (ops e) (set vs)" if "ys = us @ e # vs" for us e vs
  proof -
    have "set vs \<subseteq> set ys - {e}" "e \<in> set ys" using dist that by auto
    with h [of e] show ?thesis unfolding spares_def b(4) by blast
  qed
  have "\<exists>d' xs'. handle_ready cls (script_handler cls ops) ?b = Some (Inr d') \<and> drv_inv (in_use d') d' \<and>
    lists_inv d' xs' [] \<and> called d' = called ?b @ filter (\<lambda>e. active (ev_link ?b e)) ys"
    by (rule handle_ready_spec [where ops = ops, OF b']) (rule spare)
  then obtain d' xs' where d': "handle_ready cls (script_handler cls ops) ?b = Some (Inr d')"
    "drv_inv (in_use d') d'" "lists_inv d' xs' []" "called d' = called ?b @ filter (\<lambda>e. active (ev_link ?b e)) ys" by blast
  let ?hs = "filter (\<lambda>e. active (ev_link d e)) ys"
  have "fd_turn cls (script_handler cls ops) k d = Some (Inr d')" using p(1) b(1) d'(1) by (simp add: fd_turn_def)
  moreover have "called d' = called d @ ?hs" using d'(4) b(6,7) by simp
  moreover have "distinct ?hs" "set ?hs = {e \<in> set xs \<union> set (reports d k). active (ev_link d e)}" using dist b(4) by auto
  ultimately show ?thesis using d'(2,3) by blast
qed

lemma fd_evt_timeout_spec:
  assumes d: "drv_inv (in_use d) d" "lists_inv d xs []" and e: "timers d e \<noteq> None"
  shows "\<exists>d' xs'. fd_evt_timeout cls (script_handler cls ops) e d = Inr d' \<and> drv_inv (in_use d') d' \<and>
    lists_inv d' xs' [] \<and> called d' = called d @ [e]"
proof -
  note D = base_invD [OF drv_invD(1) [OF d(1)]]
  have act: "active (ev_link d e)" using D(4,5) [of e] e by simp
  let ?a = "map_link e (\<lambda>l. l\<lparr> timeset := False, timeout := True \<rparr>) (d\<lparr> timers := (timers d)(e := None) \<rparr>)"
  have "drv_inv (in_use d) ?a" by (rule drv_inv_upd [OF d(1)]) (use D in \<open>auto split: if_splits\<close>)
  then have a: "drv_inv (in_use ?a) ?a" by simp
  have al: "lists_inv ?a xs []" using d(2) by (auto simp: lists_inv_def)
  from call_handler_spec [where ops = ops, OF a al, of e] obtain d' xs' where
    "call_handler cls (script_handler cls ops) e ?a = Inr d'" "drv_inv (in_use d') d'" "lists_inv d' xs' []"
    "called d' = called ?a @ [e]" by (auto simp: spares_def)
  with act show ?thesis by (simp add: fd_evt_timeout_def Let_def) blast
qed

end

end
