(* ===== verification/Evt_Driver.thy ===== *)
theory Evt_Driver
  imports Evt_Loop Fd_Epoll Fd_Poll Fd_Select
begin

section \<open>Runs of the event driver\<close>

text \<open>
  A driver from its creation on: the loop started, calls of its operations, turns and expired timers in
  any order, with each of the three pollers.
\<close>

definition started :: "(nat \<Rightarrow> 'p option) \<Rightarrow> nat \<Rightarrow> nat \<Rightarrow> int \<Rightarrow> 'p fd_driver \<Rightarrow> bool" where
  "started init cls_num capacity poll_type d \<longleftrightarrow>
     (\<exists>d0. yf_init_fd_driver True init cls_num capacity poll_type = Inr (Some d0) \<and> evt_loop_start d0 = Inr d)"

text \<open>No handler touches another event that waits for its handler in the same turn.\<close>

definition handlers_spare :: "(evt \<Rightarrow> (fd_op \<times> bool) list) \<Rightarrow> evt set \<Rightarrow> bool" where
  "handlers_spare ops E \<longleftrightarrow> (\<forall>e \<in> E. spares (ops e) (E - {e}))"

inductive evt_reach ::
    "('p, 'k) fd_poll_actions \<Rightarrow> ('p fd_driver \<Rightarrow> 'k \<Rightarrow> bool) \<Rightarrow> ('p fd_driver \<Rightarrow> 'k \<Rightarrow> evt list) \<Rightarrow> 'p fd_driver \<Rightarrow> 'p fd_driver \<Rightarrow> bool"
  for cls answers reports d0 where
  reach_start: "evt_reach cls answers reports d0 d0"
| reach_ops: "evt_reach cls answers reports d0 d \<Longrightarrow> fd_ops_run cls ops d = Inr d' \<Longrightarrow> evt_reach cls answers reports d0 d'"
| reach_turn: "evt_reach cls answers reports d0 d \<Longrightarrow> answers d k \<Longrightarrow> ready_heap (ready_links d) xs [] \<Longrightarrow>
    handlers_spare ops (set xs \<union> set (reports d k)) \<Longrightarrow> fd_turn cls (script_handler cls ops) k d = Some (Inr d') \<Longrightarrow>
    evt_reach cls answers reports d0 d'"
| reach_timeout: "evt_reach cls answers reports d0 d \<Longrightarrow> timers d e \<noteq> None \<Longrightarrow>
    fd_evt_timeout cls (script_handler cls ops) e d = Inr d' \<Longrightarrow> evt_reach cls answers reports d0 d'"

text \<open>
  What a driver that is reached does: operations return; a turn returns and calls, once each, the handlers of the
  active events that were on the ready list or are reported; the handler of an expired timer is called.
\<close>

definition driver_serves ::
    "('p, 'k) fd_poll_actions \<Rightarrow> ('p fd_driver \<Rightarrow> 'k \<Rightarrow> bool) \<Rightarrow> ('p fd_driver \<Rightarrow> 'k \<Rightarrow> evt list) \<Rightarrow> 'p fd_driver \<Rightarrow> bool" where
  "driver_serves cls answers reports d \<longleftrightarrow>
     (\<forall>ops. \<exists>d'. fd_ops_run cls ops d = Inr d') \<and>
     (\<exists>xs. ready_heap (ready_links d) xs [] \<and> (\<forall>e \<in> set xs. active (ev_link d e)) \<and>
       (\<forall>k ops. answers d k \<and> handlers_spare ops (set xs \<union> set (reports d k)) \<longrightarrow>
         (\<exists>d' hs. fd_turn cls (script_handler cls ops) k d = Some (Inr d') \<and> called d' = called d @ hs \<and> distinct hs \<and>
            set hs = {e \<in> set xs \<union> set (reports d k). active (ev_link d e)}))) \<and>
     (\<forall>e ops. timers d e \<noteq> None \<longrightarrow>
       (\<exists>d'. fd_evt_timeout cls (script_handler cls ops) e d = Inr d' \<and> called d' = called d @ [e]))"

context fd_poller begin

definition evt_inv :: "'p fd_driver \<Rightarrow> bool" where
  "evt_inv d \<longleftrightarrow> drv_inv (in_use d) d \<and> (\<exists>xs. lists_inv d xs [])"

lemma evt_inv_reach:
  assumes "evt_reach cls answers reports d0 d" "evt_inv d0"
  shows "evt_inv d"
  using assms
proof induction
  case reach_start
  then show ?case by simp
next
  case (reach_ops d ops d')
  then obtain xs where d: "drv_inv (in_use d) d" "lists_inv d xs []" by (auto simp: evt_inv_def)
  from fd_ops_spec [OF d, of ops] reach_ops(2) show ?case by (auto simp: evt_inv_def)
next
  case (reach_turn d k xs ops d')
  then obtain xs' where d: "drv_inv (in_use d) d" "lists_inv d xs' []" by (auto simp: evt_inv_def)
  from fd_turn_spec [where ops = ops, OF d(1) reach_turn.hyps(3,2)] reach_turn.hyps(4,5)
  show ?case by (auto simp: evt_inv_def handlers_spare_def)
next
  case (reach_timeout d e ops d')
  then obtain xs where d: "drv_inv (in_use d) d" "lists_inv d xs []" by (auto simp: evt_inv_def)
  from fd_evt_timeout_spec [where ops = ops, OF d reach_timeout.hyps(2)] reach_timeout.hyps(3) show ?case by (auto simp: evt_inv_def)
qed

lemma evt_inv_serves:
  assumes "evt_inv d"
  shows "driver_serves cls answers reports d"
proof -
  obtain xs where d: "drv_inv (in_use d) d" "lists_inv d xs []" using assms by (auto simp: evt_inv_def)
  then have xs: "ready_heap (ready_links d) xs []" "\<forall>e \<in> set xs. active (ev_link d e)" by (simp_all add: lists_inv_def)
  have ops: "\<exists>d'. fd_ops_run cls ops d = Inr d'" for ops using fd_ops_spec [OF d, of ops] by auto
  have turn: "\<exists>d' hs. fd_turn cls (script_handler cls ops) k d = Some (Inr d') \<and> called d' = called d @ hs \<and> distinct hs \<and>
      set hs = {e \<in> set xs \<union> set (reports d k). active (ev_link d e)}"
    if "answers d k" "handlers_spare ops (set xs \<union> set (reports d k))" for k ops
  proof -
    have "\<And>e. e \<in> set xs \<union> set (reports d k) \<Longrightarrow> spares (ops e) (set xs \<union> set (reports d k) - {e})"
      using that(2) by (simp add: handlers_spare_def)
    from fd_turn_spec [where ops = ops, OF d(1) xs(1) that(1) this] show ?thesis by blast
  qed
  have tm: "\<exists>d'. fd_evt_timeout cls (script_handler cls ops) e d = Inr d' \<and> called d' = called d @ [e]"
    if "timers d e \<noteq> None" for e ops
    using fd_evt_timeout_spec [where ops = ops, OF d that] by blast
  show ?thesis unfolding driver_serves_def using ops xs turn tm by blast
qed

lemma evt_inv_started:
  assumes "started init n capacity poll_type d" "capacity \<le> 2 ^ 31"
    and "\<And>t p. init t = Some p \<Longrightarrow> watch_ok p capacity (\<lambda>_. None)"
  shows "evt_inv d"
proof -
  have tried: "watch_ok p capacity (\<lambda>_. None)" if "try_poll init pt t = Some p" for pt t p
    using that by (induction t) (auto intro: assms(3) split: option.splits if_splits)
  let ?z = "\<lambda>d0. d0\<lparr> ready_links := \<lparr> dnext = (dnext (ready_links d0))(LOCAL_READY := LOCAL_READY),
    dprev = (dprev (ready_links d0))(LOCAL_READY := LOCAL_READY) \<rparr> \<rparr>"
  obtain d0 where d0: "yf_init_fd_driver True init n capacity poll_type = Inr (Some d0)" "evt_loop_start d0 = Inr d"
    using assms(1) by (auto simp: started_def)
  let ?h = "\<lparr> dnext = (\<lambda>p. 0)(READY_LIST := READY_LIST), dprev = (\<lambda>p. 0)(READY_LIST := READY_LIST) \<rparr>"
  let ?s = "\<lparr> use_flag = False, rd_link = zero_link, wr_link = zero_link \<rparr>"
  have nz: "READY_LIST \<noteq> 0" "LOCAL_READY \<noteq> 0" "ALL_LIST \<noteq> 0" "READY_LIST \<noteq> LOCAL_READY" "ALL_LIST = READY_LIST"
    by (simp_all add: READY_LIST_def LOCAL_READY_def ALL_LIST_def)
  obtain p where p: "watch_ok p capacity (\<lambda>_. None)"
    "d0 = \<lparr> pevents = (\<lambda>_. ?s), all_links = ?h, ready_links = ?h, active_op_index = 0, evts_capcity = capacity, evts_num = 0,
       timers = Map.empty, called = [], agen_data = p \<rparr>"
    using d0(1) assms(3) nz
    by (auto simp: yf_init_fd_driver_def yf_init_list_head_def set_next_def set_prev_def zero_links_def split: if_splits option.splits intro: tried)
  have d: "d = ?z d0"
    using d0(2) nz by (cases "ready_links d0") (auto simp: evt_loop_start_def yf_init_list_head_def set_next_def set_prev_def)
  have L: "ev_link d e = zero_link" "watch d = (\<lambda>_. None)" "\<not> in_use d m" "agen_data d = p" "evts_capcity d = capacity"
      "timers d e = None" "dprev (all_links d) READY_LIST = READY_LIST" for e m
    unfolding d p(2) by (auto simp: ev_link_def watch_def fun_eq_iff zero_link_def nz split: evt_half.splits prod.splits)
  have z: "\<not> polled zero_link" "\<not> active zero_link" "\<not> timeset zero_link" by (simp_all add: zero_link_def)
  have "base_inv (in_use d) d"
    by (rule base_invI) (use assms(2) in \<open>simp_all add: L z nz\<close>)
  then have "drv_inv (in_use d) d" using p(1) L by (simp add: drv_inv_def)
  moreover have "lists_inv d [] []"
    unfolding d p(2) lists_inv_def ready_heap_def ring_def using nz by simp
  ultimately show ?thesis by (auto simp: evt_inv_def)
qed

end

text \<open>The table of pollers of \<^verbatim>\<open>yf_poll_in.c\<close> where one poller is compiled in.\<close>

definition YF_POLL_BY_DETECT :: int where "YF_POLL_BY_DETECT = 0"
definition YF_POLL_BY_SELECT :: nat where "YF_POLL_BY_SELECT = 1"
definition YF_POLL_BY_POLL :: nat where "YF_POLL_BY_POLL = 2"
definition YF_POLL_BY_EPOLL :: nat where "YF_POLL_BY_EPOLL = 3"
definition yf_fd_poller_cls_num :: nat where "yf_fd_poller_cls_num = 4"

definition only_poller :: "nat \<Rightarrow> 'p option \<Rightarrow> nat \<Rightarrow> 'p option" where
  "only_poller t p t' = (if t' = t then p else None)"

definition poller_serves :: "('p, 'k) fd_poll_actions \<Rightarrow> ('p fd_driver \<Rightarrow> 'k \<Rightarrow> bool) \<Rightarrow> ('p fd_driver \<Rightarrow> 'k \<Rightarrow> evt list) \<Rightarrow>
    (nat \<Rightarrow> 'p option) \<Rightarrow> nat \<Rightarrow> bool" where
  "poller_serves cls answers reports init cap \<longleftrightarrow>
     (\<forall>poll_type d0 d. started init yf_fd_poller_cls_num cap poll_type d0 \<and> evt_reach cls answers reports d0 d \<longrightarrow>
       driver_serves cls answers reports d)"

text \<open>The driver and its poller agree: events of slots in use, timers of active events, the ready list.\<close>

definition poller_keeps :: "('p, 'k) fd_poll_actions \<Rightarrow> ('p fd_driver \<Rightarrow> 'k \<Rightarrow> bool) \<Rightarrow> ('p fd_driver \<Rightarrow> 'k \<Rightarrow> evt list) \<Rightarrow>
    ('p \<Rightarrow> nat \<Rightarrow> (evt \<Rightarrow> nat option) \<Rightarrow> bool) \<Rightarrow> (nat \<Rightarrow> 'p option) \<Rightarrow> nat \<Rightarrow> bool" where
  "poller_keeps cls answers reports watch_ok init cap \<longleftrightarrow>
     (\<forall>poll_type d0 d. started init yf_fd_poller_cls_num cap poll_type d0 \<and> evt_reach cls answers reports d0 d \<longrightarrow>
       base_inv (in_use d) d \<and> (\<exists>xs. lists_inv d xs []) \<and> watch_ok (agen_data d) (evts_capcity d) (watch d))"

context fd_poller begin

lemma poller_serves_if:
  assumes "\<And>ty d0 d. started init yf_fd_poller_cls_num cap ty d0 \<Longrightarrow> evt_reach cls answers reports d0 d \<Longrightarrow> evt_inv d"
  shows "poller_serves cls answers reports init cap"
  unfolding poller_serves_def using evt_inv_serves [OF assms] by blast

lemma poller_keeps_if:
  assumes "\<And>ty d0 d. started init yf_fd_poller_cls_num cap ty d0 \<Longrightarrow> evt_reach cls answers reports d0 d \<Longrightarrow> evt_inv d"
  shows "poller_keeps cls answers reports watch_ok init cap"
  unfolding poller_keeps_def using assms unfolding evt_inv_def drv_inv_def by blast

end

lemma epoll_init_ok: "only_poller t (yf_epoll_init a c n) u = Some p \<Longrightarrow> epoll_watch_ok p n (\<lambda>_. None)"
  by (auto simp: yf_epoll_init_def epoll_watch_ok_def only_poller_def split: if_splits)

lemma poll_init_ok: "n \<le> 2 ^ 31 \<Longrightarrow> only_poller t (yf_poll_init a n) u = Some p \<Longrightarrow> poll_watch_ok p n (\<lambda>_. None)"
  by (auto simp: yf_poll_init_def poll_watch_ok_def poll_list_def only_poller_def split: if_splits)

lemma select_init_ok: "n \<le> 1024 \<Longrightarrow> only_poller t (yf_select_init a n) u = Some p \<Longrightarrow> select_watch_ok p n (\<lambda>_. None)"
  by (auto simp: yf_select_init_def select_watch_ok_def sel_list_def only_poller_def split: if_splits)

lemma epoll_inv_reach:
  assumes "started (only_poller t (yf_epoll_init a c cap)) n cap ty d0" "cap \<le> 2 ^ 31"
    and "evt_reach yf_fd_epoll_poller_cls epoll_answers epoll_reports d0 d"
  shows "epoll.evt_inv d"
  by (rule epoll.evt_inv_reach [OF assms(3) epoll.evt_inv_started [OF assms(1,2) epoll_init_ok]])

lemma poll_inv_reach:
  assumes "started (only_poller t (yf_poll_init a cap)) n cap ty d0" "cap \<le> 2 ^ 31"
    and "evt_reach yf_fd_poll_poller_cls poll_answers poll_reports d0 d"
  shows "poll.evt_inv d"
  by (rule poll.evt_inv_reach [OF assms(3) poll.evt_inv_started [OF assms(1,2) poll_init_ok [OF assms(2)]]])

lemma select_inv_reach:
  assumes "started (only_poller t (yf_select_init a cap)) n cap ty d0" "cap \<le> 1024"
    and "evt_reach yf_fd_select_poller_cls select_answers select_reports d0 d"
  shows "select.evt_inv d"
proof -
  have "cap \<le> 2 ^ 31" using assms(2) by simp
  from select.evt_inv_reach [OF assms(3) select.evt_inv_started [OF assms(1) this select_init_ok [OF assms(2)]]]
  show ?thesis .
qed

lemmas start_simps = started_def yf_init_fd_driver_def evt_loop_start_def yf_init_list_head_def set_next_def set_prev_def
  only_poller_def yf_fd_poller_cls_num_def YF_POLL_BY_DETECT_def YF_POLL_BY_SELECT_def YF_POLL_BY_POLL_def YF_POLL_BY_EPOLL_def
  yf_epoll_init_def yf_poll_init_def yf_select_init_def READY_LIST_def LOCAL_READY_def ALL_LIST_def

subsection \<open>Properties\<close>





end
