(* ===== verification/Evt_Faults.thy ===== *)
theory Evt_Faults
  imports Evt_Driver
begin

section \<open>Handlers that touch pending events, and events that are lost\<close>

text \<open>
  What happens where the condition on handlers in theory Evt_Driver does not hold, and an event that no poller watches any
  more although it is active.
\<close>

definition started_with :: "'p \<Rightarrow> nat \<Rightarrow> nat \<Rightarrow> 'p fd_driver run" where
  "started_with p t cap =
     run_bind (yf_init_fd_driver True (only_poller t (Some p)) yf_fd_poller_cls_num cap YF_POLL_BY_DETECT) (\<lambda>r.
     case r of None \<Rightarrow> Inl Assert_failed | Some d \<Rightarrow> evt_loop_start d)"

text \<open>Two events are registered and reported by epoll; the handler of the first one performs \<open>ops\<close>.\<close>

definition first_handler :: "(fd_op \<times> bool) list \<Rightarrow> evt list run option" where
  "first_handler ops =
     (case run_bind (started_with \<lparr> nfds = 0, maxfds = 8, interest = Map.empty \<rparr> YF_POLL_BY_EPOLL 8)
         (fd_ops_run yf_fd_epoll_poller_cls
           [(Alloc 5, True), (Alloc 6, True), (Register (5, Revt) None, True), (Register (6, Revt) None, True)]) of
       Inl e \<Rightarrow> Some (Inl e)
     | Inr d \<Rightarrow> map_option (\<lambda>r. run_bind r (\<lambda>d. Inr (called d)))
         (fd_turn yf_fd_epoll_poller_cls (script_handler yf_fd_epoll_poller_cls (\<lambda>e. if e = (5, Revt) then ops else []))
           (Some [(EPOLLIN, 5), (EPOLLIN, 6)]) d))"

lemma try_poll_table:
  "try_poll init ty 3 = (case init 3 of Some p \<Rightarrow> Some p | None \<Rightarrow> if ty = 0 then try_poll init ty 2 else None)"
  "try_poll init ty 2 = (case init 2 of Some p \<Rightarrow> Some p | None \<Rightarrow> if ty = 0 then try_poll init ty 1 else None)"
proof -
  have "3 = Suc 2" "2 = Suc 1" by simp_all
  then show "try_poll init ty 3 = (case init 3 of Some p \<Rightarrow> Some p | None \<Rightarrow> if ty = 0 then try_poll init ty 2 else None)"
    "try_poll init ty 2 = (case init 2 of Some p \<Rightarrow> Some p | None \<Rightarrow> if ty = 0 then try_poll init ty 1 else None)"
    by (metis try_poll.simps(2))+
qed

lemmas list_eval = yf_init_list_head_def yf_list_add_tail_def yf_list_insert_before_def yf_list_del_def yf_list_move_tail_def
  yf_list_move_head_def yf_list_splice_def list_splice_def list_add_def set_next_def set_prev_def d_next_def d_prev_def unlink_def
  list_del_def yf_list_empty_def yf_list_add_head_def yf_list_insert_after_def zero_links_def

lemmas driver_eval = started_with_def start_simps try_poll_table yf_alloc_fd_evt_def fd_slot_def all_linker_def ready_linker_def
  link_evt_def call_action_def fresh_link_def zero_link_def yf_register_fd_evt_def map_link_def ev_link_def activated_def
  YF_INVALID_INDEX_def yf_unregister_fd_evt_def yf_free_fd_evt_def yf_fd_evt_timer_ctl_def FD_TIMER_NEW_def FD_TIMER_DEL_def use_slot_def

lemmas turn_eval = fd_turn_def mark_ready_def handle_ready_def ready_walk.simps walk_body_def call_handler_def oneshot_def
  script_handler_def

lemmas epoll_eval = yf_fd_epoll_poller_cls_def yf_epoll_activate_def epoll_ctl_def epoll_masks yf_epoll_dispatch_def epoll_wait_def
  widen_def yf_epoll_del_def


subsection \<open>An event that is lost\<close>

fun fd_turns :: "('p, 'k) fd_poll_actions \<Rightarrow> 'p evt_handler \<Rightarrow> 'k list \<Rightarrow> 'p fd_driver \<Rightarrow> 'p fd_driver run option" where
  "fd_turns cls h [] d = Some (Inr d)"
| "fd_turns cls h (k # ks) d = (case fd_turn cls h k d of Some (Inr d) \<Rightarrow> fd_turns cls h ks d | r \<Rightarrow> r)"

text \<open>
  The handler reads a part and returns; the event is registered again; its handler reads until the call would block
  and registers the event again with a time limit.
\<close>

definition lost_run :: "poll_ctx fd_driver run option" where
  "lost_run =
     (case run_bind (started_with \<lparr> nevents = 0, event_list = replicate 8 \<lparr> pfd = 0, events = 0, revents = 0 \<rparr> \<rparr> YF_POLL_BY_POLL 8)
         (fd_ops_run yf_fd_poll_poller_cls [(Alloc 5, True), (Register (5, Revt) None, True)]) of
       Inl e \<Rightarrow> Some (Inl e)
     | Inr d \<Rightarrow>
         (case fd_turn yf_fd_poll_poller_cls (script_handler yf_fd_poll_poller_cls (\<lambda>e. [])) (Some [POLLIN]) d of
           Some (Inr d) \<Rightarrow>
             (case fd_ops_run yf_fd_poll_poller_cls [(Register (5, Revt) None, True)] d of
               Inl e \<Rightarrow> Some (Inl e)
             | Inr d \<Rightarrow> fd_turn yf_fd_poll_poller_cls
                 (script_handler yf_fd_poll_poller_cls (\<lambda>e. [(Drained e, True), (Register e (Some 500), True)])) (Some []) d)
         | r \<Rightarrow> r))"

lemmas poll_eval = yf_fd_poll_poller_cls_def yf_poll_activate_def poll_masks yf_poll_dispatch_def yf_poll_deactivate_def poll_event_def
  poll_widen_def poll_store_def poll_fill_def entry_upd_def

definition lost_state :: "evt \<Rightarrow> evt list \<Rightarrow> poll_ctx fd_driver \<Rightarrow> bool" where
  "lost_state e cs d \<longleftrightarrow> active (ev_link d e) \<and> \<not> polled (ev_link d e) \<and> timers d e = None \<and> called d = cs \<and>
     nevents (agen_data d) = 0 \<and> dnext (ready_links d) READY_LIST = READY_LIST \<and> dnext (ready_links d) LOCAL_READY = LOCAL_READY"

lemma replicate_8: "replicate 8 x = [x, x, x, x, x, x, x, x]"
  by (simp add: numeral_eq_Suc)

lemma lost_run_state: "\<exists>d. lost_run = Some (Inr d) \<and> lost_state (5, Revt) [(5, Revt), (5, Revt)] d"
  by (simp add: lost_run_def lost_state_def replicate_8 list_eval driver_eval turn_eval poll_eval Let_def
    cong: run_bind_weak option.case_cong_weak)

text \<open>A turn of a driver that watches nothing and has no ready event.\<close>

lemma lost_turn:
  assumes "lost_state e cs d" "k = None \<or> k = Some []"
  shows "\<exists>d'. fd_turn yf_fd_poll_poller_cls h k d = Some (Inr d') \<and> lost_state e cs d'"
proof -
  have nz: "0 < READY_LIST" "0 < LOCAL_READY" by (simp_all add: READY_LIST_def LOCAL_READY_def)
  let ?p = "case k of None \<Rightarrow> agen_data d | Some rs \<Rightarrow> poll_store rs (agen_data d)"
  let ?d = "d\<lparr> agen_data := ?p, active_op_index := active_op_index d + 1 \<rparr>"
  have "nevents ?p = nevents (agen_data d)" by (simp add: poll_store_def split: option.split)
  then have "lost_state e cs ?d" using assms(1) by (simp add: lost_state_def)
  moreover have "yf_poll_dispatch k d = Inr (YF_ERROR, d\<lparr> agen_data := ?p \<rparr>)"
    using assms(2) by (auto simp: yf_poll_dispatch_def Let_def)
  then have "fd_turn yf_fd_poll_poller_cls h k d = Some (Inr ?d)"
    using assms(1) nz
    by (simp add: fd_turn_def yf_fd_poll_poller_cls_def handle_ready_def yf_list_splice_def yf_list_empty_def d_next_def
      lost_state_def ready_walk.simps)
  ultimately show ?thesis by blast
qed

lemma lost_turns:
  assumes "lost_state e cs d" "list_all (\<lambda>k. k = None \<or> k = Some []) ks"
  shows "\<exists>d'. fd_turns yf_fd_poll_poller_cls h ks d = Some (Inr d') \<and> lost_state e cs d'"
  using assms
proof (induction ks arbitrary: d)
  case (Cons k ks)
  then obtain d1 where "fd_turn yf_fd_poll_poller_cls h k d = Some (Inr d1)" "lost_state e cs d1"
    using lost_turn [of e cs d k h] by auto
  with Cons.IH [of d1] Cons.prems(2) show ?case by simp
qed simp

lemma lost_answers:
  assumes "lost_state e cs d"
  shows "list_all (poll_answers d) ks = list_all (\<lambda>k. k = None \<or> k = Some []) ks"
proof -
  have "poll_answers d = (\<lambda>k. k = None \<or> k = Some [])"
  proof (rule ext)
    show "poll_answers d k = (k = None \<or> k = Some [])" for k
      using assms by (cases k) (auto simp: poll_answers_def lost_state_def)
  qed
  then show ?thesis by (rule arg_cong)
qed

text \<open>
  C40: With poll an event can be lost. After its handler was called while the event was still marked ready from an
  earlier turn and not watched, drained the descriptor and registered the event again with a time limit, the event is
  active, but it is neither watched nor on the ready list and has no timer: whatever
  the system answers and whatever other handlers do, no later turn calls its handler.
\<close>

theorem registered_event_lost:
  assumes "lost_run = Some (Inr d)" "list_all (poll_answers d) ks"
  shows "active (ev_link d (5, Revt)) \<and> \<not> polled (ev_link d (5, Revt)) \<and> timers d (5, Revt) = None \<and>
    (\<exists>d'. fd_turns yf_fd_poll_poller_cls h ks d = Some (Inr d') \<and> called d' = called d \<and> active (ev_link d' (5, Revt)))"
proof -
  have d: "lost_state (5, Revt) [(5, Revt), (5, Revt)] d" using lost_run_state assms(1) by (metis option.inject sum.inject(2))
  from lost_turns [OF d, of ks h] assms(2) lost_answers [OF d] show ?thesis using d by (auto simp: lost_state_def)
qed

theorem registered_event_lost_witness:
  "\<exists>d d'. lost_run = Some (Inr d) \<and> active (ev_link d (5, Revt)) \<and>
     fd_turns yf_fd_poll_poller_cls (\<lambda>e. Inr) [Some [], None, Some []] d = Some (Inr d') \<and> called d' = [(5, Revt), (5, Revt)]"
proof -
  obtain d where d: "lost_run = Some (Inr d)" "lost_state (5, Revt) [(5, Revt), (5, Revt)] d" using lost_run_state by blast
  have "list_all (poll_answers d) [Some [], None, Some []]" unfolding lost_answers [OF d(2)] by simp
  from registered_event_lost [OF d(1) this, of "\<lambda>e. Inr"] d show ?thesis by (auto simp: lost_state_def)
qed

end
