(* ===== verification/Spec2Isabelle.thy ===== *)
theory Spec2Isabelle
  imports Yf_Prelude Bit_Op Id_Seed Yf_List Mem_Pool Task_Queue Node_Pool Hn_Pool Yf_String Tm_Event Tm_Wheel Tm_Poll Bridge Bridge_Run Circular_Buf Circular_File
    Slab_Pool Bridge_Wait Fd_Event Fd_Poller Fd_Epoll Fd_Poll Fd_Select Evt_Loop Evt_Driver Evt_Faults
begin

section \<open>The yifei library\<close>

text \<open>
  Yifei is a library for network servers in C: base data structures on memory pools
  (\<^verbatim>\<open>src/src/base_struct\<close>), an event driver for descriptors and timers (\<^verbatim>\<open>src/src/mio_driver\<close>), a bridge
  over which an event-driven parent hands blocking tasks to child threads or processes
  (\<^verbatim>\<open>src/src/bridge\<close>), and a portability layer over the system (\<^verbatim>\<open>src/src/ppc\<close>). Paths below are relative to
  \<^verbatim>\<open>src/src\<close>.

  \<^bold>\<open>How the parts interact.\<close> Nearly every structure takes its memory from a pool (\<^verbatim>\<open>yf_mem_pool\<close>) and links its
  records with intrusive lists (\<^verbatim>\<open>yf_list.h\<close>). Records that are named from outside have ids from the seeds of
  \<^verbatim>\<open>yf_id_seed\<close>, used by \<^verbatim>\<open>yf_node_pool\<close>. The event driver keeps a slot for each descriptor, a table of actions for
  the poller in use, and the timer wheel; the loop of \<^verbatim>\<open>yf_event.c\<close> dispatches, walks over the ready events and then polls
  the timers. A bridge keeps the contexts of its tasks in a node pool whose ids are the ids of the
  tasks, sends tasks through a ring of bytes to the children, arms a timer for each, and gets results back
  through another ring.

  \<^bold>\<open>Conventions.\<close> A C integer is a word of its width where wrapping around matters, a natural number or
  integer where the code keeps it in range, with the range as a hypothesis or invariant. A pointer is a number
  and 0 is null; a structure that is linked in place is a heap of its link fields (theory Yf_List). An operation
  that can fail in a way C leaves undefined returns \<open>fault + result\<close>: null dereference, access out of
  bounds, failed assertion and the like are values, so that absence of faults is a statement. Return codes of the code
  (\<open>YF_OK\<close>, \<open>YF_ERROR\<close>, ...) are results. A loop whose end is not evident is \<open>partial_function (option)\<close>
  with \<open>None\<close> for a loop that never ends; that a call returns is then a theorem \<open>\<exists>y. f x = Some y\<close> or the
  equation for its result. No model has fuel; the other loops recurse on their data or by a measure. What the
  repository does not contain is a parameter: the C allocator and \<^verbatim>\<open>qsort\<close>, the
  clock, the answers of \<^verbatim>\<open>select\<close>, \<^verbatim>\<open>poll\<close> and \<^verbatim>\<open>epoll_wait\<close>, printing of doubles, and the callbacks of the user.
  Logging is left out, as it changes no state that is modelled.

  \<^bold>\<open>Base structures.\<close>
  \<^item> Yf_Prelude: return codes, words, the type \<open>run\<close> of results or faults with its bind, generic lemmas.
  \<^item> Bit_Op: \<^verbatim>\<open>yf_bit_op.h\<close>, \<^verbatim>\<open>yf_bit_op.c\<close>, the macro \<^verbatim>\<open>yf_bsearch\<close>. Results of alignment and of the bit tables, the
    search against sortedness, and where shifts leave the word.
  \<^item> Id_Seed: \<^verbatim>\<open>yf_id_seed.c\<close>. Groups take slices of shared counters; no id is given out twice until the
    counter rolls over, for any interleaving of groups.
  \<^item> Yf_List: \<^verbatim>\<open>yf_list.h\<close> on heaps of links. The locale \<open>linked_lists\<close> is the contract of a heap of rings and
    its interpretation \<open>dll\<close> shows that every sequence of operations implements the operations on sequences of
    nodes; traversals end and visit the nodes in order; the safe traversal of single lists faults.
  \<^item> Mem_Pool: \<^verbatim>\<open>yf_mem_pool.c\<close>. The invariant of a pool (locale \<open>arena\<close>): ranges in use are disjoint and inside the memory
    obtained; destruction frees everything once.
  \<^item> Slab_Pool: \<^verbatim>\<open>yf_slab_pool.c\<close> over Mem_Pool.
  \<^item> Node_Pool, Hn_Pool: \<^verbatim>\<open>yf_node_pool.c\<close>, single pools and pools that grow by chunks. The locale \<open>id_pool\<close> states what a
    bridge needs: an id names its node exactly while it is allocated.
  \<^item> Yf_String: \<^verbatim>\<open>yf_string.c\<close>, the formatter \<^verbatim>\<open>yf_vsnprintf\<close> included, which never writes past its buffer.
  \<^item> Circular_Buf, Circular_File: \<^verbatim>\<open>yf_circular_buf.c\<close>, and the locale \<open>seq_file\<close>: reads, writes, seeks and truncations give the
    results of a sequence of bytes with a position.

  \<^bold>\<open>Event driver.\<close>
  \<^item> Tm_Event, Tm_Wheel, Tm_Poll: \<^verbatim>\<open>event_in/yf_tm_event_in.c\<close>, the near wheel of 128 slots with its flag words, the far
    wheel and the list beyond. Tm_Wheel relates the near wheel to a set of countdowns; Tm_Poll has the locale \<open>countdown\<close>
    and the properties of the poll, with the sequences of calls on which it fails.
  \<^item> Fd_Event: \<^verbatim>\<open>event_in/yf_fd_event_in.c\<close>, slots, registration and cancelling of events, with the ready list on
    a heap.
  \<^item> Fd_Poller: the table of actions of \<^verbatim>\<open>event_in/yf_poll_in.h\<close> as the locale \<open>fd_poller\<close>, and the lemmas on the driver over any
    poller. Fd_Epoll, Fd_Poll and Fd_Select model \<^verbatim>\<open>fd_poller/\<close> and interpret the locale.
  \<^item> Evt_Loop: the turn of \<^verbatim>\<open>yf_evt_driver_start\<close> and the expiry of the timer of an event. Evt_Driver: all reachable states,
    with each poller. Evt_Faults: handlers that break the walk over the ready list, and an event that is lost.

  \<^bold>\<open>Bridge.\<close>
  \<^item> Task_Queue: \<^verbatim>\<open>bridge_in/yf_bridge_task.c\<close>, the ring of bytes; the locale \<open>fifo\<close> and its interpretation: any
    interleaving of pushes and pops is safe and in order.
  \<^item> Bridge, Bridge_Run: \<^verbatim>\<open>bridge_in/yf_bridge_in.c\<close>, one step for each function of parent and child, and the invariant of all
    runs: each accepted task is answered at most once, and its context, timer and counters agree.
  \<^item> Bridge_Wait: how children wait for tasks, as a relation on the steps of the threads: with a shared queue a
    wakeup can be lost, with a channel for each child it cannot.

  \<^bold>\<open>Properties.\<close> The properties of the manifest are the theorems preceded by an identifier \<open>C<n>\<close>; those with hypotheses
  are followed by a witness that applies them to concrete values. Several state what goes wrong: they are exact
  about the inputs, and the corresponding lines are listed as findings of the manifest.

  \<^bold>\<open>Not modelled.\<close> The portability layer (\<^verbatim>\<open>ppc/\<close>: processes, threads, signals, sockets, files, shared memory, time) and
  the log files, which consist of system calls; the creation of bridges as far as it creates processes, threads and channels;
  the waiting of a parent in the event loop; the events of signals and child processes, which read the system's
  state; sending and receiving on sockets and the chains of buffers for it (\<^verbatim>\<open>yf_send_recv.c\<close>, \<^verbatim>\<open>yf_buf.c\<close>), of
  which the event driver only needs that a drained event is no longer ready (\<open>Drained\<close> in Fd_Poller); the hash tables
  and arrays of \<^verbatim>\<open>base_struct\<close>, which no modelled part uses. Concurrency is modelled where the code relies on an order of
  steps (Id_Seed, Task_Queue, Bridge_Run, Bridge_Wait); locks make a section one step.
\<close>

end
